(* ===== verification/Lev_Prelude.thy ===== *)
theory Lev_Prelude
  imports
    Main
    "HOL-Library.Word"
    "HOL-Library.Char_ord"
    "HOL-Library.List_Lexorder"
    "HOL-Library.Sublist"
begin

text \<open>
  Shared ground of the development: the byte strings of the C++ sources (\<open>std::string\<close> is a
  sequence of bytes, here \<^typ>\<open>string\<close>, a list of 8-bit characters), the character classes of
  \<open><cctype>\<close> in the "C" locale, the decimal conversions \<open>std::to_string\<close> and \<open>std::atoi\<close>, the
  \<open>std::string\<close> searches the sources use, and list lemmas that several components share.

  \<open>atoi\<close> follows the C library the toolchain is built against: \<open>(int) strtol (s, 0, 10)\<close>, that is,
  leading white space and one sign are skipped, the digits are read up to the first other
  character, the value saturates at the bounds of a 64-bit \<open>long\<close> and its low 32 bits are kept.
\<close>

named_theorems char_class "characters and character classes"
named_theorems cursor_simps "how a scanning function acts on a known prefix"

section \<open>Characters\<close>

abbreviation NUL :: char where "NUL \<equiv> CHR 0x00"
abbreviation NL :: char where "NL \<equiv> CHR 0x0A"
abbreviation TAB :: char where "TAB \<equiv> CHR 0x09"
abbreviation CR :: char where "CR \<equiv> CHR 0x0D"
abbreviation DQUOTE :: char where "DQUOTE \<equiv> CHR 0x22"
abbreviation SQUOTE :: char where "SQUOTE \<equiv> CHR 0x27"
abbreviation BSLASH :: char where "BSLASH \<equiv> CHR 0x5C"
abbreviation BACKTICK :: char where "BACKTICK \<equiv> CHR 0x60"

definition isdigit :: "char \<Rightarrow> bool" where
  "isdigit c \<longleftrightarrow> CHR ''0'' \<le> c \<and> c \<le> CHR ''9''"

definition isalpha :: "char \<Rightarrow> bool" where
  "isalpha c \<longleftrightarrow> (CHR ''a'' \<le> c \<and> c \<le> CHR ''z'') \<or> (CHR ''A'' \<le> c \<and> c \<le> CHR ''Z'')"

definition isalnum :: "char \<Rightarrow> bool" where
  "isalnum c \<longleftrightarrow> isalpha c \<or> isdigit c"

definition isspace :: "char \<Rightarrow> bool" where
  "isspace c \<longleftrightarrow> c = CHR '' '' \<or> (TAB \<le> c \<and> c \<le> CR)"

lemma isdigit_range: "isdigit c \<longleftrightarrow> 48 \<le> (of_char c :: nat) \<and> (of_char c :: nat) \<le> 57"
  by (simp add: isdigit_def less_eq_char_def)

lemma isdigit_NUL [char_class, simp]: "\<not> isdigit NUL"
  by (simp add: isdigit_def)

section \<open>Decimal numbers\<close>

definition digit_char :: "nat \<Rightarrow> char" where
  "digit_char d = char_of (48 + d)"

definition digit_val :: "char \<Rightarrow> nat" where
  "digit_val c = of_char c - 48"

lemma of_digit_char [simp]: "d < 10 \<Longrightarrow> (of_char (digit_char d) :: nat) = 48 + d"
  by (simp add: digit_char_def take_bit_eq_mod)

lemma isdigit_digit_char [char_class, simp]: "d < 10 \<Longrightarrow> isdigit (digit_char d)"
  by (simp add: isdigit_range)

lemma digit_val_digit_char [simp]: "d < 10 \<Longrightarrow> digit_val (digit_char d) = d"
  by (simp add: digit_val_def)

lemma digit_val_bound: "isdigit c \<Longrightarrow> digit_val c < 10"
  unfolding isdigit_range digit_val_def by linarith

text \<open>\<open>std::to_string\<close> of a non-negative and of a signed integer.\<close>

fun nat_str :: "nat \<Rightarrow> string" where
  "nat_str n = (if n < 10 then [digit_char n] else nat_str (n div 10) @ [digit_char (n mod 10)])"

declare nat_str.simps [simp del]

definition int_str :: "int \<Rightarrow> string" where
  "int_str i = (if i < 0 then CHR ''-'' # nat_str (nat (- i)) else nat_str (nat i))"

text \<open>The value of a digit string read from the left.\<close>

definition digits_val :: "string \<Rightarrow> nat" where
  "digits_val ds = foldl (\<lambda>v c. 10 * v + digit_val c) 0 ds"

lemma digits_val_snoc [simp]: "digits_val (ds @ [c]) = 10 * digits_val ds + digit_val c"
  by (simp add: digits_val_def)

lemma digits_val_Nil [simp]: "digits_val [] = 0"
  by (simp add: digits_val_def)

lemma nat_str_nonempty [simp]: "nat_str n \<noteq> []"
  by (subst nat_str.simps) simp

lemma nat_str_digits: "c \<in> set (nat_str n) \<Longrightarrow> isdigit c"
proof (induction n rule: nat_str.induct)
  case (1 n)
  show ?case
  proof (cases "n < 10")
    case True
    with "1.prems" show ?thesis by (simp add: nat_str.simps [of n])
  next
    case False
    with "1.prems" have "c \<in> set (nat_str (n div 10)) \<or> c = digit_char (n mod 10)"
      by (auto simp: nat_str.simps [of n])
    with "1.IH" [OF False] show ?thesis by auto
  qed
qed

lemma list_all_nat_str [simp]: "list_all isdigit (nat_str n)"
  by (auto simp: list_all_iff dest: nat_str_digits)

lemma digits_val_nat_str [simp]: "digits_val (nat_str n) = n"
proof (induction n rule: nat_str.induct)
  case (1 n)
  show ?case
  proof (cases "n < 10")
    case True
    then show ?thesis by (simp add: nat_str.simps [of n] digits_val_def)
  next
    case False
    with "1.IH" show ?thesis by (simp add: nat_str.simps [of n])
  qed
qed

lemma nat_str_inject [simp]: "nat_str m = nat_str n \<longleftrightarrow> m = n"
  by (metis digits_val_nat_str)

definition wrap32 :: "int \<Rightarrow> int" where
  "wrap32 x = (x + 2 ^ 31) mod 2 ^ 32 - 2 ^ 31"

definition int32 :: "int \<Rightarrow> bool" where
  "int32 x \<longleftrightarrow> - (2 ^ 31) \<le> x \<and> x < 2 ^ 31"

lemma wrap32_id [simp]: "int32 x \<Longrightarrow> wrap32 x = x"
  by (simp add: wrap32_def int32_def)

lemma wrap32_int32 [simp]: "int32 (wrap32 x)"
proof -
  have "0 \<le> (x + 2 ^ 31) mod (2 ^ 32 :: int)" "(x + 2 ^ 31) mod (2 ^ 32 :: int) < 2 ^ 32"
    by simp_all
  then show ?thesis by (simp add: wrap32_def int32_def)
qed

text \<open>\<open>strtol (s, 0, 10)\<close>: white space, sign, digits, saturation at the bounds of \<open>long\<close>.\<close>

definition strtol10 :: "string \<Rightarrow> int" where
  "strtol10 s =
     (let s1 = dropWhile isspace s;
          neg = (s1 \<noteq> [] \<and> hd s1 = CHR ''-'');
          s2 = (if s1 \<noteq> [] \<and> (hd s1 = CHR ''-'' \<or> hd s1 = CHR ''+'') then tl s1 else s1);
          v = int (digits_val (takeWhile isdigit s2))
      in if neg then max (- (2 ^ 63)) (- v) else min (2 ^ 63 - 1) v)"

definition atoi :: "string \<Rightarrow> int" where
  "atoi s = wrap32 (strtol10 s)"

lemma atoi_int32 [simp]: "int32 (atoi s)"
  by (simp add: atoi_def)

lemma isdigit_not_space [char_class]: "isdigit c \<Longrightarrow> \<not> isspace c"
  by (auto simp: isdigit_def isspace_def less_eq_char_def)

lemma isdigit_not_sign [char_class]: "isdigit c \<Longrightarrow> c \<noteq> CHR ''-'' \<and> c \<noteq> CHR ''+''"
  by (auto simp: isdigit_def)

lemma hd_digits: "list_all isdigit ds \<Longrightarrow> ds \<noteq> [] \<Longrightarrow> isdigit (hd ds)"
  by (cases ds) auto

lemma strtol10_digits:
  assumes "list_all isdigit ds" and "ds \<noteq> []" and "int (digits_val ds) < 2 ^ 63"
  shows "strtol10 ds = int (digits_val ds)" "strtol10 (CHR ''-'' # ds) = - int (digits_val ds)"
proof -
  have hd: "isdigit (hd ds)" using assms by (intro hd_digits)
  then have dw: "dropWhile isspace ds = ds"
    using assms(2) by (cases ds) (auto simp: isdigit_not_space)
  have tw: "takeWhile isdigit ds = ds"
    using assms(1) by (auto simp: list_all_iff takeWhile_eq_all_conv)
  show "strtol10 ds = int (digits_val ds)" "strtol10 (CHR ''-'' # ds) = - int (digits_val ds)"
    using assms(2,3) isdigit_not_sign [OF hd]
    by (simp_all add: strtol10_def Let_def isspace_def dw tw)
qed

lemma atoi_nat_str: "int32 (int n) \<Longrightarrow> atoi (nat_str n) = int n"
  by (simp add: atoi_def strtol10_digits int32_def)

lemma atoi_int_str: "int32 i \<Longrightarrow> atoi (int_str i) = i"
proof (cases "i < 0")
  case True
  assume "int32 i"
  with True have "strtol10 (int_str i) = i"
    by (simp add: int_str_def strtol10_digits int32_def)
  with \<open>int32 i\<close> show ?thesis by (simp add: atoi_def)
next
  case False
  assume "int32 i"
  with False show ?thesis by (simp add: int_str_def atoi_nat_str)
qed

section \<open>Lists and strings\<close>

lemma takeWhile_span [cursor_simps]:
  "list_all P xs \<Longrightarrow> ys = [] \<or> \<not> P (hd ys) \<Longrightarrow> takeWhile P (xs @ ys) = xs"
  by (induction xs) (auto simp: takeWhile_eq_Nil_iff)

lemma dropWhile_span [cursor_simps]:
  "list_all P xs \<Longrightarrow> ys = [] \<or> \<not> P (hd ys) \<Longrightarrow> dropWhile P (xs @ ys) = ys"
  by (induction xs) (auto simp: dropWhile_eq_self_iff)

text \<open>\<open>std::string::find_last_of\<close> of one character: the part before its last occurrence and the
  part after it.\<close>

fun split_last :: "char \<Rightarrow> string \<Rightarrow> (string \<times> string) option" where
  "split_last c [] = None"
| "split_last c (x # xs) =
     (case split_last c xs of
        Some (a, b) \<Rightarrow> Some (x # a, b)
      | None \<Rightarrow> if x = c then Some ([], xs) else None)"

lemma split_last_None [simp]: "split_last c xs = None \<longleftrightarrow> c \<notin> set xs"
  by (induction xs) (auto split: option.splits)

lemma split_last_Some: "split_last c xs = Some (a, b) \<Longrightarrow> xs = a @ c # b \<and> c \<notin> set b"
proof (induction xs arbitrary: a b)
  case (Cons x xs)
  then show ?case by (cases "split_last c xs") (auto split: if_splits)
qed simp

lemma split_last_append [simp]: "c \<notin> set b \<Longrightarrow> split_last c (a @ c # b) = Some (a, b)"
  by (induction a) (auto simp: split_last_None [THEN iffD2])

text \<open>\<open>to_string\<close> digits never contain other characters.\<close>

lemma nat_str_no_char: "\<not> isdigit c \<Longrightarrow> c \<notin> set (nat_str n)"
  using nat_str_digits by blast

end
