(* ===== verification/Trident_Types.thy ===== *)
theory Trident_Types
  imports Lev_Prelude
begin

text \<open>
  The value types the package manager's components pass to one another
  (\<open>tools/trident/provider.hpp\<close> and \<open>tools/trident/manifest.hpp\<close>). A version and a module
  identity are compared and used as keys of \<open>std::map\<close>, so they are datatypes with a
  \<open>linorder\<close> instance; the order of a module identity is the \<open>operator<\<close> of the source, with
  \<open>std::string\<close>'s order (bytes compared unsigned, a proper prefix is smaller) on the path.
\<close>

datatype version = Version (ver_major: int) (ver_minor: int) (ver_patch: int)

datatype module_id = ModuleId (mod_path: string) (mod_major: int)

datatype dep_kind = Local | Vcs

record dependency =
  dep_path :: string
  dep_version :: string
  dep_as :: string
  dep_dev :: bool
  dep_kind_of :: dep_kind

definition dependency_default :: dependency where
  "dependency_default =
     \<lparr>dep_path = [], dep_version = [], dep_as = [], dep_dev = False, dep_kind_of = Local\<rparr>"

record project_manifest =
  man_name :: string
  man_entry :: string
  man_sources :: "string list"
  man_assets :: "string list"
  man_deps :: "dependency list"
  man_version :: string
  man_out :: string

definition project_manifest_default :: project_manifest where
  "project_manifest_default =
     \<lparr>man_name = [], man_entry = [], man_sources = [], man_assets = [], man_deps = [],
      man_version = [], man_out = []\<rparr>"

record require =
  req_mod :: module_id
  req_min :: version
  req_as :: string
  req_dev :: bool

record build_list_entry =
  ble_mod :: module_id
  ble_selected :: version
  ble_contentHash :: string
  ble_storeDir :: string
  ble_requires :: "require list"

text \<open>\<open>ModuleId::operator<\<close>: the path first, then the major.\<close>

definition moduleIdLess :: "module_id \<Rightarrow> module_id \<Rightarrow> bool" where
  "moduleIdLess a b \<longleftrightarrow>
     (if mod_path a \<noteq> mod_path b then mod_path a < mod_path b else mod_major a < mod_major b)"

instantiation module_id :: linorder
begin

definition less_module_id :: "module_id \<Rightarrow> module_id \<Rightarrow> bool" where
  "less_module_id a b \<longleftrightarrow> moduleIdLess a b"

definition less_eq_module_id :: "module_id \<Rightarrow> module_id \<Rightarrow> bool" where
  "less_eq_module_id a b \<longleftrightarrow> a = b \<or> moduleIdLess a b"

instance
proof
  fix x y z :: module_id
  show "x < y \<longleftrightarrow> x \<le> y \<and> \<not> y \<le> x"
    by (auto simp: less_module_id_def less_eq_module_id_def moduleIdLess_def)
  show "x \<le> x" by (simp add: less_eq_module_id_def)
  show "x \<le> y \<Longrightarrow> y \<le> z \<Longrightarrow> x \<le> z"
    by (auto simp: less_eq_module_id_def moduleIdLess_def split: if_splits)
  show "x \<le> y \<Longrightarrow> y \<le> x \<Longrightarrow> x = y"
    by (auto simp: less_eq_module_id_def moduleIdLess_def split: if_splits)
  show "x \<le> y \<or> y \<le> x"
    by (cases x; cases y) (auto simp: less_eq_module_id_def moduleIdLess_def)
qed

end

text \<open>Versions in the lexicographic order of (major, minor, patch).\<close>

instantiation version :: linorder
begin

definition less_version :: "version \<Rightarrow> version \<Rightarrow> bool" where
  "less_version a b \<longleftrightarrow>
     ver_major a < ver_major b \<or>
     ver_major a = ver_major b \<and>
       (ver_minor a < ver_minor b \<or> ver_minor a = ver_minor b \<and> ver_patch a < ver_patch b)"

definition less_eq_version :: "version \<Rightarrow> version \<Rightarrow> bool" where
  "less_eq_version a b \<longleftrightarrow> a = b \<or> (a :: version) < b"

instance
proof
  fix x y z :: version
  show "x < y \<longleftrightarrow> x \<le> y \<and> \<not> y \<le> x"
    by (auto simp: less_version_def less_eq_version_def)
  show "x \<le> x" by (simp add: less_eq_version_def)
  show "x \<le> y \<Longrightarrow> y \<le> z \<Longrightarrow> x \<le> z"
    by (auto simp: less_version_def less_eq_version_def)
  show "x \<le> y \<Longrightarrow> y \<le> x \<Longrightarrow> x = y"
    by (auto simp: less_version_def less_eq_version_def)
  show "x \<le> y \<or> y \<le> x"
    by (cases x; cases y) (auto simp: less_version_def less_eq_version_def)
qed

end

end
