(* ===== verification/Semver.thy ===== *)
theory Semver
  imports Trident_Types
begin

text \<open>
  \<open>tools/trident/semver.cpp\<close>: parsing, printing and comparing versions. The scanner's index
  into the text is kept as the text that is left to read; every \<open>false\<close> return is the error
  value \<open>Inl (BadVersion text)\<close>, whose payload is what the message quotes.
\<close>

datatype semver_error = BadVersion string

section \<open>Operations\<close>

definition parseUInt :: "string \<Rightarrow> (int \<times> string) option" where
  "parseUInt s =
     (let ds = takeWhile isdigit s
      in if ds = [] then None else Some (atoi ds, dropWhile isdigit s))"

text \<open>One numeric component followed by its dot (the two middle steps of the parser).\<close>

definition parseUIntDot :: "string \<Rightarrow> (int \<times> string) option" where
  "parseUIntDot s =
     (case parseUInt s of
        None \<Rightarrow> None
      | Some (v, rest) \<Rightarrow> if rest = [] \<or> hd rest \<noteq> CHR ''.'' then None else Some (v, tl rest))"

definition parseSemVer :: "string \<Rightarrow> semver_error + version" where
  "parseSemVer text =
     (let s = (if text \<noteq> [] \<and> (hd text = CHR ''v'' \<or> hd text = CHR ''V'') then tl text else text)
      in case parseUIntDot s of
           None \<Rightarrow> Inl (BadVersion text)
         | Some (major, s1) \<Rightarrow>
             (case parseUIntDot s1 of
                None \<Rightarrow> Inl (BadVersion text)
              | Some (minor, s2) \<Rightarrow>
                  (case parseUInt s2 of
                     None \<Rightarrow> Inl (BadVersion text)
                   | Some (patch, s3) \<Rightarrow>
                       if s3 \<noteq> [] then Inl (BadVersion text)
                       else Inr (Version major minor patch))))"

definition formatSemVer :: "version \<Rightarrow> string" where
  "formatSemVer v =
     int_str (ver_major v) @ ''.'' @ int_str (ver_minor v) @ ''.'' @ int_str (ver_patch v)"

definition formatSemVerTag :: "version \<Rightarrow> string" where
  "formatSemVerTag v = ''v'' @ formatSemVer v"

definition compareSemVer :: "version \<Rightarrow> version \<Rightarrow> int" where
  "compareSemVer a b =
     (if ver_major a \<noteq> ver_major b then (if ver_major a < ver_major b then -1 else 1)
      else if ver_minor a \<noteq> ver_minor b then (if ver_minor a < ver_minor b then -1 else 1)
      else if ver_patch a \<noteq> ver_patch b then (if ver_patch a < ver_patch b then -1 else 1)
      else 0)"

section \<open>Well-formed versions\<close>

text \<open>A version whose three components are non-negative values of a 32-bit \<open>int\<close>.\<close>

definition ver_ok :: "version \<Rightarrow> bool" where
  "ver_ok v \<longleftrightarrow>
     0 \<le> ver_major v \<and> int32 (ver_major v) \<and> 0 \<le> ver_minor v \<and> int32 (ver_minor v) \<and>
     0 \<le> ver_patch v \<and> int32 (ver_patch v)"

lemma dot_not_digit [char_class, simp]: "\<not> isdigit CHR ''.''"
  by (simp add: isdigit_def)

lemma int_str_nonneg: "0 \<le> i \<Longrightarrow> list_all isdigit (int_str i) \<and> int_str i \<noteq> []"
  by (simp add: int_str_def)

lemma parseUInt_span [cursor_simps]:
  assumes "list_all isdigit ds" and "ds \<noteq> []" and "rest = [] \<or> \<not> isdigit (hd rest)"
  shows "parseUInt (ds @ rest) = Some (atoi ds, rest)"
  using assms by (simp add: parseUInt_def cursor_simps Let_def)

lemma parseUIntDot_span [cursor_simps]:
  "list_all isdigit ds \<Longrightarrow> ds \<noteq> [] \<Longrightarrow> parseUIntDot (ds @ CHR ''.'' # rest) = Some (atoi ds, rest)"
  by (simp add: parseUIntDot_def cursor_simps)

lemma parseUInt_Some:
  assumes "parseUInt s = Some (v, rest)"
  obtains ds where "s = ds @ rest" "list_all isdigit ds" "ds \<noteq> []" "v = atoi ds"
    "rest = [] \<or> \<not> isdigit (hd rest)"
proof
  show "s = takeWhile isdigit s @ rest" "list_all isdigit (takeWhile isdigit s)"
    "takeWhile isdigit s \<noteq> []" "v = atoi (takeWhile isdigit s)"
    using assms by (auto simp: parseUInt_def Let_def list_all_iff split: if_splits dest: set_takeWhileD)
  show "rest = [] \<or> \<not> isdigit (hd rest)"
    using assms hd_dropWhile [of isdigit s]
    by (auto simp only: parseUInt_def Let_def split: if_splits)
qed

lemma parseUIntDot_Some:
  assumes "parseUIntDot s = Some (v, rest)"
  obtains ds where "s = ds @ CHR ''.'' # rest" "list_all isdigit ds" "ds \<noteq> []" "v = atoi ds"
proof -
  from assms obtain r where p: "parseUInt s = Some (v, r)" "r \<noteq> []" "hd r = CHR ''.''" "tl r = rest"
    by (auto simp: parseUIntDot_def split: option.splits prod.splits if_splits)
  then show ?thesis by (cases r) (auto elim!: parseUInt_Some intro: that)
qed

section \<open>Correctness\<close>

lemma digits_not_v: "list_all isdigit ds \<Longrightarrow> ds \<noteq> [] \<Longrightarrow> hd ds \<noteq> CHR ''v'' \<and> hd ds \<noteq> CHR ''V''"
  by (cases ds) (auto simp: isdigit_def)

lemma parseSemVer_digits:
  assumes "list_all isdigit a" "a \<noteq> []" "list_all isdigit b" "b \<noteq> []" "list_all isdigit c" "c \<noteq> []"
    and "pre \<in> {[], ''v'', ''V''}"
  shows "parseSemVer (pre @ a @ ''.'' @ b @ ''.'' @ c) = Inr (Version (atoi a) (atoi b) (atoi c))"
  using assms digits_not_v [OF assms(1,2)] parseUInt_span [OF assms(5,6), of "[]"]
  by (auto simp: parseSemVer_def parseUIntDot_span)

lemma parseSemVer_InrD:
  assumes p: "parseSemVer t = Inr v"
  shows "\<exists>pre a b c. t = pre @ a @ ''.'' @ b @ ''.'' @ c \<and> pre \<in> {[], ''v'', ''V''} \<and>
         a \<noteq> [] \<and> b \<noteq> [] \<and> c \<noteq> [] \<and> list_all isdigit (a @ b @ c) \<and>
         v = Version (atoi a) (atoi b) (atoi c)"
proof -
  define s where "s = (if t \<noteq> [] \<and> (hd t = CHR ''v'' \<or> hd t = CHR ''V'') then tl t else t)"
  from p obtain ma s1 mi s2 pa where
    1: "parseUIntDot s = Some (ma, s1)" and 2: "parseUIntDot s1 = Some (mi, s2)"
    and 3: "parseUInt s2 = Some (pa, [])" and v: "v = Version ma mi pa"
    by (auto simp: parseSemVer_def Let_def s_def [symmetric] split: option.splits prod.splits if_splits)
  from 1 obtain a where a: "s = a @ CHR ''.'' # s1" "list_all isdigit a" "a \<noteq> []" "ma = atoi a"
    by (rule parseUIntDot_Some)
  from 2 obtain b where b: "s1 = b @ CHR ''.'' # s2" "list_all isdigit b" "b \<noteq> []" "mi = atoi b"
    by (rule parseUIntDot_Some)
  from 3 obtain c where c: "s2 = c" "list_all isdigit c" "c \<noteq> []" "pa = atoi c"
    by (rule parseUInt_Some) auto
  have "\<exists>pre. t = pre @ s \<and> pre \<in> {[], ''v'', ''V''}"
    by (rule exI [of _ "if s = t then [] else take 1 t"]) (cases t; auto simp: s_def)
  then obtain pre where pre: "t = pre @ s" "pre \<in> {[], ''v'', ''V''}" by blast
  show ?thesis
    using a b c pre v by (intro exI [of _ pre] exI [of _ a] exI [of _ b] exI [of _ c]) simp
qed

lemma parseSemVer_Inl: "parseSemVer t = Inl e \<Longrightarrow> e = BadVersion t"
  by (auto simp: parseSemVer_def Let_def split: option.splits prod.splits if_splits)

text \<open>
  The grammar of accepted versions, exactly: a text parses to a version iff it is an optional
  \<open>v\<close> or \<open>V\<close>, then three non-empty digit runs separated by dots, with nothing after them; the
  components are \<open>atoi\<close> of the runs. Every other text is rejected with the error naming it.
\<close>

lemma parseSemVer_grammar:
  "(parseSemVer t = Inr v \<longleftrightarrow>
      (\<exists>pre a b c. t = pre @ a @ ''.'' @ b @ ''.'' @ c \<and> pre \<in> {[], ''v'', ''V''} \<and>
         a \<noteq> [] \<and> b \<noteq> [] \<and> c \<noteq> [] \<and> list_all isdigit (a @ b @ c) \<and>
         v = Version (atoi a) (atoi b) (atoi c))) \<and>
   (parseSemVer t = Inl (BadVersion t) \<longleftrightarrow> (\<nexists>w. parseSemVer t = Inr w))"
proof (intro conjI iffI)
  assume "parseSemVer t = Inr v"
  then show "\<exists>pre a b c. t = pre @ a @ ''.'' @ b @ ''.'' @ c \<and> pre \<in> {[], ''v'', ''V''} \<and>
         a \<noteq> [] \<and> b \<noteq> [] \<and> c \<noteq> [] \<and> list_all isdigit (a @ b @ c) \<and>
         v = Version (atoi a) (atoi b) (atoi c)"
    by (rule parseSemVer_InrD)
next
  assume "\<exists>pre a b c. t = pre @ a @ ''.'' @ b @ ''.'' @ c \<and> pre \<in> {[], ''v'', ''V''} \<and>
         a \<noteq> [] \<and> b \<noteq> [] \<and> c \<noteq> [] \<and> list_all isdigit (a @ b @ c) \<and>
         v = Version (atoi a) (atoi b) (atoi c)"
  then obtain pre a b c where "t = pre @ a @ ''.'' @ b @ ''.'' @ c" "pre \<in> {[], ''v'', ''V''}"
    "a \<noteq> []" "b \<noteq> []" "c \<noteq> []" "list_all isdigit a" "list_all isdigit b" "list_all isdigit c"
    "v = Version (atoi a) (atoi b) (atoi c)"
    by (elim exE conjE) simp
  then show "parseSemVer t = Inr v" using parseSemVer_digits by metis
next
  assume "\<nexists>w. parseSemVer t = Inr w"
  then obtain e where "parseSemVer t = Inl e" by (cases "parseSemVer t") auto
  with parseSemVer_Inl show "parseSemVer t = Inl (BadVersion t)" by simp
qed simp

lemma parseSemVer_pre_format:
  assumes "ver_ok v" and "pre \<in> {[], ''v'', ''V''}"
  shows "parseSemVer (pre @ formatSemVer v) = Inr v"
  using assms int_str_nonneg [of "ver_major v"] int_str_nonneg [of "ver_minor v"]
    int_str_nonneg [of "ver_patch v"]
  unfolding formatSemVer_def
  by (subst parseSemVer_digits) (auto simp: ver_ok_def atoi_int_str)

text \<open>
  Printing then parsing gives the version back, in the manifest spelling and in the git tag
  spelling, for every version with non-negative 32-bit components.
\<close>

lemma parseSemVer_format:
  assumes "ver_ok v"
  shows "parseSemVer (formatSemVer v) = Inr v \<and> parseSemVer (formatSemVerTag v) = Inr v"
  using parseSemVer_pre_format [OF assms, of "[]"] parseSemVer_pre_format [OF assms, of "''v''"]
  by (simp add: formatSemVerTag_def)

lemma parseSemVer_format_witness:
  "ver_ok (Version 1 2 30) \<and> formatSemVer (Version 1 2 30) = ''1.2.30'' \<and>
   parseSemVer (formatSemVer (Version 1 2 30)) = Inr (Version 1 2 30)"
proof -
  have ok: "ver_ok (Version 1 2 30)" by (simp add: ver_ok_def int32_def)
  have "formatSemVer (Version 1 2 30) = ''1.2.30''" by code_simp
  with ok parseSemVer_format [OF ok] show ?thesis by simp
qed

text \<open>\<open>compareSemVer\<close> is the three-way form of the lexicographic order.\<close>

lemma compareSemVer_less: "compareSemVer a b < 0 \<longleftrightarrow> a < b"
  by (auto simp: compareSemVer_def less_version_def)

lemma compareSemVer_greater: "compareSemVer a b > 0 \<longleftrightarrow> b < a"
  by (auto simp: compareSemVer_def less_version_def)

lemma compareSemVer_eq: "compareSemVer a b = 0 \<longleftrightarrow> a = b"
  by (cases a; cases b) (auto simp: compareSemVer_def)

lemmas compareSemVer_order = compareSemVer_less compareSemVer_greater compareSemVer_eq

lemma formatSemVer_inject:
  "ver_ok a \<Longrightarrow> ver_ok b \<Longrightarrow> formatSemVer a = formatSemVer b \<longleftrightarrow> a = b"
  by (metis parseSemVer_pre_format append_Nil insertI1 sum.inject(2))

end
