(* ===== verification/Ordered_Map.thy ===== *)
theory Ordered_Map
  imports Lev_Prelude
begin

text \<open>
  The contract of \<open>std::map\<close> the sources rely on, as the locale \<open>std_map\<close>: lookup after an
  assignment, and iteration in strictly increasing key order. The model's maps are association
  lists kept in key order, which interpret it. What clients use is proved once in the locale:
  the iteration of a map is determined by its contents alone, and a property of all iterated
  pairs is a property of all lookups.
\<close>

section \<open>The contract\<close>

locale std_map =
  fixes empty :: "'m"
    and lookup :: "'m \<Rightarrow> 'k::linorder \<Rightarrow> 'v option"
    and update :: "'k \<Rightarrow> 'v \<Rightarrow> 'm \<Rightarrow> 'm"
    and iter :: "'m \<Rightarrow> ('k \<times> 'v) list"
    and inv :: "'m \<Rightarrow> bool"
  assumes lookup_empty: "lookup empty = (\<lambda>_. None)"
    and lookup_update: "inv m \<Longrightarrow> lookup (update k v m) = (lookup m)(k \<mapsto> v)"
    and iter_lookup: "inv m \<Longrightarrow> map_of (iter m) = lookup m"
    and iter_sorted: "inv m \<Longrightarrow> sorted_wrt (<) (map fst (iter m))"
    and inv_empty: "inv empty"
    and inv_update: "inv m \<Longrightarrow> inv (update k v m)"
begin

lemma iter_distinct: "inv m \<Longrightarrow> distinct (map fst (iter m))"
  by (drule iter_sorted) (simp add: strict_sorted_iff)

lemma iter_mem: "inv m \<Longrightarrow> (k, v) \<in> set (iter m) \<longleftrightarrow> lookup m k = Some v"
  using iter_distinct [of m] iter_lookup [of m] by (metis map_of_eq_Some_iff)

lemma iter_ball:
  "inv m \<Longrightarrow> (\<forall>(k, v) \<in> set (iter m). P k v) \<longleftrightarrow> (\<forall>k v. lookup m k = Some v \<longrightarrow> P k v)"
  by (auto simp flip: iter_mem)

lemma iter_unique:
  assumes "inv m" and "inv m'" and "lookup m = lookup m'"
  shows "iter m = iter m'"
proof -
  have "set (iter m) = set (iter m')"
    using assms iter_mem by (auto simp: set_eq_iff)
  then show ?thesis
    using assms(1,2) iter_distinct [of m'] iter_sorted [of m] iter_sorted [of m']
    by (intro map_sorted_distinct_set_unique [where f = fst])
      (auto simp: strict_sorted_iff distinct_map)
qed

end

section \<open>Association lists in key order\<close>

type_synonym ('k, 'v) omap = "('k \<times> 'v) list"

fun om_update :: "'k::linorder \<Rightarrow> 'v \<Rightarrow> ('k, 'v) omap \<Rightarrow> ('k, 'v) omap" where
  "om_update k v [] = [(k, v)]"
| "om_update k v ((k', v') # m) =
     (if k < k' then (k, v) # (k', v') # m
      else if k = k' then (k, v) # m
      else (k', v') # om_update k v m)"

text \<open>\<open>std::map::emplace\<close> keeps an entry that is already there.\<close>

definition om_emplace :: "'k::linorder \<Rightarrow> 'v \<Rightarrow> ('k, 'v) omap \<Rightarrow> ('k, 'v) omap" where
  "om_emplace k v m = (case map_of m k of None \<Rightarrow> om_update k v m | Some _ \<Rightarrow> m)"

definition om_inv :: "('k::linorder, 'v) omap \<Rightarrow> bool" where
  "om_inv m \<longleftrightarrow> sorted_wrt (<) (map fst m)"

lemma om_update_keys: "fst ` set (om_update k v m) = insert k (fst ` set m)"
  by (induction k v m rule: om_update.induct) auto

lemma om_update_lookup: "om_inv m \<Longrightarrow> map_of (om_update k v m) = (map_of m)(k \<mapsto> v)"
proof (induction k v m rule: om_update.induct)
  case (2 k v k' v' m)
  then show ?case
    by (auto simp: om_inv_def fun_eq_iff)
qed simp

lemma om_update_inv: "om_inv m \<Longrightarrow> om_inv (om_update k v m)"
proof (induction k v m rule: om_update.induct)
  case (2 k v k' v' m)
  then show ?case
    using om_update_keys [of k v m] by (auto simp: om_inv_def)
qed (simp add: om_inv_def)

interpretation om: std_map "[]" map_of om_update "\<lambda>m. m" om_inv
  by unfold_locales (auto simp: om_update_lookup om_update_inv om_inv_def [of "[]"] simp flip: om_inv_def)

lemma om_emplace_inv: "om_inv m \<Longrightarrow> om_inv (om_emplace k v m)"
  by (auto simp: om_emplace_def om_update_inv split: option.splits)

lemma om_emplace_lookup:
  "om_inv m \<Longrightarrow> map_of (om_emplace k v m) k' =
     (if k' = k \<and> map_of m k = None then Some v else map_of m k')"
  by (auto simp: om_emplace_def om_update_lookup split: option.splits)

lemma om_emplace_ran:
  "om_inv m \<Longrightarrow> ran (map_of (om_emplace k v m)) \<subseteq> insert v (ran (map_of m))"
  by (auto simp: ran_def om_emplace_lookup split: if_splits)

end
