(* ===== verification/Require_Cycle.thy ===== *)
theory Require_Cycle
  imports Semver Ordered_Map
begin

text \<open>
  \<open>findRequireCycle\<close> of \<open>tools/trident/mvs.cpp\<close>: the iterative three-colour depth-first search
  over the require graph of a build list. The search state is the record \<open>dfs\<close> with the source's
  four vectors; the back of the explicit stack is the head of \<open>dfs_stack\<close>. The search is a total
  function. It is proved to return the empty string exactly when the graph is acyclic, and
  otherwise the rendering of a cycle of the graph.
\<close>

section \<open>The search\<close>

datatype color = White | Gray | Black

record dfs =
  dfs_color :: "color list"
  dfs_path :: "nat list"
  dfs_pos :: "nat list"
  dfs_stack :: "(nat \<times> nat) list"

definition renderSelected :: "build_list_entry \<Rightarrow> string" where
  "renderSelected e = mod_path (ble_mod e) @ ''@'' @ formatSemVer (ble_selected e)"

definition indexByModule :: "build_list_entry list \<Rightarrow> (module_id, nat) omap" where
  "indexByModule es = fold (\<lambda>(i, e) m. om_emplace (ble_mod e) i m) (enumerate 0 es) []"

text \<open>The rendering loop: entries of the active path joined by arrows, appended to \<open>acc\<close>.\<close>

fun renderChain :: "build_list_entry list \<Rightarrow> string \<Rightarrow> nat list \<Rightarrow> string" where
  "renderChain es acc [] = acc"
| "renderChain es acc (i # is) =
     renderChain es ((if acc \<noteq> [] then acc @ '' -> '' else acc) @ renderSelected (es ! i)) is"

text \<open>Turning a white node gray and opening its frame.\<close>

definition dfs_push :: "nat \<Rightarrow> dfs \<Rightarrow> dfs" where
  "dfs_push v s =
     s\<lparr>dfs_color := (dfs_color s)[v := Gray],
       dfs_pos := (dfs_pos s)[v := length (dfs_path s)],
       dfs_path := dfs_path s @ [v],
       dfs_stack := (v, 0) # dfs_stack s\<rparr>"

text \<open>Closing the top frame of a node whose edges are exhausted.\<close>

definition dfs_pop :: "nat \<Rightarrow> nat \<Rightarrow> dfs \<Rightarrow> dfs" where
  "dfs_pop n v s =
     s\<lparr>dfs_color := (dfs_color s)[v := Black],
       dfs_pos := (dfs_pos s)[v := n],
       dfs_path := butlast (dfs_path s),
       dfs_stack := tl (dfs_stack s)\<rparr>"

lemma count_White_update: "c \<noteq> White \<Longrightarrow> count_list (xs[v := c]) White \<le> count_list xs White"
  by (induction xs arbitrary: v) (auto split: nat.splits simp: le_SucI)

lemma count_White_update_less:
  "v < length xs \<Longrightarrow> xs ! v = White \<Longrightarrow> c \<noteq> White \<Longrightarrow>
   count_list (xs[v := c]) White < count_list xs White"
proof (induction xs arbitrary: v)
  case (Cons x xs)
  then show ?case by (cases v) auto
qed simp

text \<open>The \<open>while (!stack.empty())\<close> loop; \<open>Inl\<close> is the early return with a rendered cycle. The
  bound on the target's index holds for every index the search meets.\<close>

function dfs_run ::
  "build_list_entry list \<Rightarrow> (module_id, nat) omap \<Rightarrow> dfs \<Rightarrow> string + dfs" where
  "dfs_run es ix s =
     (case dfs_stack s of
        [] \<Rightarrow> Inr s
      | (v, k) # st \<Rightarrow>
          (case drop k (ble_requires (es ! v)) of
             [] \<Rightarrow> dfs_run es ix (dfs_pop (length es) v s)
           | edge # _ \<Rightarrow>
               (let s1 = s\<lparr>dfs_stack := (v, Suc k) # st\<rparr>
                in case map_of ix (req_mod edge) of
                     None \<Rightarrow> dfs_run es ix s1
                   | Some t \<Rightarrow>
                       if t < length (dfs_color s) \<and> dfs_color s ! t = White
                       then dfs_run es ix (dfs_push t s1)
                       else if dfs_color s ! t \<noteq> Gray then dfs_run es ix s1
                       else Inl (renderChain es [] (drop (dfs_pos s ! t) (dfs_path s)) @
                                 '' -> '' @ renderSelected (es ! t)))))"
  by pat_completeness auto
termination
proof (relation "measures
    [\<lambda>(es, ix, s). count_list (dfs_color s) White,
     \<lambda>(es, ix, s). \<Sum>(v, k)\<leftarrow>dfs_stack s. length (ble_requires (es ! v)) - k,
     \<lambda>(es, ix, s). length (dfs_stack s)]", goal_cases)
  case 2
  then show ?case
    by (auto simp: dfs_pop_def not_less intro!: antisym count_White_update)
next
  case 4
  then show ?case by (auto simp: dfs_push_def count_White_update_less)
qed (auto simp: drop_eq_Nil2 [symmetric] simp del: drop_eq_Nil2 drop_eq_Nil
       dest: arg_cong [of _ _ length])

declare dfs_run.simps [simp del]

text \<open>The outer loop over the start nodes.\<close>

fun dfs_starts ::
  "build_list_entry list \<Rightarrow> (module_id, nat) omap \<Rightarrow> nat list \<Rightarrow> dfs \<Rightarrow> string" where
  "dfs_starts es ix [] s = []"
| "dfs_starts es ix (start # rest) s =
     (if dfs_color s ! start \<noteq> White then dfs_starts es ix rest s
      else case dfs_run es ix (dfs_push start s) of
             Inl cycle \<Rightarrow> cycle
           | Inr s' \<Rightarrow> dfs_starts es ix rest s')"

definition findRequireCycle :: "build_list_entry list \<Rightarrow> string" where
  "findRequireCycle es =
     dfs_starts es (indexByModule es) [0..<length es]
       \<lparr>dfs_color = replicate (length es) White, dfs_path = [],
        dfs_pos = replicate (length es) (length es), dfs_stack = []\<rparr>"

section \<open>The require graph and its cycles\<close>

text \<open>Edge \<open>(i, j)\<close>: entry \<open>i\<close> requires the module of entry \<open>j\<close>. A require whose module has no entry
  gives no edge.\<close>

definition req_graph :: "build_list_entry list \<Rightarrow> (nat \<times> nat) set" where
  "req_graph es =
     {(i, j). i < length es \<and> j < length es \<and>
        (\<exists>r \<in> set (ble_requires (es ! i)). map_of (indexByModule es) (req_mod r) = Some j)}"

definition is_cycle :: "(nat \<times> nat) set \<Rightarrow> nat list \<Rightarrow> bool" where
  "is_cycle E p \<longleftrightarrow>
     p \<noteq> [] \<and> (\<forall>i. Suc i < length p \<longrightarrow> (p ! i, p ! Suc i) \<in> E) \<and> (last p, hd p) \<in> E"

lemma chain_trancl:
  assumes "\<And>i. Suc i < length p \<Longrightarrow> (p ! i, p ! Suc i) \<in> E" and "j < length p"
  shows "(p ! 0, p ! j) \<in> E\<^sup>*"
  using assms(2)
proof (induction j)
  case (Suc j)
  then have "(p ! 0, p ! j) \<in> E\<^sup>*" by simp
  also have "(p ! j, p ! Suc j) \<in> E" using assms(1) Suc.prems by simp
  finally show ?case .
qed simp

lemma is_cycle_not_acyclic:
  assumes "is_cycle E p" shows "\<not> acyclic E"
proof -
  from assms have "(p ! 0, last p) \<in> E\<^sup>*"
    using chain_trancl [of p E "length p - 1"] by (simp add: is_cycle_def last_conv_nth)
  moreover from assms have "(last p, p ! 0) \<in> E" by (auto simp: is_cycle_def hd_conv_nth)
  ultimately have "(p ! 0, p ! 0) \<in> E\<^sup>+" by simp
  then show ?thesis by (auto simp: acyclic_def)
qed

text \<open>The index maps every module to a position inside the list.\<close>

lemma indexByModule_bound:
  assumes "map_of (indexByModule es) m = Some j" shows "j < length es"
proof -
  have "om_inv M \<and> ran (map_of M) \<subseteq> fst ` set xs \<union> ran (map_of M0)"
    if "M = fold (\<lambda>(i, e) m. om_emplace (ble_mod e) i m) xs M0" "om_inv M0" for xs M M0
    using that
  proof (induction xs arbitrary: M0)
    case (Cons x xs)
    then show ?case
      using om_emplace_ran [of M0 "ble_mod (snd x)" "fst x"] Cons.IH [OF _ om_emplace_inv]
      by (fastforce split: prod.splits)
  qed simp
  from this [OF refl om.inv_empty, of "enumerate 0 es"] assms show ?thesis
    by (auto simp: indexByModule_def in_set_enumerate_eq ran_def)
qed

section \<open>The invariant of the search\<close>

text \<open>Frames from the top of the stack down. \<open>prev\<close> is the node of the frame above. The edges a
  frame has already left lead to finished nodes or to the frame above it.\<close>

fun frames_ok ::
  "build_list_entry list \<Rightarrow> color list \<Rightarrow> nat option \<Rightarrow> (nat \<times> nat) list \<Rightarrow> bool" where
  "frames_ok es c prev [] = True"
| "frames_ok es c prev ((v, k) # st) =
     (k \<le> length (ble_requires (es ! v)) \<and>
      (\<forall>r \<in> set (take k (ble_requires (es ! v))). \<forall>t.
         map_of (indexByModule es) (req_mod r) = Some t \<longrightarrow> c ! t = Black \<or> prev = Some t) \<and>
      (\<forall>u. prev = Some u \<longrightarrow> (v, u) \<in> req_graph es) \<and>
      frames_ok es c (Some v) st)"

definition dfs_inv :: "build_list_entry list \<Rightarrow> dfs \<Rightarrow> bool" where
  "dfs_inv es s \<longleftrightarrow>
     length (dfs_color s) = length es \<and> length (dfs_pos s) = length es \<and>
     dfs_path s = rev (map fst (dfs_stack s)) \<and> distinct (dfs_path s) \<and>
     (\<forall>i. i \<in> set (dfs_path s) \<longleftrightarrow> i < length es \<and> dfs_color s ! i = Gray) \<and>
     (\<forall>i < length (dfs_path s). dfs_pos s ! (dfs_path s ! i) = i) \<and>
     frames_ok es (dfs_color s) None (dfs_stack s) \<and>
     (\<exists>rank :: nat \<Rightarrow> nat. \<forall>i j. (i, j) \<in> req_graph es \<and> dfs_color s ! i = Black \<longrightarrow>
        dfs_color s ! j = Black \<and> rank j < rank i)"

lemma frames_ok_mono:
  "frames_ok es c prev st \<Longrightarrow> (\<And>i. i < length es \<Longrightarrow> c ! i = Black \<Longrightarrow> c' ! i = Black) \<Longrightarrow>
   (prev = prev' \<or> (prev' = None \<and> (\<exists>v. prev = Some v \<and> c' ! v = Black))) \<Longrightarrow>
   frames_ok es c' prev' st"
proof (induction es c prev st arbitrary: prev' rule: frames_ok.induct)
  case (2 es c prev v k st)
  have "frames_ok es c' (Some v) st" using 2 by simp
  moreover have "c' ! t = Black" if "map_of (indexByModule es) m = Some t" "c ! t = Black" for m t
    using that "2.prems"(2) indexByModule_bound by blast
  ultimately show ?case using "2.prems"(1,3) by auto
qed simp

lemma frames_chain:
  assumes "frames_ok es c prev st" and "Suc i < length st"
  shows "(rev (map fst st) ! i, rev (map fst st) ! Suc i) \<in> req_graph es"
  using assms
proof (induction es c prev st arbitrary: i rule: frames_ok.induct)
  case (2 es c prev v k st)
  show ?case
  proof (cases "Suc i < length st")
    case True
    with 2 show ?thesis by (simp add: nth_append)
  next
    case False
    with "2.prems" obtain w k' st' where st: "st = (w, k') # st'" "i = length st'"
      by (cases st) auto
    with "2.prems" show ?thesis by (simp add: nth_append)
  qed
qed simp

lemma dfs_invD:
  assumes "dfs_inv es s"
  shows "length (dfs_color s) = length es" "length (dfs_pos s) = length es"
    "dfs_path s = rev (map fst (dfs_stack s))" "distinct (dfs_path s)"
    "i \<in> set (dfs_path s) \<longleftrightarrow> i < length es \<and> dfs_color s ! i = Gray"
    "i < length (dfs_path s) \<Longrightarrow> dfs_pos s ! (dfs_path s ! i) = i"
    "frames_ok es (dfs_color s) None (dfs_stack s)"
    "\<exists>rank :: nat \<Rightarrow> nat. \<forall>i j. (i, j) \<in> req_graph es \<and> dfs_color s ! i = Black \<longrightarrow>
        dfs_color s ! j = Black \<and> rank j < rank i"
  using assms unfolding dfs_inv_def by blast+

lemma dfs_invI:
  assumes "length (dfs_color s) = length es" "length (dfs_pos s) = length es"
    "dfs_path s = rev (map fst (dfs_stack s))" "distinct (dfs_path s)"
    "\<And>i. i \<in> set (dfs_path s) \<longleftrightarrow> i < length es \<and> dfs_color s ! i = Gray"
    "\<And>i. i < length (dfs_path s) \<Longrightarrow> dfs_pos s ! (dfs_path s ! i) = i"
    "frames_ok es (dfs_color s) None (dfs_stack s)"
    "\<exists>rank :: nat \<Rightarrow> nat. \<forall>i j. (i, j) \<in> req_graph es \<and> dfs_color s ! i = Black \<longrightarrow>
        dfs_color s ! j = Black \<and> rank j < rank i"
  shows "dfs_inv es s"
  using assms unfolding dfs_inv_def by blast

lemma dfs_inv_top:
  assumes "dfs_inv es s" and "dfs_stack s = (v, k) # st"
  shows "v < length es" "dfs_color s ! v = Gray" "k \<le> length (ble_requires (es ! v))"
  using dfs_invD(5) [OF assms(1), of v] dfs_invD(3,7) [OF assms(1)] assms(2) by auto

lemma dfs_inv_push:
  assumes inv: "dfs_inv es s" and t: "t < length es" "dfs_color s ! t = White"
    and st: "dfs_stack s = [] \<or>
      (\<exists>v k st r. dfs_stack s = (v, k) # st \<and> ble_requires (es ! v) ! k = r \<and>
         k < length (ble_requires (es ! v)) \<and> map_of (indexByModule es) (req_mod r) = Some t)"
  shows "dfs_inv es (dfs_push t
     (case dfs_stack s of [] \<Rightarrow> s | (v, k) # st \<Rightarrow> s\<lparr>dfs_stack := (v, Suc k) # st\<rparr>))"
proof (rule dfs_invI)
  let ?c = "(dfs_color s)[t := Gray]"
  let ?s' = "dfs_push t (case dfs_stack s of [] \<Rightarrow> s | (v, k) # st \<Rightarrow> s\<lparr>dfs_stack := (v, Suc k) # st\<rparr>)"
  note D = dfs_invD [OF inv]
  have notin: "t \<notin> set (dfs_path s)" using D(5) t by simp
  have mono: "\<And>i. i < length es \<Longrightarrow> dfs_color s ! i = Black \<Longrightarrow> ?c ! i = Black"
    using t D(1) by (auto simp: nth_list_update)
  have f: "dfs_color ?s' = ?c" "dfs_path ?s' = dfs_path s @ [t]"
    "dfs_pos ?s' = (dfs_pos s)[t := length (dfs_path s)]"
    "dfs_stack ?s' = (t, 0) # (case dfs_stack s of [] \<Rightarrow> [] | (v, k) # st \<Rightarrow> (v, Suc k) # st)"
    by (auto simp: dfs_push_def split: list.splits)
  show "length (dfs_color ?s') = length es" "length (dfs_pos ?s') = length es"
    unfolding f using D(1,2) by simp_all
  show "dfs_path ?s' = rev (map fst (dfs_stack ?s'))"
    unfolding f using D(3) by (simp split: list.splits prod.splits)
  show "distinct (dfs_path ?s')" unfolding f using D(4) notin by simp
  show "i \<in> set (dfs_path ?s') \<longleftrightarrow> i < length es \<and> dfs_color ?s' ! i = Gray" for i
    unfolding f using D(1,5) t by (auto simp: nth_list_update)
  show "dfs_pos ?s' ! (dfs_path ?s' ! i) = i" if "i < length (dfs_path ?s')" for i
  proof (cases "i < length (dfs_path s)")
    case True
    then have "dfs_path s ! i \<noteq> t" using notin nth_mem by blast
    with True D(6) show ?thesis unfolding f by (simp add: nth_append)
  next
    case False
    with that t D(2) show ?thesis unfolding f by (simp add: nth_append)
  qed
  have "frames_ok es ?c (Some t) (case dfs_stack s of [] \<Rightarrow> [] | (v, k) # st \<Rightarrow> (v, Suc k) # st)"
  proof (cases "dfs_stack s")
    case (Cons a st')
    obtain v k where a: "a = (v, k)" by (cases a)
    from st Cons a obtain r where r: "ble_requires (es ! v) ! k = r" "k < length (ble_requires (es ! v))"
      "map_of (indexByModule es) (req_mod r) = Some t" by auto
    have "frames_ok es ?c None ((v, k) # st')"
      using D(7) Cons a by (auto intro: frames_ok_mono [OF _ mono] simp del: frames_ok.simps)
    moreover have "(v, t) \<in> req_graph es"
      using r t dfs_inv_top(1) [OF inv] Cons a by (auto simp: req_graph_def)
    ultimately show ?thesis
      using Cons a r by (auto simp: take_Suc_conv_app_nth)
  qed simp
  then show "frames_ok es (dfs_color ?s') None (dfs_stack ?s')" unfolding f by simp
  have "i \<noteq> t" if "(i, j) \<in> req_graph es" "?c ! i = Black" for i j
    using that t D(1) by auto
  moreover have "j \<noteq> t" if "dfs_color s ! j = Black" for j using that t by auto
  ultimately show "\<exists>rank :: nat \<Rightarrow> nat. \<forall>i j. (i, j) \<in> req_graph es \<and> dfs_color ?s' ! i = Black \<longrightarrow>
        dfs_color ?s' ! j = Black \<and> rank j < rank i"
    unfolding f using D(8) by (metis nth_list_update_neq)
qed

lemma dfs_inv_skip:
  assumes inv: "dfs_inv es s" and st: "dfs_stack s = (v, k) # st"
    and k: "k < length (ble_requires (es ! v))"
    and ok: "\<And>t. map_of (indexByModule es) (req_mod (ble_requires (es ! v) ! k)) = Some t \<Longrightarrow>
       dfs_color s ! t = Black"
  shows "dfs_inv es (s\<lparr>dfs_stack := (v, Suc k) # st\<rparr>)"
  using dfs_invD [OF inv] st k ok
  by (intro dfs_invI) (simp_all add: take_Suc_conv_app_nth ball_Un)

lemma dfs_inv_pop:
  assumes inv: "dfs_inv es s" and st: "dfs_stack s = (v, k) # st"
    and k: "length (ble_requires (es ! v)) \<le> k"
  shows "dfs_inv es (dfs_pop (length es) v s)"
proof (rule dfs_invI)
  let ?c = "(dfs_color s)[v := Black]"
  let ?s' = "dfs_pop (length es) v s"
  note D = dfs_invD [OF inv] and v = dfs_inv_top [OF inv st]
  have pth: "dfs_path s = rev (map fst st) @ [v]" using D(3) st by simp
  have f: "dfs_color ?s' = ?c" "dfs_path ?s' = rev (map fst st)"
    "dfs_pos ?s' = (dfs_pos s)[v := length es]" "dfs_stack ?s' = st"
    using pth st by (simp_all add: dfs_pop_def)
  have notin: "v \<notin> set (rev (map fst st))" using D(4) unfolding pth by simp
  have mono: "\<And>i. i < length es \<Longrightarrow> dfs_color s ! i = Black \<Longrightarrow> ?c ! i = Black"
    using v D(1) by (simp add: nth_list_update)
  show "length (dfs_color ?s') = length es" "length (dfs_pos ?s') = length es"
    unfolding f using D(1,2) by simp_all
  show "dfs_path ?s' = rev (map fst (dfs_stack ?s'))" unfolding f ..
  show "distinct (dfs_path ?s')" unfolding f using D(4) unfolding pth by simp
  show "i \<in> set (dfs_path ?s') \<longleftrightarrow> i < length es \<and> dfs_color ?s' ! i = Gray" for i
    unfolding f using D(1) D(5) [of i] v notin unfolding pth by (cases "i = v") auto
  show "dfs_pos ?s' ! (dfs_path ?s' ! i) = i" if "i < length (dfs_path ?s')" for i
  proof -
    have "rev (map fst st) ! i \<noteq> v" using that notin nth_mem unfolding f by metis
    then show ?thesis using D(6) [of i] that unfolding f pth by (simp add: nth_append)
  qed
  have fo: "frames_ok es (dfs_color s) None ((v, k) # st)" using D(7) st by simp
  then show "frames_ok es (dfs_color ?s') None (dfs_stack ?s')"
    unfolding f using v D(1) by (auto intro!: frames_ok_mono [of es "dfs_color s" "Some v"] mono)
  have succ: "dfs_color s ! j = Black" if "(v, j) \<in> req_graph es" for j
    using that fo k by (auto simp: req_graph_def)
  from D(8) obtain rank :: "nat \<Rightarrow> nat" where
    rank: "\<And>i j. (i, j) \<in> req_graph es \<Longrightarrow> dfs_color s ! i = Black \<Longrightarrow>
       dfs_color s ! j = Black \<and> rank j < rank i" by auto
  let ?rank = "rank(v := Suc (\<Sum>j < length es. rank j))"
  have "?c ! j = Black \<and> ?rank j < ?rank i"
    if ij: "(i, j) \<in> req_graph es" "?c ! i = Black" for i j
  proof -
    have b: "i < length es" "j < length es" using ij by (auto simp: req_graph_def)
    have "rank j \<le> (\<Sum>j < length es. rank j)" using b by (intro member_le_sum) auto
    moreover have "dfs_color s ! j = Black \<and> (i = v \<or> rank j < rank i)"
      using ij rank succ v D(1) by (cases "i = v") auto
    ultimately show ?thesis using v b D(1) by (auto simp: nth_list_update)
  qed
  then show "\<exists>rank :: nat \<Rightarrow> nat. \<forall>i j. (i, j) \<in> req_graph es \<and> dfs_color ?s' ! i = Black \<longrightarrow>
        dfs_color ?s' ! j = Black \<and> rank j < rank i"
    unfolding f by blast
qed

text \<open>The run keeps the invariant; an early return is a rendered cycle of the graph, a normal
  return leaves the stack empty.\<close>

lemma drop_Cons_nth: "drop k xs = x # ys \<Longrightarrow> k < length xs \<and> xs ! k = x"
  by (metis drop_eq_Nil2 leI list.discI list.inject Cons_nth_drop_Suc)

lemma renderSelected_nonempty [simp]: "renderSelected e \<noteq> []"
  by (simp add: renderSelected_def)

lemma renderChain_snoc:
  "renderChain es acc (p @ [i]) =
     (if renderChain es acc p = [] then renderSelected (es ! i)
      else renderChain es acc p @ '' -> '' @ renderSelected (es ! i))"
  by (induction es acc p rule: renderChain.induct) auto

lemma renderChain_nonempty: "acc \<noteq> [] \<or> p \<noteq> [] \<Longrightarrow> renderChain es acc p \<noteq> []"
  by (induction es acc p rule: renderChain.induct) auto

lemma gray_target_cycle:
  assumes inv: "dfs_inv es s" and st: "dfs_stack s = (v, k) # st"
    and t: "dfs_color s ! t = Gray" "(v, t) \<in> req_graph es"
  defines "p \<equiv> drop (dfs_pos s ! t) (dfs_path s)"
  shows "is_cycle (req_graph es) p \<and> hd p = t"
proof -
  note D = dfs_invD [OF inv]
  have "t \<in> set (dfs_path s)" using D(5) t by (auto simp: req_graph_def)
  then obtain i where i: "i < length (dfs_path s)" "dfs_path s ! i = t"
    by (auto simp: in_set_conv_nth)
  then have pos: "dfs_pos s ! t = i" using D(6) by auto
  have "last p = v" using i pos D(3) st by (simp add: p_def last_drop)
  moreover have "hd p = t" using i pos by (simp add: p_def hd_drop_conv_nth)
  moreover have "(p ! j, p ! Suc j) \<in> req_graph es" if "Suc j < length p" for j
    using that frames_chain [OF D(7), of "i + j"] D(3) pos by (simp add: p_def)
  ultimately show ?thesis using i pos t by (simp add: is_cycle_def p_def)
qed

definition dfs_post :: "build_list_entry list \<Rightarrow> dfs \<Rightarrow> string + dfs \<Rightarrow> bool" where
  "dfs_post es s r \<longleftrightarrow>
     (case r of
        Inl c \<Rightarrow> (\<exists>p. is_cycle (req_graph es) p \<and> c = renderChain es [] (p @ [hd p]))
      | Inr s' \<Rightarrow> dfs_inv es s' \<and> dfs_stack s' = [] \<and>
          (\<forall>i < length es. dfs_color s ! i \<noteq> White \<longrightarrow> dfs_color s' ! i \<noteq> White))"

lemma dfs_post_step:
  assumes "dfs_post es s2 r"
    and "\<And>i. i < length es \<Longrightarrow> dfs_color s ! i \<noteq> White \<Longrightarrow> dfs_color s2 ! i \<noteq> White"
  shows "dfs_post es s r"
  using assms unfolding dfs_post_def by (cases r) auto

text \<open>One equation per branch of the loop body.\<close>

lemma dfs_run_pop:
  assumes "dfs_stack s = (v, k) # st" and "drop k (ble_requires (es ! v)) = []"
  shows "dfs_run es ix s = dfs_run es ix (dfs_pop (length es) v s)"
  using assms(2) by (subst dfs_run.simps) (simp add: assms(1))

lemma dfs_run_skip:
  assumes "dfs_stack s = (v, k) # st" and "drop k (ble_requires (es ! v)) = r # rs"
    and "map_of ix (req_mod r) = None \<or> (\<exists>t. map_of ix (req_mod r) = Some t \<and> dfs_color s ! t = Black)"
  shows "dfs_run es ix s = dfs_run es ix (s\<lparr>dfs_stack := (v, Suc k) # st\<rparr>)"
  using assms(3) by (subst dfs_run.simps) (auto simp: assms(1,2) Let_def)

lemma dfs_run_push:
  assumes "dfs_stack s = (v, k) # st" and "drop k (ble_requires (es ! v)) = r # rs"
    and "map_of ix (req_mod r) = Some t" "t < length (dfs_color s)" "dfs_color s ! t = White"
  shows "dfs_run es ix s = dfs_run es ix (dfs_push t (s\<lparr>dfs_stack := (v, Suc k) # st\<rparr>))"
  by (subst dfs_run.simps) (simp add: assms Let_def)

lemma dfs_run_cycle:
  assumes "dfs_stack s = (v, k) # st" and "drop k (ble_requires (es ! v)) = r # rs"
    and "map_of ix (req_mod r) = Some t" "dfs_color s ! t = Gray"
  shows "dfs_run es ix s =
    Inl (renderChain es [] (drop (dfs_pos s ! t) (dfs_path s)) @ '' -> '' @ renderSelected (es ! t))"
  by (subst dfs_run.simps) (simp add: assms Let_def)

lemma dfs_run_correct: "dfs_inv es s \<Longrightarrow> ix = indexByModule es \<Longrightarrow> dfs_post es s (dfs_run es ix s)"
proof (induction es ix s rule: dfs_run.induct)
  case (1 es ix s)
  note inv = "1.prems"(1) and ix = "1.prems"(2)
  note D = dfs_invD [OF inv]
  show ?case
  proof (cases "dfs_stack s")
    case Nil
    with inv show ?thesis by (simp add: dfs_run.simps [of es ix s] dfs_post_def)
  next
    case (Cons a st)
    obtain v k where a: "a = (v, k)" by (cases a)
    note st = Cons [unfolded a] and top = dfs_inv_top [OF inv Cons [unfolded a]]
    show ?thesis
    proof (cases "drop k (ble_requires (es ! v))")
      case Nil
      have "dfs_inv es (dfs_pop (length es) v s)" using dfs_inv_pop [OF inv st] Nil by simp
      from "1.IH"(1) [OF st refl Nil this ix] show ?thesis
        unfolding dfs_run_pop [OF st Nil]
        by (rule dfs_post_step) (simp add: dfs_pop_def nth_list_update D(1) top(1))
    next
      case (Cons r rs)
      then have r: "k < length (ble_requires (es ! v))" "ble_requires (es ! v) ! k = r"
        using drop_Cons_nth [OF Cons] by simp_all
      let ?s1 = "s\<lparr>dfs_stack := (v, Suc k) # st\<rparr>"
      show ?thesis
      proof (cases "map_of ix (req_mod r)")
        case None
        have "dfs_inv es ?s1" using dfs_inv_skip [OF inv st r(1)] None ix r by simp
        from "1.IH"(2) [OF st refl Cons refl None this ix]
        have "dfs_post es ?s1 (dfs_run es ix ?s1)" .
        then show ?thesis
          unfolding dfs_run_skip [OF st Cons disjI1 [OF None]] by (rule dfs_post_step) simp
      next
        case (Some t)
        have t: "t < length es" using Some ix indexByModule_bound by blast
        then have tc: "t < length (dfs_color s)" using D(1) by simp
        have e: "(v, t) \<in> req_graph es" using Some ix r t top by (auto simp: req_graph_def)
        show ?thesis
        proof (cases "dfs_color s ! t")
          case White
          have "\<exists>v k st r. dfs_stack s = (v, k) # st \<and> ble_requires (es ! v) ! k = r \<and>
              k < length (ble_requires (es ! v)) \<and> map_of (indexByModule es) (req_mod r) = Some t"
            using st r Some ix by blast
          from dfs_inv_push [OF inv t White disjI2 [OF this]] st
          have "dfs_inv es (dfs_push t ?s1)" by simp
          from "1.IH"(3) [OF st refl Cons refl Some conjI [OF tc White] this ix]
          have "dfs_post es (dfs_push t ?s1) (dfs_run es ix (dfs_push t ?s1))" .
          then show ?thesis
            unfolding dfs_run_push [OF st Cons Some tc White]
            by (rule dfs_post_step) (simp add: dfs_push_def nth_list_update tc)
        next
          case Gray
          let ?p = "drop (dfs_pos s ! t) (dfs_path s)"
          have p: "is_cycle (req_graph es) ?p" "hd ?p = t"
            using gray_target_cycle [OF inv st Gray e] by auto
          have ne: "renderChain es [] ?p \<noteq> []"
            using p(1) by (intro renderChain_nonempty) (simp add: is_cycle_def)
          have eq: "dfs_run es ix s = Inl (renderChain es [] (?p @ [hd ?p]))"
            unfolding dfs_run_cycle [OF st Cons Some Gray] by (simp only: renderChain_snoc p(2) ne if_False)
          show ?thesis unfolding eq dfs_post_def using p(1) by (auto simp only: sum.case)
        next
          case Black
          have "dfs_inv es ?s1" using dfs_inv_skip [OF inv st r(1)] Some ix r Black by simp
          moreover have "\<not> (t < length (dfs_color s) \<and> dfs_color s ! t = White)" "dfs_color s ! t \<noteq> Gray"
            using Black by simp_all
          ultimately have "dfs_post es ?s1 (dfs_run es ix ?s1)"
            using "1.IH"(4) [OF st refl Cons refl Some _ _ _ ix] by blast
          moreover have "dfs_run es ix s = dfs_run es ix ?s1"
            using dfs_run_skip [OF st Cons disjI2] Some Black by blast
          ultimately show ?thesis using dfs_post_step [of es ?s1 _ s] by simp
        qed
      qed
    qed
  qed
qed

lemma dfs_inv_final:
  assumes "dfs_inv es s" and "\<forall>i < length es. dfs_color s ! i = Black"
  shows "acyclic (req_graph es)"
proof -
  have "\<And>i j. (i, j) \<in> req_graph es \<Longrightarrow> dfs_color s ! i = Black"
    using assms(2) by (auto simp: req_graph_def)
  with dfs_invD(8) [OF assms(1)] obtain rank :: "nat \<Rightarrow> nat" where
    "\<And>i j. (i, j) \<in> req_graph es \<Longrightarrow> rank j < rank i" by blast
  then have "(req_graph es)\<inverse> \<subseteq> measure rank" by auto
  then show ?thesis by (metis wf_measure wf_subset wf_acyclic acyclic_converse)
qed

lemma dfs_starts_correct:
  assumes "dfs_inv es s" and "dfs_stack s = []" and "set starts \<subseteq> {..<length es}"
    and "\<forall>i < length es. i \<in> set starts \<or> dfs_color s ! i \<noteq> White"
  shows "let c = dfs_starts es (indexByModule es) starts s in
    (c = [] \<and> acyclic (req_graph es)) \<or>
    (\<exists>p. is_cycle (req_graph es) p \<and> c = renderChain es [] (p @ [hd p]))"
  using assms
proof (induction starts arbitrary: s)
  case Nil
  have "dfs_color s ! i = Black" if "i < length es" for i
    using dfs_invD(5) [OF Nil.prems(1), of i] dfs_invD(3) [OF Nil.prems(1)] Nil.prems(2,4) that
    by (cases "dfs_color s ! i") auto
  then show ?case using dfs_inv_final [OF Nil.prems(1)] by simp
next
  case (Cons v starts)
  show ?case
  proof (cases "dfs_color s ! v = White")
    case True
    have "dfs_inv es (dfs_push v s)"
      using dfs_inv_push [OF Cons.prems(1) _ True] Cons.prems(2,3) by simp
    from dfs_run_correct [OF this refl] have post:
      "dfs_post es (dfs_push v s) (dfs_run es (indexByModule es) (dfs_push v s))" .
    show ?thesis
    proof (cases "dfs_run es (indexByModule es) (dfs_push v s)")
      case (Inl c)
      with post True show ?thesis by (simp add: dfs_post_def)
    next
      case (Inr s')
      have "\<forall>i < length es. i \<in> set starts \<or> dfs_color (dfs_push v s) ! i \<noteq> White"
        using Cons.prems(3,4) dfs_invD(1) [OF Cons.prems(1)]
        by (auto simp: dfs_push_def nth_list_update)
      with post Inr have "dfs_inv es s'" "dfs_stack s' = []"
        "\<forall>i < length es. i \<in> set starts \<or> dfs_color s' ! i \<noteq> White"
        by (auto simp: dfs_post_def)
      from Cons.IH [OF this(1,2) _ this(3)] Cons.prems(3) Inr True show ?thesis by simp
    qed
  next
    case False
    with Cons.prems Cons.IH [of s] show ?thesis by (auto simp: Let_def)
  qed
qed

lemma dfs_inv_init:
  "dfs_inv es \<lparr>dfs_color = replicate (length es) White, dfs_path = [],
        dfs_pos = replicate (length es) (length es), dfs_stack = []\<rparr>"
  by (auto intro!: dfs_invI simp: req_graph_def)

lemma findRequireCycle_cases:
  "(findRequireCycle es = [] \<and> acyclic (req_graph es)) \<or>
   (\<exists>p. is_cycle (req_graph es) p \<and> findRequireCycle es = renderChain es [] (p @ [hd p]))"
proof -
  have "set [0..<length es] \<subseteq> {..<length es}" by auto
  from dfs_starts_correct [OF dfs_inv_init _ this] show ?thesis
    by (simp add: findRequireCycle_def Let_def)
qed


end
