(* ===== verification/Mvs.thy ===== *)
theory Mvs
  imports Require_Cycle
begin

text \<open>
  Minimal version selection, \<open>tools/trident/mvs.cpp\<close>. The work list loop of \<open>selectVersions\<close> is
  \<open>mvs_loop\<close>: its counter is the number of steps that are left before the cap \<open>kMaxSteps\<close>, the
  queue is the part of the source's vector that has not been read, and the map of entries is an
  ordered map. The module provider, an abstract interface of \<open>tools/trident/provider.hpp\<close>, is the
  parameter \<open>manifestOf\<close>; nothing is assumed of it. Each error return of the source is a
  constructor of \<open>mvs_error\<close>.
\<close>

section \<open>Operations\<close>

datatype dep_error = BadDepVersion string semver_error

datatype mvs_error =
    NotConverged
  | CannotResolve module_id version string
  | BadRequire module_id version dep_error
  | RequireCycle string

type_synonym provider = "module_id \<Rightarrow> version \<Rightarrow> string + project_manifest"
type_synonym mvs_entries = "(module_id, build_list_entry) omap"

definition dependencyToRequire :: "dependency \<Rightarrow> dep_error + require" where
  "dependencyToRequire d =
     (case parseSemVer (dep_version d) of
        Inl e \<Rightarrow> Inl (BadDepVersion (dep_path d) e)
      | Inr v \<Rightarrow>
          (let identityMajor = (if ver_major v \<le> 1 then 1 else ver_major v)
           in Inr \<lparr>req_mod = ModuleId (dep_path d) identityMajor, req_min = v,
                   req_as = dep_as d, req_dev = dep_dev d\<rparr>))"

fun expandRequires :: "dependency list \<Rightarrow> dep_error + require list" where
  "expandRequires [] = Inr []"
| "expandRequires (d # ds) =
     (case dependencyToRequire d of
        Inl e \<Rightarrow> Inl e
      | Inr r \<Rightarrow> (case expandRequires ds of Inl e \<Rightarrow> Inl e | Inr rs \<Rightarrow> Inr (r # rs)))"

text \<open>Fetching the manifest of the selected version of \<open>m\<close> and storing the entry with its
  requires; the second component are the requires to append to the queue.\<close>

definition mvs_fetch ::
  "provider \<Rightarrow> mvs_entries \<Rightarrow> build_list_entry \<Rightarrow> mvs_error + (mvs_entries \<times> require list)" where
  "mvs_fetch manifestOf es e =
     (case manifestOf (ble_mod e) (ble_selected e) of
        Inl err \<Rightarrow> Inl (CannotResolve (ble_mod e) (ble_selected e) err)
      | Inr pm \<Rightarrow>
          (case expandRequires (man_deps pm) of
             Inl err \<Rightarrow> Inl (BadRequire (ble_mod e) (ble_selected e) err)
           | Inr subs \<Rightarrow> Inr (om_update (ble_mod e) (e\<lparr>ble_requires := subs\<rparr>) es, subs)))"

definition mvs_step ::
  "provider \<Rightarrow> mvs_entries \<Rightarrow> require \<Rightarrow> mvs_error + (mvs_entries \<times> require list)" where
  "mvs_step manifestOf es r =
     (case map_of es (req_mod r) of
        None \<Rightarrow>
          mvs_fetch manifestOf es
            \<lparr>ble_mod = req_mod r, ble_selected = req_min r, ble_contentHash = [],
             ble_storeDir = [], ble_requires = []\<rparr>
      | Some e \<Rightarrow>
          if compareSemVer (req_min r) (ble_selected e) > 0
          then mvs_fetch manifestOf es (e\<lparr>ble_selected := req_min r\<rparr>)
          else Inr (es, []))"

fun mvs_loop ::
  "provider \<Rightarrow> nat \<Rightarrow> mvs_entries \<Rightarrow> require list \<Rightarrow> mvs_error + mvs_entries" where
  "mvs_loop manifestOf n es [] = Inr es"
| "mvs_loop manifestOf 0 es (r # queue) = Inl NotConverged"
| "mvs_loop manifestOf (Suc n) es (r # queue) =
     (case mvs_step manifestOf es r of
        Inl e \<Rightarrow> Inl e
      | Inr (es', subs) \<Rightarrow> mvs_loop manifestOf n es' (queue @ subs))"

definition kMaxSteps :: nat where
  "kMaxSteps = 100000"

definition selectVersions :: "require list \<Rightarrow> provider \<Rightarrow> mvs_error + build_list_entry list" where
  "selectVersions rootRequires manifestOf =
     (case mvs_loop manifestOf kMaxSteps [] rootRequires of
        Inl e \<Rightarrow> Inl e
      | Inr entries \<Rightarrow>
          (let buildList = map snd entries;
               cycle = findRequireCycle buildList
           in if cycle \<noteq> [] then Inl (RequireCycle cycle) else Inr buildList))"

section \<open>Specification\<close>

text \<open>What a provider says a module version requires.\<close>

definition requiresOf :: "provider \<Rightarrow> module_id \<Rightarrow> version \<Rightarrow> require list option" where
  "requiresOf manifestOf m v =
     (case manifestOf m v of
        Inl _ \<Rightarrow> None
      | Inr pm \<Rightarrow> (case expandRequires (man_deps pm) of Inl _ \<Rightarrow> None | Inr rs \<Rightarrow> Some rs))"

text \<open>The module versions some chain of requirements from the root asks for.\<close>

inductive demanded :: "provider \<Rightarrow> require list \<Rightarrow> module_id \<Rightarrow> version \<Rightarrow> bool"
  for manifestOf roots where
  root: "r \<in> set roots \<Longrightarrow> demanded manifestOf roots (req_mod r) (req_min r)"
| step: "demanded manifestOf roots m v \<Longrightarrow> requiresOf manifestOf m v = Some rs \<Longrightarrow> r \<in> set rs \<Longrightarrow>
     demanded manifestOf roots (req_mod r) (req_min r)"

text \<open>A requirement is met by a selection that has its module at its minimum or above.\<close>

definition met :: "(module_id \<Rightarrow> build_list_entry option) \<Rightarrow> require \<Rightarrow> bool" where
  "met sel r \<longleftrightarrow> (\<exists>e. sel (req_mod r) = Some e \<and> req_min r \<le> ble_selected e)"

text \<open>A newer version of a module requires at least what an older one requires.\<close>

definition monotone_provider :: "provider \<Rightarrow> bool" where
  "monotone_provider manifestOf \<longleftrightarrow>
     (\<forall>m v w rs rs' r. v \<le> w \<and> requiresOf manifestOf m v = Some rs \<and>
        requiresOf manifestOf m w = Some rs' \<and> r \<in> set rs \<longrightarrow>
        (\<exists>r' \<in> set rs'. req_mod r' = req_mod r \<and> req_min r \<le> req_min r'))"

definition mvs_inv :: "provider \<Rightarrow> require list \<Rightarrow> mvs_entries \<Rightarrow> require list \<Rightarrow> bool" where
  "mvs_inv manifestOf roots es queue \<longleftrightarrow>
     om_inv es \<and>
     (\<forall>r \<in> set queue. demanded manifestOf roots (req_mod r) (req_min r)) \<and>
     (\<forall>r \<in> set roots. r \<in> set queue \<or> met (map_of es) r) \<and>
     (\<forall>m e. map_of es m = Some e \<longrightarrow>
        ble_mod e = m \<and> demanded manifestOf roots m (ble_selected e) \<and>
        ble_contentHash e = [] \<and> ble_storeDir e = [] \<and>
        requiresOf manifestOf m (ble_selected e) = Some (ble_requires e) \<and>
        (\<forall>r \<in> set (ble_requires e). r \<in> set queue \<or> met (map_of es) r))"

section \<open>The invariant of the work list\<close>

lemma mvs_fetch_Inr:
  "mvs_fetch manifestOf es e = Inr (es', subs) \<longleftrightarrow>
     requiresOf manifestOf (ble_mod e) (ble_selected e) = Some subs \<and>
     es' = om_update (ble_mod e) (e\<lparr>ble_requires := subs\<rparr>) es"
  by (auto simp: mvs_fetch_def requiresOf_def split: sum.splits)

text \<open>A step either leaves the entries alone, because the requirement is already met, or stores
  an entry that selects exactly the requirement's minimum.\<close>

lemma mvs_step_cases:
  assumes "mvs_step manifestOf es r = Inr (es', subs)"
    and mods: "\<And>m e. map_of es m = Some e \<Longrightarrow> ble_mod e = m \<and> ble_contentHash e = [] \<and> ble_storeDir e = []"
  obtains (keep) "es' = es" "subs = []" "met (map_of es) r"
  | (fetch) e where "es' = om_update (req_mod r) e es" "requiresOf manifestOf (req_mod r) (req_min r) = Some subs"
      "\<not> met (map_of es) r" "e = \<lparr>ble_mod = req_mod r, ble_selected = req_min r, ble_contentHash = [],
             ble_storeDir = [], ble_requires = subs\<rparr>"
proof (cases "met (map_of es) r")
  case True
  with assms show ?thesis
    by (intro keep) (auto simp: mvs_step_def met_def compareSemVer_greater split: if_splits)
next
  case False
  show ?thesis
  proof (cases "map_of es (req_mod r)")
    case None
    with assms(1) False show ?thesis
      by (intro fetch) (auto simp: mvs_step_def mvs_fetch_Inr)
  next
    case (Some e)
    with False have "ble_selected e < req_min r" by (auto simp: met_def)
    with assms(1) Some False mods [OF Some] show ?thesis
      by (cases e, intro fetch) (auto simp: mvs_step_def mvs_fetch_Inr compareSemVer_greater)
  qed
qed

lemma met_update:
  assumes "om_inv es" "met (map_of es) q" "\<not> met (map_of es) r" "ble_selected e = req_min r"
  shows "met (map_of (om_update (req_mod r) e es)) q"
  using assms by (auto simp: met_def om_update_lookup)

lemma mvs_step_inv:
  assumes inv: "mvs_inv manifestOf roots es (r # queue)"
    and step: "mvs_step manifestOf es r = Inr (es', subs)"
  shows "mvs_inv manifestOf roots es' (queue @ subs)"
proof -
  have om: "om_inv es"
    and dem: "demanded manifestOf roots (req_mod r) (req_min r)"
    and q: "\<And>q. q \<in> set queue \<Longrightarrow> demanded manifestOf roots (req_mod q) (req_min q)"
    and rt: "\<And>q. q \<in> set roots \<Longrightarrow> q = r \<or> q \<in> set queue \<or> met (map_of es) q"
    and en: "\<And>m e. map_of es m = Some e \<Longrightarrow>
        ble_mod e = m \<and> demanded manifestOf roots m (ble_selected e) \<and>
        ble_contentHash e = [] \<and> ble_storeDir e = [] \<and>
        requiresOf manifestOf m (ble_selected e) = Some (ble_requires e) \<and>
        (\<forall>q \<in> set (ble_requires e). q = r \<or> q \<in> set queue \<or> met (map_of es) q)"
    using inv by (auto simp: mvs_inv_def)
  have mods: "\<And>m e. map_of es m = Some e \<Longrightarrow> ble_mod e = m \<and> ble_contentHash e = [] \<and> ble_storeDir e = []"
    using en by blast
  show ?thesis
  proof (rule mvs_step_cases [OF step mods])
    assume "es' = es" "subs = []" "met (map_of es) r"
    moreover have "q \<in> set queue \<or> met (map_of es) q"
      if "map_of es m = Some e" "q \<in> set (ble_requires e)" for m e q
      using en [OF that(1)] that(2) calculation(3) by auto
    moreover have "q \<in> set queue \<or> met (map_of es) q" if "q \<in> set roots" for q
      using rt [OF that] calculation(3) by auto
    ultimately show ?thesis using om dem q rt en by (auto simp: mvs_inv_def)
  next
    fix e
    assume fetch: "es' = om_update (req_mod r) e es"
      "requiresOf manifestOf (req_mod r) (req_min r) = Some subs" "\<not> met (map_of es) r"
      "e = \<lparr>ble_mod = req_mod r, ble_selected = req_min r, ble_contentHash = [],
             ble_storeDir = [], ble_requires = subs\<rparr>"
    have up: "met (map_of es') q" if "q = r \<or> met (map_of es) q" for q
      using that fetch om met_update [OF om _ fetch(3), of q e]
      by (auto simp: met_def om_update_lookup)
    have sub: "demanded manifestOf roots (req_mod q) (req_min q)" if "q \<in> set subs" for q
      using demanded.step [OF dem fetch(2) that] .
    show ?thesis
      unfolding mvs_inv_def
    proof (intro conjI allI impI ballI, goal_cases)
      case 1 show ?case using fetch om om_update_inv by simp
    next
      case (2 q) then show ?case using q sub by auto
    next
      case (3 q) then show ?case using rt up by auto
    qed (use fetch om dem en up in \<open>auto simp: om_update_lookup split: if_splits\<close>)
  qed
qed

lemma mvs_loop_inv:
  "mvs_inv manifestOf roots es queue \<Longrightarrow> mvs_loop manifestOf n es queue = Inr es' \<Longrightarrow>
   mvs_inv manifestOf roots es' []"
  by (induction manifestOf n es queue rule: mvs_loop.induct)
    (auto split: sum.splits dest: mvs_step_inv)

lemma mvs_inv_init: "mvs_inv manifestOf roots [] roots"
  by (auto simp: mvs_inv_def om.inv_empty intro: demanded.root)

lemma selectVersions_Inr:
  assumes "selectVersions roots manifestOf = Inr bl"
  obtains es where "mvs_inv manifestOf roots es []" "bl = map snd es" "findRequireCycle bl = []"
proof -
  from assms obtain es where es: "mvs_loop manifestOf kMaxSteps [] roots = Inr es" "bl = map snd es"
    "findRequireCycle bl = []"
    by (auto simp: selectVersions_def Let_def split: sum.splits if_splits)
  from that [OF mvs_loop_inv [OF mvs_inv_init es(1)] es(2,3)] show thesis .
qed

lemma ble_eq_iff:
  "e = \<lparr>ble_mod = m, ble_selected = v, ble_contentHash = h, ble_storeDir = d, ble_requires = rs\<rparr> \<longleftrightarrow>
     ble_mod e = m \<and> ble_selected e = v \<and> ble_contentHash e = h \<and> ble_storeDir e = d \<and> ble_requires e = rs"
  by (cases e) auto

text \<open>The build list as a map from modules to entries.\<close>

definition bl_map :: "build_list_entry list \<Rightarrow> module_id \<Rightarrow> build_list_entry option" where
  "bl_map bl m = map_of (map (\<lambda>e. (ble_mod e, e)) bl) m"

lemma bl_map_entries:
  assumes "mvs_inv manifestOf roots es []" and "bl = map snd es"
  shows "map (\<lambda>e. (ble_mod e, e)) bl = es" "bl_map bl = map_of es"
proof -
  have "ble_mod e = m" if "(m, e) \<in> set es" for m e
    using assms(1) that om.iter_mem [of es m e] by (auto simp: mvs_inv_def)
  then show "map (\<lambda>e. (ble_mod e, e)) bl = es" using assms(2) by (auto intro: map_idI)
  then show "bl_map bl = map_of es" by (simp add: bl_map_def fun_eq_iff)
qed

lemma bl_mem:
  assumes "mvs_inv manifestOf roots es []" and "bl = map snd es"
  shows "e \<in> set bl \<longleftrightarrow> (\<exists>m. map_of es m = Some e)"
proof -
  have "e \<in> set bl \<longleftrightarrow> (\<exists>m. (m, e) \<in> set es)" using assms(2) by force
  also have "\<dots> \<longleftrightarrow> (\<exists>m. map_of es m = Some e)" using assms(1) by (auto simp: mvs_inv_def om.iter_mem)
  finally show ?thesis .
qed

text \<open>
  C1. A successful selection is a consistent, supported and well-ordered build list: it is strictly
  ordered by module identity (so each module occurs once); each entry records the requires of
  exactly the version it selects; every requirement of the root and of every entry is met by the
  list; each selected version is one that some chain of requirements from the root asks for (nothing
  newer is ever picked); and the require graph of the list is acyclic.
\<close>

theorem selectVersions_sound:
  assumes "selectVersions roots manifestOf = Inr bl"
  shows "sorted_wrt (<) (map ble_mod bl) \<and>
    (\<forall>e \<in> set bl. requiresOf manifestOf (ble_mod e) (ble_selected e) = Some (ble_requires e)) \<and>
    (\<forall>r \<in> set roots \<union> (\<Union>e \<in> set bl. set (ble_requires e)). met (bl_map bl) r) \<and>
    (\<forall>e \<in> set bl. demanded manifestOf roots (ble_mod e) (ble_selected e)) \<and>
    acyclic (req_graph bl)"
proof -
  from assms obtain es where es: "mvs_inv manifestOf roots es []" "bl = map snd es"
    "findRequireCycle bl = []" by (rule selectVersions_Inr)
  note b = bl_map_entries [OF es(1,2)] and m = bl_mem [OF es(1,2)]
  have "map ble_mod bl = map fst es" by (subst b(1) [symmetric]) simp
  then have "sorted_wrt (<) (map ble_mod bl)" using es(1) by (simp add: mvs_inv_def om_inv_def)
  moreover have "acyclic (req_graph bl)"
    using findRequireCycle_cases [of bl] es(3) renderChain_nonempty [of "[]" "p @ [hd p]" bl for p]
    by (metis snoc_eq_iff_butlast)
  ultimately show ?thesis
    using es(1) unfolding b(2) by (auto simp: mvs_inv_def m)
qed

lemma demanded_met:
  assumes mono: "monotone_provider manifestOf" and inv: "mvs_inv manifestOf roots es []"
  shows "demanded manifestOf roots m v \<Longrightarrow> \<exists>e. map_of es m = Some e \<and> v \<le> ble_selected e"
proof (induction rule: demanded.induct)
  case (root r)
  with inv show ?case by (auto simp: mvs_inv_def met_def)
next
  case (step m v rs r)
  then obtain e where e: "map_of es m = Some e" "v \<le> ble_selected e" by blast
  with inv have "requiresOf manifestOf m (ble_selected e) = Some (ble_requires e)"
    and met: "\<And>q. q \<in> set (ble_requires e) \<Longrightarrow> met (map_of es) q" by (auto simp: mvs_inv_def)
  with mono e(2) step(2,3) obtain r' where
    "r' \<in> set (ble_requires e)" "req_mod r' = req_mod r" "req_min r \<le> req_min r'"
    unfolding monotone_provider_def by blast
  with met [of r'] show ?case by (auto simp: met_def intro: order_trans)
qed

lemma selection_characterized:
  assumes mono: "monotone_provider manifestOf" and inv: "mvs_inv manifestOf roots es []"
  shows "map_of es m = Some e \<longleftrightarrow>
     demanded manifestOf roots m (ble_selected e) \<and>
     (\<forall>v. demanded manifestOf roots m v \<longrightarrow> v \<le> ble_selected e) \<and>
     e = \<lparr>ble_mod = m, ble_selected = ble_selected e, ble_contentHash = [], ble_storeDir = [],
          ble_requires = the (requiresOf manifestOf m (ble_selected e))\<rparr>" (is "?l \<longleftrightarrow> ?r")
proof
  assume l: ?l
  then have "demanded manifestOf roots m v \<Longrightarrow> v \<le> ble_selected e" for v
    using demanded_met [OF mono inv, of m v] by auto
  with l inv show ?r unfolding ble_eq_iff by (auto simp: mvs_inv_def)
next
  assume r: ?r
  from r demanded_met [OF mono inv] obtain e' where
    e': "map_of es m = Some e'" "ble_selected e \<le> ble_selected e'" by blast
  with inv have "demanded manifestOf roots m (ble_selected e')" by (simp add: mvs_inv_def)
  with r e'(2) have "ble_selected e' = ble_selected e" by (simp add: order_antisym)
  moreover from e'(1) inv have "e' = \<lparr>ble_mod = m, ble_selected = ble_selected e',
      ble_contentHash = [], ble_storeDir = [],
      ble_requires = the (requiresOf manifestOf m (ble_selected e'))\<rparr>"
    unfolding ble_eq_iff by (auto simp: mvs_inv_def)
  ultimately have "e' = e" using r by metis
  with e'(1) show ?l by simp
qed

text \<open>
  C11. For a provider whose newer versions require at least what their older versions require, the
  result is the minimal version selection of the design: a module is in the build list exactly when
  it is demanded, at the greatest version any demanded requirement names.
\<close>

theorem selectVersions_max:
  assumes "monotone_provider manifestOf" and "selectVersions roots manifestOf = Inr bl"
  shows "(\<exists>e \<in> set bl. ble_mod e = m \<and> ble_selected e = v) \<longleftrightarrow>
     demanded manifestOf roots m v \<and> (\<forall>w. demanded manifestOf roots m w \<longrightarrow> w \<le> v)"
proof -
  from assms(2) obtain es where es: "mvs_inv manifestOf roots es []" "bl = map snd es"
    by (rule selectVersions_Inr)
  have "(\<exists>e \<in> set bl. ble_mod e = m \<and> ble_selected e = v) \<longleftrightarrow>
        (\<exists>e. map_of es m = Some e \<and> ble_selected e = v)"
    using es(1) bl_mem [OF es(1,2)] unfolding mvs_inv_def by (metis (no_types, lifting))
  also have "\<dots> \<longleftrightarrow> demanded manifestOf roots m v \<and> (\<forall>w. demanded manifestOf roots m w \<longrightarrow> w \<le> v)"
    unfolding selection_characterized [OF assms(1) es(1)]
    by (auto intro!: exI [of _ "\<lparr>ble_mod = m, ble_selected = v, ble_contentHash = [], ble_storeDir = [],
          ble_requires = the (requiresOf manifestOf m v)\<rparr>"])
  finally show ?thesis .
qed

lemma demanded_set_roots:
  "demanded manifestOf roots m v \<Longrightarrow> set roots = set roots' \<Longrightarrow> demanded manifestOf roots' m v"
  by (induction rule: demanded.induct) (auto intro: demanded.intros)

text \<open>
  C19. With such a provider the build list does not depend on the order (or repetition) in which
  the root lists its requirements: two successful runs over the same set of root requirements return
  the same list.
\<close>

theorem selectVersions_order_independent:
  assumes "monotone_provider manifestOf" and "set roots = set roots'"
    and "selectVersions roots manifestOf = Inr bl" and "selectVersions roots' manifestOf = Inr bl'"
  shows "bl = bl'"
proof -
  from assms(3) obtain es where es: "mvs_inv manifestOf roots es []" "bl = map snd es"
    by (rule selectVersions_Inr)
  from assms(4) obtain es' where es': "mvs_inv manifestOf roots' es' []" "bl' = map snd es'"
    by (rule selectVersions_Inr)
  have "demanded manifestOf roots = demanded manifestOf roots'"
    using demanded_set_roots assms(2) by (intro ext) metis
  then have "map_of es m = Some e \<longleftrightarrow> map_of es' m = Some e" for m e
    by (simp only: selection_characterized [OF assms(1) es(1)] selection_characterized [OF assms(1) es'(1)])
  then have "map_of es = map_of es'" by (intro ext) (metis not_None_eq)
  moreover have "om_inv es" "om_inv es'" using es(1) es'(1) by (auto simp: mvs_inv_def)
  ultimately have "es = es'" by (rule om.iter_unique [rotated 2])
  with es(2) es'(2) show ?thesis by simp
qed

section \<open>Convergence\<close>

definition need :: "provider \<Rightarrow> module_id \<times> version \<Rightarrow> nat" where
  "need manifestOf mv = (case requiresOf manifestOf (fst mv) (snd mv) of None \<Rightarrow> 0 | Some rs \<Rightarrow> length rs)"

text \<open>The module versions of \<open>D\<close> the loop may still fetch.\<close>

definition unfetched :: "(module_id \<times> version) set \<Rightarrow> mvs_entries \<Rightarrow> (module_id \<times> version) set" where
  "unfetched D es = {(m, v) \<in> D. \<forall>e. map_of es m = Some e \<longrightarrow> ble_selected e < v}"

lemma mvs_step_total:
  assumes "requiresOf manifestOf (req_mod r) (req_min r) \<noteq> None"
    and "\<And>e. map_of es (req_mod r) = Some e \<Longrightarrow> ble_mod e = req_mod r"
  shows "\<exists>es' subs. mvs_step manifestOf es r = Inr (es', subs)"
  using assms
  by (auto simp: mvs_step_def mvs_fetch_def requiresOf_def split: option.splits sum.splits)

lemma unfetched_sum:
  assumes "finite D" and "om_inv es" and "(req_mod r, req_min r) \<in> D" and "\<not> met (map_of es) r"
    and "requiresOf manifestOf (req_mod r) (req_min r) = Some subs" and "ble_selected e = req_min r"
  shows "sum (need manifestOf) (unfetched D (om_update (req_mod r) e es)) + length subs
    \<le> sum (need manifestOf) (unfetched D es)"
proof -
  let ?x = "(req_mod r, req_min r)" and ?U = "unfetched D es"
  have fin: "finite ?U" using assms(1) by (auto simp: unfetched_def intro: finite_subset [of _ D])
  have x: "?x \<in> ?U" using assms(3,4) by (auto simp: unfetched_def met_def)
  have "unfetched D (om_update (req_mod r) e es) \<subseteq> ?U - {?x}"
    using assms(2,4,6) by (auto simp: unfetched_def om_update_lookup met_def split: if_splits)
  then have "sum (need manifestOf) (unfetched D (om_update (req_mod r) e es)) \<le> sum (need manifestOf) (?U - {?x})"
    using fin by (intro sum_mono2) auto
  moreover have "sum (need manifestOf) ?U = need manifestOf ?x + sum (need manifestOf) (?U - {?x})"
    using fin x by (rule sum.remove)
  ultimately show ?thesis using assms(5) by (simp add: need_def)
qed

lemma mvs_loop_total:
  assumes "finite D" and dem: "\<And>m v. demanded manifestOf roots m v \<Longrightarrow> (m, v) \<in> D"
    and res: "\<And>m v. demanded manifestOf roots m v \<Longrightarrow> requiresOf manifestOf m v \<noteq> None"
  shows "mvs_inv manifestOf roots es queue \<Longrightarrow>
    length queue + sum (need manifestOf) (unfetched D es) \<le> n \<Longrightarrow>
    \<exists>es'. mvs_loop manifestOf n es queue = Inr es'"
proof (induction n arbitrary: es queue)
  case 0
  then show ?case by simp
next
  case (Suc n)
  show ?case
  proof (cases queue)
    case (Cons r queue')
    have inv: "mvs_inv manifestOf roots es (r # queue')" using Suc.prems(1) Cons by simp
    then have d: "demanded manifestOf roots (req_mod r) (req_min r)" and om: "om_inv es"
      and mods: "\<And>m e. map_of es m = Some e \<Longrightarrow> ble_mod e = m \<and> ble_contentHash e = [] \<and> ble_storeDir e = []"
      by (auto simp: mvs_inv_def)
    from mvs_step_total [OF res [OF d]] mods obtain es' subs where
      step: "mvs_step manifestOf es r = Inr (es', subs)" by blast
    have "length (queue' @ subs) + sum (need manifestOf) (unfetched D es') \<le> n"
    proof (rule mvs_step_cases [OF step mods])
      assume "es' = es" "subs = []"
      with Suc.prems(2) Cons show ?thesis by simp
    next
      fix e assume f: "es' = om_update (req_mod r) e es"
        "requiresOf manifestOf (req_mod r) (req_min r) = Some subs" "\<not> met (map_of es) r"
        "e = \<lparr>ble_mod = req_mod r, ble_selected = req_min r, ble_contentHash = [],
               ble_storeDir = [], ble_requires = subs\<rparr>"
      have "ble_selected e = req_min r" using f(4) by simp
      from unfetched_sum [OF assms(1) om dem [OF d] f(3,2) this] Suc.prems(2) Cons f(1)
      show ?thesis by simp
    qed
    from Suc.IH [OF mvs_step_inv [OF inv step] this] show ?thesis using Cons step by simp
  qed simp
qed

text \<open>
  C37. Selection converges within its step cap. When the demanded module versions form a finite set,
  every one of them resolves, and the root requirements plus the requirements of all demanded
  versions number at most \<open>kMaxSteps\<close>, the run ends with a build list or with a reported
  require cycle, never with the non-convergence error.
\<close>

theorem selectVersions_converges:
  assumes "finite D" and "\<And>m v. demanded manifestOf roots m v \<Longrightarrow> (m, v) \<in> D \<and> requiresOf manifestOf m v \<noteq> None"
    and "length roots + (\<Sum>mv \<in> D. need manifestOf mv) \<le> kMaxSteps"
  shows "(\<exists>bl. selectVersions roots manifestOf = Inr bl) \<or>
    (\<exists>c. selectVersions roots manifestOf = Inl (RequireCycle c))"
proof -
  have "unfetched D [] = D" by (auto simp: unfetched_def)
  then have "\<exists>es. mvs_loop manifestOf kMaxSteps [] roots = Inr es"
    using assms by (intro mvs_loop_total [OF assms(1) _ _ mvs_inv_init]) auto
  then show ?thesis by (force simp: selectVersions_def Let_def split: if_splits)
qed

section \<open>Concrete runs\<close>

lemma mvs_loop_more: "mvs_loop manifestOf n es queue = Inr es' \<Longrightarrow> mvs_loop manifestOf (n + k) es queue = Inr es'"
  by (induction manifestOf n es queue rule: mvs_loop.induct) (auto split: sum.splits)

lemma selectVersions_run:
  assumes "mvs_loop manifestOf n [] roots = Inr es" and "n \<le> kMaxSteps"
    and "findRequireCycle (map snd es) = []"
  shows "selectVersions roots manifestOf = Inr (map snd es)"
  using mvs_loop_more [OF assms(1), of "kMaxSteps - n"] assms(2,3)
  by (simp add: selectVersions_def Let_def)

text \<open>A project that requires \<open>h/a\<close>, whose versions all require \<open>h/b\<close> at 1.2.0.\<close>

definition demo_dep :: "string \<Rightarrow> string \<Rightarrow> dependency" where
  "demo_dep p v = dependency_default\<lparr>dep_path := p, dep_version := v\<rparr>"

definition demo_req :: "string \<Rightarrow> version \<Rightarrow> require" where
  "demo_req p v = \<lparr>req_mod = ModuleId p 1, req_min = v, req_as = [], req_dev = False\<rparr>"

definition demo_provider :: provider where
  "demo_provider m v =
     (if mod_path m = ''h/a''
      then Inr (project_manifest_default\<lparr>man_deps := [demo_dep ''h/b'' ''1.2.0'']\<rparr>)
      else Inr project_manifest_default)"

definition demo_list :: "build_list_entry list" where
  "demo_list =
     [\<lparr>ble_mod = ModuleId ''h/a'' 1, ble_selected = Version 1 0 0, ble_contentHash = [],
       ble_storeDir = [], ble_requires = [demo_req ''h/b'' (Version 1 2 0)]\<rparr>,
      \<lparr>ble_mod = ModuleId ''h/b'' 1, ble_selected = Version 1 2 0, ble_contentHash = [],
       ble_storeDir = [], ble_requires = []\<rparr>]"

lemma demo_run: "selectVersions [demo_req ''h/a'' (Version 1 0 0)] demo_provider = Inr demo_list"
proof -
  have "mvs_loop demo_provider 2 [] [demo_req ''h/a'' (Version 1 0 0)] =
      Inr (map (\<lambda>e. (ble_mod e, e)) demo_list)"
    by code_simp
  moreover have "findRequireCycle demo_list = []" by code_simp
  ultimately show ?thesis
    using selectVersions_run [of demo_provider 2] by (simp add: kMaxSteps_def comp_def)
qed

lemma demo_monotone: "monotone_provider demo_provider"
  by (auto simp: monotone_provider_def requiresOf_def demo_provider_def split: if_splits)

theorem selectVersions_sound_witness:
  "selectVersions [demo_req ''h/a'' (Version 1 0 0)] demo_provider = Inr demo_list \<and>
   met (bl_map demo_list) (demo_req ''h/b'' (Version 1 2 0)) \<and> acyclic (req_graph demo_list)"
  using demo_run selectVersions_sound [OF demo_run] by (auto simp: demo_list_def)

theorem selectVersions_max_witness:
  "monotone_provider demo_provider \<and>
   demanded demo_provider [demo_req ''h/a'' (Version 1 0 0)] (ModuleId ''h/b'' 1) (Version 1 2 0) \<and>
   \<not> demanded demo_provider [demo_req ''h/a'' (Version 1 0 0)] (ModuleId ''h/b'' 1) (Version 1 3 0)"
  using demo_monotone
    selectVersions_max [OF demo_monotone demo_run, of "ModuleId ''h/b'' 1" "Version 1 2 0"]
    selectVersions_max [OF demo_monotone demo_run, of "ModuleId ''h/b'' 1" "Version 1 3 0"]
  by (auto simp: demo_list_def less_eq_version_def less_version_def)


theorem selectVersions_order_independent_witness:
  "set [demo_req ''h/a'' (Version 1 0 0)] =
     set [demo_req ''h/a'' (Version 1 0 0), demo_req ''h/a'' (Version 1 0 0)] \<and>
   selectVersions [demo_req ''h/a'' (Version 1 0 0), demo_req ''h/a'' (Version 1 0 0)] demo_provider =
     Inr demo_list"
proof -
  let ?r = "demo_req ''h/a'' (Version 1 0 0)"
  have "mvs_loop demo_provider 3 [] [?r, ?r] = Inr (map (\<lambda>e. (ble_mod e, e)) demo_list)"
    by code_simp
  moreover have "findRequireCycle demo_list = []" by code_simp
  ultimately have two: "selectVersions [?r, ?r] demo_provider = Inr (map snd (map (\<lambda>e. (ble_mod e, e)) demo_list))"
    by (intro selectVersions_run [of demo_provider 3]) (auto simp: kMaxSteps_def comp_def)
  have eq: "set [?r] = set [?r, ?r]" by simp
  from selectVersions_order_independent [OF demo_monotone eq demo_run two] two eq show ?thesis by simp
qed

theorem selectVersions_converges_witness:
  "(\<exists>bl. selectVersions [demo_req ''h/b'' (Version 1 0 0)] demo_provider = Inr bl) \<or>
   (\<exists>c. selectVersions [demo_req ''h/b'' (Version 1 0 0)] demo_provider = Inl (RequireCycle c))"
proof (rule selectVersions_converges [where D = "{(ModuleId ''h/b'' 1, Version 1 0 0)}"])
  have b: "requiresOf demo_provider (ModuleId ''h/b'' 1) v = Some []" for v
    by (simp add: requiresOf_def demo_provider_def project_manifest_default_def)
  fix m v
  assume "demanded demo_provider [demo_req ''h/b'' (Version 1 0 0)] m v"
  then have "m = ModuleId ''h/b'' 1 \<and> v = Version 1 0 0"
    by (induction rule: demanded.induct) (auto simp: demo_req_def b)
  then show "(m, v) \<in> {(ModuleId ''h/b'' 1, Version 1 0 0)} \<and> requiresOf demo_provider m v \<noteq> None"
    by (simp add: b)
qed (auto simp: kMaxSteps_def need_def requiresOf_def demo_provider_def project_manifest_default_def)

text \<open>A provider whose newer \<open>h/a\<close> drops a requirement of the older one.\<close>

definition dropping_provider :: provider where
  "dropping_provider m v =
     (if m = ModuleId ''h/a'' 1 \<and> v = Version 1 0 0
      then Inr (project_manifest_default\<lparr>man_deps := [demo_dep ''h/b'' ''1.2.0'']\<rparr>)
      else Inr project_manifest_default)"

text \<open>
  Without that monotonicity the walk order shows in the result: over one provider, the root
  requirements \<open>h/a@1.0.0, h/a@1.1.0\<close> select \<open>h/a\<close> and \<open>h/b\<close> (a leftover of the superseded
  \<open>h/a@1.0.0\<close> that no selected version requires), the same requirements in the other order select
  \<open>h/a\<close> alone.
\<close>

lemma selectVersions_order_dependence:
  "\<exists>bl bl'.
     selectVersions [demo_req ''h/a'' (Version 1 0 0), demo_req ''h/a'' (Version 1 1 0)] dropping_provider = Inr bl \<and>
     selectVersions [demo_req ''h/a'' (Version 1 1 0), demo_req ''h/a'' (Version 1 0 0)] dropping_provider = Inr bl' \<and>
     map ble_mod bl = [ModuleId ''h/a'' 1, ModuleId ''h/b'' 1] \<and> map ble_mod bl' = [ModuleId ''h/a'' 1] \<and>
     map ble_requires bl = [[], []]"
proof -
  let ?a = "demo_req ''h/a'' (Version 1 0 0)" and ?a' = "demo_req ''h/a'' (Version 1 1 0)"
  let ?ea = "\<lparr>ble_mod = ModuleId ''h/a'' 1, ble_selected = Version 1 1 0, ble_contentHash = [],
       ble_storeDir = [], ble_requires = []\<rparr>"
  let ?eb = "\<lparr>ble_mod = ModuleId ''h/b'' 1, ble_selected = Version 1 2 0, ble_contentHash = [],
       ble_storeDir = [], ble_requires = []\<rparr>"
  have 1: "mvs_loop dropping_provider 3 [] [?a, ?a'] =
      Inr [(ModuleId ''h/a'' 1, ?ea), (ModuleId ''h/b'' 1, ?eb)]" by code_simp
  have 2: "mvs_loop dropping_provider 2 [] [?a', ?a] = Inr [(ModuleId ''h/a'' 1, ?ea)]" by code_simp
  have "findRequireCycle [?ea, ?eb] = []" "findRequireCycle [?ea] = []" by code_simp+
  with selectVersions_run [OF 1] selectVersions_run [OF 2] show ?thesis by (simp add: kMaxSteps_def)
qed

end
