(* ===== verification/Toml_Cursor.thy ===== *)
theory Toml_Cursor
  imports Lev_Prelude
begin

text \<open>
  The hand-written TOML-subset cursor of \<open>tools/trident/lock.cpp\<close> (\<open>LockReader\<close>), which
  \<open>tools/trident/manifest.cpp\<close> repeats as \<open>TomlReader\<close> with \<open>parseBool\<close> in the place of
  \<open>parseInt\<close>. The reader's position \<open>i\<close> is kept as the text from \<open>i\<close> on; a failure carries its
  message and the text left at the failing position, from which the line number of the message
  is computed.
\<close>

section \<open>Messages and results\<close>

datatype toml_msg =
    ExpectedIdent | ExpectedQuoted | UnterminatedString | ExpectedOpenBracket
  | ExpectedCommaOrClose | ExpectedInteger | ExpectedBoolean
  | OnlyArrayTables | ExpectedTableClose | UnknownTable string | ExpectedEquals string
  | UnknownTableField string | UnknownField string | MissingVersion | MissingPath | NoSources

type_synonym toml_fail = "toml_msg \<times> string"

text \<open>\<open>line()\<close>: one more than the newlines before the position.\<close>

definition toml_line :: "string \<Rightarrow> string \<Rightarrow> nat" where
  "toml_line all rest = Suc (count_list (take (length all - length rest) all) NL)"

section \<open>Scanning\<close>

definition toml_peek :: "string \<Rightarrow> char" where
  "toml_peek s = (case s of [] \<Rightarrow> NUL | c # _ \<Rightarrow> c)"

definition toml_ws :: "char \<Rightarrow> bool" where
  "toml_ws c \<longleftrightarrow> c = CHR '' '' \<or> c = TAB \<or> c = CR \<or> c = NL"

function skipWhitespaceAndComments :: "string \<Rightarrow> string" where
  "skipWhitespaceAndComments s =
     (let s1 = dropWhile toml_ws s
      in if s1 \<noteq> [] \<and> hd s1 = CHR ''#''
         then skipWhitespaceAndComments (dropWhile (\<lambda>c. c \<noteq> NL) s1)
         else s1)"
  by pat_completeness auto
termination
proof (relation "measure length", simp, goal_cases)
  case (1 s x)
  then have "x \<noteq> []" and hd: "hd x = CHR ''#''" by simp_all
  then have "length (dropWhile (\<lambda>c. c \<noteq> NL) (tl x)) < length x"
    using length_dropWhile_le [of "\<lambda>c. c \<noteq> NL" "tl x"] by (cases x) auto
  moreover have "dropWhile (\<lambda>c. c \<noteq> NL) x = dropWhile (\<lambda>c. c \<noteq> NL) (tl x)"
    using hd by (cases x) auto
  ultimately show ?case using length_dropWhile_le [of toml_ws s] 1 by simp
qed

declare skipWhitespaceAndComments.simps [simp del]

definition toml_ident_char :: "char \<Rightarrow> bool" where
  "toml_ident_char c \<longleftrightarrow> isalnum c \<or> c = CHR ''_'' \<or> c = CHR ''-''"

definition parseIdent :: "string \<Rightarrow> toml_fail + (string \<times> string)" where
  "parseIdent s =
     (let s1 = skipWhitespaceAndComments s;
          out = takeWhile toml_ident_char s1
      in if out = [] then Inl (ExpectedIdent, s1)
         else Inr (out, dropWhile toml_ident_char s1))"

definition toml_unescape :: "char \<Rightarrow> char" where
  "toml_unescape e = (if e = CHR ''n'' then NL else if e = CHR ''t'' then TAB else e)"

text \<open>The loop of \<open>parseString\<close> after the opening quote, up to and including the closing quote;
  \<open>None\<close> when the text ends first.\<close>

fun parseStringBody :: "string \<Rightarrow> (string \<times> string) option" where
  "parseStringBody [] = None"
| "parseStringBody (c # cs) =
     (if c = DQUOTE then Some ([], cs)
      else if c = BSLASH
      then (case cs of
              [] \<Rightarrow> None
            | e # cs' \<Rightarrow> map_option (\<lambda>(out, r). (toml_unescape e # out, r)) (parseStringBody cs'))
      else map_option (\<lambda>(out, r). (c # out, r)) (parseStringBody cs))"

definition parseString :: "string \<Rightarrow> toml_fail + (string \<times> string)" where
  "parseString s =
     (let s1 = skipWhitespaceAndComments s
      in if toml_peek s1 \<noteq> DQUOTE then Inl (ExpectedQuoted, s1)
         else case parseStringBody (tl s1) of
                None \<Rightarrow> Inl (UnterminatedString, [])
              | Some (out, r) \<Rightarrow> Inr (out, r))"

section \<open>The position only moves forward\<close>

lemma skip_le: "length (skipWhitespaceAndComments s) \<le> length s"
proof (induction s rule: skipWhitespaceAndComments.induct)
  case (1 s)
  let ?s1 = "dropWhile toml_ws s"
  have le: "length ?s1 \<le> length s" by (rule length_dropWhile_le)
  show ?case
  proof (cases "?s1 \<noteq> [] \<and> hd ?s1 = CHR ''#''")
    case True
    from "1.IH" [OF refl True] length_dropWhile_le [of "\<lambda>c. c \<noteq> NL" ?s1] le
    have "length (skipWhitespaceAndComments (dropWhile (\<lambda>c. c \<noteq> NL) ?s1)) \<le> length s" by linarith
    with True show ?thesis by (simp add: skipWhitespaceAndComments.simps [of s] Let_def)
  next
    case False
    with le show ?thesis by (auto simp: skipWhitespaceAndComments.simps [of s] Let_def)
  qed
qed

lemma skip_tl_le: "length (skipWhitespaceAndComments (tl s)) \<le> length s"
  using skip_le [of "tl s"] by simp

lemma parseIdent_less: "parseIdent s = Inr (out, r) \<Longrightarrow> length r < length s"
proof -
  assume p: "parseIdent s = Inr (out, r)"
  let ?s1 = "skipWhitespaceAndComments s"
  from p have "takeWhile toml_ident_char ?s1 \<noteq> []" "r = dropWhile toml_ident_char ?s1"
    by (auto simp: parseIdent_def Let_def split: if_splits)
  then have "length r < length ?s1"
    using takeWhile_dropWhile_id [of toml_ident_char ?s1]
    by (metis length_append less_add_same_cancel2 length_greater_0_conv)
  with skip_le [of s] show ?thesis by linarith
qed

lemma parseStringBody_less: "parseStringBody s = Some (out, r) \<Longrightarrow> length r < length s"
proof (induction s arbitrary: out r rule: parseStringBody.induct)
  case (2 c cs)
  then show ?case by (cases cs) (fastforce split: if_splits)+
qed simp

lemma parseString_less: "parseString s = Inr (out, r) \<Longrightarrow> length r < length s"
proof -
  assume "parseString s = Inr (out, r)"
  then have "parseStringBody (tl (skipWhitespaceAndComments s)) = Some (out, r)"
    by (auto simp: parseString_def Let_def split: if_splits option.splits)
  from parseStringBody_less [OF this] skip_le [of s] show ?thesis by simp
qed

section \<open>Arrays, integers, booleans, keys\<close>

text \<open>The loop of \<open>parseStringArray\<close>, which appends to the vector it is given.\<close>

function parseArrayItems :: "string list \<Rightarrow> string \<Rightarrow> toml_fail + (string list \<times> string)" where
  "parseArrayItems out s =
     (case parseString s of
        Inl e \<Rightarrow> Inl e
      | Inr (x, r) \<Rightarrow>
          (let out' = out @ [x]; s2 = skipWhitespaceAndComments r
           in if toml_peek s2 = CHR '',''
              then (let s3 = skipWhitespaceAndComments (tl s2)
                    in if toml_peek s3 = CHR '']'' then Inr (out', tl s3)
                       else parseArrayItems out' s3)
              else if toml_peek s2 = CHR '']'' then Inr (out', tl s2)
              else Inl (ExpectedCommaOrClose, s2)))"
  by pat_completeness auto
termination
proof (relation "measure (\<lambda>(out, s). length s)", simp, goal_cases)
  case (1 out s p x r out' s2 s3)
  then have "length r < length s" using parseString_less by blast
  moreover have "length s3 \<le> length s2" "length s2 \<le> length r"
    using 1 skip_tl_le [of s2] skip_le [of r] by auto
  ultimately show ?case by simp
qed

declare parseArrayItems.simps [simp del]

definition parseStringArray :: "string list \<Rightarrow> string \<Rightarrow> toml_fail + (string list \<times> string)" where
  "parseStringArray out s =
     (let s1 = skipWhitespaceAndComments s
      in if toml_peek s1 \<noteq> CHR ''['' then Inl (ExpectedOpenBracket, s1)
         else let s2 = skipWhitespaceAndComments (tl s1)
              in if toml_peek s2 = CHR '']'' then Inr (out, tl s2)
                 else parseArrayItems out s2)"

definition parseInt :: "string \<Rightarrow> toml_fail + (int \<times> string)" where
  "parseInt s =
     (let s1 = skipWhitespaceAndComments s;
          sign = (if toml_peek s1 = CHR ''-'' then [CHR ''-''] else []);
          s2 = drop (length sign) s1;
          ds = takeWhile isdigit s2
      in if ds = [] then Inl (ExpectedInteger, s2)
         else Inr (atoi (sign @ ds), dropWhile isdigit s2))"

definition parseBool :: "string \<Rightarrow> toml_fail + (bool \<times> string)" where
  "parseBool s =
     (let s1 = skipWhitespaceAndComments s
      in if take 4 s1 = ''true'' then Inr (True, drop 4 s1)
         else if take 5 s1 = ''false'' then Inr (False, drop 5 s1)
         else Inl (ExpectedBoolean, s1))"

text \<open>The table header \<open>[[name]]\<close> with the cursor on its first bracket, and the \<open>key =\<close> part of
  an assignment: the two openings of the parsers' main loops.\<close>

definition parseTableHeader :: "string \<Rightarrow> string \<Rightarrow> toml_fail + string" where
  "parseTableHeader expected s =
     (let s1 = tl s
      in if toml_peek s1 \<noteq> CHR ''['' then Inl (OnlyArrayTables, s1)
         else case parseIdent (tl s1) of
                Inl e \<Rightarrow> Inl e
              | Inr (name, s2) \<Rightarrow>
                  if toml_peek s2 \<noteq> CHR '']'' then Inl (ExpectedTableClose, s2)
                  else if toml_peek (tl s2) \<noteq> CHR '']'' then Inl (ExpectedTableClose, tl s2)
                  else if name \<noteq> expected then Inl (UnknownTable name, tl (tl s2))
                  else Inr (tl (tl s2)))"

definition parseKey :: "string \<Rightarrow> toml_fail + (string \<times> string)" where
  "parseKey s =
     (case parseIdent s of
        Inl e \<Rightarrow> Inl e
      | Inr (key, s1) \<Rightarrow>
          (let s2 = skipWhitespaceAndComments s1
           in if toml_peek s2 \<noteq> CHR ''='' then Inl (ExpectedEquals key, s2)
              else Inr (key, skipWhitespaceAndComments (tl s2))))"

text \<open>\<open>quote\<close>, the writers' counterpart of \<open>parseString\<close>.\<close>

definition quote_char :: "char \<Rightarrow> string" where
  "quote_char c = (if c = DQUOTE \<or> c = BSLASH then [BSLASH, c] else [c])"

definition quote :: "string \<Rightarrow> string" where
  "quote s = [DQUOTE] @ concat (map quote_char s) @ [DQUOTE]"

text \<open>The items of a string array, separated as the writers do.\<close>

fun quoteItems :: "string list \<Rightarrow> string" where
  "quoteItems [] = []"
| "quoteItems [x] = quote x"
| "quoteItems (x # xs) = quote x @ '', '' @ quoteItems xs"

section \<open>How the cursor acts on printed text\<close>

lemma skip_id [cursor_simps]:
  "\<not> toml_ws c \<Longrightarrow> c \<noteq> CHR ''#'' \<Longrightarrow> skipWhitespaceAndComments (c # s) = c # s"
  by (simp add: skipWhitespaceAndComments.simps)

lemma skip_ws [cursor_simps]: "toml_ws c \<Longrightarrow> skipWhitespaceAndComments (c # s) = skipWhitespaceAndComments s"
  by (simp add: skipWhitespaceAndComments.simps [of "c # s"] skipWhitespaceAndComments.simps [of s])

lemma skip_Nil [simp]: "skipWhitespaceAndComments [] = []"
  by (simp add: skipWhitespaceAndComments.simps)

lemma ident_char_start: "toml_ident_char c \<Longrightarrow> \<not> toml_ws c \<and> c \<noteq> CHR ''#''"
  by (auto simp: toml_ident_char_def toml_ws_def isalnum_def isalpha_def isdigit_def)

lemma parseIdent_span [cursor_simps]:
  assumes "list_all toml_ident_char xs" and "xs \<noteq> []" and "r = [] \<or> \<not> toml_ident_char (hd r)"
  shows "parseIdent (xs @ r) = Inr (xs, r)"
proof -
  obtain c ys where xs: "xs = c # ys" using assms(2) by (cases xs) auto
  have "skipWhitespaceAndComments (xs @ r) = xs @ r"
    using assms(1) ident_char_start [of c] by (simp add: xs skip_id)
  with assms show ?thesis by (simp add: parseIdent_def cursor_simps Let_def)
qed

lemma parseStringBody_quote: "parseStringBody (concat (map quote_char s) @ DQUOTE # r) = Some (s, r)"
  by (induction s) (auto simp: quote_char_def toml_unescape_def)

lemma parseString_quote [cursor_simps]: "parseString (quote s @ r) = Inr (s, r)"
  by (simp add: parseString_def quote_def parseStringBody_quote skip_id toml_ws_def toml_peek_def)

lemma quote_head: "quote s @ r = DQUOTE # concat (map quote_char s) @ DQUOTE # r"
  by (simp add: quote_def)

lemma skip_quote [cursor_simps]: "skipWhitespaceAndComments (quote s @ r) = quote s @ r"
  unfolding quote_head by (simp add: skip_id toml_ws_def)

lemma quote_hd: "skipWhitespaceAndComments (quote s) = quote s" "toml_peek (quote s) = DQUOTE"
  "toml_peek (quote s @ r) = DQUOTE"
  by (simp_all add: quote_def skip_id toml_ws_def toml_peek_def)

lemma quoteItems_head:
  "xs \<noteq> [] \<Longrightarrow> skipWhitespaceAndComments (quoteItems xs @ r) = quoteItems xs @ r \<and>
     toml_peek (quoteItems xs @ r) = DQUOTE"
  by (induction xs rule: quoteItems.induct) (simp_all add: skip_quote quote_hd)

lemma parseArrayItems_quote:
  "xs \<noteq> [] \<Longrightarrow> parseArrayItems out (quoteItems xs @ CHR '']'' # r) = Inr (out @ xs, r)"
proof (induction xs arbitrary: out rule: quoteItems.induct)
  case (2 x)
  show ?case
    by (subst parseArrayItems.simps)
      (simp add: parseString_quote skip_id toml_ws_def toml_peek_def)
next
  case (3 x y ys)
  let ?t = "quoteItems (y # ys) @ CHR '']'' # r"
  have t: "skipWhitespaceAndComments ?t = ?t" "toml_peek ?t = DQUOTE"
    using quoteItems_head [of "y # ys" "CHR '']'' # r"] by auto
  have "parseArrayItems out (quote x @ '', '' @ ?t) = parseArrayItems (out @ [x]) ?t"
    by (subst parseArrayItems.simps)
      (simp add: parseString_quote skip_id skip_ws toml_ws_def toml_peek_def [of "CHR '','' # s" for s] t
        del: quoteItems.simps)
  also have "\<dots> = Inr (out @ x # y # ys, r)" using "3.IH" [of "out @ [x]"] by simp
  finally show ?case by simp
qed simp

lemma parseStringArray_quote [cursor_simps]:
  "xs \<noteq> [] \<Longrightarrow> parseStringArray out (CHR ''['' # quoteItems xs @ CHR '']'' # r) = Inr (out @ xs, r)"
  using quoteItems_head [of xs "CHR '']'' # r"]
  by (simp add: parseStringArray_def skip_id toml_ws_def toml_peek_def [of "CHR ''['' # s" for s]
    parseArrayItems_quote)

lemma parseInt_int_str [cursor_simps]:
  assumes "int32 i" and "r = [] \<or> \<not> isdigit (hd r)"
  shows "parseInt (int_str i @ r) = Inr (i, r)"
proof -
  have "parseInt (nat_str n @ r) = Inr (atoi (nat_str n), r)" for n
  proof -
    obtain c ds where c: "nat_str n = c # ds" "isdigit c"
      using nat_str_nonempty [of n] nat_str_digits [of _ n] by (cases "nat_str n") auto
    then have "\<not> toml_ws c \<and> c \<noteq> CHR ''#'' \<and> c \<noteq> CHR ''-''"
      by (auto simp: toml_ws_def isdigit_def)
    with c assms(2) takeWhile_span [OF list_all_nat_str, of r n] dropWhile_span [OF list_all_nat_str, of r n]
    show ?thesis by (auto simp: parseInt_def skip_id toml_peek_def Let_def)
  qed
  moreover have "parseInt (CHR ''-'' # nat_str n @ r) = Inr (atoi (CHR ''-'' # nat_str n), r)" for n
    using assms(2) by (simp add: parseInt_def skip_id toml_ws_def toml_peek_def cursor_simps)
  ultimately show ?thesis
    using atoi_int_str [OF assms(1)] by (simp add: int_str_def split: if_splits)
qed

text \<open>A printed assignment, up to its value.\<close>

lemma parseKey_span [cursor_simps]:
  assumes "list_all toml_ident_char key" and "key \<noteq> []"
    and "v \<noteq> []" and "\<not> toml_ws (hd v)" and "hd v \<noteq> CHR ''#''"
  shows "parseKey (key @ '' = '' @ v) = Inr (key, v)"
proof -
  have "parseIdent (key @ '' = '' @ v) = Inr (key, '' = '' @ v)"
    using assms(1,2) by (intro parseIdent_span) (auto simp: toml_ident_char_def isalnum_def isalpha_def isdigit_def)
  with assms(3-5) show ?thesis
    by (cases v) (simp_all add: parseKey_def skip_id skip_ws toml_ws_def toml_peek_def)
qed

lemma parseTableHeader_span [cursor_simps]:
  assumes "list_all toml_ident_char name" and "name \<noteq> []"
  shows "parseTableHeader name (''[['' @ name @ '']]'' @ r) = Inr r"
proof -
  have "parseIdent (name @ '']]'' @ r) = Inr (name, '']]'' @ r)"
    using assms by (intro parseIdent_span) (auto simp: toml_ident_char_def isalnum_def isalpha_def isdigit_def)
  then show ?thesis by (simp add: parseTableHeader_def toml_peek_def)
qed

section \<open>Every step of a parser consumes text\<close>

lemma parseKey_less: "parseKey s = Inr (k, r) \<Longrightarrow> length r < length s"
proof -
  assume "parseKey s = Inr (k, r)"
  then obtain s1 where "parseIdent s = Inr (k, s1)"
    "r = skipWhitespaceAndComments (tl (skipWhitespaceAndComments s1))"
    by (auto simp: parseKey_def Let_def split: sum.splits if_splits)
  then show ?thesis
    using parseIdent_less [of s] skip_tl_le [of "skipWhitespaceAndComments s1"] skip_le [of s1] by fastforce
qed

lemma parseTableHeader_less: "parseTableHeader n s = Inr r \<Longrightarrow> s \<noteq> [] \<Longrightarrow> length r < length s"
  by (auto simp: parseTableHeader_def Let_def split: sum.splits if_splits dest!: parseIdent_less)

lemma parseArrayItems_less: "parseArrayItems out s = Inr (xs, r) \<Longrightarrow> length r < length s"
proof (induction out s arbitrary: xs r rule: parseArrayItems.induct)
  case (1 out s)
  from "1.prems" obtain x t where p: "parseString s = Inr (x, t)"
    by (subst (asm) parseArrayItems.simps) (auto split: sum.splits)
  let ?s2 = "skipWhitespaceAndComments t"
  let ?s3 = "skipWhitespaceAndComments (tl ?s2)"
  have b: "length t < length s" "length ?s2 \<le> length t" "length ?s3 \<le> length ?s2"
    using parseString_less [OF p] skip_le [of t] skip_tl_le [of ?s2] by auto
  show ?case
  proof (cases "toml_peek ?s2 = CHR '','' \<and> toml_peek ?s3 \<noteq> CHR '']''")
    case True
    then have "parseArrayItems (out @ [x]) ?s3 = Inr (xs, r)"
      using "1.prems" p by (subst (asm) (1) parseArrayItems.simps) simp
    from "1.IH" [OF p refl refl refl _ refl _ this] True b show ?thesis by simp
  next
    case False
    with "1.prems" p b show ?thesis
      by (subst (asm) parseArrayItems.simps) (auto simp: Let_def split: if_splits)
  qed
qed

lemma parseStringArray_le: "parseStringArray out s = Inr (xs, r) \<Longrightarrow> length r \<le> length s"
proof -
  assume p: "parseStringArray out s = Inr (xs, r)"
  let ?s2 = "skipWhitespaceAndComments (tl (skipWhitespaceAndComments s))"
  have "length ?s2 \<le> length s"
    using skip_tl_le [of "skipWhitespaceAndComments s"] skip_le [of s] by linarith
  with p show ?thesis
    by (auto simp: parseStringArray_def Let_def split: if_splits dest: parseArrayItems_less)
qed

lemma parseInt_le: "parseInt s = Inr (i, r) \<Longrightarrow> length r \<le> length s"
  using length_dropWhile_le [of isdigit "drop (Suc 0) (skipWhitespaceAndComments s)"]
    length_dropWhile_le [of isdigit "skipWhitespaceAndComments s"] skip_le [of s]
  by (auto simp: parseInt_def Let_def split: if_splits)

lemma parseBool_le: "parseBool s = Inr (b, r) \<Longrightarrow> length r \<le> length s"
  using skip_le [of s] by (auto simp: parseBool_def Let_def split: if_splits)

lemma parseString_le: "parseString s = Inr (x, r) \<Longrightarrow> length r \<le> length s"
  by (drule parseString_less) simp

lemmas toml_le = parseString_le parseStringArray_le parseInt_le parseBool_le

lemmas ident_eval = toml_ident_char_def isalnum_def isalpha_def isdigit_def

lemma quote_value [simp]: "quote x @ r \<noteq> []" "hd (quote x @ r) = DQUOTE" "\<not> toml_ws DQUOTE"
  by (simp_all add: quote_def toml_ws_def)

lemma toml_ws_NL [simp]: "toml_ws NL"
  by (simp add: toml_ws_def)

lemma parseBool_true: "parseBool (''true'' @ r) = Inr (True, r)"
  by (simp add: parseBool_def skip_id toml_ws_def)

section \<open>The loop both parsers share\<close>

text \<open>
  A document reader: a main loop that opens a table with \<open>newTable\<close> at every \<open>[[tbl]]\<close> header and
  hands every assignment to \<open>field\<close>. The client facts say how the loop consumes printed text.
\<close>

locale toml_reader =
  fixes tbl :: string
    and newTable :: "'st \<Rightarrow> 'st"
    and field :: "'st \<Rightarrow> string \<Rightarrow> string \<Rightarrow> toml_fail + ('st \<times> string)"
    and loop :: "'st \<Rightarrow> string \<Rightarrow> toml_fail + 'st"
  assumes loop_eq: "loop st s =
     (let s1 = skipWhitespaceAndComments s
      in if s1 = [] then Inr st
         else if toml_peek s1 = CHR ''['' then
           (case parseTableHeader tbl s1 of Inl e \<Rightarrow> Inl e | Inr r \<Rightarrow> loop (newTable st) r)
         else
           (case parseKey s1 of
              Inl e \<Rightarrow> Inl e
            | Inr (key, r) \<Rightarrow>
                (case field st key r of Inl e \<Rightarrow> Inl e | Inr (st', r') \<Rightarrow> loop st' r')))"
    and tbl_ident: "list_all toml_ident_char tbl" "tbl \<noteq> []"
begin

lemma loop_ws: "toml_ws c \<Longrightarrow> loop st (c # s) = loop st s"
  by (subst (1 2) loop_eq) (simp add: skip_ws)

lemma loop_Nil: "loop st [] = Inr st"
  by (subst loop_eq) simp

lemma loop_header: "loop st (''[['' @ tbl @ '']]'' @ r) = loop (newTable st) r"
  using parseTableHeader_span [OF tbl_ident, of r]
  by (subst loop_eq) (simp add: toml_peek_def skip_id toml_ws_def)

lemma loop_field:
  assumes key: "list_all toml_ident_char key" "key \<noteq> []"
    and v: "v \<noteq> []" "\<not> toml_ws (hd v)" "hd v \<noteq> CHR ''#''"
    and field: "field st key v = Inr (st', NL # r)"
  shows "loop st (key @ '' = '' @ v) = loop st' r"
proof -
  obtain c cs where c: "key = c # cs" "toml_ident_char c" using key by (cases key) auto
  have "c \<noteq> CHR ''[''" using c(2) by (auto simp: ident_eval)
  moreover have "skipWhitespaceAndComments (key @ '' = '' @ v) = key @ '' = '' @ v"
    using c ident_char_start by (simp add: skip_id)
  ultimately have "loop st (key @ '' = '' @ v) = loop st' (NL # r)"
    using parseKey_span [OF key v] field by (subst loop_eq) (simp add: c toml_peek_def)
  then show ?thesis by (simp add: loop_ws)
qed

lemma loop_string_field:
  assumes "field st key (quote x @ NL # r) = Inr (st', NL # r)"
    and "list_all toml_ident_char key" "key \<noteq> []"
  shows "loop st (key @ '' = '' @ quote x @ NL # r) = loop st' r"
  by (rule loop_field) (simp_all add: assms)

lemma loop_array_field:
  assumes "field st key (CHR ''['' # quoteItems xs @ CHR '']'' # NL # r) = Inr (st', NL # r)"
    and "list_all toml_ident_char key" "key \<noteq> []"
  shows "loop st (key @ '' = '' @ CHR ''['' # quoteItems xs @ CHR '']'' # NL # r) = loop st' r"
  by (rule loop_field) (simp_all add: assms toml_ws_def)

end

end
