(* ===== verification/Lockfile.thy ===== *)
theory Lockfile
  imports Mvs Toml_Cursor
begin

text \<open>
  \<open>tools/trident/lock.cpp\<close>: the lockfile as a value, its text form, its parser and the
  consistency check against a build list. The reader's pointer \<open>cur\<close> to the last
  \<open>[[module]]\<close> table is the flag \<open>in_table\<close>: it is null before the first table and points to the
  back of the vector after it. A failed parse is the message with its line number.
\<close>

section \<open>Data\<close>

record locked_module =
  lm_mod :: module_id
  lm_selected :: string
  lm_hash :: string
  lm_requires :: "string list"

definition locked_module_default :: locked_module where
  "locked_module_default = \<lparr>lm_mod = ModuleId [] 0, lm_selected = [], lm_hash = [], lm_requires = []\<rparr>"

record lockfile =
  lf_version :: int
  lf_modules :: "locked_module list"

definition lockfile_default :: lockfile where
  "lockfile_default = \<lparr>lf_version = 1, lf_modules = []\<rparr>"

section \<open>Module identities as text\<close>

definition serializeModuleId :: "module_id \<Rightarrow> string" where
  "serializeModuleId m =
     (if mod_major m \<le> 1 then mod_path m else mod_path m @ ''@v'' @ int_str (mod_major m))"

text \<open>\<open>std::string::rfind ("@v")\<close>: the text before the last occurrence and the text after it.\<close>

fun rfind_at_v :: "string \<Rightarrow> (string \<times> string) option" where
  "rfind_at_v [] = None"
| "rfind_at_v (c # cs) =
     (case rfind_at_v cs of
        Some (a, b) \<Rightarrow> Some (c # a, b)
      | None \<Rightarrow> if c = CHR ''@'' \<and> cs \<noteq> [] \<and> hd cs = CHR ''v'' then Some ([], tl cs) else None)"

definition parseModuleId :: "string \<Rightarrow> module_id" where
  "parseModuleId s =
     (case rfind_at_v s of
        Some (path, majorStr) \<Rightarrow>
          if majorStr \<noteq> [] \<and> list_all isdigit majorStr then ModuleId path (atoi majorStr)
          else ModuleId s 1
      | None \<Rightarrow> ModuleId s 1)"

section \<open>From a build list\<close>

definition serializeRequireEdge :: "require \<Rightarrow> string" where
  "serializeRequireEdge r = mod_path (req_mod r) @ ''@'' @ formatSemVer (req_min r)"

definition lockedModuleOf :: "build_list_entry \<Rightarrow> locked_module" where
  "lockedModuleOf e =
     \<lparr>lm_mod = ble_mod e, lm_selected = formatSemVer (ble_selected e),
      lm_hash = ''sha256:'' @ ble_contentHash e,
      lm_requires = map serializeRequireEdge (ble_requires e)\<rparr>"

definition lockfileFromBuildList :: "build_list_entry list \<Rightarrow> lockfile" where
  "lockfileFromBuildList buildList = \<lparr>lf_version = 1, lf_modules = map lockedModuleOf buildList\<rparr>"

datatype stale_error =
    StaleCount | StaleModuleSet | StaleSelected string | StaleRequires string

fun lockMatchesEntries :: "locked_module list \<Rightarrow> build_list_entry list \<Rightarrow> stale_error + unit" where
  "lockMatchesEntries (m # ms) (e # es) =
     (if lm_mod m \<noteq> ble_mod e then Inl StaleModuleSet
      else if lm_selected m \<noteq> formatSemVer (ble_selected e) then Inl (StaleSelected (mod_path (ble_mod e)))
      else if lm_requires m \<noteq> map serializeRequireEdge (ble_requires e)
      then Inl (StaleRequires (mod_path (ble_mod e)))
      else lockMatchesEntries ms es)"
| "lockMatchesEntries _ _ = Inr ()"

definition lockfileMatchesBuildList :: "lockfile \<Rightarrow> build_list_entry list \<Rightarrow> stale_error + unit" where
  "lockfileMatchesBuildList lock buildList =
     (if length (lf_modules lock) \<noteq> length buildList then Inl StaleCount
      else lockMatchesEntries (lf_modules lock) buildList)"

section \<open>The text form\<close>

definition lockedModuleText :: "locked_module \<Rightarrow> string" where
  "lockedModuleText m =
     [NL] @ ''[[module]]'' @ [NL] @
     ''path = '' @ quote (serializeModuleId (lm_mod m)) @ [NL] @
     ''selected = '' @ quote (lm_selected m) @ [NL] @
     ''hash = '' @ quote (lm_hash m) @ [NL] @
     (if lm_requires m \<noteq> [] then ''requires = ['' @ quoteItems (lm_requires m) @ '']'' @ [NL] else [])"

text \<open>What \<open>writeLockfile\<close> streams to the file it has opened.\<close>

definition writeLockfile :: "lockfile \<Rightarrow> string" where
  "writeLockfile lock =
     ''version = '' @ int_str (lf_version lock) @ [NL] @ concat (map lockedModuleText (lf_modules lock))"

section \<open>The parser\<close>

record lock_state =
  ls_out :: lockfile
  ls_in_table :: bool
  ls_sawVersion :: bool

text \<open>An update of the table \<open>cur\<close> points to.\<close>

definition upd_cur :: "(locked_module \<Rightarrow> locked_module) \<Rightarrow> lock_state \<Rightarrow> lock_state" where
  "upd_cur f st =
     (let ms = lf_modules (ls_out st)
      in st\<lparr>ls_out := (ls_out st)\<lparr>lf_modules := butlast ms @ [f (last ms)]\<rparr>\<rparr>)"

definition lockField :: "lock_state \<Rightarrow> string \<Rightarrow> string \<Rightarrow> toml_fail + (lock_state \<times> string)" where
  "lockField st key s =
     (if ls_in_table st then
        if key = ''path'' then
          (case parseString s of Inl e \<Rightarrow> Inl e
           | Inr (x, r) \<Rightarrow> Inr (upd_cur (lm_mod_update (\<lambda>_. parseModuleId x)) st, r))
        else if key = ''selected'' then
          (case parseString s of Inl e \<Rightarrow> Inl e
           | Inr (x, r) \<Rightarrow> Inr (upd_cur (lm_selected_update (\<lambda>_. x)) st, r))
        else if key = ''hash'' then
          (case parseString s of Inl e \<Rightarrow> Inl e
           | Inr (x, r) \<Rightarrow> Inr (upd_cur (lm_hash_update (\<lambda>_. x)) st, r))
        else if key = ''requires'' then
          (case parseStringArray (lm_requires (last (lf_modules (ls_out st)))) s of Inl e \<Rightarrow> Inl e
           | Inr (xs, r) \<Rightarrow> Inr (upd_cur (lm_requires_update (\<lambda>_. xs)) st, r))
        else Inl (UnknownTableField key, s)
      else if key = ''version'' then
        (case parseInt s of Inl e \<Rightarrow> Inl e
         | Inr (i, r) \<Rightarrow> Inr (st\<lparr>ls_out := (ls_out st)\<lparr>lf_version := i\<rparr>, ls_sawVersion := True\<rparr>, r))
      else Inl (UnknownField key, s))"

definition lockStep :: "lock_state \<Rightarrow> string \<Rightarrow> toml_fail + (lock_state \<times> string)" where
  "lockStep st s =
     (if toml_peek s = CHR ''['' then
        (case parseTableHeader ''module'' s of
           Inl e \<Rightarrow> Inl e
         | Inr r \<Rightarrow>
             Inr (st\<lparr>ls_out := (ls_out st)\<lparr>lf_modules := lf_modules (ls_out st) @ [locked_module_default]\<rparr>,
                      ls_in_table := True\<rparr>, r))
      else (case parseKey s of Inl e \<Rightarrow> Inl e | Inr (key, r) \<Rightarrow> lockField st key r))"

lemma lockField_le: "lockField st key s = Inr (st', r) \<Longrightarrow> length r \<le> length s"
  by (auto simp: lockField_def split: if_splits sum.splits dest: toml_le)

lemma lockStep_less: "lockStep st s = Inr (st', r) \<Longrightarrow> s \<noteq> [] \<Longrightarrow> length r < length s"
  by (auto simp: lockStep_def split: if_splits sum.splits
      dest!: parseTableHeader_less parseKey_less lockField_le)

function lockLoop :: "lock_state \<Rightarrow> string \<Rightarrow> toml_fail + lock_state" where
  "lockLoop st s =
     (let s1 = skipWhitespaceAndComments s
      in if s1 = [] then Inr st
         else case lockStep st s1 of
                Inl e \<Rightarrow> Inl e
              | Inr (st', r) \<Rightarrow> lockLoop st' r)"
  by pat_completeness auto
termination
proof (relation "measure (\<lambda>(st, s). length s)", simp, goal_cases)
  case (1 st s s1 p st' r)
  then show ?case using lockStep_less [of st s1 st' r] skip_le [of s] by auto
qed

declare lockLoop.simps [simp del]

definition parseLockfile :: "string \<Rightarrow> lockfile \<Rightarrow> (toml_msg \<times> nat) + lockfile" where
  "parseLockfile s out =
     (case lockLoop \<lparr>ls_out = out, ls_in_table = False, ls_sawVersion = False\<rparr> s of
        Inl (msg, rest) \<Rightarrow> Inl (msg, toml_line s rest)
      | Inr st \<Rightarrow>
          if \<not> ls_sawVersion st then Inl (MissingVersion, toml_line s [])
          else if list_ex (\<lambda>m. mod_path (lm_mod m) = []) (lf_modules (ls_out st))
          then Inl (MissingPath, toml_line s [])
          else Inr (ls_out st))"

definition lockfilePathFor :: "string \<Rightarrow> string" where
  "lockfilePathFor manifestPath =
     (let (dir, base) = (case split_last CHR ''/'' manifestPath of
                           None \<Rightarrow> ([], manifestPath)
                         | Some (a, b) \<Rightarrow> (a @ ''/'', b));
          stem = (case split_last CHR ''.'' base of None \<Rightarrow> base | Some (a, _) \<Rightarrow> a)
      in dir @ stem @ ''.lock'')"

section \<open>Module identities round trip\<close>

lemma rfind_at_v_None: "rfind_at_v s = None \<longleftrightarrow> \<not> (\<exists>a b. s = a @ ''@v'' @ b)"
proof (induction s)
  case (Cons c cs)
  have "(\<exists>a b. c # cs = a @ ''@v'' @ b) \<longleftrightarrow>
      (c = CHR ''@'' \<and> cs \<noteq> [] \<and> hd cs = CHR ''v'') \<or> (\<exists>a b. cs = a @ ''@v'' @ b)"
    by (cases cs) (auto simp: Cons_eq_append_conv)
  with Cons show ?case by (auto split: option.splits)
qed simp

lemma rfind_at_v_append:
  "rfind_at_v b = None \<Longrightarrow> b = [] \<or> hd b \<noteq> CHR ''@'' \<Longrightarrow> rfind_at_v (a @ ''@v'' @ b) = Some (a, b)"
  by (induction a) auto

text \<open>The identities the toolchain makes: \<open>dependencyToRequire\<close> never gives a major below 1. A path
  that itself ends in \<open>@v\<close> and digits would be read back as another identity.\<close>

definition module_id_ok :: "module_id \<Rightarrow> bool" where
  "module_id_ok m \<longleftrightarrow>
     mod_path m \<noteq> [] \<and> 1 \<le> mod_major m \<and> int32 (mod_major m) \<and>
     (mod_major m = 1 \<longrightarrow> (\<forall>a b. mod_path m = a @ ''@v'' @ b \<longrightarrow> b = [] \<or> \<not> list_all isdigit b))"

lemma digits_no_at_v: "list_all isdigit b \<Longrightarrow> rfind_at_v b = None"
  by (induction b) (auto simp: isdigit_def)

lemma rfind_at_v_Some: "rfind_at_v s = Some (a, b) \<Longrightarrow> s = a @ ''@v'' @ b"
proof (induction s arbitrary: a b)
  case (Cons c cs)
  then show ?case by (cases cs) (auto split: option.splits if_splits)
qed simp

lemma parse_serialize_module_id:
  assumes "module_id_ok m" shows "parseModuleId (serializeModuleId m) = m"
proof (cases "mod_major m = 1")
  case True
  have "b = [] \<or> \<not> list_all isdigit b" if "rfind_at_v (mod_path m) = Some (a, b)" for a b
    using rfind_at_v_Some [OF that] assms True unfolding module_id_ok_def by blast
  with True show ?thesis
    by (cases m) (auto simp: serializeModuleId_def parseModuleId_def split: option.splits)
next
  case False
  with assms have m: "1 < mod_major m" "int32 (mod_major m)" by (auto simp: module_id_ok_def)
  let ?d = "int_str (mod_major m)"
  have d: "list_all isdigit ?d" "?d \<noteq> []" using m by (auto simp: int_str_def)
  then have "hd ?d \<noteq> CHR ''@''" using hd_digits [of ?d] by (auto simp: isdigit_def)
  with d m show ?thesis
    by (cases m) (simp add: serializeModuleId_def parseModuleId_def
        rfind_at_v_append [simplified] digits_no_at_v atoi_int_str)
qed

section \<open>The parser on printed text\<close>

definition newModule :: "lock_state \<Rightarrow> lock_state" where
  "newModule st =
     st\<lparr>ls_out := (ls_out st)\<lparr>lf_modules := lf_modules (ls_out st) @ [locked_module_default]\<rparr>,
        ls_in_table := True\<rparr>"

interpretation lk: toml_reader "''module''" newModule lockField lockLoop
proof
  show "lockLoop st s =
     (let s1 = skipWhitespaceAndComments s
      in if s1 = [] then Inr st
         else if toml_peek s1 = CHR ''['' then
           (case parseTableHeader ''module'' s1 of Inl e \<Rightarrow> Inl e | Inr r \<Rightarrow> lockLoop (newModule st) r)
         else
           (case parseKey s1 of
              Inl e \<Rightarrow> Inl e
            | Inr (key, r) \<Rightarrow>
                (case lockField st key r of Inl e \<Rightarrow> Inl e | Inr (st', r') \<Rightarrow> lockLoop st' r')))" for st s
    by (subst lockLoop.simps)
      (simp add: lockStep_def newModule_def Let_def split: sum.split prod.split)
qed (simp_all add: ident_eval)

text \<open>The state after the fields of a table: its module is the last of the list.\<close>

definition in_module :: "lock_state \<Rightarrow> locked_module list \<Rightarrow> locked_module \<Rightarrow> lock_state" where
  "in_module st ms m = st\<lparr>ls_out := (ls_out st)\<lparr>lf_modules := ms @ [m]\<rparr>, ls_in_table := True\<rparr>"

lemma in_module_sel [simp]:
  "ls_in_table (in_module st ms m)" "lf_modules (ls_out (in_module st ms m)) = ms @ [m]"
  "upd_cur f (in_module st ms m) = in_module st ms (f m)"
  by (simp_all add: in_module_def upd_cur_def Let_def)

lemma in_module_new: "newModule st = in_module st (lf_modules (ls_out st)) locked_module_default"
  by (simp add: in_module_def newModule_def)

lemma lockLoop_requires:
  assumes "lm_requires m = []"
  shows "lockLoop (in_module st ms m)
      ((if xs \<noteq> [] then ''requires = ['' @ quoteItems xs @ '']'' @ [NL] else []) @ r) =
    lockLoop (in_module st ms (m\<lparr>lm_requires := xs\<rparr>)) r"
proof (cases "xs = []")
  case False
  show ?thesis
    using False lk.loop_array_field [of "in_module st ms m" "''requires''" xs r] parseStringArray_quote [OF False]
    by (simp add: ident_eval lockField_def assms)
next
  case True
  have "m\<lparr>lm_requires := []\<rparr> = m" using assms by (cases m) simp
  with True show ?thesis by simp
qed

lemma lockLoop_module:
  assumes ok: "module_id_ok (lm_mod m)"
  shows "lockLoop st (lockedModuleText m @ r) = lockLoop (in_module st (lf_modules (ls_out st)) m) r"
proof -
  let ?ms = "lf_modules (ls_out st)"
  let ?q = "(if lm_requires m \<noteq> [] then ''requires = ['' @ quoteItems (lm_requires m) @ '']'' @ [NL] else []) @ r"
  let ?m1 = "locked_module_default\<lparr>lm_mod := lm_mod m\<rparr>"
  let ?m2 = "?m1\<lparr>lm_selected := lm_selected m\<rparr>"
  let ?m3 = "?m2\<lparr>lm_hash := lm_hash m\<rparr>"
  let ?t3 = "''hash'' @ '' = '' @ quote (lm_hash m) @ NL # ?q"
  let ?t2 = "''selected'' @ '' = '' @ quote (lm_selected m) @ NL # ?t3"
  let ?t1 = "''path'' @ '' = '' @ quote (serializeModuleId (lm_mod m)) @ NL # ?t2"
  have printed: "lockedModuleText m @ r = NL # ''[['' @ ''module'' @ '']]'' @ NL # ?t1"
    by (simp add: lockedModuleText_def)
  have "lockLoop st (''[['' @ ''module'' @ '']]'' @ NL # ?t1) = lockLoop (newModule st) (NL # ?t1)"
    by (rule lk.loop_header)
  also have "\<dots> = lockLoop (in_module st ?ms locked_module_default) ?t1"
    by (simp only: lk.loop_ws toml_ws_NL in_module_new)
  also have "\<dots> = lockLoop (in_module st ?ms ?m1) ?t2"
    by (rule lk.loop_string_field)
      (simp_all add: ident_eval lockField_def parseString_quote parse_serialize_module_id [OF ok])
  also have "\<dots> = lockLoop (in_module st ?ms ?m2) ?t3"
    by (rule lk.loop_string_field) (simp_all add: ident_eval lockField_def parseString_quote)
  also have "\<dots> = lockLoop (in_module st ?ms ?m3) ?q"
    by (rule lk.loop_string_field) (simp_all add: ident_eval lockField_def parseString_quote)
  also have "\<dots> = lockLoop (in_module st ?ms (?m3\<lparr>lm_requires := lm_requires m\<rparr>)) r"
    by (rule lockLoop_requires) (simp add: locked_module_default_def)
  also have "?m3\<lparr>lm_requires := lm_requires m\<rparr> = m"
    by (cases m) (simp add: locked_module_default_def)
  finally show ?thesis unfolding printed by (simp only: lk.loop_ws toml_ws_NL)
qed

lemma lockLoop_modules:
  "list_all (\<lambda>m. module_id_ok (lm_mod m)) ms \<Longrightarrow>
   lockLoop st (concat (map lockedModuleText ms)) =
     Inr (if ms = [] then st
          else st\<lparr>ls_out := (ls_out st)\<lparr>lf_modules := lf_modules (ls_out st) @ ms\<rparr>, ls_in_table := True\<rparr>)"
proof (induction ms arbitrary: st)
  case (Cons m ms)
  then have "lockLoop st (concat (map lockedModuleText (m # ms))) =
      lockLoop (in_module st (lf_modules (ls_out st)) m) (concat (map lockedModuleText ms))"
    using lockLoop_module [of m st] by simp
  with Cons show ?case by (simp add: in_module_def)
qed (simp add: lk.loop_Nil)

definition lockfile_ok :: "lockfile \<Rightarrow> bool" where
  "lockfile_ok lock \<longleftrightarrow> int32 (lf_version lock) \<and> list_all (\<lambda>m. module_id_ok (lm_mod m)) (lf_modules lock)"


text \<open>A lock of one module, whose hash holds a quote, a backslash and a newline.\<close>

definition lock_example :: lockfile where
  "lock_example = \<lparr>lf_version = 1, lf_modules =
     [\<lparr>lm_mod = ModuleId ''a/b'' 2, lm_selected = ''2.0.1'', lm_hash = [DQUOTE, BSLASH, NL],
       lm_requires = [''c@1.2.3'', ''d@0.1.0'']\<rparr>]\<rparr>"


section \<open>Locks and build lists\<close>

lemma lockMatchesEntries_ok:
  "length ms = length es \<Longrightarrow>
   lockMatchesEntries ms es = Inr () \<longleftrightarrow>
     map (lm_hash_update (\<lambda>_. [])) ms = map (lm_hash_update (\<lambda>_. []) \<circ> lockedModuleOf) es"
proof (induction ms es rule: lockMatchesEntries.induct)
  case (1 m ms e es)
  then show ?case by (cases m) (auto simp: lockedModuleOf_def)
qed auto

text \<open>
  The consistency check accepts a lockfile exactly when its modules are those a lock made from the
  build list would hold, in order, in everything but the content hash: identity, selected version and
  require edges. In particular the lock made from a build list is never stale.
\<close>

lemma lockfileMatchesBuildList_iff:
  "lockfileMatchesBuildList lock bl = Inr () \<longleftrightarrow>
   map (lm_hash_update (\<lambda>_. [])) (lf_modules lock) =
   map (lm_hash_update (\<lambda>_. [])) (lf_modules (lockfileFromBuildList bl))"
proof (cases "length (lf_modules lock) = length bl")
  case True
  then show ?thesis
    using lockMatchesEntries_ok [OF True]
    by (simp add: lockfileMatchesBuildList_def lockfileFromBuildList_def o_def)
next
  case False
  then show ?thesis
    by (auto simp: lockfileMatchesBuildList_def lockfileFromBuildList_def dest!: map_eq_imp_length_eq)
qed

end
