(* ===== verification/Manifest.thy ===== *)
theory Manifest
  imports Trident_Types Toml_Cursor
begin

text \<open>
  \<open>tools/trident/manifest.cpp\<close>: the project manifest's text form and its parser, over the cursor of
  \<open>Toml_Cursor\<close> (\<open>TomlReader\<close> and \<open>LockReader\<close> are the same code). The pointer \<open>curDep\<close> to the last
  \<open>[[dep]]\<close> table is the flag \<open>ms_in_dep\<close>, as in \<open>Lockfile\<close>.
\<close>

section \<open>The parser\<close>

record man_state =
  ms_out :: project_manifest
  ms_in_dep :: bool

definition upd_dep :: "(dependency \<Rightarrow> dependency) \<Rightarrow> man_state \<Rightarrow> man_state" where
  "upd_dep f st =
     (let ds = man_deps (ms_out st)
      in st\<lparr>ms_out := (ms_out st)\<lparr>man_deps := butlast ds @ [f (last ds)]\<rparr>\<rparr>)"

definition upd_man :: "(project_manifest \<Rightarrow> project_manifest) \<Rightarrow> man_state \<Rightarrow> man_state" where
  "upd_man f st = st\<lparr>ms_out := f (ms_out st)\<rparr>"

text \<open>Reading a value into a field of the state: the shape of every branch of the key dispatch.\<close>

definition read_into ::
  "(toml_fail + ('v \<times> string)) \<Rightarrow> ('v \<Rightarrow> 'st) \<Rightarrow> toml_fail + ('st \<times> string)" where
  "read_into res set_field = (case res of Inl e \<Rightarrow> Inl e | Inr (v, r) \<Rightarrow> Inr (set_field v, r))"

definition manField :: "man_state \<Rightarrow> string \<Rightarrow> string \<Rightarrow> toml_fail + (man_state \<times> string)" where
  "manField st key s =
     (if ms_in_dep st then
        if key = ''path'' then read_into (parseString s) (\<lambda>v. upd_dep (dep_path_update (\<lambda>_. v)) st)
        else if key = ''version'' then read_into (parseString s) (\<lambda>v. upd_dep (dep_version_update (\<lambda>_. v)) st)
        else if key = ''as'' then read_into (parseString s) (\<lambda>v. upd_dep (dep_as_update (\<lambda>_. v)) st)
        else if key = ''dev'' then read_into (parseBool s) (\<lambda>v. upd_dep (dep_dev_update (\<lambda>_. v)) st)
        else Inl (UnknownTableField key, s)
      else
        if key = ''name'' then read_into (parseString s) (\<lambda>v. upd_man (man_name_update (\<lambda>_. v)) st)
        else if key = ''entry'' then read_into (parseString s) (\<lambda>v. upd_man (man_entry_update (\<lambda>_. v)) st)
        else if key = ''version'' then read_into (parseString s) (\<lambda>v. upd_man (man_version_update (\<lambda>_. v)) st)
        else if key = ''out'' then read_into (parseString s) (\<lambda>v. upd_man (man_out_update (\<lambda>_. v)) st)
        else if key = ''sources'' then
          read_into (parseStringArray (man_sources (ms_out st)) s) (\<lambda>v. upd_man (man_sources_update (\<lambda>_. v)) st)
        else if key = ''assets'' then
          read_into (parseStringArray (man_assets (ms_out st)) s) (\<lambda>v. upd_man (man_assets_update (\<lambda>_. v)) st)
        else Inl (UnknownField key, s))"

definition newDep :: "man_state \<Rightarrow> man_state" where
  "newDep st =
     st\<lparr>ms_out := (ms_out st)\<lparr>man_deps := man_deps (ms_out st) @ [dependency_default]\<rparr>, ms_in_dep := True\<rparr>"

definition manStep :: "man_state \<Rightarrow> string \<Rightarrow> toml_fail + (man_state \<times> string)" where
  "manStep st s =
     (if toml_peek s = CHR ''['' then
        (case parseTableHeader ''dep'' s of Inl e \<Rightarrow> Inl e | Inr r \<Rightarrow> Inr (newDep st, r))
      else (case parseKey s of Inl e \<Rightarrow> Inl e | Inr (key, r) \<Rightarrow> manField st key r))"

lemma read_into_Inr: "read_into res f = Inr (st', r) \<longleftrightarrow> (\<exists>v. res = Inr (v, r) \<and> st' = f v)"
  by (auto simp: read_into_def split: sum.splits)

lemma manField_le: "manField st key s = Inr (st', r) \<Longrightarrow> length r \<le> length s"
  by (auto simp: manField_def read_into_Inr split: if_splits dest: toml_le)

lemma manStep_less: "manStep st s = Inr (st', r) \<Longrightarrow> s \<noteq> [] \<Longrightarrow> length r < length s"
  by (auto simp: manStep_def split: if_splits sum.splits
      dest!: parseTableHeader_less parseKey_less manField_le)

function manLoop :: "man_state \<Rightarrow> string \<Rightarrow> toml_fail + man_state" where
  "manLoop st s =
     (let s1 = skipWhitespaceAndComments s
      in if s1 = [] then Inr st
         else case manStep st s1 of
                Inl e \<Rightarrow> Inl e
              | Inr (st', r) \<Rightarrow> manLoop st' r)"
  by pat_completeness auto
termination
proof (relation "measure (\<lambda>(st, s). length s)", simp, goal_cases)
  case (1 st s s1 p st' r)
  then show ?case using manStep_less [of st s1 st' r] skip_le [of s] by auto
qed

declare manLoop.simps [simp del]

definition parseManifest :: "string \<Rightarrow> project_manifest \<Rightarrow> (toml_msg \<times> nat) + project_manifest" where
  "parseManifest s out =
     (case manLoop \<lparr>ms_out = out, ms_in_dep = False\<rparr> s of
        Inl (msg, rest) \<Rightarrow> Inl (msg, toml_line s rest)
      | Inr st \<Rightarrow>
          if list_ex (\<lambda>d. dep_path d = []) (man_deps (ms_out st)) then Inl (MissingPath, toml_line s [])
          else if man_sources (ms_out st) = [] then Inl (NoSources, toml_line s [])
          else Inr (ms_out st))"

section \<open>The writer\<close>

definition fieldText :: "string \<Rightarrow> string \<Rightarrow> string" where
  "fieldText key v = (if v \<noteq> [] then key @ '' = '' @ quote v @ [NL] else [])"

definition arrayText :: "string \<Rightarrow> string list \<Rightarrow> string" where
  "arrayText key xs = (if xs \<noteq> [] then key @ '' = '' @ ''['' @ quoteItems xs @ '']'' @ [NL] else [])"

definition depText :: "dependency \<Rightarrow> string" where
  "depText d =
     [NL] @ ''[[dep]]'' @ [NL] @
     ''path = '' @ quote (dep_path d) @ [NL] @
     fieldText ''version'' (dep_version d) @
     fieldText ''as'' (dep_as d) @
     (if dep_dev d then ''dev = true'' @ [NL] else [])"

definition writeManifest :: "project_manifest \<Rightarrow> string" where
  "writeManifest m =
     fieldText ''name'' (man_name m) @ fieldText ''entry'' (man_entry m) @
     fieldText ''version'' (man_version m) @ fieldText ''out'' (man_out m) @
     arrayText ''sources'' (man_sources m) @ arrayText ''assets'' (man_assets m) @
     concat (map depText (man_deps m))"

section \<open>The parser on printed text\<close>

interpretation mf: toml_reader "''dep''" newDep manField manLoop
proof
  show "manLoop st s =
     (let s1 = skipWhitespaceAndComments s
      in if s1 = [] then Inr st
         else if toml_peek s1 = CHR ''['' then
           (case parseTableHeader ''dep'' s1 of Inl e \<Rightarrow> Inl e | Inr r \<Rightarrow> manLoop (newDep st) r)
         else
           (case parseKey s1 of
              Inl e \<Rightarrow> Inl e
            | Inr (key, r) \<Rightarrow>
                (case manField st key r of Inl e \<Rightarrow> Inl e | Inr (st', r') \<Rightarrow> manLoop st' r')))" for st s
    by (subst manLoop.simps) (simp add: manStep_def Let_def split: sum.split prod.split)
qed (simp_all add: ident_eval)

lemma manLoop_fieldText:
  assumes "list_all toml_ident_char key" "key \<noteq> []"
    and "\<And>v s r. parseString s = Inr (v, r) \<Longrightarrow> manField st key s = Inr (f v, r)"
    and "f [] = st"
  shows "manLoop st (fieldText key v @ r) = manLoop (f v) r"
proof (cases "v = []")
  case False
  then show ?thesis
    using mf.loop_string_field [OF assms(3) [OF parseString_quote] assms(1,2)] by (simp add: fieldText_def)
qed (simp add: fieldText_def assms(4))

lemma manLoop_arrayText:
  assumes "list_all toml_ident_char key" "key \<noteq> []"
    and "\<And>v s r. parseStringArray [] s = Inr (v, r) \<Longrightarrow> manField st key s = Inr (f v, r)"
    and "f [] = st"
  shows "manLoop st (arrayText key xs @ r) = manLoop (f xs) r"
proof (cases "xs = []")
  case False
  then have "parseStringArray [] (CHR ''['' # quoteItems xs @ CHR '']'' # NL # r) = Inr (xs, NL # r)"
    by (simp add: parseStringArray_quote)
  then show ?thesis
    using mf.loop_array_field [OF assms(3) assms(1,2)] False by (simp add: arrayText_def)
qed (simp add: arrayText_def assms(4))

lemmas manField_simps = manField_def read_into_def ident_eval upd_man_def

definition top_state :: "project_manifest \<Rightarrow> man_state" where
  "top_state m = \<lparr>ms_out = m, ms_in_dep = False\<rparr>"

lemma manLoop_name:
  "man_name m = [] \<Longrightarrow> manLoop (top_state m) (fieldText ''name'' v @ r) = manLoop (top_state (m\<lparr>man_name := v\<rparr>)) r"
  by (rule manLoop_fieldText) (cases m; simp add: manField_simps top_state_def)+

lemma manLoop_entry:
  "man_entry m = [] \<Longrightarrow> manLoop (top_state m) (fieldText ''entry'' v @ r) = manLoop (top_state (m\<lparr>man_entry := v\<rparr>)) r"
  by (rule manLoop_fieldText) (cases m; simp add: manField_simps top_state_def)+

lemma manLoop_version:
  "man_version m = [] \<Longrightarrow>
   manLoop (top_state m) (fieldText ''version'' v @ r) = manLoop (top_state (m\<lparr>man_version := v\<rparr>)) r"
  by (rule manLoop_fieldText) (cases m; simp add: manField_simps top_state_def)+

lemma manLoop_out:
  "man_out m = [] \<Longrightarrow> manLoop (top_state m) (fieldText ''out'' v @ r) = manLoop (top_state (m\<lparr>man_out := v\<rparr>)) r"
  by (rule manLoop_fieldText) (cases m; simp add: manField_simps top_state_def)+

lemma manLoop_sources:
  "man_sources m = [] \<Longrightarrow>
   manLoop (top_state m) (arrayText ''sources'' v @ r) = manLoop (top_state (m\<lparr>man_sources := v\<rparr>)) r"
  by (rule manLoop_arrayText) (cases m; simp add: manField_simps top_state_def)+

lemma manLoop_assets:
  "man_assets m = [] \<Longrightarrow>
   manLoop (top_state m) (arrayText ''assets'' v @ r) = manLoop (top_state (m\<lparr>man_assets := v\<rparr>)) r"
  by (rule manLoop_arrayText) (cases m; simp add: manField_simps top_state_def)+

text \<open>The state inside a table: its dependency is the last of the list.\<close>

definition in_dep :: "project_manifest \<Rightarrow> dependency list \<Rightarrow> dependency \<Rightarrow> man_state" where
  "in_dep m ds d = \<lparr>ms_out = m\<lparr>man_deps := ds @ [d]\<rparr>, ms_in_dep = True\<rparr>"

lemma in_dep_sel [simp]:
  "ms_in_dep (in_dep m ds d)" "upd_dep f (in_dep m ds d) = in_dep m ds (f d)"
  by (simp_all add: in_dep_def upd_dep_def Let_def)

lemma manLoop_dep_version:
  "dep_version d = [] \<Longrightarrow>
   manLoop (in_dep m ds d) (fieldText ''version'' v @ r) = manLoop (in_dep m ds (d\<lparr>dep_version := v\<rparr>)) r"
  by (rule manLoop_fieldText) (cases d; simp add: manField_simps)+

lemma manLoop_dep_as:
  "dep_as d = [] \<Longrightarrow>
   manLoop (in_dep m ds d) (fieldText ''as'' v @ r) = manLoop (in_dep m ds (d\<lparr>dep_as := v\<rparr>)) r"
  by (rule manLoop_fieldText) (cases d; simp add: manField_simps)+

lemma manLoop_dep_path:
  "manLoop (in_dep m ds d) (''path = '' @ quote v @ NL # r) = manLoop (in_dep m ds (d\<lparr>dep_path := v\<rparr>)) r"
  using mf.loop_string_field [of "in_dep m ds d" "''path''" v r]
  by (simp add: manField_simps parseString_quote)

lemma manLoop_dep_dev:
  assumes "\<not> dep_dev d"
  shows "manLoop (in_dep m ds d) ((if b then ''dev = true'' @ [NL] else []) @ r) =
    manLoop (in_dep m ds (d\<lparr>dep_dev := b\<rparr>)) r"
proof (cases b)
  case True
  have "manLoop (in_dep m ds d) (''dev'' @ '' = '' @ ''true'' @ NL # r) = manLoop (in_dep m ds (d\<lparr>dep_dev := True\<rparr>)) r"
    using parseBool_true [of "NL # r"] by (intro mf.loop_field) (simp_all add: manField_simps toml_ws_def)
  with True show ?thesis by simp
next
  case False
  with assms have "d\<lparr>dep_dev := b\<rparr> = d" by (cases d) simp
  with False show ?thesis by simp
qed

lemma manLoop_dep:
  assumes "ms_out st = m"
  shows "manLoop st (depText d @ r) = manLoop (in_dep m (man_deps m) (d\<lparr>dep_kind_of := Local\<rparr>)) r"
proof -
  let ?t = "''path = '' @ quote (dep_path d) @ NL # fieldText ''version'' (dep_version d) @
     fieldText ''as'' (dep_as d) @ (if dep_dev d then ''dev = true'' @ [NL] else []) @ r"
  have "manLoop st (depText d @ r) = manLoop st (''[['' @ ''dep'' @ '']]'' @ NL # ?t)"
    by (simp add: depText_def mf.loop_ws)
  also have "\<dots> = manLoop (newDep st) ?t"
    by (simp only: mf.loop_header mf.loop_ws toml_ws_NL)
  also have "newDep st = in_dep m (man_deps m) dependency_default"
    using assms by (simp add: newDep_def in_dep_def)
  also have "manLoop (in_dep m (man_deps m) dependency_default) ?t =
      manLoop (in_dep m (man_deps m) (dependency_default\<lparr>dep_path := dep_path d, dep_version := dep_version d,
        dep_as := dep_as d, dep_dev := dep_dev d\<rparr>)) r"
    by (simp only: manLoop_dep_path manLoop_dep_version manLoop_dep_as manLoop_dep_dev
        dependency_default_def dependency.simps simp_thms)
  also have "dependency_default\<lparr>dep_path := dep_path d, dep_version := dep_version d,
        dep_as := dep_as d, dep_dev := dep_dev d\<rparr> = d\<lparr>dep_kind_of := Local\<rparr>"
    by (cases d) (simp add: dependency_default_def)
  finally show ?thesis .
qed

lemma manLoop_deps:
  "manLoop st (concat (map depText ds)) =
     Inr (if ds = [] then st
          else \<lparr>ms_out = (ms_out st)\<lparr>man_deps := man_deps (ms_out st) @ map (dep_kind_of_update (\<lambda>_. Local)) ds\<rparr>,
                ms_in_dep = True\<rparr>)"
proof (induction ds arbitrary: st)
  case (Cons d ds)
  have "manLoop st (concat (map depText (d # ds))) =
      manLoop (in_dep (ms_out st) (man_deps (ms_out st)) (d\<lparr>dep_kind_of := Local\<rparr>)) (concat (map depText ds))"
    using manLoop_dep [of st "ms_out st" d] by simp
  with Cons show ?case by (simp add: in_dep_def)
qed (simp add: mf.loop_Nil)

text \<open>The manifests a parse returns: at least one source, a path on every dependency, and every
  dependency of kind \<open>Local\<close> (the kind is inferred later, never read).\<close>

definition manifest_ok :: "project_manifest \<Rightarrow> bool" where
  "manifest_ok m \<longleftrightarrow> man_sources m \<noteq> [] \<and> list_all (\<lambda>d. dep_path d \<noteq> []) (man_deps m)"

definition forget_kinds :: "project_manifest \<Rightarrow> project_manifest" where
  "forget_kinds m = m\<lparr>man_deps := map (dep_kind_of_update (\<lambda>_. Local)) (man_deps m)\<rparr>"

lemma parse_write:
  assumes "manifest_ok m"
  shows "parseManifest (writeManifest m) project_manifest_default = Inr (forget_kinds m)"
proof -
  let ?d = "project_manifest_default"
  let ?m = "?d\<lparr>man_name := man_name m, man_entry := man_entry m, man_version := man_version m,
     man_out := man_out m, man_sources := man_sources m, man_assets := man_assets m\<rparr>"
  have "manLoop (top_state ?d) (writeManifest m) = manLoop (top_state ?m) (concat (map depText (man_deps m)))"
    by (simp add: writeManifest_def project_manifest_default_def manLoop_name manLoop_entry manLoop_version
        manLoop_out manLoop_sources manLoop_assets)
  also have "\<dots> = Inr \<lparr>ms_out = forget_kinds m, ms_in_dep = man_deps m \<noteq> []\<rparr>"
    by (cases m) (simp add: manLoop_deps top_state_def forget_kinds_def project_manifest_default_def)
  finally show ?thesis
    using assms
    by (auto simp: parseManifest_def top_state_def manifest_ok_def forget_kinds_def list_ex_iff list_all_iff)
qed

text \<open>
  Writing a manifest and reading it back gives the manifest again, with the kind of every
  dependency reset to the default the reader gives it, whatever bytes its names, paths and versions
  hold. It needs at least one source and a path on every dependency, the two things the reader insists on.
\<close>

lemma parseManifest_writeManifest:
  assumes "man_sources m \<noteq> []" and "list_all (\<lambda>d. dep_path d \<noteq> []) (man_deps m)"
  shows "parseManifest (writeManifest m) project_manifest_default =
    Inr (m\<lparr>man_deps := map (dep_kind_of_update (\<lambda>_. Local)) (man_deps m)\<rparr>)"
  using parse_write [of m] assms by (simp add: manifest_ok_def forget_kinds_def)

definition manifest_example :: project_manifest where
  "manifest_example =
     \<lparr>man_name = ''app'', man_entry = ''main'', man_sources = [''src/main.lev'', [DQUOTE, BSLASH, NL]],
      man_assets = [], man_deps =
        [\<lparr>dep_path = ''github.com/x/json'', dep_version = ''1.2.0'', dep_as = [], dep_dev = True, dep_kind_of = Vcs\<rparr>,
         \<lparr>dep_path = ''../lib'', dep_version = [], dep_as = ''Lib'', dep_dev = False, dep_kind_of = Local\<rparr>],
      man_version = [], man_out = ''bin/app''\<rparr>"

lemma parseManifest_writeManifest_witness:
  "man_sources manifest_example \<noteq> [] \<and> list_all (\<lambda>d. dep_path d \<noteq> []) (man_deps manifest_example) \<and>
   parseManifest (writeManifest manifest_example) project_manifest_default =
     Inr (manifest_example\<lparr>man_deps := map (dep_kind_of_update (\<lambda>_. Local)) (man_deps manifest_example)\<rparr>)"
proof -
  have "man_sources manifest_example \<noteq> []" "list_all (\<lambda>d. dep_path d \<noteq> []) (man_deps manifest_example)"
    by (simp_all add: manifest_example_def)
  with parseManifest_writeManifest [OF this] show ?thesis by blast
qed

section \<open>What a parse returns\<close>

definition kinds_local :: "man_state \<Rightarrow> bool" where
  "kinds_local st \<longleftrightarrow>
     (ms_in_dep st \<longrightarrow> man_deps (ms_out st) \<noteq> []) \<and> list_all (\<lambda>d. dep_kind_of d = Local) (man_deps (ms_out st))"

lemma manField_local: "manField st key s = Inr (st', r) \<Longrightarrow> kinds_local st \<Longrightarrow> kinds_local st'"
  unfolding manField_def kinds_local_def list_all_iff
  by (auto simp: read_into_Inr upd_man_def upd_dep_def Let_def split: if_splits; metis in_set_butlastD)

lemma manStep_local: "manStep st s = Inr (st', r) \<Longrightarrow> kinds_local st \<Longrightarrow> kinds_local st'"
  by (auto simp: manStep_def newDep_def dependency_default_def split: if_splits sum.splits
      dest: manField_local) (auto simp: kinds_local_def)

lemma manLoop_local: "manLoop st s = Inr st' \<Longrightarrow> kinds_local st \<Longrightarrow> kinds_local st'"
proof (induction st s rule: manLoop.induct)
  case (1 st s)
  then show ?case
    unfolding manLoop.simps [of st s] by (auto simp: Let_def split: if_splits sum.splits dest: manStep_local)
qed

text \<open>
  C21. Every manifest the parser accepts, whatever text it was written in, has a source and a path on
  every dependency, and is a fixed point of writing and reading: rewriting the file (as
  \<open>trident add\<close>, \<open>remove\<close> and \<open>update\<close> do) never changes what the project declares.
\<close>

theorem parseManifest_rewrite:
  assumes "parseManifest s project_manifest_default = Inr m"
  shows "man_sources m \<noteq> [] \<and> list_all (\<lambda>d. dep_path d \<noteq> []) (man_deps m) \<and>
    parseManifest (writeManifest m) project_manifest_default = Inr m"
proof -
  obtain st where st: "manLoop (top_state project_manifest_default) s = Inr st" "ms_out st = m"
    and ok: "manifest_ok m"
    using assms
    by (auto simp: parseManifest_def top_state_def manifest_ok_def list_ex_iff list_all_iff
        split: sum.splits if_splits)
  have "kinds_local st"
    by (rule manLoop_local [OF st(1)]) (simp add: kinds_local_def top_state_def project_manifest_default_def)
  then have "map (dep_kind_of_update (\<lambda>_. Local)) (man_deps m) = man_deps m"
    using st(2) by (auto simp: kinds_local_def list_all_iff intro!: map_idI)
  then have "forget_kinds m = m" by (simp add: forget_kinds_def)
  with parse_write [OF ok] ok show ?thesis by (simp add: manifest_ok_def)
qed

theorem parseManifest_rewrite_witness:
  "\<exists>m. parseManifest (''# demo'' @ [NL] @ ''sources=['' @ quote ''a.lev'' @ '',]'') project_manifest_default = Inr m \<and>
     parseManifest (writeManifest m) project_manifest_default = Inr m"
proof -
  have "parseManifest (''# demo'' @ [NL] @ ''sources=['' @ quote ''a.lev'' @ '',]'') project_manifest_default =
      Inr (project_manifest_default\<lparr>man_sources := [''a.lev'']\<rparr>)"
    by code_simp
  from parseManifest_rewrite [OF this] this show ?thesis by blast
qed

end
