(* ===== verification/Utf8.thy ===== *)
theory Utf8
  imports Lev_Prelude
begin

unbundle bit_operations_syntax

text \<open>
  The UTF-8 codec of \<open>src/runtime/RuntimeValue.hpp\<close> that every engine shares: \<open>utf8Encode\<close> and the
  strict decoder \<open>utf8DecodeAt\<close> with its maximal-subpart replacement. Code points and bytes are natural
  numbers; all values stay below 0x200000, so the 64-bit operations of the source are exact.
\<close>

section \<open>Encoder and decoder\<close>

definition utf8Encode :: "nat \<Rightarrow> string" where
  "utf8Encode c =
     (if c \<le> 0x7F then [char_of c]
      else if c \<le> 0x7FF then
        [char_of (0xC0 OR drop_bit 6 c), char_of (0x80 OR (c AND 0x3F))]
      else if c \<le> 0xFFFF then
        [char_of (0xE0 OR drop_bit 12 c), char_of (0x80 OR (drop_bit 6 c AND 0x3F)),
         char_of (0x80 OR (c AND 0x3F))]
      else
        [char_of (0xF0 OR drop_bit 18 c), char_of (0x80 OR (drop_bit 12 c AND 0x3F)),
         char_of (0x80 OR (drop_bit 6 c AND 0x3F)), char_of (0x80 OR (c AND 0x3F))])"

definition byte_at :: "string \<Rightarrow> nat \<Rightarrow> nat" where
  "byte_at s i = of_char (s ! i)"

text \<open>What a lead byte from \<open>0xC2\<close> on announces: the number of trailing bytes, the bounds of the
  second byte and the payload bits of the lead.\<close>

definition utf8_lead :: "nat \<Rightarrow> (nat \<times> nat \<times> nat \<times> nat) option" where
  "utf8_lead b0 =
     (if b0 \<le> 0xC1 then None
      else if b0 \<le> 0xDF then Some (1, 0x80, 0xBF, b0 AND 0x1F)
      else if b0 = 0xE0 then Some (2, 0xA0, 0xBF, b0 AND 0x0F)
      else if b0 \<le> 0xEC then Some (2, 0x80, 0xBF, b0 AND 0x0F)
      else if b0 = 0xED then Some (2, 0x80, 0x9F, b0 AND 0x0F)
      else if b0 \<le> 0xEF then Some (2, 0x80, 0xBF, b0 AND 0x0F)
      else if b0 = 0xF0 then Some (3, 0x90, 0xBF, b0 AND 0x07)
      else if b0 \<le> 0xF3 then Some (3, 0x80, 0xBF, b0 AND 0x07)
      else if b0 = 0xF4 then Some (3, 0x80, 0x8F, b0 AND 0x07)
      else None)"

definition utf8_push :: "nat \<Rightarrow> nat \<Rightarrow> nat" where
  "utf8_push cp b = push_bit 6 cp OR (b AND 0x3F)"

text \<open>The loop over the trailing bytes from the third on: the code point and the bytes consumed.\<close>

function utf8_tail :: "string \<Rightarrow> nat \<Rightarrow> nat \<Rightarrow> nat \<Rightarrow> nat \<Rightarrow> nat \<times> nat" where
  "utf8_tail s i k need cp =
     (if k > need then (cp, need + 1)
      else if i + k \<ge> length s then (0xFFFD, k)
      else let bk = byte_at s (i + k)
           in if bk < 0x80 \<or> bk > 0xBF then (0xFFFD, k)
              else utf8_tail s i (k + 1) need (utf8_push cp bk))"
  by pat_completeness auto
termination by (relation "measure (\<lambda>(s, i, k, need, cp). Suc need - k)") auto

declare utf8_tail.simps [simp del]

text \<open>The result is the code point, the length consumed and the boundary flag.\<close>

definition utf8DecodeAt :: "string \<Rightarrow> nat \<Rightarrow> nat \<times> nat \<times> bool" where
  "utf8DecodeAt s i =
     (if i \<ge> length s then (0xFFFD, 1, True)
      else let b0 = byte_at s i
           in if b0 \<le> 0x7F then (b0, 1, True)
              else if b0 \<le> 0xBF then (0xFFFD, 1, False)
              else case utf8_lead b0 of
                     None \<Rightarrow> (0xFFFD, 1, True)
                   | Some (need, lo, hi, cp) \<Rightarrow>
                       if i + 1 \<ge> length s then (0xFFFD, 1, True)
                       else let b1 = byte_at s (i + 1)
                            in if b1 < lo \<or> b1 > hi then (0xFFFD, 1, True)
                               else let (cp', len) = utf8_tail s i 2 need (utf8_push cp b1)
                                    in (cp', len, True))"

text \<open>A Unicode scalar value.\<close>

definition scalar :: "nat \<Rightarrow> bool" where
  "scalar c \<longleftrightarrow> c \<le> 0x10FFFF \<and> \<not> (0xD800 \<le> c \<and> c \<le> 0xDFFF)"

section \<open>Bits as arithmetic\<close>

lemma or_add:
  assumes "b < 2 ^ n" shows "(a * 2 ^ n) OR b = a * 2 ^ n + (b :: nat)"
proof -
  have b: "take_bit n b = b" using assms by (simp add: take_bit_nat_eq_self)
  have "push_bit n a AND take_bit n b = 0"
    by (rule bit_eqI) (auto simp: bit_simps)
  then show ?thesis using b disjunctive_add_eq_or [of "push_bit n a" b] by (simp add: push_bit_eq_mult)
qed

lemma and_3F: "(c :: nat) AND 0x3F = c mod 64"
  using take_bit_eq_mask [of 6 c] by (simp add: take_bit_eq_mod mask_eq_exp_minus_1)

lemma and_masks: "(c :: nat) AND 0x1F = c mod 32" "c AND 0x0F = c mod 16" "c AND 0x07 = c mod 8"
  using take_bit_eq_mask [of 5 c] take_bit_eq_mask [of 4 c] take_bit_eq_mask [of 3 c]
  by (simp_all add: take_bit_eq_mod mask_eq_exp_minus_1)

lemma utf8_push_arith [simp]: "utf8_push cp b = 64 * cp + b mod 64"
  using or_add [of "b mod 64" 6 cp] by (simp add: utf8_push_def and_3F push_bit_eq_mult mult.commute)

lemma or_lead:
  "(b :: nat) < 64 \<Longrightarrow> 0x80 OR b = 0x80 + b" "b < 32 \<Longrightarrow> 0xC0 OR b = 0xC0 + b"
  "b < 16 \<Longrightarrow> 0xE0 OR b = 0xE0 + b" "b < 8 \<Longrightarrow> 0xF0 OR b = 0xF0 + b"
  using or_add [of b 6 2] or_add [of b 5 6] or_add [of b 4 14] or_add [of b 3 30] by simp_all

lemma drop_bit_div: "drop_bit 6 (c :: nat) = c div 64" "drop_bit 12 c = c div 4096" "drop_bit 18 c = c div 262144"
  by (simp_all add: drop_bit_eq_div)

lemma utf8Encode_arith:
  assumes "c < 0x200000"
  shows "utf8Encode c =
     (if c \<le> 0x7F then [char_of c]
      else if c \<le> 0x7FF then [char_of (0xC0 + c div 64), char_of (0x80 + c mod 64)]
      else if c \<le> 0xFFFF then
        [char_of (0xE0 + c div 4096), char_of (0x80 + c div 64 mod 64), char_of (0x80 + c mod 64)]
      else
        [char_of (0xF0 + c div 262144), char_of (0x80 + c div 4096 mod 64),
         char_of (0x80 + c div 64 mod 64), char_of (0x80 + c mod 64)])"
  unfolding utf8Encode_def drop_bit_div and_3F using assms
  by (auto simp: or_lead)

lemma mod_block:
  assumes "k * m \<le> b" and "b < k * m + m" shows "b mod m = b - k * (m :: nat)"
proof -
  have "b mod m = (b - k * m + k * m) mod m" using assms(1) by simp
  also have "\<dots> = (b - k * m) mod m" by (rule mod_mult_self1)
  also have "\<dots> = b - k * m" using assms by (intro mod_less) linarith
  finally show ?thesis .
qed

lemma utf8_lead_arith:
  "utf8_lead b =
     (if b \<le> 0xC1 \<or> b \<ge> 0xF5 then None
      else if b \<le> 0xDF then Some (1, 0x80, 0xBF, b - 0xC0)
      else if b \<le> 0xEF then Some (2, if b = 0xE0 then 0xA0 else 0x80, if b = 0xED then 0x9F else 0xBF, b - 0xE0)
      else Some (3, if b = 0xF0 then 0x90 else 0x80, if b = 0xF4 then 0x8F else 0xBF, b - 0xF0))"
  unfolding utf8_lead_def and_masks using mod_block [of 6 32 b] mod_block [of 14 16 b] mod_block [of 30 8 b]
  by auto

section \<open>The codec is a strict round trip\<close>

lemma byte_eqI: "of_char c = n \<Longrightarrow> c = char_of (n :: nat)"
  by (metis char_of_char)

definition continuation :: "nat \<Rightarrow> bool" where
  "continuation b \<longleftrightarrow> 0x80 \<le> b \<and> b \<le> 0xBF"

lemma continuation_mod: "continuation b \<Longrightarrow> b mod 64 = b - 0x80"
  using mod_block [of 2 64 b] by (simp add: continuation_def)

lemma utf8_tail_done: "need < k \<Longrightarrow> utf8_tail s i k need cp = (cp, need + 1)"
  by (simp add: utf8_tail.simps)

lemma utf8_tail_step:
  "i + k < length s \<Longrightarrow> k \<le> need \<Longrightarrow> continuation (byte_at s (i + k)) \<Longrightarrow>
   utf8_tail s i k need cp = utf8_tail s i (k + 1) need (64 * cp + (byte_at s (i + k) - 0x80))"
  using continuation_mod [of "byte_at s (i + k)"]
  by (subst utf8_tail.simps) (simp add: continuation_def not_less)

lemma utf8_tail_stop:
  "k \<le> need \<Longrightarrow> i + k \<ge> length s \<or> \<not> continuation (byte_at s (i + k)) \<Longrightarrow>
   utf8_tail s i k need cp = (0xFFFD, k)"
  by (subst utf8_tail.simps) (auto simp: continuation_def Let_def)

text \<open>The well-formed sequences of two, three and four bytes; the bounds on the second byte exclude
  overlong forms, surrogates and values above \<open>0x10FFFF\<close>.\<close>

definition wf2 :: "string \<Rightarrow> nat \<Rightarrow> bool" where
  "wf2 s i \<longleftrightarrow> i + 1 < length s \<and> 0xC2 \<le> byte_at s i \<and> byte_at s i \<le> 0xDF \<and> continuation (byte_at s (i + 1))"

definition wf3 :: "string \<Rightarrow> nat \<Rightarrow> bool" where
  "wf3 s i \<longleftrightarrow> i + 2 < length s \<and> 0xE0 \<le> byte_at s i \<and> byte_at s i \<le> 0xEF \<and>
     continuation (byte_at s (i + 1)) \<and> continuation (byte_at s (i + 2)) \<and>
     (byte_at s i = 0xE0 \<longrightarrow> 0xA0 \<le> byte_at s (i + 1)) \<and> (byte_at s i = 0xED \<longrightarrow> byte_at s (i + 1) \<le> 0x9F)"

definition wf4 :: "string \<Rightarrow> nat \<Rightarrow> bool" where
  "wf4 s i \<longleftrightarrow> i + 3 < length s \<and> 0xF0 \<le> byte_at s i \<and> byte_at s i \<le> 0xF4 \<and>
     continuation (byte_at s (i + 1)) \<and> continuation (byte_at s (i + 2)) \<and> continuation (byte_at s (i + 3)) \<and>
     (byte_at s i = 0xF0 \<longrightarrow> 0x90 \<le> byte_at s (i + 1)) \<and> (byte_at s i = 0xF4 \<longrightarrow> byte_at s (i + 1) \<le> 0x8F)"

lemma decode1: "i < length s \<Longrightarrow> byte_at s i \<le> 0x7F \<Longrightarrow> utf8DecodeAt s i = (byte_at s i, 1, True)"
  by (simp add: utf8DecodeAt_def)

lemma decode2:
  "wf2 s i \<Longrightarrow> utf8DecodeAt s i = (64 * (byte_at s i - 0xC0) + (byte_at s (i + 1) - 0x80), 2, True)"
  using continuation_mod [of "byte_at s (i + 1)"]
  by (simp add: wf2_def utf8DecodeAt_def utf8_lead_arith Let_def utf8_tail_done continuation_def not_less)

lemma decode3:
  "wf3 s i \<Longrightarrow> utf8DecodeAt s i =
     (64 * (64 * (byte_at s i - 0xE0) + (byte_at s (i + 1) - 0x80)) + (byte_at s (i + 2) - 0x80), 3, True)"
  using continuation_mod [of "byte_at s (i + 1)"] utf8_tail_step [of i 2 s 2]
  by (auto simp: wf3_def utf8DecodeAt_def utf8_lead_arith Let_def utf8_tail_done continuation_def not_less)

lemma decode4:
  "wf4 s i \<Longrightarrow> utf8DecodeAt s i =
     (64 * (64 * (64 * (byte_at s i - 0xF0) + (byte_at s (i + 1) - 0x80)) + (byte_at s (i + 2) - 0x80)) +
      (byte_at s (i + 3) - 0x80), 4, True)"
  using continuation_mod [of "byte_at s (i + 1)"] utf8_tail_step [of i 2 s 3] utf8_tail_step [of i 3 s 3]
  by (auto simp: wf4_def utf8DecodeAt_def utf8_lead_arith Let_def utf8_tail_done continuation_def not_less)

lemma utf8_tail_bound:
  "utf8_tail s i k need cp = (c, len) \<Longrightarrow> i + k \<le> length s \<Longrightarrow> k \<le> need + 1 \<Longrightarrow> k \<le> len \<and> len \<le> need + 1 \<and> i + len \<le> length s"
proof (induction s i k need cp arbitrary: c len rule: utf8_tail.induct)
  case (1 s i k need cp)
  show ?case
  proof (cases "need < k \<or> length s \<le> i + k \<or> \<not> continuation (byte_at s (i + k))")
    case True
    with "1.prems" show ?thesis
      using utf8_tail_done [of need k s i cp] utf8_tail_stop [of k need s i cp] by (cases "need < k") auto
  next
    case False
    then have step: "utf8_tail s i k need cp = utf8_tail s i (k + 1) need (utf8_push cp (byte_at s (i + k)))"
      by (subst utf8_tail.simps) (simp add: continuation_def not_less)
    from False have "k + 1 \<le> len \<and> len \<le> need + 1 \<and> i + len \<le> length s"
      using "1.IH" [of "byte_at s (i + k)"] "1.prems" unfolding step by (simp add: continuation_def not_less)
    then show ?thesis by simp
  qed
qed

lemma utf8_tail_bad:
  "utf8_tail s i k need cp = (c, len) \<Longrightarrow> c \<noteq> 0xFFFD \<Longrightarrow> k \<le> j \<Longrightarrow> j \<le> need \<Longrightarrow>
   i + j < length s \<and> continuation (byte_at s (i + j))"
proof (induction s i k need cp arbitrary: c len rule: utf8_tail.induct)
  case (1 s i k need cp)
  have ok: "i + k < length s" "continuation (byte_at s (i + k))"
    using utf8_tail_stop [of k need s i cp] "1.prems" by (force simp: not_less)+
  then have "utf8_tail s i k need cp = utf8_tail s i (k + 1) need (utf8_push cp (byte_at s (i + k)))"
    using "1.prems" by (subst utf8_tail.simps) (simp add: continuation_def not_less)
  with "1.IH" [of "byte_at s (i + k)" c len] "1.prems" ok show ?case
    by (cases "j = k") (simp_all add: continuation_def not_less)
qed

lemma decode_len:
  assumes "i < length s" and "utf8DecodeAt s i = (c, len, b)"
  shows "1 \<le> len \<and> len \<le> 4 \<and> i + len \<le> length s"
  using assms utf8_tail_bound [of s i 2]
  by (auto simp: utf8DecodeAt_def utf8_lead_arith Let_def split: if_splits option.splits prod.splits) fastforce+

text \<open>A decoded scalar other than the replacement character comes from a well-formed sequence.\<close>

lemma decode_wf:
  assumes "i < length s" and "utf8DecodeAt s i = (c, len, b)" and "c \<noteq> 0xFFFD"
  shows "byte_at s i \<le> 0x7F \<or> wf2 s i \<or> wf3 s i \<or> wf4 s i"
proof (rule ccontr)
  assume no: "\<not> ?thesis"
  let ?b0 = "byte_at s i" and ?b1 = "byte_at s (i + 1)"
  obtain need lo hi cp where lead: "utf8_lead ?b0 = Some (need, lo, hi, cp)"
    and b1: "i + 1 < length s" "lo \<le> ?b1" "?b1 \<le> hi" and b0: "0xBF < ?b0"
    and tail: "utf8_tail s i 2 need (utf8_push cp ?b1) = (c, len)"
    using assms no
    by (auto simp: utf8DecodeAt_def Let_def not_less not_le split: if_splits option.splits prod.splits)
  have "i + j < length s \<and> continuation (byte_at s (i + j))" if "2 \<le> j" "j \<le> need" for j
    using utf8_tail_bad [OF tail assms(3) that] .
  from this [of 2] this [of 3] no lead b1 b0 show False
    unfolding utf8_lead_arith wf2_def wf3_def wf4_def continuation_def by (auto split: if_splits)
qed

lemma cont_byte [simp]: "(0x80 + n mod 64) mod 256 = (0x80 + n mod 64 :: nat)"
  by (rule mod_less) (simp add: less_diff_conv [symmetric])

lemma split64 [simp]: "(b :: nat) < 64 \<Longrightarrow> (64 * a + b) div 64 = a" "b < 64 \<Longrightarrow> (64 * a + b) mod 64 = b"
  by simp_all

lemma cont_payload: "continuation b \<Longrightarrow> b - 0x80 < 64"
  unfolding continuation_def by linarith

lemma upt4: "[i..<i + 4] = [i, i + 1, i + 2, i + 3]"
  by (simp add: upt_rec numeral_3_eq_3)

lemma div_steps: "(c :: nat) div 4096 = c div 64 div 64" "c div 262144 = c div 64 div 64 div 64"
  by (simp_all add: div_mult2_eq [symmetric])

text \<open>The bytes of a well-formed sequence are the encoding of the scalar they decode to.\<close>

lemma encode2:
  assumes "0xC2 \<le> b0" "b0 \<le> 0xDF" "continuation b1" "c = 64 * (b0 - 0xC0) + (b1 - 0x80)"
  shows "scalar c \<and> utf8Encode c = [char_of b0, char_of b1]"
proof -
  have d: "c div 64 = b0 - 0xC0" "c mod 64 = b1 - 0x80"
    using cont_payload [OF assms(3)] by (simp_all only: assms(4) split64)
  have "0x80 \<le> c" "c \<le> 0x7FF" using assms by (auto simp: continuation_def)
  then show ?thesis using assms(1,3) by (simp add: utf8Encode_arith d scalar_def continuation_def)
qed

lemma encode3:
  assumes "0xE0 \<le> b0" "b0 \<le> 0xEF" "continuation b1" "continuation b2"
    and "b0 = 0xE0 \<longrightarrow> 0xA0 \<le> b1" "b0 = 0xED \<longrightarrow> b1 \<le> 0x9F"
    and c: "c = 64 * (64 * (b0 - 0xE0) + (b1 - 0x80)) + (b2 - 0x80)"
  shows "scalar c \<and> utf8Encode c = [char_of b0, char_of b1, char_of b2]"
proof -
  have d: "c mod 64 = b2 - 0x80"
    "c div 4096 = b0 - 0xE0" "c div 64 mod 64 = b1 - 0x80"
    using cont_payload [OF assms(3)] cont_payload [OF assms(4)] by (simp_all only: c div_steps split64)
  obtain x y z where b: "b0 = 0xE0 + x" "b1 = 0x80 + y" "b2 = 0x80 + z"
    using assms(1,3,4) nat_le_iff_add unfolding continuation_def by meson
  have "0x7FF < c" using assms unfolding b continuation_def by (cases "x = 0") auto
  moreover have "c \<le> 0xFFFF" using assms unfolding b continuation_def by auto
  moreover have "scalar c"
    using assms unfolding b continuation_def scalar_def by (cases "x < 13"; cases "x = 13") auto
  ultimately
  show ?thesis using assms(1-4) by (simp add: utf8Encode_arith d continuation_def)
qed

lemma encode4:
  assumes "0xF0 \<le> b0" "b0 \<le> 0xF4" "continuation b1" "continuation b2" "continuation b3"
    and "b0 = 0xF0 \<longrightarrow> 0x90 \<le> b1" "b0 = 0xF4 \<longrightarrow> b1 \<le> 0x8F"
    and c: "c = 64 * (64 * (64 * (b0 - 0xF0) + (b1 - 0x80)) + (b2 - 0x80)) + (b3 - 0x80)"
  shows "scalar c \<and> utf8Encode c = [char_of b0, char_of b1, char_of b2, char_of b3]"
proof -
  have d: "c div 64 mod 64 = b2 - 0x80" "c mod 64 = b3 - 0x80"
    "c div 262144 = b0 - 0xF0" "c div 4096 mod 64 = b1 - 0x80"
    using cont_payload [OF assms(3)] cont_payload [OF assms(4)] cont_payload [OF assms(5)]
    by (simp_all only: c div_steps split64)
  obtain x y z t where b: "b0 = 0xF0 + x" "b1 = 0x80 + y" "b2 = 0x80 + z" "b3 = 0x80 + t"
    using assms(1,3-5) nat_le_iff_add unfolding continuation_def by meson
  have "0xFFFF < c" using assms unfolding b continuation_def by (cases "x = 0") auto
  moreover have "c \<le> 0x10FFFF" using assms unfolding b continuation_def by (cases "x = 4") auto
  ultimately show ?thesis using assms(1-5) by (simp add: utf8Encode_arith d continuation_def scalar_def)
qed

text \<open>
  The encoder and the decoder agree: wherever the encoding of a Unicode scalar stands in a string,
  decoding at its first byte returns that scalar, the length of its encoding, and a boundary.
\<close>

lemma utf8DecodeAt_utf8Encode:
  assumes "scalar c"
  shows "utf8DecodeAt (pre @ utf8Encode c @ post) (length pre) = (c, length (utf8Encode c), True)"
proof -
  let ?s = "pre @ utf8Encode c @ post" and ?i = "length pre"
  have c: "c < 0x200000" using assms by (simp add: scalar_def)
  note enc = utf8Encode_arith [OF c]
  have at: "byte_at ?s (?i + k) = of_char (utf8Encode c ! k)" if "k < length (utf8Encode c)" for k
    using that by (simp add: byte_at_def nth_append)
  define t u v w where "t = c mod 64" and "u = c div 64 mod 64" and "v = c div 4096 mod 64" and "w = c div 262144"
  have v: "c div 4096 = 64 * w + v" "c = 64 * (64 * (64 * w + v) + u) + t" "t < 64" "u < 64" "v < 64"
    using div_mult2_eq [of c 64 64] div_mult2_eq [of c 4096 64] by (simp_all add: t_def u_def v_def w_def)
  note sym = t_def [symmetric] u_def [symmetric] v_def [symmetric] w_def [symmetric]
  consider "c \<le> 0x7F" | "0x7F < c" "c \<le> 0x7FF" | "0x7FF < c" "c \<le> 0xFFFF" | "0xFFFF < c" by linarith
  then show ?thesis
  proof cases
    case 1
    with at [of 0] show ?thesis using decode1 [of ?i ?s] by (simp add: enc)
  next
    case 2
    then have b: "byte_at ?s ?i = 0xC0 + c div 64" "byte_at ?s (?i + 1) = 0x80 + c mod 64"
      using at [of 0] at [of 1] by (auto simp: enc)
    with 2 have "wf2 ?s ?i" by (auto simp: wf2_def continuation_def enc)
    from decode2 [OF this] b 2 show ?thesis by (simp add: enc)
  next
    case 3
    then have b: "byte_at ?s ?i = 0xE0 + c div 4096" "byte_at ?s (?i + 1) = 0x80 + c div 64 mod 64"
      "byte_at ?s (?i + 2) = 0x80 + c mod 64"
      using at [of 0] at [of 1] at [of 2] by (auto simp: enc)
    have "w = 0" "v < 16" using 3 v(2) by auto
    moreover have "v = 0 \<Longrightarrow> 32 \<le> u" "v = 13 \<Longrightarrow> u < 32"
      using 3 v(2-4) assms \<open>w = 0\<close> by (auto simp: scalar_def)
    moreover have len: "length (utf8Encode c) = 3" using 3 by (simp add: enc)
    ultimately have "wf3 ?s ?i"
      unfolding wf3_def continuation_def b sym v(1) using v(3-5) by auto
    from decode3 [OF this] v(2) show ?thesis unfolding b sym v(1) len by simp
  next
    case 4
    then have e: "utf8Encode c = [char_of (0xF0 + c div 262144), char_of (0x80 + c div 4096 mod 64),
         char_of (0x80 + c div 64 mod 64), char_of (0x80 + c mod 64)]" by (simp add: enc)
    have lead: "(0xF0 + w) mod 256 = 0xF0 + w" using c v(2) by (intro mod_less) simp
    have nth: "of_char (utf8Encode c ! 0) = 0xF0 + w" "of_char (utf8Encode c ! 1) = 0x80 + v"
      "of_char (utf8Encode c ! 2) = 0x80 + u" "of_char (utf8Encode c ! 3) = 0x80 + t"
      unfolding e sym using lead v(3-5) by (simp_all add: numeral_3_eq_3)
    have len: "length (utf8Encode c) = 4" by (simp add: e)
    have b: "byte_at ?s ?i = 0xF0 + w" "byte_at ?s (?i + 1) = 0x80 + v"
      "byte_at ?s (?i + 2) = 0x80 + u" "byte_at ?s (?i + 3) = 0x80 + t"
      using at [of 0] at [of 1] at [of 2] at [of 3] unfolding nth len by simp_all
    have "w \<le> 4" using v(2) assms by (simp add: scalar_def)
    moreover have "w = 0 \<Longrightarrow> 16 \<le> v" "w = 4 \<Longrightarrow> v < 16"
      using 4 v(2-5) assms by (auto simp: scalar_def)
    ultimately have "wf4 ?s ?i"
      unfolding wf4_def continuation_def b using v(3-5) len by auto
    from decode4 [OF this] v(2) show ?thesis unfolding b len by simp
  qed
qed

lemma utf8DecodeAt_utf8Encode_witness:
  "scalar 0x20AC \<and> utf8DecodeAt (''a'' @ utf8Encode 0x20AC @ ''b'') 1 = (0x20AC, 3, True)"
proof -
  have "scalar 0x20AC" "length (utf8Encode 0x20AC) = 3" by (simp_all add: scalar_def utf8Encode_def)
  with utf8DecodeAt_utf8Encode [of "0x20AC" "''a''" "''b''"] show ?thesis by simp
qed

text \<open>
  C36. The decoder is strict and total: inside a string it always consumes between one and four bytes
  and never runs past the end, always returns a Unicode scalar, and when that is not the replacement
  character, the bytes it consumed are exactly the encoding of the scalar (so overlong forms,
  surrogates and values above \<open>0x10FFFF\<close> are all replaced).
\<close>

theorem utf8DecodeAt_strict:
  assumes "i < length s" and "utf8DecodeAt s i = (c, len, b)"
  shows "1 \<le> len \<and> len \<le> 4 \<and> i + len \<le> length s \<and> scalar c \<and>
    (c = 0xFFFD \<or> take len (drop i s) = utf8Encode c)"
proof (cases "c = 0xFFFD")
  case True
  with decode_len [OF assms] show ?thesis by (simp add: scalar_def)
next
  case False
  have sl: "take n (drop i s) = map (\<lambda>k. char_of (byte_at s k)) [i..<i + n]" if "i + n \<le> length s" for n
    using that by (simp add: list_eq_iff_nth_eq byte_at_def)
  from decode_wf [OF assms False]
  consider "byte_at s i \<le> 0x7F" | "wf2 s i" | "wf3 s i" | "wf4 s i" by blast
  then have "scalar c \<and> take len (drop i s) = utf8Encode c"
  proof cases
    case 1
    with decode1 [OF assms(1)] assms sl [of 1] show ?thesis by (simp add: scalar_def utf8Encode_def)
  next
    case 2
    with decode2 [OF 2] encode2 [of "byte_at s i" "byte_at s (i + 1)" c] assms sl [of 2] show ?thesis
      by (simp add: wf2_def upt_rec)
  next
    case 3
    with decode3 [OF 3] encode3 [of "byte_at s i" "byte_at s (i + 1)" "byte_at s (i + 2)" c] assms sl [of 3]
    show ?thesis by (simp add: wf3_def upt_rec)
  next
    case 4
    with decode4 [OF 4] encode4 [of "byte_at s i" "byte_at s (i + 1)" "byte_at s (i + 2)" "byte_at s (i + 3)" c]
      assms sl [of 4]
    show ?thesis by (simp add: wf4_def upt4)
  qed
  with decode_len [OF assms] show ?thesis by blast
qed

theorem utf8DecodeAt_strict_witness:
  "utf8DecodeAt [CHR 0xC3, CHR 0xA9] 0 = (0xE9, 2, True) \<and> [CHR 0xC3, CHR 0xA9] = utf8Encode 0xE9"
proof -
  have d: "utf8DecodeAt [CHR 0xC3, CHR 0xA9] 0 = (0xE9, 2, True)" by code_simp
  have "0 < length [CHR 0xC3, CHR 0xA9]" by simp
  from utf8DecodeAt_strict [OF this d]
  have "(0xE9 :: nat) = 0xFFFD \<or> take 2 (drop 0 [CHR 0xC3, CHR 0xA9]) = utf8Encode 0xE9" by blast
  with d show ?thesis by simp
qed

end
