(* ===== verification/Token.thy ===== *)
theory Token
  imports Utf8
begin

unbundle bit_operations_syntax

text \<open>
  \<open>src/core/Token.{hpp,cpp}\<close>: token kinds, the keyword table, and the conversion of literal text to
  values that the evaluator and the IR lowering share. The sections of the enumeration are datatypes:
  \<open>TokenKind::KwX\<close> is \<open>TkKw KwX\<close>, a punctuation or operator kind \<open>TokenKind::X\<close> is \<open>TkPunct PX\<close>
  and any other kind \<open>TokenKind::X\<close> is \<open>TkX\<close>. Machine integers are kept at 64 bits; \<open>strtoull\<close> and
  \<open>atoll\<close> saturate as the C library does.
\<close>

section \<open>Kinds and keywords\<close>

datatype (plugins only: code size) keyword =
    KwNamespace | KwClass | KwStruct | KwInterface | KwPublic | KwPrivate | KwNew | KwMutating
    | KwDistinct | KwConst | KwReadonly | KwWeak | KwGet | KwSet | KwReturn | KwVar | KwLet
    | KwAwait | KwBind | KwInject | KwUse | KwUses | KwIf | KwElse | KwTry | KwCatch | KwThrow
    | KwWhile | KwFor | KwIn | KwIs | KwMatch | KwThis | KwTrue | KwFalse | KwBreak | KwContinue
    | KwDo | KwUsing | KwEnum

datatype (plugins only: code size) punct =
    PColonColon | PColon | PSemicolon | PComma | PDot | PDotDot | PLParen | PRParen | PLBrace
    | PRBrace | PLBracket | PRBracket | PArrow | PEq | PEqEq | PBangEq | PBang | PLt | PGt | PLe
    | PGe | PPlus | PMinus | PStar | PSlash | PPercent | PPlusEq | PMinusEq | PStarEq | PSlashEq
    | PPercentEq | PLtLt | PGtGt | PAmpAmp | PPipePipe | PAmp | PPipe | PQuestion
    | PQuestionQuestion | PQuestionDot | PAt | PCaret | PTilde

datatype token_kind =
    TkEnd | TkError | TkIdentifier | TkIntLiteral | TkFloatLiteral | TkStringLiteral
    | TkRawStringLiteral | TkQuasiLiteral | TkKw keyword | TkPunct punct

primrec keywordName :: "keyword \<Rightarrow> string" where
  "keywordName KwNamespace = ''KwNamespace''"
| "keywordName KwClass = ''KwClass''"
| "keywordName KwStruct = ''KwStruct''"
| "keywordName KwInterface = ''KwInterface''"
| "keywordName KwPublic = ''KwPublic''"
| "keywordName KwPrivate = ''KwPrivate''"
| "keywordName KwNew = ''KwNew''"
| "keywordName KwMutating = ''KwMutating''"
| "keywordName KwDistinct = ''KwDistinct''"
| "keywordName KwConst = ''KwConst''"
| "keywordName KwReadonly = ''KwReadonly''"
| "keywordName KwWeak = ''KwWeak''"
| "keywordName KwGet = ''KwGet''"
| "keywordName KwSet = ''KwSet''"
| "keywordName KwReturn = ''KwReturn''"
| "keywordName KwVar = ''KwVar''"
| "keywordName KwLet = ''KwLet''"
| "keywordName KwAwait = ''KwAwait''"
| "keywordName KwBind = ''KwBind''"
| "keywordName KwInject = ''KwInject''"
| "keywordName KwUse = ''KwUse''"
| "keywordName KwUses = ''KwUses''"
| "keywordName KwIf = ''KwIf''"
| "keywordName KwElse = ''KwElse''"
| "keywordName KwTry = ''KwTry''"
| "keywordName KwCatch = ''KwCatch''"
| "keywordName KwThrow = ''KwThrow''"
| "keywordName KwWhile = ''KwWhile''"
| "keywordName KwFor = ''KwFor''"
| "keywordName KwIn = ''KwIn''"
| "keywordName KwIs = ''KwIs''"
| "keywordName KwMatch = ''KwMatch''"
| "keywordName KwThis = ''KwThis''"
| "keywordName KwTrue = ''KwTrue''"
| "keywordName KwFalse = ''KwFalse''"
| "keywordName KwBreak = ''KwBreak''"
| "keywordName KwContinue = ''KwContinue''"
| "keywordName KwDo = ''KwDo''"
| "keywordName KwUsing = ''KwUsing''"
| "keywordName KwEnum = ''KwEnum''"

primrec punctName :: "punct \<Rightarrow> string" where
  "punctName PColonColon = ''ColonColon''"
| "punctName PColon = ''Colon''"
| "punctName PSemicolon = ''Semicolon''"
| "punctName PComma = ''Comma''"
| "punctName PDot = ''Dot''"
| "punctName PDotDot = ''DotDot''"
| "punctName PLParen = ''LParen''"
| "punctName PRParen = ''RParen''"
| "punctName PLBrace = ''LBrace''"
| "punctName PRBrace = ''RBrace''"
| "punctName PLBracket = ''LBracket''"
| "punctName PRBracket = ''RBracket''"
| "punctName PArrow = ''Arrow''"
| "punctName PEq = ''Eq''"
| "punctName PEqEq = ''EqEq''"
| "punctName PBangEq = ''BangEq''"
| "punctName PBang = ''Bang''"
| "punctName PLt = ''Lt''"
| "punctName PGt = ''Gt''"
| "punctName PLe = ''Le''"
| "punctName PGe = ''Ge''"
| "punctName PPlus = ''Plus''"
| "punctName PMinus = ''Minus''"
| "punctName PStar = ''Star''"
| "punctName PSlash = ''Slash''"
| "punctName PPercent = ''Percent''"
| "punctName PPlusEq = ''PlusEq''"
| "punctName PMinusEq = ''MinusEq''"
| "punctName PStarEq = ''StarEq''"
| "punctName PSlashEq = ''SlashEq''"
| "punctName PPercentEq = ''PercentEq''"
| "punctName PLtLt = ''LtLt''"
| "punctName PGtGt = ''GtGt''"
| "punctName PAmpAmp = ''AmpAmp''"
| "punctName PPipePipe = ''PipePipe''"
| "punctName PAmp = ''Amp''"
| "punctName PPipe = ''Pipe''"
| "punctName PQuestion = ''Question''"
| "punctName PQuestionQuestion = ''QuestionQuestion''"
| "punctName PQuestionDot = ''QuestionDot''"
| "punctName PAt = ''At''"
| "punctName PCaret = ''Caret''"
| "punctName PTilde = ''Tilde''"

primrec tokenKindName :: "token_kind \<Rightarrow> string" where
  "tokenKindName TkEnd = ''End''"
| "tokenKindName TkError = ''Error''"
| "tokenKindName TkIdentifier = ''Identifier''"
| "tokenKindName TkIntLiteral = ''IntLiteral''"
| "tokenKindName TkFloatLiteral = ''FloatLiteral''"
| "tokenKindName TkStringLiteral = ''StringLiteral''"
| "tokenKindName TkRawStringLiteral = ''RawStringLiteral''"
| "tokenKindName TkQuasiLiteral = ''QuasiLiteral''"
| "tokenKindName (TkKw k) = keywordName k"
| "tokenKindName (TkPunct p) = punctName p"

definition keyword_table :: "(string \<times> token_kind) list" where
  "keyword_table =
     [(''namespace'', TkKw KwNamespace), (''class'', TkKw KwClass), (''struct'', TkKw KwStruct)
      , (''interface'', TkKw KwInterface), (''mutating'', TkKw KwMutating)
      , (''public'', TkKw KwPublic), (''private'', TkKw KwPrivate), (''new'', TkKw KwNew)
      , (''distinct'', TkKw KwDistinct), (''const'', TkKw KwConst)
      , (''readonly'', TkKw KwReadonly), (''weak'', TkKw KwWeak), (''get'', TkKw KwGet)
      , (''set'', TkKw KwSet), (''return'', TkKw KwReturn), (''var'', TkKw KwVar)
      , (''let'', TkKw KwLet), (''await'', TkKw KwAwait), (''bind'', TkKw KwBind)
      , (''inject'', TkKw KwInject), (''use'', TkKw KwUse), (''uses'', TkKw KwUses)
      , (''if'', TkKw KwIf), (''else'', TkKw KwElse), (''try'', TkKw KwTry)
      , (''catch'', TkKw KwCatch), (''throw'', TkKw KwThrow), (''while'', TkKw KwWhile)
      , (''for'', TkKw KwFor), (''in'', TkKw KwIn), (''is'', TkKw KwIs)
      , (''match'', TkKw KwMatch), (''this'', TkKw KwThis), (''true'', TkKw KwTrue)
      , (''false'', TkKw KwFalse), (''break'', TkKw KwBreak), (''continue'', TkKw KwContinue)
      , (''do'', TkKw KwDo), (''using'', TkKw KwUsing), (''enum'', TkKw KwEnum)]"

definition keywordKind :: "string \<Rightarrow> token_kind" where
  "keywordKind word = (case map_of keyword_table word of None \<Rightarrow> TkIdentifier | Some k \<Rightarrow> k)"

section \<open>Integer literals\<close>

definition isHexDigitChar :: "char \<Rightarrow> bool" where
  "isHexDigitChar c \<longleftrightarrow>
     (CHR ''0'' \<le> c \<and> c \<le> CHR ''9'') \<or> (CHR ''a'' \<le> c \<and> c \<le> CHR ''f'') \<or> (CHR ''A'' \<le> c \<and> c \<le> CHR ''F'')"

definition hexDigitValue :: "char \<Rightarrow> nat" where
  "hexDigitValue c = (if c \<le> CHR ''9'' then of_char c - 48 else (of_char c OR 0x20) - 97 + 10)"

text \<open>\<open>strtoull\<close>: blanks, a sign, for base 16 an optional further prefix, the longest run of digits of
  the base, saturation at \<open>ULLONG_MAX\<close>, and negation modulo $2^{64}$ for a minus sign.\<close>

definition base_digit :: "nat \<Rightarrow> char \<Rightarrow> bool" where
  "base_digit b c \<longleftrightarrow> isHexDigitChar c \<and> hexDigitValue c < b"

definition base_val :: "nat \<Rightarrow> string \<Rightarrow> nat" where
  "base_val b ds = foldl (\<lambda>v c. v * b + hexDigitValue c) 0 ds"

definition strtoull :: "nat \<Rightarrow> string \<Rightarrow> nat" where
  "strtoull b s =
     (let s1 = dropWhile isspace s;
          neg = (s1 \<noteq> [] \<and> hd s1 = CHR ''-'');
          s2 = (if s1 \<noteq> [] \<and> (hd s1 = CHR ''-'' \<or> hd s1 = CHR ''+'') then tl s1 else s1);
          s3 = (if b = 16 \<and> length s2 > 2 \<and> s2 ! 0 = CHR ''0'' \<and> (s2 ! 1 = CHR ''x'' \<or> s2 ! 1 = CHR ''X'') \<and>
                   base_digit 16 (s2 ! 2) then drop 2 s2 else s2);
          v = base_val b (takeWhile (base_digit b) s3)
      in if v > 2 ^ 64 - 1 then 2 ^ 64 - 1 else if neg then (2 ^ 64 - v) mod 2 ^ 64 else v)"

definition to_int64 :: "nat \<Rightarrow> int" where
  "to_int64 n = sint (word_of_nat n :: 64 word)"

definition strip_separators :: "string \<Rightarrow> string" where
  "strip_separators s = filter (\<lambda>c. c \<noteq> CHR ''_'') s"

text \<open>\<open>atoll\<close> is \<open>strtoll\<close> in base 10, and \<open>long long\<close> has the width of \<open>long\<close>.\<close>

definition parseIntLiteral :: "string \<Rightarrow> int" where
  "parseIntLiteral s =
     (let clean = strip_separators s
      in if length clean > 2 \<and> clean ! 0 = CHR ''0'' \<and> (clean ! 1 = CHR ''x'' \<or> clean ! 1 = CHR ''X'')
         then to_int64 (strtoull 16 (drop 2 clean))
         else if length clean > 2 \<and> clean ! 0 = CHR ''0'' \<and> (clean ! 1 = CHR ''b'' \<or> clean ! 1 = CHR ''B'')
         then to_int64 (strtoull 2 (drop 2 clean))
         else strtol10 clean)"

section \<open>String literals\<close>

definition appendUtf8 :: "string \<Rightarrow> nat \<Rightarrow> string" where
  "appendUtf8 out c =
     (if c \<le> 0x7F then out @ [char_of c]
      else if c \<le> 0x7FF then
        out @ [char_of (0xC0 OR drop_bit 6 c)] @ [char_of (0x80 OR (c AND 0x3F))]
      else if c \<le> 0xFFFF then
        out @ [char_of (0xE0 OR drop_bit 12 c)] @ [char_of (0x80 OR (drop_bit 6 c AND 0x3F))] @
        [char_of (0x80 OR (c AND 0x3F))]
      else
        out @ [char_of (0xF0 OR drop_bit 18 c)] @ [char_of (0x80 OR (drop_bit 12 c AND 0x3F))] @
        [char_of (0x80 OR (drop_bit 6 c AND 0x3F))] @ [char_of (0x80 OR (c AND 0x3F))])"

text \<open>\<open>\u{H+}\<close> after the \<open>u\<close>: at most six hexadecimal digits between braces; the scalar and the rest
  after the closing brace, or nothing when it is malformed.\<close>

definition unicodeEscape :: "string \<Rightarrow> (nat \<times> string) option" where
  "unicodeEscape r =
     (if r \<noteq> [] \<and> hd r = CHR ''{'' then
        let ds = takeWhile isHexDigitChar (take 6 (tl r));
            r' = drop (length ds) (tl r);
            cp = foldl (\<lambda>v c. push_bit 4 v OR hexDigitValue c) 0 ds
        in if ds \<noteq> [] \<and> r' \<noteq> [] \<and> hd r' = CHR ''}'' then
             Some (if cp > 0x10FFFF \<or> (0xD800 \<le> cp \<and> cp \<le> 0xDFFF) then 0xFFFD else cp, tl r')
           else None
      else None)"

definition simpleEscape :: "char \<Rightarrow> char" where
  "simpleEscape n =
     (if n = CHR ''n'' then NL else if n = CHR ''t'' then TAB
      else if n = CHR ''r'' then CR else if n = CHR ''0'' then NUL else n)"

lemma unicodeEscape_less: "unicodeEscape r = Some (cp, r') \<Longrightarrow> length r' < length r"
proof -
  assume a: "unicodeEscape r = Some (cp, r')"
  then obtain k where "r' = tl (drop k (tl r))" "r \<noteq> []"
    by (auto simp: unicodeEscape_def Let_def split: if_splits)
  then show ?thesis by (cases r) auto
qed

function decodeEscapesOnto :: "string \<Rightarrow> string \<Rightarrow> string" where
  "decodeEscapesOnto out [] = out"
| "decodeEscapesOnto out (c # r) =
     (if c = BSLASH \<and> r \<noteq> [] then
        let n = hd r; r1 = tl r
        in if n = CHR ''x'' \<and> length r1 \<ge> 2 \<and> isHexDigitChar (r1 ! 0) \<and> isHexDigitChar (r1 ! 1) then
             decodeEscapesOnto (out @ [char_of (push_bit 4 (hexDigitValue (r1 ! 0)) OR hexDigitValue (r1 ! 1))])
               (drop 2 r1)
           else case (if n = CHR ''u'' then unicodeEscape r1 else None) of
                  Some (cp, r2) \<Rightarrow> decodeEscapesOnto (appendUtf8 out cp) r2
                | None \<Rightarrow> decodeEscapesOnto (out @ [simpleEscape n]) r1
      else decodeEscapesOnto (out @ [c]) r)"
  by pat_completeness auto
termination
proof (relation "measure (\<lambda>(out, s). length s)", goal_cases)
  case (4 out c r n r1 p cp r2)
  then show ?case using unicodeEscape_less [of r1 cp r2] by (auto split: if_splits)
qed (auto simp: less_Suc_eq_le le_diff_conv)

definition decodeEscapes :: "string \<Rightarrow> string" where
  "decodeEscapes content = decodeEscapesOnto [] content"

definition decodeStringLiteral :: "string \<Rightarrow> string" where
  "decodeStringLiteral raw =
     (if length raw < 2 then [] else decodeEscapes (take (length raw - 2) (drop 1 raw)))"

section \<open>Names and keywords\<close>

lemma appendUtf8_eq: "appendUtf8 out c = out @ utf8Encode c"
  by (simp add: appendUtf8_def utf8Encode_def)

text \<open>The spelling of a keyword, as the specification of the table.\<close>

primrec kw_spelling :: "keyword \<Rightarrow> string" where
  "kw_spelling KwNamespace = ''namespace''"
| "kw_spelling KwClass = ''class''"
| "kw_spelling KwStruct = ''struct''"
| "kw_spelling KwInterface = ''interface''"
| "kw_spelling KwPublic = ''public''"
| "kw_spelling KwPrivate = ''private''"
| "kw_spelling KwNew = ''new''"
| "kw_spelling KwMutating = ''mutating''"
| "kw_spelling KwDistinct = ''distinct''"
| "kw_spelling KwConst = ''const''"
| "kw_spelling KwReadonly = ''readonly''"
| "kw_spelling KwWeak = ''weak''"
| "kw_spelling KwGet = ''get''"
| "kw_spelling KwSet = ''set''"
| "kw_spelling KwReturn = ''return''"
| "kw_spelling KwVar = ''var''"
| "kw_spelling KwLet = ''let''"
| "kw_spelling KwAwait = ''await''"
| "kw_spelling KwBind = ''bind''"
| "kw_spelling KwInject = ''inject''"
| "kw_spelling KwUse = ''use''"
| "kw_spelling KwUses = ''uses''"
| "kw_spelling KwIf = ''if''"
| "kw_spelling KwElse = ''else''"
| "kw_spelling KwTry = ''try''"
| "kw_spelling KwCatch = ''catch''"
| "kw_spelling KwThrow = ''throw''"
| "kw_spelling KwWhile = ''while''"
| "kw_spelling KwFor = ''for''"
| "kw_spelling KwIn = ''in''"
| "kw_spelling KwIs = ''is''"
| "kw_spelling KwMatch = ''match''"
| "kw_spelling KwThis = ''this''"
| "kw_spelling KwTrue = ''true''"
| "kw_spelling KwFalse = ''false''"
| "kw_spelling KwBreak = ''break''"
| "kw_spelling KwContinue = ''continue''"
| "kw_spelling KwDo = ''do''"
| "kw_spelling KwUsing = ''using''"
| "kw_spelling KwEnum = ''enum''"

lemma keyword_table_distinct: "distinct (map fst keyword_table)"
  by (simp add: keyword_table_def)

lemma keyword_table_spelling: "(w, TkKw k) \<in> set keyword_table \<longleftrightarrow> w = kw_spelling k"
  by (cases k) (simp_all add: keyword_table_def)

lemma keyword_table_kinds: "(w, kk) \<in> set keyword_table \<Longrightarrow> \<exists>k. kk = TkKw k"
  by (auto simp: keyword_table_def)

lemma keywordKind_spelling: "keywordKind w = TkKw k \<longleftrightarrow> w = kw_spelling k"
proof -
  have "keywordKind w = TkKw k \<longleftrightarrow> map_of keyword_table w = Some (TkKw k)"
    by (auto simp: keywordKind_def split: option.splits)
  then show ?thesis
    by (simp add: map_of_eq_Some_iff [OF keyword_table_distinct] keyword_table_spelling)
qed

lemma keywordKind_range: "keywordKind w = TkIdentifier \<or> (\<exists>k. keywordKind w = TkKw k)"
  by (auto simp: keywordKind_def split: option.splits dest!: map_of_SomeD keyword_table_kinds)

text \<open>
  The keyword table is complete and unambiguous: a word is classified as the keyword \<open>k\<close> exactly
  when it is \<open>k\<close>'s spelling, for each of the forty keywords, and every other word is an identifier.
\<close>

lemma keywordKind_correct:
  "(keywordKind w = TkKw k \<longleftrightarrow> w = kw_spelling k) \<and>
   (keywordKind w = TkIdentifier \<longleftrightarrow> w \<notin> range kw_spelling) \<and> inj kw_spelling"
proof -
  have "inj kw_spelling"
    by (rule injI) (metis keywordKind_spelling token_kind.inject(1))
  moreover have "keywordKind w = TkIdentifier \<longleftrightarrow> w \<notin> range kw_spelling"
    using keywordKind_range [of w] by (auto simp: image_iff keywordKind_spelling [symmetric])
  ultimately show ?thesis by (simp add: keywordKind_spelling)
qed

section \<open>Values of integer literals\<close>

lemma base_digit_props:
  "base_digit b c \<Longrightarrow> \<not> isspace c \<and> c \<noteq> CHR ''-'' \<and> c \<noteq> CHR ''+'' \<and> c \<noteq> CHR ''x'' \<and> c \<noteq> CHR ''X''"
  by (auto simp: base_digit_def isHexDigitChar_def isspace_def less_eq_char_def)

lemma strtoull_digits:
  assumes "list_all (base_digit b) ds" and "base_val b ds < 2 ^ 64"
  shows "strtoull b ds = base_val b ds"
proof -
  have dw: "dropWhile isspace ds = ds"
    using assms(1) base_digit_props by (cases ds) auto
  have tw: "takeWhile (base_digit b) ds = ds"
    using assms(1) by (simp add: takeWhile_eq_all_conv list_all_iff)
  have hd: "ds \<noteq> [] \<Longrightarrow> hd ds \<noteq> CHR ''-'' \<and> hd ds \<noteq> CHR ''+''"
    using assms(1) base_digit_props by (cases ds) auto
  have "length ds > 2 \<Longrightarrow> ds ! 1 \<noteq> CHR ''x'' \<and> ds ! 1 \<noteq> CHR ''X''"
    using assms(1) base_digit_props [of b "ds ! 1"] by (auto simp: list_all_length)
  with hd have conds: "(ds \<noteq> [] \<and> (hd ds = CHR ''-'' \<or> hd ds = CHR ''+'')) = False"
    "(ds \<noteq> [] \<and> hd ds = CHR ''-'') = False"
    "(b = 16 \<and> length ds > 2 \<and> ds ! 0 = CHR ''0'' \<and> (ds ! 1 = CHR ''x'' \<or> ds ! 1 = CHR ''X'') \<and>
      base_digit 16 (ds ! 2)) = False"
    by auto
  show ?thesis
    unfolding strtoull_def Let_def dw conds if_False tw using assms(2) by simp
qed

lemma to_int64_arith:
  assumes "n < 2 ^ 64" shows "to_int64 n = (if n < 2 ^ 63 then int n else int n - 2 ^ 64)"
proof -
  have "to_int64 n = (int n + 2 ^ 63) mod 2 ^ 64 - 2 ^ 63"
    unfolding to_int64_def
    using assms by (simp add: sint_uint unsigned_of_nat signed_take_bit_eq_take_bit_shift take_bit_eq_mod zmod_int)
  moreover have "(int n + 2 ^ 63) mod 2 ^ 64 = int n - 2 ^ 63" if "\<not> n < 2 ^ 63"
  proof -
    have "(int n + 2 ^ 63) mod 2 ^ 64 = (int n - 2 ^ 63 + 2 ^ 64) mod 2 ^ 64" by (simp add: add.commute)
    also have "\<dots> = (int n - 2 ^ 63) mod 2 ^ 64" by (rule mod_add_self2)
    also have "\<dots> = int n - 2 ^ 63" using that assms by (intro mod_pos_pos_trivial) auto
    finally show ?thesis .
  qed
  ultimately show ?thesis using assms by auto
qed

text \<open>
  The value of an integer literal: a hexadecimal or binary literal (either case of its prefix,
  separators anywhere) whose value fits in 64 bits is read as the 64-bit pattern of that value, so it is
  negative from \<open>2^63\<close> on; a decimal literal is its value, saturated at the largest 64-bit integer.
\<close>

lemma parseIntLiteral_value:
  assumes "(p, b) \<in> {(''0x'', 16), (''0X'', 16), (''0b'', 2), (''0B'', 2)}"
    and "strip_separators s \<noteq> []" and "list_all (base_digit b) (strip_separators s)"
    and "base_val b (strip_separators s) < 2 ^ 64"
    and "strip_separators d \<noteq> []" and "list_all isdigit (strip_separators d)"
  shows "parseIntLiteral (p @ s) =
      (let v = base_val b (strip_separators s) in if v < 2 ^ 63 then int v else int v - 2 ^ 64) \<and>
    parseIntLiteral d = min (2 ^ 63 - 1) (int (digits_val (strip_separators d)))"
proof
  have strip: "strip_separators (p @ s) = p @ strip_separators s"
    using assms(1) by (auto simp: strip_separators_def)
  have "length (strip_separators s) > 0" using assms(2) by simp
  then have "parseIntLiteral (p @ s) = to_int64 (strtoull b (strip_separators s))"
    using assms(1) by (auto simp: parseIntLiteral_def strip)
  then show "parseIntLiteral (p @ s) =
      (let v = base_val b (strip_separators s) in if v < 2 ^ 63 then int v else int v - 2 ^ 64)"
    using assms(3,4) by (simp add: strtoull_digits to_int64_arith)
  let ?d = "strip_separators d"
  have "isdigit (?d ! 1)" if "length ?d > 2" using that assms(6) by (simp add: list_all_length)
  then have nodig: "?d ! 1 \<notin> {CHR ''x'', CHR ''X'', CHR ''b'', CHR ''B''}" if "length ?d > 2"
    using that by (auto simp: isdigit_def)
  have "isdigit (hd ?d)" using assms(5,6) by (intro hd_digits)
  then have "dropWhile isspace ?d = ?d" "hd ?d \<noteq> CHR ''-''" "hd ?d \<noteq> CHR ''+''"
    using assms(5) isdigit_not_sign by (cases ?d; auto simp: isdigit_not_space)+
  moreover have tw: "takeWhile isdigit ?d = ?d" using assms(6) by (simp add: takeWhile_eq_all_conv list_all_iff)
  ultimately have "strtol10 ?d = min (2 ^ 63 - 1) (int (digits_val ?d))"
    by (simp add: strtol10_def Let_def tw)
  moreover have "parseIntLiteral d = strtol10 ?d"
    using nodig by (auto simp: parseIntLiteral_def Let_def)
  ultimately show "parseIntLiteral d = min (2 ^ 63 - 1) (int (digits_val ?d))" by simp
qed

lemma parseIntLiteral_value_witness:
  "parseIntLiteral (''0x'' @ ''8000_0000_0000_0000'') = - (2 ^ 63) \<and> parseIntLiteral ''1_000'' = 1000"
proof -
  have "list_all (base_digit 16) (strip_separators ''8000_0000_0000_0000'')"
    "base_val 16 (strip_separators ''8000_0000_0000_0000'') = 2 ^ 63"
    "digits_val (strip_separators ''1_000'') = 1000" "list_all isdigit (strip_separators ''1_000'')"
    by (simp_all add: strip_separators_def base_digit_def isHexDigitChar_def hexDigitValue_def base_val_def
        digits_val_def digit_val_def isdigit_def)
  with parseIntLiteral_value [of "''0x''" 16 "''8000_0000_0000_0000''" "''1_000''"] show ?thesis
    by (simp add: strip_separators_def)
qed

section \<open>Writing a byte string as literal content\<close>

text \<open>A printable character other than the backslash and the double quote stands for itself, any other
  byte is written \<open>\xNN\<close>.\<close>

definition hex_char :: "nat \<Rightarrow> char" where
  "hex_char k = (if k < 10 then char_of (48 + k) else char_of (87 + k))"

definition plain_char :: "char \<Rightarrow> bool" where
  "plain_char c \<longleftrightarrow> CHR '' '' \<le> c \<and> c \<le> CHR ''~'' \<and> c \<noteq> BSLASH \<and> c \<noteq> DQUOTE"

definition escape_char :: "char \<Rightarrow> string" where
  "escape_char c =
     (if plain_char c then [c]
      else [BSLASH, CHR ''x'', hex_char (of_char c div 16), hex_char (of_char c mod 16)])"

definition escape_string :: "string \<Rightarrow> string" where
  "escape_string s = concat (map escape_char s)"

lemma hex_char_digit: "k < 16 \<Longrightarrow> isHexDigitChar (hex_char k) \<and> hexDigitValue (hex_char k) = k"
proof -
  have "list_all (\<lambda>k. isHexDigitChar (hex_char k) \<and> hexDigitValue (hex_char k) = k) [0..<16]" by code_simp
  then show "k < 16 \<Longrightarrow> ?thesis" by (simp add: list_all_iff)
qed

lemma hex_pair: "char_of (push_bit 4 (of_char c div 16) OR (of_char c mod 16) :: nat) = c"
  using or_add [of "of_char c mod 16" 4 "of_char c div 16"]
  by (simp add: push_bit_eq_mult div_mult_mod_eq)

lemma decode_escape_char: "decodeEscapesOnto out (escape_char c @ r) = decodeEscapesOnto (out @ [c]) r"
proof (cases "plain_char c")
  case True
  then show ?thesis by (simp add: escape_char_def plain_char_def)
next
  case False
  have "(of_char c :: nat) < 256" by (metis of_char_of char_of_char mod_less_divisor zero_less_numeral)
  then have "(of_char c :: nat) div 16 < 16" by (intro less_mult_imp_div_less) simp
  then show ?thesis
    using False hex_char_digit [of "of_char c div 16"] hex_char_digit [of "of_char c mod 16"]
    by (simp add: escape_char_def hex_pair)
qed

lemma decode_escape_onto: "decodeEscapesOnto out (escape_string s) = out @ s"
proof (induction s arbitrary: out)
  case (Cons c s)
  then show ?case using decode_escape_char [of out c "escape_string s"] by (simp add: escape_string_def)
qed (simp add: escape_string_def)

lemma decodeStringLiteral_escape: "decodeStringLiteral (DQUOTE # escape_string s @ [DQUOTE]) = s"
  by (simp add: decodeStringLiteral_def decodeEscapes_def decode_escape_onto)

end
