(* ===== verification/Diagnostics.thy ===== *)
theory Diagnostics
  imports Lev_Prelude
begin

text \<open>
  \<open>src/core/Source.hpp\<close> and \<open>src/core/Diagnostic.{hpp,cpp}\<close>: source spans, the diagnostic sink every
  pass of the compiler reports to, and the rendering of a diagnostic as location, source line and caret.
  Offsets, lines and columns are \<open>uint32_t\<close> in the code and natural numbers here: they count bytes of
  one source file, which the compiler takes to be below 4 GiB.
\<close>

section \<open>Source spans\<close>

record source_span =
  sp_offset :: nat
  sp_length :: nat

definition sp_end :: "source_span \<Rightarrow> nat" where
  "sp_end s = sp_offset s + sp_length s"

record source_file =
  sf_name :: string
  sf_text :: string

record line_col =
  lc_line :: nat
  lc_col :: nat

text \<open>The loop of \<open>lineColAt\<close> over the bytes before the offset.\<close>

fun line_col_scan :: "line_col \<Rightarrow> string \<Rightarrow> line_col" where
  "line_col_scan lc [] = lc"
| "line_col_scan lc (c # cs) =
     (if c = NL then line_col_scan \<lparr>lc_line = lc_line lc + 1, lc_col = 1\<rparr> cs
      else line_col_scan (lc\<lparr>lc_col := lc_col lc + 1\<rparr>) cs)"

definition lineColAt :: "string \<Rightarrow> nat \<Rightarrow> line_col" where
  "lineColAt s offset =
     (let limit = (if offset < length s then offset else length s)
      in line_col_scan \<lparr>lc_line = 1, lc_col = 1\<rparr> (take limit s))"

section \<open>The sink\<close>

datatype severity = SevError | SevWarning | SevNote

record diagnostic =
  dg_severity :: severity
  dg_message :: string
  dg_span :: source_span

record diagnostic_sink =
  ds_diags :: "diagnostic list"
  ds_errorCount :: nat

definition sink_empty :: diagnostic_sink where
  "sink_empty = \<lparr>ds_diags = [], ds_errorCount = 0\<rparr>"

definition sink_error :: "source_span \<Rightarrow> string \<Rightarrow> diagnostic_sink \<Rightarrow> diagnostic_sink" where
  "sink_error sp msg s =
     \<lparr>ds_diags = ds_diags s @ [\<lparr>dg_severity = SevError, dg_message = msg, dg_span = sp\<rparr>],
      ds_errorCount = ds_errorCount s + 1\<rparr>"

definition sink_warning :: "source_span \<Rightarrow> string \<Rightarrow> diagnostic_sink \<Rightarrow> diagnostic_sink" where
  "sink_warning sp msg s =
     s\<lparr>ds_diags := ds_diags s @ [\<lparr>dg_severity = SevWarning, dg_message = msg, dg_span = sp\<rparr>]\<rparr>"

definition sink_note :: "source_span \<Rightarrow> string \<Rightarrow> diagnostic_sink \<Rightarrow> diagnostic_sink" where
  "sink_note sp msg s =
     s\<lparr>ds_diags := ds_diags s @ [\<lparr>dg_severity = SevNote, dg_message = msg, dg_span = sp\<rparr>]\<rparr>"

definition hasErrors :: "diagnostic_sink \<Rightarrow> bool" where
  "hasErrors s \<longleftrightarrow> ds_errorCount s > 0"

text \<open>The count agrees with the recorded errors.\<close>

definition sink_ok :: "diagnostic_sink \<Rightarrow> bool" where
  "sink_ok s \<longleftrightarrow> ds_errorCount s = length (filter (\<lambda>d. dg_severity d = SevError) (ds_diags s))"

lemma sink_ok_ops [simp]:
  "sink_ok sink_empty" "sink_ok (sink_error sp msg s) \<longleftrightarrow> sink_ok s"
  "sink_ok (sink_warning sp msg s) \<longleftrightarrow> sink_ok s" "sink_ok (sink_note sp msg s) \<longleftrightarrow> sink_ok s"
  by (simp_all add: sink_ok_def sink_empty_def sink_error_def sink_warning_def sink_note_def)

section \<open>Rendering\<close>

definition severityName :: "severity \<Rightarrow> string" where
  "severityName s = (case s of SevError \<Rightarrow> ''error'' | SevWarning \<Rightarrow> ''warning'' | SevNote \<Rightarrow> ''note'')"

fun line_start :: "string \<Rightarrow> nat \<Rightarrow> nat" where
  "line_start s 0 = 0"
| "line_start s (Suc i) = (if s ! i \<noteq> NL then line_start s i else Suc i)"

function line_end :: "string \<Rightarrow> nat \<Rightarrow> nat" where
  "line_end s i = (if i < length s \<and> s ! i \<noteq> NL then line_end s (Suc i) else i)"
  by pat_completeness auto
termination by (relation "measure (\<lambda>(s, i). length s - i)") auto

declare line_end.simps [simp del]

definition lineExtent :: "string \<Rightarrow> nat \<Rightarrow> nat \<times> nat" where
  "lineExtent s offset = (line_start s offset, line_end s offset)"

text \<open>\<open>%s\<close> of a \<open>c_str ()\<close> stops at the first NUL.\<close>

definition c_str :: "string \<Rightarrow> string" where
  "c_str s = takeWhile (\<lambda>c. c \<noteq> NUL) s"

definition caretLine :: "line_col \<Rightarrow> source_span \<Rightarrow> string" where
  "caretLine lc sp =
     (let width = (if sp_length sp \<noteq> 0 then sp_length sp else 1)
      in replicate (lc_col lc - 1 + 2) CHR '' '' @ ''^'' @ replicate (width - 1) CHR ''~'')"

definition renderDiagnostic :: "source_file \<Rightarrow> diagnostic \<Rightarrow> string" where
  "renderDiagnostic f d =
     (if sp_offset (dg_span d) > length (sf_text f) then
        c_str (sf_name f) @ '': '' @ severityName (dg_severity d) @ '': '' @ c_str (dg_message d) @ [NL]
      else
        let lc = lineColAt (sf_text f) (sp_offset (dg_span d));
            (start, e) = lineExtent (sf_text f) (sp_offset (dg_span d));
            line = take (e - start) (drop start (sf_text f))
        in c_str (sf_name f) @ '':'' @ nat_str (lc_line lc) @ '':'' @ nat_str (lc_col lc) @ '': '' @
           severityName (dg_severity d) @ '': '' @ c_str (dg_message d) @ [NL] @
           ''  '' @ c_str line @ [NL] @ caretLine lc (dg_span d) @ [NL])"

definition render :: "source_file \<Rightarrow> diagnostic_sink \<Rightarrow> string" where
  "render f s = concat (map (renderDiagnostic f) (ds_diags s))"

section \<open>Lines and columns\<close>

lemma line_start_le: "line_start s i \<le> i"
  by (induction i) auto

lemma line_start_no_NL: "line_start s i \<le> k \<Longrightarrow> k < i \<Longrightarrow> s ! k \<noteq> NL"
proof (induction i)
  case (Suc i)
  then show ?case by (cases "k = i") (auto split: if_splits)
qed simp

lemma line_start_boundary: "line_start s i = 0 \<or> s ! (line_start s i - 1) = NL"
  by (induction i) auto

lemma line_end_ge: "i \<le> line_end s i"
proof (induction s i rule: line_end.induct)
  case (1 s i)
  then show ?case by (subst line_end.simps) (use Suc_leD in auto)
qed

lemma line_end_le: "i \<le> length s \<Longrightarrow> line_end s i \<le> length s"
proof (induction s i rule: line_end.induct)
  case (1 s i)
  then show ?case by (subst line_end.simps) auto
qed

lemma line_end_no_NL: "i \<le> k \<Longrightarrow> k < line_end s i \<Longrightarrow> s ! k \<noteq> NL"
proof (induction s i rule: line_end.induct)
  case (1 s i)
  then show ?case
    by (cases "k = i") (simp_all add: line_end.simps [of s i] split: if_splits)
qed

lemma line_end_boundary: "i \<le> length s \<Longrightarrow> line_end s i = length s \<or> s ! line_end s i = NL"
proof (induction s i rule: line_end.induct)
  case (1 s i)
  then show ?case by (subst (1 2) line_end.simps) auto
qed

lemma line_col_scan_append: "line_col_scan lc (xs @ ys) = line_col_scan (line_col_scan lc xs) ys"
  by (induction lc xs rule: line_col_scan.induct) auto

lemma line_col_scan_take:
  "i \<le> length s \<Longrightarrow>
   line_col_scan \<lparr>lc_line = 1, lc_col = 1\<rparr> (take i s) =
     \<lparr>lc_line = Suc (count_list (take i s) NL), lc_col = Suc (i - line_start s i)\<rparr>"
proof (induction i)
  case (Suc i)
  then have "take (Suc i) s = take i s @ [s ! i]" by (simp add: take_Suc_conv_app_nth)
  with Suc show ?case
    using line_start_le [of s i] by (simp add: line_col_scan_append count_list_append Suc_diff_le)
qed simp

text \<open>
  The location a diagnostic is rendered with: for an offset inside the file, the line number is one
  more than the newlines before the offset; \<open>lineExtent\<close> returns the maximal newline-free range around
  it; and the caret, placed by the column, stands under the byte at the offset of that very line.
\<close>

lemma lineColAt_lineExtent:
  assumes "off \<le> length s"
  shows "case lineExtent s off of (b, e) \<Rightarrow>
     b \<le> off \<and> off \<le> e \<and> e \<le> length s \<and> NL \<notin> set (take (e - b) (drop b s)) \<and>
     (b = 0 \<or> s ! (b - 1) = NL) \<and> (e = length s \<or> s ! e = NL) \<and>
     lineColAt s off = \<lparr>lc_line = Suc (count_list (take b s) NL), lc_col = Suc (off - b)\<rparr>"
proof -
  let ?b = "line_start s off" and ?e = "line_end s off"
  have be: "?b \<le> off" "off \<le> ?e" "?e \<le> length s"
    using assms by (auto intro: line_start_le line_end_ge line_end_le)
  have no: "s ! k \<noteq> NL" if "?b \<le> k" "k < ?e" for k
    using that line_start_no_NL [of s off k] line_end_no_NL [of off k s] by (cases "k < off") auto
  have none: "NL \<notin> set (take (?e - ?b) (drop ?b s))"
    using be no by (auto simp: in_set_conv_nth)
  have "take off s = take ?b s @ take (off - ?b) (drop ?b s)"
    using be by (metis le_add_diff_inverse take_add)
  moreover have "NL \<notin> set (take (off - ?b) (drop ?b s))"
    using none set_take_subset_set_take [OF diff_le_mono [OF be(2)], of ?b "drop ?b s"] by blast
  ultimately have "count_list (take off s) NL = count_list (take ?b s) NL"
    by (simp add: count_list_append count_notin)
  then have "lineColAt s off = \<lparr>lc_line = Suc (count_list (take ?b s) NL), lc_col = Suc (off - ?b)\<rparr>"
    using assms line_col_scan_take [OF assms]
    by (cases "off < length s") (auto simp: lineColAt_def)
  then show ?thesis
    using be none line_start_boundary [of s off] line_end_boundary [OF assms] by (simp add: lineExtent_def)
qed

lemma lineColAt_lineExtent_witness:
  "lineExtent (''ab'' @ [NL] @ ''cde'') 4 = (3, 6) \<and>
   lineColAt (''ab'' @ [NL] @ ''cde'') 4 = \<lparr>lc_line = 2, lc_col = 2\<rparr>"
proof -
  have "lineExtent (''ab'' @ [NL] @ ''cde'') 4 = (3, 6)" by code_simp
  with lineColAt_lineExtent [of 4 "''ab'' @ [NL] @ ''cde''"] show ?thesis by simp
qed

end
