(* ===== verification/Lexer.thy ===== *)
theory Lexer
  imports Token Diagnostics
begin

text \<open>
  \<open>src/frontend/Lexer.{hpp,cpp}\<close>: the lexer as a record of its fields and one function per method. A
  method that moves \<open>pos_\<close> or reports to the sink returns the updated record; the end of the input is
  \<open>limit_\<close> in range mode and the size of the file otherwise. \<open>make\<close> takes the token's text with
  \<open>string_view::substr\<close>, which throws \<open>std::out_of_range\<close> when it starts beyond the end of the file,
  so a method that makes a token returns \<open>lex_exn + (token \<times> lexer)\<close>. Every loop of the source has the
  character under the cursor as its condition, which fails at the end (where \<open>peek\<close> gives NUL).
\<close>

section \<open>State\<close>

record lexer =
  lx_text :: string
  lx_allowHoles :: bool
  lx_pos :: nat
  lx_limit :: nat
  lx_sink :: diagnostic_sink

record token =
  tk_kind :: token_kind
  tk_span :: source_span
  tk_text :: string

datatype lex_exn = OutOfRange | ReadPastFile

definition isIdentStart :: "char \<Rightarrow> bool" where
  "isIdentStart c \<longleftrightarrow>
     (CHR ''a'' \<le> c \<and> c \<le> CHR ''z'') \<or> (CHR ''A'' \<le> c \<and> c \<le> CHR ''Z'') \<or> c = CHR ''_''"

definition isIdentCont :: "char \<Rightarrow> bool" where
  "isIdentCont c \<longleftrightarrow> isIdentStart c \<or> (CHR ''0'' \<le> c \<and> c \<le> CHR ''9'')"

definition isDigit :: "char \<Rightarrow> bool" where
  "isDigit c \<longleftrightarrow> CHR ''0'' \<le> c \<and> c \<le> CHR ''9''"

definition isHexDigit :: "char \<Rightarrow> bool" where
  "isHexDigit c \<longleftrightarrow> isDigit c \<or> (CHR ''a'' \<le> c \<and> c \<le> CHR ''f'') \<or> (CHR ''A'' \<le> c \<and> c \<le> CHR ''F'')"

definition isBinDigit :: "char \<Rightarrow> bool" where
  "isBinDigit c \<longleftrightarrow> c = CHR ''0'' \<or> c = CHR ''1''"

definition lx_end :: "lexer \<Rightarrow> nat" where
  "lx_end lx = (if lx_limit lx \<noteq> 0 then lx_limit lx else length (lx_text lx))"

definition atEnd :: "lexer \<Rightarrow> bool" where
  "atEnd lx \<longleftrightarrow> lx_pos lx \<ge> lx_end lx"

definition peek :: "lexer \<Rightarrow> nat \<Rightarrow> char" where
  "peek lx ahead = (if lx_pos lx + ahead < lx_end lx then lx_text lx ! (lx_pos lx + ahead) else NUL)"

text \<open>\<open>pos_ += n\<close>, and \<open>sink_.error\<close>.\<close>

definition adv :: "nat \<Rightarrow> lexer \<Rightarrow> lexer" where
  "adv n lx = lx\<lparr>lx_pos := lx_pos lx + n\<rparr>"

definition lx_error :: "nat \<Rightarrow> nat \<Rightarrow> string \<Rightarrow> lexer \<Rightarrow> lexer" where
  "lx_error off len msg lx = lx\<lparr>lx_sink := sink_error \<lparr>sp_offset = off, sp_length = len\<rparr> msg (lx_sink lx)\<rparr>"

definition match_char :: "char \<Rightarrow> lexer \<Rightarrow> bool \<times> lexer" where
  "match_char c lx = (if peek lx 0 = c then (True, adv 1 lx) else (False, lx))"

text \<open>The token from \<open>start\<close> to the position, and the pair a method returns.\<close>

definition make :: "token_kind \<Rightarrow> nat \<Rightarrow> lexer \<Rightarrow> lex_exn + token" where
  "make kind start lx =
     (if start > length (lx_text lx) then Inl OutOfRange
      else Inr \<lparr>tk_kind = kind, tk_span = \<lparr>sp_offset = start, sp_length = lx_pos lx - start\<rparr>,
                tk_text = take (lx_pos lx - start) (drop start (lx_text lx))\<rparr>)"

definition emit :: "token_kind \<Rightarrow> nat \<Rightarrow> lexer \<Rightarrow> lex_exn + (token \<times> lexer)" where
  "emit kind start lx = (case make kind start lx of Inl e \<Rightarrow> Inl e | Inr t \<Rightarrow> Inr (t, lx))"

lemma adv_sel [simp]:
  "lx_text (adv n lx) = lx_text lx" "lx_allowHoles (adv n lx) = lx_allowHoles lx"
  "lx_limit (adv n lx) = lx_limit lx" "lx_sink (adv n lx) = lx_sink lx"
  "lx_pos (adv n lx) = lx_pos lx + n" "lx_end (adv n lx) = lx_end lx"
  by (simp_all add: adv_def lx_end_def)

lemma lx_error_sel [simp]:
  "lx_text (lx_error off len msg lx) = lx_text lx" "lx_allowHoles (lx_error off len msg lx) = lx_allowHoles lx"
  "lx_limit (lx_error off len msg lx) = lx_limit lx" "lx_pos (lx_error off len msg lx) = lx_pos lx"
  "lx_end (lx_error off len msg lx) = lx_end lx"
  "lx_sink (lx_error off len msg lx) = sink_error \<lparr>sp_offset = off, sp_length = len\<rparr> msg (lx_sink lx)"
  by (simp_all add: lx_error_def lx_end_def)

section \<open>Loops over characters\<close>

function scan_while :: "(char \<Rightarrow> bool) \<Rightarrow> lexer \<Rightarrow> lexer" where
  "scan_while P lx = (if \<not> atEnd lx \<and> P (peek lx 0) then scan_while P (adv 1 lx) else lx)"
  by pat_completeness auto
termination by (relation "measure (\<lambda>(P, lx). lx_end lx - lx_pos lx)") (auto simp: atEnd_def)

declare scan_while.simps [simp del]

function block_scan :: "lexer \<Rightarrow> lexer" where
  "block_scan lx =
     (if \<not> atEnd lx \<and> \<not> (peek lx 0 = CHR ''*'' \<and> peek lx 1 = CHR ''/'') then block_scan (adv 1 lx) else lx)"
  by pat_completeness auto
termination by (relation "measure (\<lambda>lx. lx_end lx - lx_pos lx)") (auto simp: atEnd_def)

declare block_scan.simps [simp del]

text \<open>The lexer after a piece of input: same file, same mode, never further back.\<close>

definition same_input :: "lexer \<Rightarrow> lexer \<Rightarrow> bool" where
  "same_input lx lx' \<longleftrightarrow>
     lx_text lx' = lx_text lx \<and> lx_allowHoles lx' = lx_allowHoles lx \<and> lx_limit lx' = lx_limit lx \<and>
     lx_pos lx \<le> lx_pos lx'"

lemma same_input_refl [simp]: "same_input lx lx"
  by (simp add: same_input_def)

lemma same_input_trans: "same_input a b \<Longrightarrow> same_input b c \<Longrightarrow> same_input a c"
  by (simp add: same_input_def)

lemma same_input_adv [simp]: "same_input lx (adv n lx)" "same_input lx (lx_error off len msg lx)"
  by (simp_all add: same_input_def)

lemma same_input_error: "same_input lx lx' \<Longrightarrow> same_input lx (lx_error off len msg lx')"
  by (simp add: same_input_def)

lemma same_input_end: "same_input lx lx' \<Longrightarrow> lx_end lx' = lx_end lx"
  by (simp add: same_input_def lx_end_def)

lemma same_scan_while [simp]: "same_input lx (scan_while P lx)"
proof (induction P lx rule: scan_while.induct)
  case (1 P lx)
  then show ?case by (subst scan_while.simps) (auto intro: same_input_trans [OF same_input_adv(1)])
qed

lemma same_block_scan [simp]: "same_input lx (block_scan lx)"
proof (induction lx rule: block_scan.induct)
  case (1 lx)
  then show ?case by (subst block_scan.simps) (auto intro: same_input_trans [OF same_input_adv(1)])
qed

lemma peek_NUL: "atEnd lx \<Longrightarrow> peek lx n = NUL"
  by (simp add: atEnd_def peek_def)

section \<open>White space and comments\<close>

definition is_blank :: "char \<Rightarrow> bool" where
  "is_blank c \<longleftrightarrow> c = CHR '' '' \<or> c = TAB \<or> c = CR \<or> c = NL"

function skipTrivia :: "lexer \<Rightarrow> lexer" where
  "skipTrivia lx =
     (let c = peek lx 0
      in if is_blank c then skipTrivia (adv 1 lx)
         else if c = CHR ''/'' \<and> peek lx 1 = CHR ''/'' then
           skipTrivia (scan_while (\<lambda>c. c \<noteq> NL) (adv 2 lx))
         else if c = CHR ''/'' \<and> peek lx 1 = CHR ''*'' then
           (let lx1 = block_scan (adv 2 lx)
            in if atEnd lx1 then lx_error (lx_pos lx) 2 ''unterminated block comment'' lx1
               else skipTrivia (adv 2 lx1))
         else lx)"
  by pat_completeness auto
termination
proof (relation "measure (\<lambda>lx. lx_end lx - lx_pos lx)", goal_cases)
  case (2 lx c)
  then have "\<not> atEnd lx" using peek_NUL [of lx 0] by (auto simp: is_blank_def)
  then show ?case by (simp add: atEnd_def)
next
  case (3 lx c)
  then have "\<not> atEnd lx" using peek_NUL [of lx 0] by auto
  moreover have "same_input (adv 2 lx) (scan_while (\<lambda>c. c \<noteq> NL) (adv 2 lx))" by simp
  ultimately show ?case using same_input_end by (fastforce simp: atEnd_def same_input_def)
next
  case (4 lx c lx1)
  then have "\<not> atEnd lx" using peek_NUL [of lx 0] by auto
  moreover have "same_input (adv 2 lx) lx1" using 4 by simp
  ultimately show ?case using same_input_end by (fastforce simp: atEnd_def same_input_def)
qed simp

declare skipTrivia.simps [simp del]

lemma same_skipTrivia [simp]: "same_input lx (skipTrivia lx)"
proof (induction lx rule: skipTrivia.induct)
  case (1 lx)
  note scan = same_input_trans [OF same_input_adv(1) same_scan_while]
    and block = same_input_trans [OF same_input_adv(1) same_block_scan]
  show ?case
    by (subst skipTrivia.simps)
      (use 1 in \<open>auto simp: Let_def intro: same_input_trans [OF same_input_adv(1)] same_input_trans [OF scan]
          same_input_trans [OF block] same_input_trans [OF same_input_trans [OF block same_input_adv(1)]]
          same_input_error [OF block]\<close>)
qed

section \<open>Token methods\<close>

definition slice :: "lexer \<Rightarrow> nat \<Rightarrow> nat \<Rightarrow> string" where
  "slice lx a b = take (b - a) (drop a (lx_text lx))"

fun double_underscore :: "string \<Rightarrow> bool" where
  "double_underscore (a # b # r) \<longleftrightarrow> (a = CHR ''_'' \<and> b = CHR ''_'') \<or> double_underscore (b # r)"
| "double_underscore _ \<longleftrightarrow> False"

definition scanDigitRun :: "(char \<Rightarrow> bool) \<Rightarrow> string \<Rightarrow> lexer \<Rightarrow> nat \<times> lexer" where
  "scanDigitRun pred baseName lx =
     (let lx1 = scan_while (\<lambda>c. pred c \<or> c = CHR ''_'') lx;
          run = slice lx (lx_pos lx) (lx_pos lx1);
          digits = length (filter (\<lambda>c. c \<noteq> CHR ''_'') run)
      in (digits,
          if run \<noteq> [] \<and> (hd run = CHR ''_'' \<or> last run = CHR ''_'' \<or> double_underscore run)
          then lx_error (lx_pos lx) (lx_pos lx1 - lx_pos lx)
                 (''misplaced digit separator in '' @ baseName @ '' literal'') lx1
          else lx1))"

definition lexPrefixed :: "nat \<Rightarrow> (char \<Rightarrow> bool) \<Rightarrow> string \<Rightarrow> lexer \<Rightarrow> lex_exn + (token \<times> lexer)" where
  "lexPrefixed start pred baseName lx =
     (let (digits, lx1) = scanDigitRun pred baseName (adv 2 lx);
          lx2 = (if digits = 0
                 then lx_error start (lx_pos lx1 - start) (baseName @ '' literal has no digits'') lx1 else lx1);
          lx3 = (if peek lx2 0 = CHR ''.'' \<and> isDigit (peek lx2 1)
                 then lx_error start (lx_pos lx2 - start + 1)
                        (baseName @ '' literals cannot have a fractional part'') lx2 else lx2)
      in emit TkIntLiteral start lx3)"

definition lexNumber :: "nat \<Rightarrow> lexer \<Rightarrow> lex_exn + (token \<times> lexer)" where
  "lexNumber start lx =
     (if peek lx 0 = CHR ''0'' \<and> (peek lx 1 = CHR ''x'' \<or> peek lx 1 = CHR ''X'') then
        lexPrefixed start isHexDigit ''hex'' lx
      else if peek lx 0 = CHR ''0'' \<and> (peek lx 1 = CHR ''b'' \<or> peek lx 1 = CHR ''B'') then
        lexPrefixed start isBinDigit ''binary'' lx
      else
        (let (_, lx1) = scanDigitRun isDigit ''decimal'' lx
         in if peek lx1 0 = CHR ''.'' \<and> isDigit (peek lx1 1) then
              (let (_, lx2) = scanDigitRun isDigit ''decimal'' (adv 1 lx1) in emit TkFloatLiteral start lx2)
            else emit TkIntLiteral start lx1))"

definition lexIdentifier :: "nat \<Rightarrow> lexer \<Rightarrow> lex_exn + (token \<times> lexer)" where
  "lexIdentifier start lx =
     (let lx1 = scan_while (\<lambda>c. isIdentCont c \<or> (lx_allowHoles lx \<and> c = CHR ''$'')) lx;
          word = slice lx start (lx_pos lx1)
      in emit (keywordKind word) start lx1)"

text \<open>The body loops of the quoted tokens: whether the closing quote was found, and the lexer after it
  (or at the place where the loop gave up).\<close>

function quasi_loop :: "lexer \<Rightarrow> bool \<times> lexer" where
  "quasi_loop lx =
     (if atEnd lx then (False, lx)
      else if peek lx 0 = BSLASH \<and> peek lx 1 = BACKTICK then quasi_loop (adv 2 lx)
      else if peek lx 0 = BACKTICK then (True, adv 1 lx)
      else quasi_loop (adv 1 lx))"
  by pat_completeness auto
termination by (relation "measure (\<lambda>lx. lx_end lx - lx_pos lx)") (auto simp: atEnd_def)

function string_loop :: "char \<Rightarrow> lexer \<Rightarrow> bool \<times> lexer" where
  "string_loop q lx =
     (if atEnd lx then (False, lx)
      else if peek lx 0 = BSLASH then string_loop q (adv 2 lx)
      else if peek lx 0 = NL then (False, lx)
      else if peek lx 0 = q then (True, adv 1 lx)
      else string_loop q (adv 1 lx))"
  by pat_completeness auto
termination by (relation "measure (\<lambda>(q, lx). lx_end lx - lx_pos lx)") (auto simp: atEnd_def)

function raw_loop :: "char \<Rightarrow> lexer \<Rightarrow> bool \<times> lexer" where
  "raw_loop q lx =
     (if atEnd lx then (False, lx)
      else if peek lx 0 = q then (True, adv 1 lx)
      else if peek lx 0 = NL then (False, lx)
      else raw_loop q (adv 1 lx))"
  by pat_completeness auto
termination by (relation "measure (\<lambda>(q, lx). lx_end lx - lx_pos lx)") (auto simp: atEnd_def)

function triple_loop :: "char \<Rightarrow> lexer \<Rightarrow> bool \<times> lexer" where
  "triple_loop q lx =
     (if atEnd lx then (False, lx)
      else if peek lx 0 = BSLASH then triple_loop q (adv 2 lx)
      else if peek lx 0 = q \<and> peek lx 1 = q \<and> peek lx 2 = q then (True, adv 3 lx)
      else triple_loop q (adv 1 lx))"
  by pat_completeness auto
termination by (relation "measure (\<lambda>(q, lx). lx_end lx - lx_pos lx)") (auto simp: atEnd_def)

declare quasi_loop.simps [simp del] string_loop.simps [simp del] raw_loop.simps [simp del]
  triple_loop.simps [simp del]

definition finish_quoted ::
  "token_kind \<Rightarrow> string \<Rightarrow> nat \<Rightarrow> bool \<times> lexer \<Rightarrow> lex_exn + (token \<times> lexer)" where
  "finish_quoted kind what start res =
     (case res of (closed, lx) \<Rightarrow>
        if closed then emit kind start lx
        else emit TkError start
               (lx_error start (lx_pos lx - start) (''unterminated '' @ what @ '' literal'') lx))"

definition lexQuasi :: "nat \<Rightarrow> lexer \<Rightarrow> lex_exn + (token \<times> lexer)" where
  "lexQuasi start lx = finish_quoted TkQuasiLiteral ''quasiquote'' start (quasi_loop lx)"

definition lexString :: "nat \<Rightarrow> char \<Rightarrow> lexer \<Rightarrow> lex_exn + (token \<times> lexer)" where
  "lexString start q lx = finish_quoted TkStringLiteral ''string'' start (string_loop q lx)"

definition lexRawString :: "nat \<Rightarrow> char \<Rightarrow> lexer \<Rightarrow> lex_exn + (token \<times> lexer)" where
  "lexRawString start q lx = finish_quoted TkRawStringLiteral ''raw string'' start (raw_loop q lx)"

definition lexTripleString :: "nat \<Rightarrow> char \<Rightarrow> lexer \<Rightarrow> lex_exn + (token \<times> lexer)" where
  "lexTripleString start q lx = finish_quoted TkStringLiteral ''multiline string'' start (triple_loop q lx)"

text \<open>The punctuation cases of the switch: for the character \<open>advance\<close> returned, the continuations
  \<open>match\<close> tries in order with their kinds, and the kind when none matches.\<close>

definition punct_case :: "char \<Rightarrow> ((char \<times> punct) list \<times> punct) option" where
  "punct_case c =
     (if c = CHR ''('' then Some ([], PLParen)
      else if c = CHR '')'' then Some ([], PRParen)
      else if c = CHR ''{'' then Some ([], PLBrace)
      else if c = CHR ''}'' then Some ([], PRBrace)
      else if c = CHR ''['' then Some ([], PLBracket)
      else if c = CHR '']'' then Some ([], PRBracket)
      else if c = CHR '','' then Some ([], PComma)
      else if c = CHR ''.'' then Some ([(CHR ''.'', PDotDot)], PDot)
      else if c = CHR '';'' then Some ([], PSemicolon)
      else if c = CHR ''?'' then Some ([(CHR ''?'', PQuestionQuestion), (CHR ''.'', PQuestionDot)], PQuestion)
      else if c = CHR ''+'' then Some ([(CHR ''='', PPlusEq)], PPlus)
      else if c = CHR ''-'' then Some ([(CHR ''='', PMinusEq)], PMinus)
      else if c = CHR ''*'' then Some ([(CHR ''='', PStarEq)], PStar)
      else if c = CHR ''/'' then Some ([(CHR ''='', PSlashEq)], PSlash)
      else if c = CHR ''%'' then Some ([(CHR ''='', PPercentEq)], PPercent)
      else if c = CHR '':'' then Some ([(CHR '':'', PColonColon)], PColon)
      else if c = CHR ''='' then Some ([(CHR ''>'', PArrow), (CHR ''='', PEqEq)], PEq)
      else if c = CHR ''!'' then Some ([(CHR ''='', PBangEq)], PBang)
      else if c = CHR ''<'' then Some ([(CHR ''<'', PLtLt), (CHR ''='', PLe)], PLt)
      else if c = CHR ''>'' then Some ([(CHR ''>'', PGtGt), (CHR ''='', PGe)], PGt)
      else if c = CHR ''&'' then Some ([(CHR ''&'', PAmpAmp)], PAmp)
      else if c = CHR ''|'' then Some ([(CHR ''|'', PPipePipe)], PPipe)
      else if c = CHR ''^'' then Some ([], PCaret)
      else if c = CHR ''~'' then Some ([], PTilde)
      else if c = CHR ''@'' then Some ([], PAt)
      else None)"

fun match_cases :: "(char \<times> punct) list \<Rightarrow> punct \<Rightarrow> lexer \<Rightarrow> punct \<times> lexer" where
  "match_cases [] dflt lx = (dflt, lx)"
| "match_cases ((c, k) # rest) dflt lx =
     (let (hit, lx1) = match_char c lx in if hit then (k, lx1) else match_cases rest dflt lx)"

text \<open>One round of the loop of \<open>tokenize\<close> after the trivia, away from the end of the input.\<close>

definition lexToken :: "lexer \<Rightarrow> lex_exn + (token \<times> lexer)" where
  "lexToken lx0 =
     (let start = lx_pos lx0; c = lx_text lx0 ! start; lx = adv 1 lx0
      in case punct_case c of
           Some (cs, dflt) \<Rightarrow> (let (k, lx1) = match_cases cs dflt lx in emit (TkPunct k) start lx1)
         | None \<Rightarrow>
             if c = DQUOTE \<or> c = SQUOTE then
               if peek lx 0 = c \<and> peek lx 1 = c then lexTripleString start c (adv 2 lx)
               else lexString start c lx
             else if c = BACKTICK then lexQuasi start lx
             else if c = CHR ''$'' then
               if lx_allowHoles lx \<and> isIdentStart (peek lx 0)
               then emit TkIdentifier start (scan_while (\<lambda>c. isIdentCont c \<or> c = CHR ''$'') lx)
               else emit TkError start
                      (lx_error start 1
                         (if lx_allowHoles lx then ''expected a name after '' @ [SQUOTE] @ ''$'' @ [SQUOTE]
                          else ''unexpected character '' @ [SQUOTE] @ ''$'' @ [SQUOTE] @
                               '' (holes only exist inside quasiquotes)'') lx)
             else if isDigit c then lexNumber start lx0
             else if c = CHR ''r'' \<and> (peek lx 0 = DQUOTE \<or> peek lx 0 = SQUOTE) then
               lexRawString start (peek lx 0) (adv 1 lx)
             else if isIdentStart c then lexIdentifier start lx0
             else emit TkError start
                    (lx_error start 1 (''unexpected character '' @ [SQUOTE] @ [c] @ [SQUOTE]) lx))"

section \<open>What a step does to the lexer\<close>

text \<open>The position stays within the input, except that the escape skip of a string whose last character
  is a backslash steps one past the end.\<close>

definition pos_ok :: "lexer \<Rightarrow> bool" where
  "pos_ok lx \<longleftrightarrow>
     lx_pos lx \<le> lx_end lx \<or> lx_pos lx = lx_end lx + 1 \<and> 0 < lx_end lx \<and> lx_text lx ! (lx_end lx - 1) = BSLASH"

text \<open>Errors are only ever appended to the sink.\<close>

definition errors_ext :: "diagnostic_sink \<Rightarrow> diagnostic_sink \<Rightarrow> nat \<Rightarrow> bool" where
  "errors_ext s s' n \<longleftrightarrow>
     (\<exists>ds. ds_diags s' = ds_diags s @ ds \<and> list_all (\<lambda>d. dg_severity d = SevError) ds \<and> n \<le> length ds \<and>
           ds_errorCount s' = ds_errorCount s + length ds)"

definition lex_step :: "nat \<Rightarrow> lexer \<Rightarrow> lexer \<Rightarrow> bool" where
  "lex_step n lx lx' \<longleftrightarrow> same_input lx lx' \<and> errors_ext (lx_sink lx) (lx_sink lx') n"

lemma errors_ext_refl [simp]: "errors_ext s s 0"
  by (simp add: errors_ext_def)

lemma errors_ext_error [simp]: "errors_ext s (sink_error sp msg s) (Suc 0)"
  by (simp add: errors_ext_def sink_error_def)

lemma errors_ext_trans:
  assumes "errors_ext a b m" and "errors_ext b c n" shows "errors_ext a c (m + n)"
proof -
  from assms obtain ds es where "ds_diags b = ds_diags a @ ds" "list_all (\<lambda>d. dg_severity d = SevError) ds"
    "m \<le> length ds" "ds_errorCount b = ds_errorCount a + length ds"
    "ds_diags c = ds_diags b @ es" "list_all (\<lambda>d. dg_severity d = SevError) es"
    "n \<le> length es" "ds_errorCount c = ds_errorCount b + length es"
    unfolding errors_ext_def by blast
  then show ?thesis unfolding errors_ext_def by (intro exI [of _ "ds @ es"]) simp
qed

lemma lex_step_refl [simp]: "lex_step 0 lx lx"
  by (simp add: lex_step_def)

lemma lex_step_adv [simp]: "lex_step 0 lx (adv n lx)"
  by (simp add: lex_step_def)

lemma lex_step_trans: "lex_step m a b \<Longrightarrow> lex_step n b c \<Longrightarrow> lex_step (m + n) a c"
  unfolding lex_step_def by (blast intro: same_input_trans errors_ext_trans)

lemma lex_step_trans0: "lex_step 0 a b \<Longrightarrow> lex_step n b c \<Longrightarrow> lex_step n a c"
  using lex_step_trans [of 0 a b n c] by simp

lemma lex_step_weaken: "lex_step n a b \<Longrightarrow> m \<le> n \<Longrightarrow> lex_step m a b"
  unfolding lex_step_def errors_ext_def by (blast intro: le_trans)

lemma lex_step_error [simp]: "lex_step (Suc 0) lx (lx_error off len msg lx)"
  by (simp add: lex_step_def)

lemma lex_step_error0 [simp]: "lex_step 0 lx (lx_error off len msg lx)"
  by (rule lex_step_weaken [OF lex_step_error]) simp

lemma lex_stepD:
  assumes "lex_step n lx lx'"
  shows "lx_text lx' = lx_text lx" "lx_allowHoles lx' = lx_allowHoles lx" "lx_limit lx' = lx_limit lx"
    "lx_pos lx \<le> lx_pos lx'" "lx_end lx' = lx_end lx"
  using assms by (auto simp: lex_step_def same_input_def lx_end_def)

section \<open>The scanning loops\<close>

lemma scan_while_sink [simp]: "lx_sink (scan_while P lx) = lx_sink lx"
proof (induction P lx rule: scan_while.induct)
  case (1 P lx)
  then show ?case by (subst scan_while.simps) simp
qed

lemma scan_while_step [simp]: "lex_step 0 lx (scan_while P lx)"
  by (simp add: lex_step_def)

lemma scan_while_bound: "lx_pos lx \<le> lx_end lx \<Longrightarrow> lx_pos (scan_while P lx) \<le> lx_end lx"
proof (induction P lx rule: scan_while.induct)
  case (1 P lx)
  then show ?case by (subst scan_while.simps) (simp add: atEnd_def)
qed

lemma scan_while_progress: "\<not> atEnd lx \<Longrightarrow> P (peek lx 0) \<Longrightarrow> lx_pos lx < lx_pos (scan_while P lx)"
  using same_scan_while [of "adv 1 lx" P] by (subst scan_while.simps) (simp add: same_input_def)

lemma slice_Suc: "a < b \<Longrightarrow> a < length (lx_text lx) \<Longrightarrow> slice lx a b = lx_text lx ! a # slice lx (Suc a) b"
  by (simp add: slice_def Cons_nth_drop_Suc [symmetric] take_Suc_conv_app_nth [symmetric] Suc_diff_Suc [symmetric])

lemma slice_self [simp]: "slice lx a a = []"
  by (simp add: slice_def)

lemma slice_split: "a \<le> b \<Longrightarrow> b \<le> c \<Longrightarrow> slice lx a c = slice lx a b @ slice lx b c"
  using take_add [of "b - a" "c - b" "drop a (lx_text lx)"] by (simp add: slice_def)

lemma slice_cong: "lx_text lx' = lx_text lx \<Longrightarrow> slice lx' a b = slice lx a b"
  by (simp add: slice_def)

definition lx_wf :: "lexer \<Rightarrow> bool" where
  "lx_wf lx \<longleftrightarrow> lx_end lx \<le> length (lx_text lx)"

lemma scan_while_slice:
  "lx_wf lx \<Longrightarrow> list_all P (slice lx (lx_pos lx) (lx_pos (scan_while P lx)))"
proof (induction P lx rule: scan_while.induct)
  case (1 P lx)
  show ?case
  proof (cases "\<not> atEnd lx \<and> P (peek lx 0)")
    case True
    then have p: "lx_pos lx < lx_pos (scan_while P lx)" by (simp add: scan_while_progress)
    have eq: "scan_while P lx = scan_while P (adv 1 lx)" using True by (subst scan_while.simps) simp
    have "P (lx_text lx ! lx_pos lx)" "lx_pos lx < length (lx_text lx)"
      using True "1.prems" by (auto simp: peek_def atEnd_def lx_wf_def)
    moreover have "list_all P (slice lx (Suc (lx_pos lx)) (lx_pos (scan_while P lx)))"
      using "1.IH" [OF True] "1.prems" eq by (simp add: lx_wf_def slice_def)
    ultimately show ?thesis using p by (simp add: slice_Suc)
  next
    case False
    then have "scan_while P lx = lx" by (subst scan_while.simps) auto
    then show ?thesis by simp
  qed
qed

text \<open>Maximal munch: the loop stops at the end or at a character outside the class.\<close>

lemma scan_while_stop: "atEnd (scan_while P lx) \<or> \<not> P (peek (scan_while P lx) 0)"
proof (induction P lx rule: scan_while.induct)
  case (1 P lx)
  then show ?case by (subst (1 2) scan_while.simps) auto
qed

section \<open>The quoted tokens\<close>

definition quoted_ok :: "char \<Rightarrow> lexer \<Rightarrow> bool \<times> lexer \<Rightarrow> bool" where
  "quoted_ok q lx res \<longleftrightarrow>
     (case res of (closed, lx') \<Rightarrow>
        same_input lx lx' \<and> lx_sink lx' = lx_sink lx \<and> pos_ok lx' \<and>
        (closed \<longrightarrow> lx_pos lx < lx_pos lx' \<and> lx_pos lx' \<le> lx_end lx \<and> lx_text lx ! (lx_pos lx' - 1) = q))"

lemma quoted_ok_adv: "quoted_ok q (adv n lx) res \<Longrightarrow> quoted_ok q lx res"
  by (auto simp: quoted_ok_def same_input_def split: prod.splits)

lemma quoted_ok_stop: "pos_ok lx \<Longrightarrow> quoted_ok q lx (False, lx)"
  by (simp add: quoted_ok_def)

lemma quoted_ok_close:
  "0 < n \<Longrightarrow> lx_pos lx + n \<le> lx_end lx \<Longrightarrow> lx_text lx ! (lx_pos lx + (n - 1)) = q \<Longrightarrow> quoted_ok q lx (True, adv n lx)"
  by (auto simp: quoted_ok_def pos_ok_def)

lemma peek_at: "\<not> atEnd lx \<Longrightarrow> peek lx 0 = lx_text lx ! lx_pos lx"
  by (simp add: peek_def atEnd_def)

lemma peek_ne_NUL: "peek lx n = c \<Longrightarrow> c \<noteq> NUL \<Longrightarrow> lx_pos lx + n < lx_end lx \<and> lx_text lx ! (lx_pos lx + n) = c"
  by (auto simp: peek_def split: if_splits)

lemma pos_ok_escape: "\<not> atEnd lx \<Longrightarrow> peek lx 0 = BSLASH \<Longrightarrow> pos_ok (adv 2 lx)"
proof -
  assume a: "\<not> atEnd lx" "peek lx 0 = BSLASH"
  show ?thesis
  proof (cases "lx_pos lx + 2 \<le> lx_end lx")
    case False
    with a(1) have "lx_end lx = Suc (lx_pos lx)" by (simp add: atEnd_def)
    with a show ?thesis by (simp add: pos_ok_def peek_at)
  qed (simp add: pos_ok_def)
qed

lemma pos_ok_adv1: "\<not> atEnd lx \<Longrightarrow> pos_ok (adv 1 lx)"
  by (simp add: pos_ok_def atEnd_def)

lemma quoted_ok_close1: "\<not> atEnd lx \<Longrightarrow> peek lx 0 = q \<Longrightarrow> quoted_ok q lx (True, adv 1 lx)"
  using peek_at [of lx] quoted_ok_close [of 1 lx q] by (simp add: atEnd_def)

lemma string_loop_ok: "pos_ok lx \<Longrightarrow> quoted_ok q lx (string_loop q lx)"
proof (induction q lx rule: string_loop.induct)
  case (1 q lx)
  have "quoted_ok q lx (string_loop q (adv 2 lx))" if "\<not> atEnd lx" "peek lx 0 = BSLASH"
    using "1.IH"(1) [OF that] "1.prems" pos_ok_escape [OF that] quoted_ok_adv by blast
  then show ?case
    by (subst string_loop.simps)
      (use 1 in \<open>auto intro: quoted_ok_stop quoted_ok_close1 quoted_ok_adv pos_ok_escape pos_ok_adv1 simp del: One_nat_def\<close>)
qed

lemma raw_loop_ok: "pos_ok lx \<Longrightarrow> quoted_ok q lx (raw_loop q lx)"
proof (induction q lx rule: raw_loop.induct)
  case (1 q lx)
  show ?case
    by (subst raw_loop.simps)
      (use 1 in \<open>auto intro: quoted_ok_stop quoted_ok_close1 quoted_ok_adv pos_ok_adv1 simp del: One_nat_def\<close>)
qed

lemma triple_close: "q \<noteq> NUL \<Longrightarrow> peek lx 2 = q \<Longrightarrow> quoted_ok q lx (True, adv 3 lx)"
  using peek_ne_NUL [of lx 2 q] by (auto intro!: quoted_ok_close)

lemma triple_loop_ok: "pos_ok lx \<Longrightarrow> q \<noteq> NUL \<Longrightarrow> quoted_ok q lx (triple_loop q lx)"
proof (induction q lx rule: triple_loop.induct)
  case (1 q lx)
  have "quoted_ok q lx (triple_loop q (adv 2 lx))" if "\<not> atEnd lx" "peek lx 0 = BSLASH"
    using "1.IH"(1) [OF that] "1.prems" pos_ok_escape [OF that] quoted_ok_adv by blast
  then show ?case
    by (subst triple_loop.simps)
      (use 1 in \<open>auto intro: quoted_ok_stop triple_close quoted_ok_adv pos_ok_escape pos_ok_adv1 simp del: One_nat_def\<close>)
qed

lemma quasi_loop_ok: "pos_ok lx \<Longrightarrow> quoted_ok BACKTICK lx (quasi_loop lx)"
proof (induction lx rule: quasi_loop.induct)
  case (1 lx)
  have "pos_ok (adv 2 lx)" if "peek lx 1 = BACKTICK"
    using peek_ne_NUL [OF that] by (simp add: pos_ok_def)
  then show ?case
    by (subst quasi_loop.simps)
      (use 1 in \<open>auto intro: quoted_ok_stop quoted_ok_close1 quoted_ok_adv pos_ok_adv1 simp del: One_nat_def\<close>)
qed

section \<open>The spelling of a token\<close>

primrec punct_spelling :: "punct \<Rightarrow> string" where
  "punct_spelling PColonColon = ''::''"
| "punct_spelling PColon = '':''"
| "punct_spelling PSemicolon = '';''"
| "punct_spelling PComma = '',''"
| "punct_spelling PDot = ''.''"
| "punct_spelling PDotDot = ''..''"
| "punct_spelling PLParen = ''(''"
| "punct_spelling PRParen = '')''"
| "punct_spelling PLBrace = ''{''"
| "punct_spelling PRBrace = ''}''"
| "punct_spelling PLBracket = ''[''"
| "punct_spelling PRBracket = '']''"
| "punct_spelling PArrow = ''=>''"
| "punct_spelling PEq = ''=''"
| "punct_spelling PEqEq = ''==''"
| "punct_spelling PBangEq = ''!=''"
| "punct_spelling PBang = ''!''"
| "punct_spelling PLt = ''<''"
| "punct_spelling PGt = ''>''"
| "punct_spelling PLe = ''<=''"
| "punct_spelling PGe = ''>=''"
| "punct_spelling PPlus = ''+''"
| "punct_spelling PMinus = ''-''"
| "punct_spelling PStar = ''*''"
| "punct_spelling PSlash = ''/''"
| "punct_spelling PPercent = ''%''"
| "punct_spelling PPlusEq = ''+=''"
| "punct_spelling PMinusEq = ''-=''"
| "punct_spelling PStarEq = ''*=''"
| "punct_spelling PSlashEq = ''/=''"
| "punct_spelling PPercentEq = ''%=''"
| "punct_spelling PLtLt = ''<<''"
| "punct_spelling PGtGt = ''>>''"
| "punct_spelling PAmpAmp = ''&&''"
| "punct_spelling PPipePipe = ''||''"
| "punct_spelling PAmp = ''&''"
| "punct_spelling PPipe = ''|''"
| "punct_spelling PQuestion = ''?''"
| "punct_spelling PQuestionQuestion = ''??''"
| "punct_spelling PQuestionDot = ''?.''"
| "punct_spelling PAt = ''@''"
| "punct_spelling PCaret = ''^''"
| "punct_spelling PTilde = ''~''"

text \<open>What the text of a token of each kind looks like; \<open>h\<close> is fragment mode.\<close>

definition word_char :: "bool \<Rightarrow> char \<Rightarrow> bool" where
  "word_char h c \<longleftrightarrow> isIdentCont c \<or> (h \<and> c = CHR ''$'')"

definition quoted_by :: "char \<Rightarrow> string \<Rightarrow> bool" where
  "quoted_by q s \<longleftrightarrow> length s \<ge> 2 \<and> hd s = q \<and> last s = q"

fun spelled :: "bool \<Rightarrow> token_kind \<Rightarrow> string \<Rightarrow> bool" where
  "spelled h TkEnd s \<longleftrightarrow> s = []"
| "spelled h TkError s \<longleftrightarrow> s \<noteq> []"
| "spelled h TkIdentifier s \<longleftrightarrow>
     s \<noteq> [] \<and> list_all (word_char h) s \<and> \<not> isDigit (hd s) \<and> keywordKind s = TkIdentifier"
| "spelled h TkIntLiteral s \<longleftrightarrow> s \<noteq> [] \<and> isDigit (hd s) \<and> list_all isIdentCont s"
| "spelled h TkFloatLiteral s \<longleftrightarrow> s \<noteq> [] \<and> isDigit (hd s) \<and> list_all (\<lambda>c. isDigit c \<or> c \<in> {CHR ''_'', CHR ''.''}) s \<and>
     count_list s CHR ''.'' = 1 \<and> isDigit (hd (tl (dropWhile (\<lambda>c. c \<noteq> CHR ''.'') s)))"
| "spelled h TkStringLiteral s \<longleftrightarrow> quoted_by DQUOTE s \<or> quoted_by SQUOTE s"
| "spelled h TkRawStringLiteral s \<longleftrightarrow>
     s \<noteq> [] \<and> hd s = CHR ''r'' \<and> (quoted_by DQUOTE (tl s) \<or> quoted_by SQUOTE (tl s))"
| "spelled h TkQuasiLiteral s \<longleftrightarrow> quoted_by BACKTICK s"
| "spelled h (TkKw k) s \<longleftrightarrow> s = kw_spelling k"
| "spelled h (TkPunct p) s \<longleftrightarrow> s = punct_spelling p"

text \<open>One step of the lexer on a token of kind \<open>k\<close>.\<close>

definition tok_step :: "lexer \<Rightarrow> token_kind \<Rightarrow> lexer \<Rightarrow> bool" where
  "tok_step lx k lx' \<longleftrightarrow>
     lex_step (if k = TkError then 1 else 0) lx lx' \<and> lx_pos lx < lx_pos lx' \<and> pos_ok lx' \<and> k \<noteq> TkEnd \<and>
     spelled (lx_allowHoles lx) k (slice lx (lx_pos lx) (lx_pos lx'))"

section \<open>Every method makes one step\<close>

lemma lex_step_errorI [simp]: "lex_step 0 a b \<Longrightarrow> lex_step 0 a (lx_error off len msg b)"
  using lex_step_trans0 lex_step_error0 by blast

definition makes_token :: "lexer \<Rightarrow> lex_exn + (token \<times> lexer) \<Rightarrow> bool" where
  "makes_token lx res \<longleftrightarrow> (\<exists>k lx'. res = emit k (lx_pos lx) lx' \<and> tok_step lx k lx')"

lemma makes_tokenI: "tok_step lx k lx' \<Longrightarrow> makes_token lx (emit k (lx_pos lx) lx')"
  unfolding makes_token_def by blast

lemma slice_nonempty: "a < b \<Longrightarrow> a < length (lx_text lx) \<Longrightarrow> slice lx a b \<noteq> []"
  by (simp add: slice_def)

lemma slice_length: "b \<le> length (lx_text lx) \<Longrightarrow> length (slice lx a b) = b - a"
  by (simp add: slice_def)

lemma slice_hd: "a < b \<Longrightarrow> a < length (lx_text lx) \<Longrightarrow> hd (slice lx a b) = lx_text lx ! a"
  by (simp add: slice_Suc)

lemma slice_last: "a < b \<Longrightarrow> b \<le> length (lx_text lx) \<Longrightarrow> last (slice lx a b) = lx_text lx ! (b - 1)"
  using slice_nonempty [of a b lx] by (simp add: last_conv_nth slice_length) (simp add: slice_def)

lemma slice_quoted:
  "a + 2 \<le> b \<Longrightarrow> b \<le> length (lx_text lx) \<Longrightarrow> lx_text lx ! a = q \<Longrightarrow> lx_text lx ! (b - 1) = q \<Longrightarrow>
   quoted_by q (slice lx a b)"
  by (simp add: quoted_by_def slice_length slice_hd slice_last)

lemma finish_quoted_step:
  assumes wf: "lx_wf lx" "\<not> atEnd lx"
    and res: "quoted_ok q lxa res" and lxa: "lxa = adv n lx" "0 < n"
    and sp: "\<And>b. lx_pos lxa < b \<Longrightarrow> b \<le> lx_end lx \<Longrightarrow> lx_text lx ! (b - 1) = q \<Longrightarrow>
      kind \<noteq> TkEnd \<and> kind \<noteq> TkError \<and> spelled (lx_allowHoles lx) kind (slice lx (lx_pos lx) b)"
  shows "makes_token lx (finish_quoted kind what (lx_pos lx) res)"
proof -
  obtain closed lx' where r: "res = (closed, lx')" by (cases res)
  let ?e = "lx_error (lx_pos lx) (lx_pos lx' - lx_pos lx) (''unterminated '' @ what @ '' literal'') lx'"
  have ok: "same_input lxa lx'" "lx_sink lx' = lx_sink lxa" "pos_ok lx'"
    using res by (auto simp: quoted_ok_def r)
  have step: "lex_step 0 lx lx'" "lx_pos lx < lx_pos lx'"
    using ok(1,2) lxa by (auto simp: lex_step_def same_input_def)
  have len: "lx_pos lx < length (lx_text lx)" using wf by (simp add: lx_wf_def atEnd_def)
  show ?thesis
  proof (cases closed)
    case True
    then have "tok_step lx kind lx'"
      using sp [of "lx_pos lx'"] res step ok(3) lxa by (auto simp: tok_step_def quoted_ok_def r)
    with True show ?thesis by (simp add: finish_quoted_def r makes_tokenI)
  next
    case False
    have "lex_step 1 lx ?e" using lex_step_trans0 [OF step(1), of 1 ?e] by simp
    moreover have "pos_ok ?e" using ok(3) by (simp add: pos_ok_def)
    ultimately have "tok_step lx TkError ?e"
      using step(2) len by (simp add: tok_step_def slice_nonempty)
    with False show ?thesis by (simp add: finish_quoted_def r makes_tokenI)
  qed
qed

section \<open>Numbers and words\<close>

lemma isIdentCont_digits:
  "isDigit c \<Longrightarrow> isIdentCont c" "isHexDigit c \<Longrightarrow> isIdentCont c" "isBinDigit c \<Longrightarrow> isIdentCont c" "isIdentCont CHR ''_''"
  by (auto simp: isDigit_def isHexDigit_def isBinDigit_def isIdentCont_def isIdentStart_def less_eq_char_def)

lemma scanDigitRun_ok:
  assumes "lx_wf lx" "lx_pos lx \<le> lx_end lx" "scanDigitRun P base lx = (n, lx')"
  shows "lex_step 0 lx lx'" "lx_pos lx' \<le> lx_end lx"
    "list_all (\<lambda>c. P c \<or> c = CHR ''_'') (slice lx (lx_pos lx) (lx_pos lx'))"
    "lx_pos lx' = lx_pos (scan_while (\<lambda>c. P c \<or> c = CHR ''_'') lx)"
  using assms scan_while_bound [OF assms(2)] scan_while_slice [OF assms(1), of "\<lambda>c. P c \<or> c = CHR ''_''"]
  by (auto simp: scanDigitRun_def Let_def intro: lex_step_errorI)

lemma lexPrefixed_step:
  assumes wf: "lx_wf lx" and c: "peek lx 0 = CHR ''0''" "isIdentCont (peek lx 1)" "peek lx 1 \<noteq> NUL"
    and P: "\<And>c. P c \<Longrightarrow> isIdentCont c"
  shows "makes_token lx (lexPrefixed (lx_pos lx) P base lx)"
proof -
  obtain n lx1 where run: "scanDigitRun P base (adv 2 lx) = (n, lx1)" by (cases "scanDigitRun P base (adv 2 lx)")
  have p: "lx_pos lx + 1 < lx_end lx" "lx_text lx ! lx_pos lx = CHR ''0''"
    "isIdentCont (lx_text lx ! (lx_pos lx + 1))"
    using peek_ne_NUL [of lx 1] peek_ne_NUL [of lx 0] c by auto
  have "lx_wf (adv 2 lx)" "lx_pos (adv 2 lx) \<le> lx_end (adv 2 lx)" using wf p by (simp_all add: lx_wf_def)
  note r = scanDigitRun_ok [OF this run]
  have step: "lex_step 0 lx lx1" using lex_step_trans0 [OF lex_step_adv r(1)] .
  have "slice lx (lx_pos lx) (lx_pos lx1) =
      CHR ''0'' # lx_text lx ! (lx_pos lx + 1) # slice lx (lx_pos lx + 2) (lx_pos lx1)"
    using p lex_stepD(4) [OF r(1)] wf by (simp add: slice_Suc lx_wf_def)
  moreover have "list_all isIdentCont (slice lx (lx_pos lx + 2) (lx_pos lx1))"
    using r(3) P isIdentCont_digits(4) by (auto simp: list_all_iff slice_def)
  ultimately have sp: "spelled (lx_allowHoles lx) TkIntLiteral (slice lx (lx_pos lx) (lx_pos lx1))"
    using p(3) by (simp add: isDigit_def isIdentCont_def)
  have st: "tok_step lx TkIntLiteral lx2" if "lex_step 0 lx1 lx2" "lx_pos lx2 = lx_pos lx1" for lx2
    using lex_step_trans0 [OF step that(1)] that sp r(2) lex_stepD [OF r(1)] lex_stepD [OF that(1)]
    by (simp add: tok_step_def pos_ok_def)
  show ?thesis
    unfolding lexPrefixed_def run by (auto simp: Let_def intro!: makes_tokenI st)
qed

lemma lx_wf_step: "lx_wf lx \<Longrightarrow> lex_step n lx lx' \<Longrightarrow> lx_wf lx'"
  using lex_stepD [of n lx lx'] by (simp add: lx_wf_def)

lemma slice_step: "lex_step n lx lx' \<Longrightarrow> slice lx' a b = slice lx a b"
  using lex_stepD(1) by (rule slice_cong)

lemma float_spelled:
  assumes "list_all (\<lambda>c. isDigit c \<or> c = CHR ''_'') a" "a \<noteq> []" "isDigit (hd a)"
    and "list_all (\<lambda>c. isDigit c \<or> c = CHR ''_'') b" "b \<noteq> []" "isDigit (hd b)"
  shows "spelled h TkFloatLiteral (a @ CHR ''.'' # b)"
proof -
  have no: "CHR ''.'' \<notin> set xs" if "list_all (\<lambda>c. isDigit c \<or> c = CHR ''_'') xs" for xs
    using that by (auto simp: list_all_iff isDigit_def)
  have "count_list (a @ CHR ''.'' # b) CHR ''.'' = 1"
    using no [OF assms(1)] no [OF assms(4)] by (simp add: count_list_append count_notin)
  moreover have "dropWhile (\<lambda>c. c \<noteq> CHR ''.'') (a @ CHR ''.'' # b) = CHR ''.'' # b"
    using no [OF assms(1)] by (induction a) auto
  ultimately show ?thesis using assms by (auto simp: list_all_iff)
qed

lemma lexNumber_step:
  assumes wf: "lx_wf lx" "\<not> atEnd lx" and d: "isDigit (peek lx 0)"
  shows "makes_token lx (lexNumber (lx_pos lx) lx)"
proof -
  let ?P = "\<lambda>c. isDigit c \<or> c = CHR ''_''"
  obtain n lx1 where run: "scanDigitRun isDigit ''decimal'' lx = (n, lx1)"
    by (cases "scanDigitRun isDigit ''decimal'' lx")
  have pos: "lx_pos lx < lx_end lx" "lx_pos lx < length (lx_text lx)" "isDigit (lx_text lx ! lx_pos lx)"
    using wf d by (auto simp: atEnd_def peek_def lx_wf_def)
  note r = scanDigitRun_ok [OF wf(1) less_imp_le [OF pos(1)] run]
  have "lx_pos lx < lx_pos lx1" using scan_while_progress [of lx ?P] r(4) wf(2) d by simp
  note a = slice_nonempty [OF this pos(2)] slice_hd [OF this pos(2)]
  have int: "tok_step lx TkIntLiteral lx1"
    using r a pos(3) \<open>lx_pos lx < lx_pos lx1\<close> isIdentCont_digits lex_stepD(5) [OF r(1)]
    by (auto simp: tok_step_def pos_ok_def list_all_iff)
  have float: "tok_step lx TkFloatLiteral lx2"
    if dot: "peek lx1 0 = CHR ''.''" "isDigit (peek lx1 1)"
      and run2: "scanDigitRun isDigit ''decimal'' (adv 1 lx1) = (m, lx2)" for m lx2
  proof -
    have "peek lx1 1 \<noteq> NUL" using dot(2) by (auto simp: isDigit_def)
    then have p: "lx_pos lx1 + 1 < lx_end lx" "lx_text lx ! lx_pos lx1 = CHR ''.''"
      "isDigit (lx_text lx ! Suc (lx_pos lx1))"
      using peek_ne_NUL [of lx1 0] peek_ne_NUL [of lx1 1] dot lex_stepD [OF r(1)] by auto
    have s1: "lex_step 0 lx (adv 1 lx1)" using lex_step_trans0 [OF r(1) lex_step_adv] .
    have wf1: "lx_wf (adv 1 lx1)" "lx_pos (adv 1 lx1) \<le> lx_end (adv 1 lx1)" "\<not> atEnd (adv 1 lx1)"
      using lx_wf_step [OF wf(1) s1] p(1) lex_stepD(5) [OF s1] by (auto simp: atEnd_def)
    note r2 = scanDigitRun_ok [OF wf1(1,2) run2]
    have pk: "peek (adv 1 lx1) 0 = peek lx1 1" by (simp add: peek_def)
    have lt: "Suc (lx_pos lx1) < lx_pos lx2"
      using scan_while_progress [of "adv 1 lx1" ?P] r2(4) wf1(3) dot(2) pk by simp
    have len: "lx_pos lx1 + 1 < length (lx_text lx)" using p(1) wf(1) by (simp add: lx_wf_def)
    have b: "slice lx (Suc (lx_pos lx1)) (lx_pos lx2) \<noteq> []"
      "isDigit (hd (slice lx (Suc (lx_pos lx1)) (lx_pos lx2)))"
      using slice_nonempty [OF lt] slice_hd [OF lt] len p(3) by auto
    have eq: "slice lx (lx_pos lx) (lx_pos lx2) =
        slice lx (lx_pos lx) (lx_pos lx1) @ CHR ''.'' # slice lx (Suc (lx_pos lx1)) (lx_pos lx2)"
      using slice_split [of "lx_pos lx" "lx_pos lx1" "lx_pos lx2" lx] slice_Suc [of "lx_pos lx1" "lx_pos lx2" lx]
        \<open>lx_pos lx < lx_pos lx1\<close> lt len p(2) by simp
    have "list_all ?P (slice lx (Suc (lx_pos lx1)) (lx_pos lx2))"
      using r2(3) slice_step [OF s1] by simp
    from float_spelled [OF r(3) a(1) _ this b, of "lx_allowHoles lx"]
    have "spelled (lx_allowHoles lx) TkFloatLiteral (slice lx (lx_pos lx) (lx_pos lx2))"
      using a(2) pos(3) by (simp only: eq)
    then show ?thesis
      using lex_step_trans0 [OF s1 r2(1)] lt \<open>lx_pos lx < lx_pos lx1\<close> r2(2) lex_stepD [OF s1] lex_stepD [OF r2(1)]
      by (simp add: tok_step_def pos_ok_def del: spelled.simps)
  qed
  have hex: "peek lx 1 = CHR ''x'' \<or> peek lx 1 = CHR ''X'' \<or> peek lx 1 = CHR ''b'' \<or> peek lx 1 = CHR ''B'' \<Longrightarrow>
      isIdentCont (peek lx 1) \<and> peek lx 1 \<noteq> NUL"
    by (auto simp: isIdentCont_def isIdentStart_def)
  show ?thesis
    unfolding lexNumber_def run
    using lexPrefixed_step [OF wf(1)] hex isIdentCont_digits(2,3) makes_tokenI [OF int] makes_tokenI [OF float]
    by (auto split: prod.split)
qed

lemma isIdentStart_props: "isIdentStart c \<Longrightarrow> isIdentCont c \<and> \<not> isDigit c"
  by (auto simp: isIdentStart_def isIdentCont_def isDigit_def less_eq_char_def)

lemma scan_token:
  assumes wf: "lx_wf lx" "\<not> atEnd lx" and P: "P (peek lx 0)"
  shows "lex_step 0 lx (scan_while P lx)" "lx_pos lx < lx_pos (scan_while P lx)" "pos_ok (scan_while P lx)"
    "slice lx (lx_pos lx) (lx_pos (scan_while P lx)) \<noteq> []"
    "hd (slice lx (lx_pos lx) (lx_pos (scan_while P lx))) = peek lx 0"
    "list_all P (slice lx (lx_pos lx) (lx_pos (scan_while P lx)))"
proof -
  have len: "lx_pos lx < length (lx_text lx)" using wf by (simp add: lx_wf_def atEnd_def)
  show lt: "lx_pos lx < lx_pos (scan_while P lx)" using scan_while_progress [of lx P] wf(2) P by simp
  show "slice lx (lx_pos lx) (lx_pos (scan_while P lx)) \<noteq> []"
    "hd (slice lx (lx_pos lx) (lx_pos (scan_while P lx))) = peek lx 0"
    using slice_nonempty [OF lt len] slice_hd [OF lt len] wf(2) by (simp_all add: peek_at)
  show "pos_ok (scan_while P lx)"
    using scan_while_bound [of lx P] wf(2) lex_stepD(5) [OF scan_while_step, of P lx]
    by (simp add: pos_ok_def atEnd_def)
qed (simp_all add: scan_while_slice [OF wf(1)])

lemma word_spelled:
  assumes "w \<noteq> []" "list_all (word_char h) w" "\<not> isDigit (hd w)"
  shows "keywordKind w \<noteq> TkEnd \<and> keywordKind w \<noteq> TkError \<and> spelled h (keywordKind w) w"
  using keywordKind_range [of w]
proof
  assume "\<exists>k. keywordKind w = TkKw k"
  then obtain k where k: "keywordKind w = TkKw k" ..
  then have "w = kw_spelling k" by (simp add: keywordKind_spelling)
  with k show ?thesis by simp
qed (use assms in simp)

lemma peek_adv: "peek (adv n lx) m = peek lx (n + m)"
  by (simp add: peek_def add.assoc)

lemma adv_adv: "adv m (adv n lx) = adv (n + m) lx"
  by (simp add: adv_def add.assoc)

lemma lexIdentifier_step:
  assumes wf: "lx_wf lx" "\<not> atEnd lx" and c: "isIdentStart (peek lx 0)"
  shows "makes_token lx (lexIdentifier (lx_pos lx) lx)"
proof -
  let ?P = "\<lambda>c. isIdentCont c \<or> (lx_allowHoles lx \<and> c = CHR ''$'')"
  let ?lx = "scan_while ?P lx" and ?w = "slice lx (lx_pos lx) (lx_pos (scan_while ?P lx))"
  have "?P (peek lx 0)" using isIdentStart_props [OF c] by simp
  note t = scan_token [where P = ?P, OF wf this]
  have "list_all (word_char (lx_allowHoles lx)) ?w" using t(6) by (simp add: list_all_iff word_char_def)
  with word_spelled [OF t(4) this] t isIdentStart_props [OF c] have "tok_step lx (keywordKind ?w) ?lx" by (simp add: tok_step_def)
  then show ?thesis by (simp add: lexIdentifier_def Let_def makes_tokenI)
qed

lemma kw_spelling_hd: "hd (kw_spelling k) \<noteq> CHR ''$''"
  by (cases k) simp_all

lemma lexHole_step:
  assumes wf: "lx_wf lx" "\<not> atEnd lx" and c: "peek lx 0 = CHR ''$''" "lx_allowHoles lx" "isIdentStart (peek lx 1)"
  shows "makes_token lx (emit TkIdentifier (lx_pos lx) (scan_while (\<lambda>c. isIdentCont c \<or> c = CHR ''$'') (adv 1 lx)))"
proof (rule makes_tokenI)
  let ?P = "\<lambda>c. isIdentCont c \<or> c = CHR ''$''"
  have eq: "scan_while ?P lx = scan_while ?P (adv 1 lx)"
    using wf(2) c(1) by (subst scan_while.simps) simp
  note t = scan_token [where P = ?P, OF wf, unfolded eq]
  have "keywordKind (slice lx (lx_pos lx) (lx_pos (scan_while ?P (adv 1 lx)))) = TkIdentifier"
    using keywordKind_range keywordKind_spelling kw_spelling_hd t(5) c(1) by metis
  with t c(1,2) show "tok_step lx TkIdentifier (scan_while ?P (adv 1 lx))"
    by (auto simp: tok_step_def word_char_def isDigit_def list_all_iff)
qed

lemma punct_case_spelling:
  "punct_case c = Some (cs, d) \<Longrightarrow>
   punct_spelling d = [c] \<and> list_all (\<lambda>(c', k). punct_spelling k = [c, c'] \<and> c' \<noteq> NUL) cs"
  unfolding punct_case_def by (auto split: if_splits)

lemma match_cases_result:
  "match_cases cs d lx = (k, lx') \<Longrightarrow> (lx' = lx \<and> k = d) \<or> (\<exists>c. (c, k) \<in> set cs \<and> peek lx 0 = c \<and> lx' = adv 1 lx)"
  by (induction cs d lx rule: match_cases.induct) (auto simp: match_char_def Let_def split: if_splits)

lemma punct_step:
  assumes wf: "lx_wf lx" "\<not> atEnd lx" and c: "punct_case (lx_text lx ! lx_pos lx) = Some (cs, d)"
    and m: "match_cases cs d (adv 1 lx) = (k, lx')"
  shows "makes_token lx (emit (TkPunct k) (lx_pos lx) lx')"
proof (rule makes_tokenI)
  let ?c = "lx_text lx ! lx_pos lx"
  have p: "lx_pos lx < lx_end lx" "lx_end lx \<le> length (lx_text lx)" using wf by (auto simp: atEnd_def lx_wf_def)
  note sp = punct_case_spelling [OF c]
  consider "lx' = adv 1 lx" "k = d" | c' where "(c', k) \<in> set cs" "peek lx 1 = c'" "lx' = adv 2 lx"
    using match_cases_result [OF m] by (auto simp: peek_adv adv_adv numeral_2_eq_2)
  then show "tok_step lx (TkPunct k) lx'"
  proof cases
    case 1
    with sp p show ?thesis by (simp add: tok_step_def pos_ok_def slice_Suc)
  next
    case 2
    then have "c' \<noteq> NUL" "punct_spelling k = [?c, c']" using sp by (auto simp: list_all_iff)
    with 2 peek_ne_NUL [of lx 1 c'] p show ?thesis by (simp add: tok_step_def pos_ok_def slice_Suc)
  qed
qed

lemma error_step:
  assumes "lx_wf lx" "\<not> atEnd lx"
  shows "makes_token lx (emit TkError (lx_pos lx) (lx_error off len msg (adv 1 lx)))"
  using assms lex_step_trans0 [OF lex_step_adv, of 1 1 lx "lx_error off len msg (adv 1 lx)"]
  by (intro makes_tokenI) (simp add: tok_step_def pos_ok_def atEnd_def lx_wf_def slice_nonempty)

lemma lexToken_step:
  assumes wf: "lx_wf lx" "\<not> atEnd lx"
  shows "makes_token lx (lexToken lx)"
proof (cases "punct_case (lx_text lx ! lx_pos lx)")
  case (Some a)
  obtain cs d where a: "a = (cs, d)" by (cases a)
  obtain k lx1 where m: "match_cases cs d (adv 1 lx) = (k, lx1)" by (cases "match_cases cs d (adv 1 lx)")
  have "lexToken lx = emit (TkPunct k) (lx_pos lx) lx1"
    by (simp add: lexToken_def Let_def Some a m [simplified])
  with punct_step [OF wf Some [unfolded a] m] show ?thesis by simp
next
  case None
  let ?c = "lx_text lx ! lx_pos lx"
  have c: "peek lx 0 = ?c" using wf(2) by (rule peek_at)
  have p: "lx_pos lx < lx_end lx" "lx_end lx \<le> length (lx_text lx)" using wf by (auto simp: atEnd_def lx_wf_def)
  have pk: "peek (adv 1 lx) n = peek lx (n + 1)" for n by (simp add: peek_def)
  have str: "makes_token lx (lexString (lx_pos lx) ?c (adv 1 lx))" if "?c = DQUOTE \<or> ?c = SQUOTE"
    unfolding lexString_def using that p
    by (intro finish_quoted_step [OF wf string_loop_ok [OF pos_ok_adv1 [OF wf(2)]] refl])
      (auto simp: slice_quoted)
  have quasi: "makes_token lx (lexQuasi (lx_pos lx) (adv 1 lx))" if "?c = BACKTICK"
    unfolding lexQuasi_def using that p
    by (intro finish_quoted_step [OF wf quasi_loop_ok [OF pos_ok_adv1 [OF wf(2)]] refl])
      (auto simp: slice_quoted)
  have triple: "makes_token lx (lexTripleString (lx_pos lx) ?c (adv 2 (adv 1 lx)))"
    if "?c = DQUOTE \<or> ?c = SQUOTE" "peek lx 2 = ?c"
  proof -
    have "?c \<noteq> NUL" using that(1) by auto
    then have ok: "pos_ok (adv (1 + 2) lx)" using peek_ne_NUL [OF that(2)] by (simp add: pos_ok_def)
    show ?thesis
      unfolding lexTripleString_def adv_adv using that(1) p
      by (intro finish_quoted_step [OF wf triple_loop_ok [OF ok \<open>?c \<noteq> NUL\<close>] refl]) (auto simp: slice_quoted)
  qed
  have raw: "makes_token lx (lexRawString (lx_pos lx) (peek lx 1) (adv 1 (adv 1 lx)))"
    if "?c = CHR ''r''" "peek lx 1 = DQUOTE \<or> peek lx 1 = SQUOTE"
  proof -
    have q: "peek lx 1 \<noteq> NUL" using that(2) by auto
    note q1 = peek_ne_NUL [OF refl q]
    then have ok: "pos_ok (adv (1 + 1) lx)" by (simp add: pos_ok_def)
    have "quoted_by (peek lx 1) (slice lx (Suc (lx_pos lx)) b)"
      if "lx_pos lx + 2 < b" "b \<le> lx_end lx" "lx_text lx ! (b - 1) = peek lx 1" for b
      using that q1 p by (intro slice_quoted) auto
    then show ?thesis
      unfolding lexRawString_def adv_adv using that p
      by (intro finish_quoted_step [OF wf raw_loop_ok [OF ok] refl]) (auto simp: slice_Suc)
  qed
  show ?thesis
    unfolding lexToken_def Let_def None pk option.case
    using str quasi triple raw error_step [OF wf] lexHole_step [OF wf] lexNumber_step [OF wf]
      lexIdentifier_step [OF wf] c
    by (auto simp: numeral_2_eq_2 split: if_splits)
qed

section \<open>Tokenizing\<close>

lemma makes_token_emit:
  assumes "lx_wf lx" "\<not> atEnd lx" "lexToken lx = Inr (t, lx')"
  shows "tok_step lx (tk_kind t) lx' \<and>
    t = \<lparr>tk_kind = tk_kind t, tk_span = \<lparr>sp_offset = lx_pos lx, sp_length = lx_pos lx' - lx_pos lx\<rparr>,
         tk_text = slice lx (lx_pos lx) (lx_pos lx')\<rparr>"
proof -
  obtain k lx1 where k: "lexToken lx = emit k (lx_pos lx) lx1" "tok_step lx k lx1"
    using lexToken_step [OF assms(1,2)] unfolding makes_token_def by blast
  have "lx_text lx1 = lx_text lx" using k(2) lex_stepD(1) by (auto simp: tok_step_def)
  with k assms(3) show ?thesis
    by (auto simp: emit_def make_def slice_def split: if_splits)
qed

lemma lexToken_Inr:
  assumes "lx_wf lx" "\<not> atEnd lx" shows "\<exists>t lx'. lexToken lx = Inr (t, lx')"
proof -
  obtain k lx1 where k: "lexToken lx = emit k (lx_pos lx) lx1" "tok_step lx k lx1"
    using lexToken_step [OF assms] unfolding makes_token_def by blast
  moreover have "lx_text lx1 = lx_text lx" using k(2) lex_stepD(1) by (auto simp: tok_step_def)
  moreover have "lx_pos lx < length (lx_text lx)" using assms by (simp add: lx_wf_def atEnd_def)
  ultimately show ?thesis by (simp add: emit_def make_def)
qed

text \<open>A limit beyond the end of the file would make the source read past the string.\<close>

function tokenize_loop :: "lexer \<Rightarrow> token list \<Rightarrow> lex_exn + (token list \<times> lexer)" where
  "tokenize_loop lx tokens =
     (let lx1 = skipTrivia lx
      in if \<not> lx_wf lx1 then Inl ReadPastFile
         else if atEnd lx1 then
           (case make TkEnd (lx_pos lx1) lx1 of Inl e \<Rightarrow> Inl e | Inr t \<Rightarrow> Inr (tokens @ [t], lx1))
         else case lexToken lx1 of
                Inl e \<Rightarrow> Inl e
              | Inr (t, lx2) \<Rightarrow> tokenize_loop lx2 (tokens @ [t]))"
  by pat_completeness auto
termination
proof (relation "measure (\<lambda>(lx, tokens). lx_end lx - lx_pos lx)", simp, goal_cases)
  case (1 lx tokens lx1 p t lx2)
  then have "tok_step lx1 (tk_kind t) lx2" using makes_token_emit [of lx1 t lx2] by auto
  then have "lx_pos lx1 < lx_pos lx2" "lx_end lx2 = lx_end lx1" "lx_pos lx1 < lx_end lx1"
    using 1 lex_stepD(5) by (auto simp: tok_step_def atEnd_def)
  moreover have "lx_pos lx \<le> lx_pos lx1" "lx_end lx1 = lx_end lx"
    using 1 same_skipTrivia [of lx] same_input_end [OF same_skipTrivia] by (auto simp: same_input_def)
  ultimately show ?case by simp
qed

declare tokenize_loop.simps [simp del]

definition tokenize :: "lexer \<Rightarrow> lex_exn + (token list \<times> lexer)" where
  "tokenize lx = tokenize_loop lx []"

definition tokenizeRange :: "nat \<Rightarrow> nat \<Rightarrow> lexer \<Rightarrow> lex_exn + (token list \<times> lexer)" where
  "tokenizeRange b e lx = tokenize (lx\<lparr>lx_pos := b, lx_limit := e\<rparr>)"

text \<open>A lexer as its constructor makes it.\<close>

definition new_lexer :: "string \<Rightarrow> bool \<Rightarrow> lexer" where
  "new_lexer s holes = \<lparr>lx_text = s, lx_allowHoles = holes, lx_pos = 0, lx_limit = 0, lx_sink = sink_empty\<rparr>"

section \<open>Trivia\<close>

definition has_close :: "string \<Rightarrow> bool" where
  "has_close s \<longleftrightarrow> (\<exists>i<length s. Suc i < length s \<and> s ! i = CHR ''*'' \<and> s ! Suc i = CHR ''/'')"

text \<open>White space and comments as a grammar: a line comment runs up to a newline or the end, a block
  comment to the first \<open>*/\<close>; the last case is the unterminated comment.\<close>

inductive trivia :: "string \<Rightarrow> bool" where
  trivia_Nil: "trivia []"
| trivia_blank: "is_blank c \<Longrightarrow> trivia s \<Longrightarrow> trivia (c # s)"
| trivia_line: "NL \<notin> set c \<Longrightarrow> trivia s \<Longrightarrow> s = [] \<or> hd s = NL \<Longrightarrow> trivia (''//'' @ c @ s)"
| trivia_block: "\<not> has_close (c @ ''*'') \<Longrightarrow> trivia s \<Longrightarrow> trivia (''/*'' @ c @ ''*/'' @ s)"
| trivia_open: "\<not> has_close c \<Longrightarrow> trivia (''/*'' @ c)"

lemma block_scan_sink [simp]: "lx_sink (block_scan lx) = lx_sink lx"
proof (induction lx rule: block_scan.induct)
  case (1 lx)
  then show ?case by (subst block_scan.simps) simp
qed

lemma block_scan_bound: "lx_pos lx \<le> lx_end lx \<Longrightarrow> lx_pos (block_scan lx) \<le> lx_end lx"
proof (induction lx rule: block_scan.induct)
  case (1 lx)
  then show ?case by (subst block_scan.simps) (simp add: atEnd_def)
qed

lemma block_scan_none:
  "lx_pos lx \<le> i \<Longrightarrow> i < lx_pos (block_scan lx) \<Longrightarrow> Suc i < lx_end lx \<Longrightarrow>
   lx_text lx ! i = CHR ''*'' \<Longrightarrow> lx_text lx ! Suc i = CHR ''/'' \<Longrightarrow> False"
proof (induction lx rule: block_scan.induct)
  case (1 lx)
  show ?case
  proof (cases "\<not> atEnd lx \<and> \<not> (peek lx 0 = CHR ''*'' \<and> peek lx 1 = CHR ''/'')")
    case True
    then have "block_scan lx = block_scan (adv 1 lx)" by (subst block_scan.simps) simp
    with 1 True show ?thesis by (cases "i = lx_pos lx") (auto simp: peek_def atEnd_def)
  next
    case False
    then have "block_scan lx = lx" by (subst block_scan.simps) auto
    with 1 show ?thesis by simp
  qed
qed

lemma block_scan_stop:
  "atEnd (block_scan lx) \<or> (peek (block_scan lx) 0 = CHR ''*'' \<and> peek (block_scan lx) 1 = CHR ''/'')"
proof (induction lx rule: block_scan.induct)
  case (1 lx)
  then show ?case by (subst (1 2 3) block_scan.simps) auto
qed

lemma has_close_slice:
  assumes "b \<le> length (lx_text lx)" "has_close (slice lx a b)"
  shows "\<exists>i. a \<le> i \<and> Suc i < b \<and> lx_text lx ! i = CHR ''*'' \<and> lx_text lx ! Suc i = CHR ''/''"
proof -
  obtain i where "Suc i < b - a" "lx_text lx ! (a + i) = CHR ''*''" "lx_text lx ! (a + Suc i) = CHR ''/''"
    using assms by (auto simp: has_close_def slice_def)
  then show ?thesis by (intro exI [of _ "a + i"]) auto
qed

lemma block_comment:
  assumes wf: "lx_wf lx" and p: "lx_pos lx + 2 \<le> lx_end lx"
    and c: "lx_text lx ! lx_pos lx = CHR ''/''" "lx_text lx ! Suc (lx_pos lx) = CHR ''*''"
    and lx1: "lx1 = block_scan (adv 2 lx)"
  shows "lex_step 0 lx lx1" "lx_pos lx + 2 \<le> lx_pos lx1" "lx_pos lx1 \<le> lx_end lx"
    "slice lx (lx_pos lx) (lx_pos lx1) = ''/*'' @ slice lx (lx_pos lx + 2) (lx_pos lx1)"
    "atEnd lx1 \<Longrightarrow> \<not> has_close (slice lx (lx_pos lx + 2) (lx_pos lx1))"
    "\<not> atEnd lx1 \<Longrightarrow> \<not> has_close (slice lx (lx_pos lx + 2) (Suc (lx_pos lx1))) \<and> lx_pos lx1 + 2 \<le> lx_end lx \<and>
       slice lx (lx_pos lx1) (lx_pos lx1 + 2) = ''*/''"
proof -
  let ?a = "lx_pos lx + 2"
  have same: "same_input (adv 2 lx) lx1" unfolding lx1 by simp
  show step: "lex_step 0 lx lx1"
    using same_input_trans [OF same_input_adv(1) same] by (simp add: lex_step_def lx1)
  show lo: "?a \<le> lx_pos lx1" using same by (simp add: same_input_def)
  show hi: "lx_pos lx1 \<le> lx_end lx" using block_scan_bound [of "adv 2 lx"] p by (simp add: lx1)
  have len: "lx_end lx \<le> length (lx_text lx)" using wf by (simp add: lx_wf_def)
  show "slice lx (lx_pos lx) (lx_pos lx1) = ''/*'' @ slice lx ?a (lx_pos lx1)"
    using lo c p len by (simp add: slice_Suc)
  have none: "\<not> (lx_text lx ! i = CHR ''*'' \<and> lx_text lx ! Suc i = CHR ''/'')"
    if "?a \<le> i" "i < lx_pos lx1" "Suc i < lx_end lx" for i
    using block_scan_none [of "adv 2 lx" i] that by (auto simp: lx1)
  show "\<not> has_close (slice lx ?a (lx_pos lx1))" if "atEnd lx1"
    using has_close_slice [of "lx_pos lx1" lx ?a] none hi len by fastforce
  have end': "lx_end lx1 = lx_end lx" "lx_text lx1 = lx_text lx" using lex_stepD [OF step] by simp_all
  show "\<not> has_close (slice lx ?a (Suc (lx_pos lx1))) \<and> lx_pos lx1 + 2 \<le> lx_end lx \<and>
      slice lx (lx_pos lx1) (lx_pos lx1 + 2) = ''*/''" if "\<not> atEnd lx1"
  proof -
    have "peek lx1 0 = CHR ''*''" "peek lx1 1 = CHR ''/''"
      using block_scan_stop [of "adv 2 lx"] that by (auto simp: lx1)
    then have e: "lx_pos lx1 + 1 < lx_end lx" "lx_text lx ! lx_pos lx1 = CHR ''*''"
      "lx_text lx ! Suc (lx_pos lx1) = CHR ''/''"
      using peek_ne_NUL [of lx1 0] peek_ne_NUL [of lx1 1] end' by auto
    have "\<not> has_close (slice lx ?a (Suc (lx_pos lx1)))"
      using has_close_slice [of "Suc (lx_pos lx1)" lx ?a] none e len by fastforce
    with e len show ?thesis by (simp add: slice_Suc)
  qed
qed

lemma line_comment:
  assumes wf: "lx_wf lx" and p: "lx_pos lx + 2 \<le> lx_end lx"
    and c: "lx_text lx ! lx_pos lx = CHR ''/''" "lx_text lx ! Suc (lx_pos lx) = CHR ''/''"
    and lx1: "lx1 = scan_while (\<lambda>c. c \<noteq> NL) (adv 2 lx)"
  shows "lex_step 0 lx lx1" "lx_pos lx + 2 \<le> lx_pos lx1" "lx_pos lx1 \<le> lx_end lx"
    "slice lx (lx_pos lx) (lx_pos lx1) = ''//'' @ slice lx (lx_pos lx + 2) (lx_pos lx1)"
    "NL \<notin> set (slice lx (lx_pos lx + 2) (lx_pos lx1))"
    "atEnd lx1 \<or> lx_text lx ! lx_pos lx1 = NL"
proof -
  show step: "lex_step 0 lx lx1"
    unfolding lx1 by (rule lex_step_trans0 [OF lex_step_adv scan_while_step])
  show lo: "lx_pos lx + 2 \<le> lx_pos lx1"
    using lex_stepD(4) [OF scan_while_step, of "adv 2 lx"] by (simp add: lx1)
  show "lx_pos lx1 \<le> lx_end lx" using scan_while_bound [of "adv 2 lx"] p by (simp add: lx1)
  show "slice lx (lx_pos lx) (lx_pos lx1) = ''//'' @ slice lx (lx_pos lx + 2) (lx_pos lx1)"
    using lo c p wf by (simp add: slice_Suc lx_wf_def)
  have "lx_wf (adv 2 lx)" using wf by (simp add: lx_wf_def)
  from scan_while_slice [OF this, of "\<lambda>c. c \<noteq> NL"]
  have "list_all (\<lambda>c. c \<noteq> NL) (slice lx (lx_pos lx + 2) (lx_pos lx1))"
    by (simp add: lx1 slice_cong [of "adv 2 lx" lx])
  then show "NL \<notin> set (slice lx (lx_pos lx + 2) (lx_pos lx1))" unfolding list_all_iff by blast
  have "lx_text lx ! lx_pos lx1 = NL" if "\<not> atEnd lx1"
    using scan_while_stop [of "\<lambda>c. c \<noteq> NL" "adv 2 lx"] that lex_stepD(1) [OF step] peek_at [OF that]
    unfolding lx1 [symmetric] by simp
  then show "atEnd lx1 \<or> lx_text lx ! lx_pos lx1 = NL" by blast
qed

lemma trivia_hd_NL: "trivia (slice lx a b) \<Longrightarrow> a < length (lx_text lx) \<Longrightarrow> lx_text lx ! a = NL \<Longrightarrow>
   slice lx a b = [] \<or> hd (slice lx a b) = NL"
  by (cases "a < b") (simp_all add: slice_hd, simp add: slice_def)

definition skip_ok :: "lexer \<Rightarrow> lexer \<Rightarrow> bool" where
  "skip_ok lx lx' \<longleftrightarrow> lex_step 0 lx lx' \<and> lx_pos lx' \<le> lx_end lx \<and> trivia (slice lx (lx_pos lx) (lx_pos lx'))"

lemma skip_ok_prepend:
  assumes "skip_ok lx1 lx'" "lex_step 0 lx lx1"
    and "\<And>s. trivia s \<Longrightarrow> s = slice lx (lx_pos lx1) (lx_pos lx') \<Longrightarrow> trivia (slice lx (lx_pos lx) (lx_pos lx1) @ s)"
  shows "skip_ok lx lx'"
proof -
  have "lx_pos lx1 \<le> lx_pos lx'" "lx_end lx1 = lx_end lx"
    using lex_stepD(4) [of 0 lx1 lx'] lex_stepD(5) [OF assms(2)] assms(1) by (auto simp: skip_ok_def)
  moreover have "trivia (slice lx (lx_pos lx1) (lx_pos lx'))"
    using assms(1) slice_step [OF assms(2)] by (simp add: skip_ok_def)
  ultimately show ?thesis
    using assms lex_step_trans0 [OF assms(2)] lex_stepD(4) [OF assms(2)]
      slice_split [of "lx_pos lx" "lx_pos lx1" "lx_pos lx'" lx]
    by (simp add: skip_ok_def)
qed

lemma skipTrivia_ok: "lx_wf lx \<Longrightarrow> lx_pos lx \<le> lx_end lx \<Longrightarrow> skip_ok lx (skipTrivia lx)"
proof (induction lx rule: skipTrivia.induct)
  case (1 lx)
  let ?c = "lx_text lx ! lx_pos lx" and ?d = "lx_text lx ! Suc (lx_pos lx)"
  note eq = skipTrivia.simps [of lx, unfolded Let_def]
  note wf = "1.prems"
  consider (blank) "is_blank (peek lx 0)"
    | (line) "\<not> is_blank (peek lx 0)" "peek lx 0 = CHR ''/''" "peek lx 1 = CHR ''/''"
    | (block) "\<not> is_blank (peek lx 0)" "peek lx 0 = CHR ''/''" "peek lx 1 = CHR ''*''"
    | (none) "\<not> is_blank (peek lx 0)" "\<not> (peek lx 0 = CHR ''/'' \<and> peek lx 1 = CHR ''/'')"
        "\<not> (peek lx 0 = CHR ''/'' \<and> peek lx 1 = CHR ''*'')"
    by blast
  then show ?case
  proof cases
    case blank
    then have p: "lx_pos lx < lx_end lx" "is_blank ?c"
      using peek_ne_NUL [of lx 0] by (auto simp: is_blank_def)
    then have "skip_ok (adv 1 lx) (skipTrivia (adv 1 lx))" using "1.IH"(1) blank wf by (simp add: lx_wf_def)
    from skip_ok_prepend [OF this lex_step_adv] p wf(1) show ?thesis
      unfolding eq using blank by (simp add: slice_Suc lx_wf_def trivia_blank)
  next
    case line
    then have p: "lx_pos lx + 2 \<le> lx_end lx" "?c = CHR ''/''" "?d = CHR ''/''"
      using peek_ne_NUL [of lx 0] peek_ne_NUL [of lx 1] by auto
    let ?lx1 = "scan_while (\<lambda>c. c \<noteq> NL) (adv 2 lx)"
    note lc = line_comment [OF wf(1) p refl]
    have "skip_ok ?lx1 (skipTrivia ?lx1)"
      using "1.IH"(2) line lx_wf_step [OF wf(1) lc(1)] lc(3) lex_stepD(5) [OF lc(1)] by simp
    moreover have "trivia (slice lx (lx_pos lx) (lx_pos ?lx1) @ s)"
      if "trivia s" "s = slice lx (lx_pos ?lx1) (lx_pos (skipTrivia ?lx1))" for s
    proof -
      have "s = [] \<or> hd s = NL"
      proof (cases "atEnd ?lx1")
        case True
        then have "lx_pos (skipTrivia ?lx1) \<le> lx_pos ?lx1"
          using \<open>skip_ok ?lx1 (skipTrivia ?lx1)\<close> by (simp add: skip_ok_def atEnd_def)
        with that show ?thesis by (simp add: slice_def)
      next
        case False
        then have "lx_pos ?lx1 < length (lx_text lx)" "lx_text lx ! lx_pos ?lx1 = NL"
          using lc wf(1) lex_stepD(5) [OF lc(1)] by (auto simp: atEnd_def lx_wf_def)
        with that trivia_hd_NL show ?thesis by blast
      qed
      with that(1) lc(4,5) trivia_line show ?thesis by simp
    qed
    ultimately show ?thesis
      unfolding eq using skip_ok_prepend [OF _ lc(1)] line by simp
  next
    case block
    then have p: "lx_pos lx + 2 \<le> lx_end lx" "?c = CHR ''/''" "?d = CHR ''*''"
      using peek_ne_NUL [of lx 0] peek_ne_NUL [of lx 1] by auto
    let ?lx1 = "block_scan (adv 2 lx)"
    note bc = block_comment [OF wf(1) p refl]
    show ?thesis
    proof (cases "atEnd ?lx1")
      case True
      with bc trivia_open show ?thesis unfolding eq using block by (simp add: skip_ok_def)
    next
      case False
      let ?lx2 = "adv 2 ?lx1"
      have step: "lex_step 0 lx ?lx2" using lex_step_trans0 [OF bc(1) lex_step_adv] .
      have "skip_ok ?lx2 (skipTrivia ?lx2)"
        using "1.IH"(3) block False lx_wf_step [OF wf(1) step] bc(6) lex_stepD(5) [OF step] by simp
      moreover have "slice lx (lx_pos lx) (lx_pos ?lx2) = ''/*'' @ slice lx (lx_pos lx + 2) (lx_pos ?lx1) @ ''*/''"
        using bc(2,4) bc(6) [OF False] slice_split [of "lx_pos lx" "lx_pos ?lx1" "lx_pos ?lx1 + 2" lx] by simp
      moreover have "\<not> has_close (slice lx (lx_pos lx + 2) (lx_pos ?lx1) @ ''*'')"
        using bc(2) bc(6) [OF False] slice_split [of "lx_pos lx + 2" "lx_pos ?lx1" "Suc (lx_pos ?lx1)" lx] wf(1)
          slice_Suc [of "lx_pos ?lx1" "Suc (lx_pos ?lx1)" lx] slice_Suc [of "lx_pos ?lx1" "lx_pos ?lx1 + 2" lx]
        by (simp add: lx_wf_def)
      ultimately show ?thesis
        unfolding eq using skip_ok_prepend [OF _ step] trivia_block block False by simp
    qed
  next
    case none
    then have "skipTrivia lx = lx" unfolding eq by auto
    then show ?thesis using wf by (simp add: skip_ok_def trivia_Nil)
  qed
qed

section \<open>The token stream\<close>

text \<open>The tokens from a position of the file on: trivia, a token that spells its kind, and so on up to the
  end token, which stands at the end of the file.\<close>

fun tiled :: "bool \<Rightarrow> string \<Rightarrow> nat \<Rightarrow> token list \<Rightarrow> bool" where
  "tiled h s p [] \<longleftrightarrow> False"
| "tiled h s p (t # ts) \<longleftrightarrow>
     (let off = sp_offset (tk_span t); len = sp_length (tk_span t)
      in p \<le> off \<and> trivia (take (off - p) (drop p s)) \<and> tk_text t = take len (drop off s) \<and>
         spelled h (tk_kind t) (tk_text t) \<and>
         (if ts = [] then tk_kind t = TkEnd \<and> off = length s \<and> len = 0
          else tk_kind t \<noteq> TkEnd \<and> 0 < len \<and> off + len \<le> length s \<and> tiled h s (off + len) ts))"

definition error_tokens :: "token list \<Rightarrow> nat" where
  "error_tokens ts = length (filter (\<lambda>t. tk_kind t = TkError) ts)"

lemma skip_beyond: "lx_pos lx = lx_end lx + 1 \<Longrightarrow> skipTrivia lx = lx"
  using peek_NUL [of lx] by (subst skipTrivia.simps) (simp add: atEnd_def is_blank_def)

text \<open>In whole-file mode a step beyond the end is fatal: the end token cannot be made.\<close>

lemma tokenize_beyond:
  assumes "lx_limit lx = 0" "lx_pos lx = lx_end lx + 1" shows "tokenize_loop lx acc = Inl OutOfRange"
proof -
  have "lx_end lx = length (lx_text lx)" using assms(1) by (simp add: lx_end_def)
  with assms(2) show ?thesis
    by (subst tokenize_loop.simps) (simp add: skip_beyond lx_wf_def atEnd_def make_def)
qed

lemma tokenize_loop_tiles:
  assumes "tokenize_loop lx acc = Inr (toks, lx')" "lx_limit lx = 0" "pos_ok lx"
  shows "\<exists>ts. toks = acc @ ts \<and> tiled (lx_allowHoles lx) (lx_text lx) (lx_pos lx) ts \<and>
    errors_ext (lx_sink lx) (lx_sink lx') (error_tokens ts)"
  using assms
proof (induction lx acc arbitrary: toks rule: tokenize_loop.induct)
  case (1 lx acc)
  let ?lx1 = "skipTrivia lx" and ?s = "lx_text lx" and ?h = "lx_allowHoles lx"
  have len: "lx_end lx = length ?s" using "1.prems" by (simp add: lx_end_def)
  have "lx_pos lx \<le> lx_end lx"
    using "1.prems" tokenize_beyond [of lx acc] by (auto simp: pos_ok_def)
  moreover have wf: "lx_wf lx" using len by (simp add: lx_wf_def)
  ultimately have skip: "skip_ok lx ?lx1" by (simp add: skipTrivia_ok)
  then have s1: "lex_step 0 lx ?lx1" and hi: "lx_pos ?lx1 \<le> length ?s"
    and gap: "trivia (take (lx_pos ?lx1 - lx_pos lx) (drop (lx_pos lx) ?s))"
    by (auto simp: skip_ok_def slice_def len)
  note d = lex_stepD [OF s1]
  have wf1: "lx_wf ?lx1" using lx_wf_step [OF wf s1] .
  note eq = tokenize_loop.simps [of lx acc, unfolded Let_def]
  show ?case
  proof (cases "atEnd ?lx1")
    case True
    then have "lx_pos ?lx1 = length ?s" using hi d(5) len by (simp add: atEnd_def)
    then show ?thesis
      using "1.prems"(1) True wf1 d gap s1 unfolding eq
      by (auto simp: make_def lex_step_def error_tokens_def)
  next
    case False
    obtain t lx2 where t: "lexToken ?lx1 = Inr (t, lx2)" using lexToken_Inr [OF wf1 False] by blast
    note m = makes_token_emit [OF wf1 False t]
    then have s2: "lex_step (if tk_kind t = TkError then 1 else 0) ?lx1 lx2" and ok: "pos_ok lx2"
      by (auto simp: tok_step_def)
    note d2 = lex_stepD [OF s2]
    have run: "tokenize_loop lx2 (acc @ [t]) = Inr (toks, lx')"
      using "1.prems"(1) wf1 False t unfolding eq by simp
    have lim: "lx_limit lx2 = 0" using "1.prems"(2) d(3) d2(3) by simp
    obtain ts where ts: "toks = (acc @ [t]) @ ts" "tiled ?h ?s (lx_pos lx2) ts"
      "errors_ext (lx_sink lx2) (lx_sink lx') (error_tokens ts)"
      using "1.IH" [OF refl _ False t refl run lim ok] wf1 d d2 by auto
    have "lx_pos lx2 \<noteq> lx_end lx2 + 1" using tokenize_beyond [OF lim] run by fastforce
    then have "lx_pos lx2 \<le> length ?s" using ok d2(1) lim d(1) by (simp add: pos_ok_def lx_end_def)
    moreover have "ts \<noteq> []" using ts(2) by auto
    moreover have "errors_ext (lx_sink lx) (lx_sink lx') (error_tokens (t # ts))"
      using errors_ext_trans [of "lx_sink lx" "lx_sink ?lx1" 0] errors_ext_trans [of "lx_sink ?lx1" "lx_sink lx2"]
        s1 s2 ts(3) by (fastforce simp: lex_step_def error_tokens_def)
    moreover obtain k where k: "t = \<lparr>tk_kind = k, tk_span = \<lparr>sp_offset = lx_pos ?lx1,
        sp_length = lx_pos lx2 - lx_pos ?lx1\<rparr>, tk_text = slice ?lx1 (lx_pos ?lx1) (lx_pos lx2)\<rparr>"
      using m by blast
    moreover have "lx_pos ?lx1 < lx_pos lx2" "k \<noteq> TkEnd" "spelled ?h k (slice ?lx1 (lx_pos ?lx1) (lx_pos lx2))"
      using m d(2) k by (auto simp: tok_step_def)
    ultimately show ?thesis
      using ts(1,2) gap d(1,4) by (intro exI [of _ "t # ts"]) (simp add: slice_def)
  qed
qed

lemma tokenize_loop_total:
  assumes "lx_limit lx = 0" "pos_ok lx" "lx_text lx = [] \<or> last (lx_text lx) \<noteq> BSLASH"
  shows "\<exists>toks lx'. tokenize_loop lx acc = Inr (toks, lx')"
  using assms
proof (induction lx acc rule: tokenize_loop.induct)
  case (1 lx acc)
  let ?lx1 = "skipTrivia lx" and ?s = "lx_text lx"
  have len: "lx_end l = length (lx_text l)" if "lx_limit l = 0" for l using that by (simp add: lx_end_def)
  have in_file: "lx_pos l \<le> length ?s" if "pos_ok l" "lx_limit l = 0" "lx_text l = ?s" for l
    using that len [of l] "1.prems"(3) by (auto simp: pos_ok_def last_conv_nth)
  have wf: "lx_wf lx" "lx_pos lx \<le> lx_end lx"
    using "1.prems" len in_file [of lx] by (auto simp: lx_wf_def)
  then have skip: "skip_ok lx ?lx1" by (simp add: skipTrivia_ok)
  then have s1: "lex_step 0 lx ?lx1" and hi: "lx_pos ?lx1 \<le> lx_end lx" by (auto simp: skip_ok_def)
  note d = lex_stepD [OF s1] and wf1 = lx_wf_step [OF wf(1) s1]
  note eq = tokenize_loop.simps [of lx acc, unfolded Let_def]
  show ?case
  proof (cases "atEnd ?lx1")
    case True
    then show ?thesis using wf1 hi d len "1.prems"(1) unfolding eq by (simp add: make_def)
  next
    case False
    obtain t lx2 where t: "lexToken ?lx1 = Inr (t, lx2)" using lexToken_Inr [OF wf1 False] by blast
    then have ok: "pos_ok lx2" and s2: "lex_step 0 ?lx1 lx2"
      using makes_token_emit [OF wf1 False t] lex_step_weaken by (auto simp: tok_step_def)
    note d2 = lex_stepD [OF s2]
    show ?thesis
      using "1.IH" [OF refl _ False t refl] wf1 ok d d2 "1.prems" t False unfolding eq by simp
  qed
qed

lemma new_lexer_ok [simp]: "pos_ok (new_lexer s h)" "lx_limit (new_lexer s h) = 0" "lx_text (new_lexer s h) = s"
  "lx_allowHoles (new_lexer s h) = h" "lx_pos (new_lexer s h) = 0" "lx_sink (new_lexer s h) = sink_empty"
  by (simp_all add: pos_ok_def new_lexer_def)

text \<open>
  C10. The token stream tiles the file. Whenever lexing a file returns, the tokens stand in order without
  overlap, the text of each is its slice of the file and spells its kind (operators and keywords
  exactly, names and literals by their shape), what lies between two tokens is white space and
  comments only, every token but the last is non-empty and not the end token, and the last is the end
  token at the end of the file. Every error token comes with an error in the sink.
\<close>

theorem tokenize_tiles:
  assumes "tokenize (new_lexer s h) = Inr (toks, lx)"
  shows "tiled h s 0 toks \<and> error_tokens toks \<le> ds_errorCount (lx_sink lx) \<and> sink_ok (lx_sink lx)"
proof -
  obtain ts where "toks = [] @ ts" "tiled h s 0 ts" "errors_ext sink_empty (lx_sink lx) (error_tokens ts)"
    using tokenize_loop_tiles [of "new_lexer s h" "[]" toks lx] assms by (auto simp: tokenize_def)
  then show ?thesis by (auto simp: errors_ext_def sink_ok_def sink_empty_def list_all_iff filter_id_conv)
qed

text \<open>
  C22. Lexing a file that does not end in a backslash always returns: the loop terminates and no
  exception is raised.
\<close>

theorem tokenize_total:
  assumes "s = [] \<or> last s \<noteq> BSLASH"
  shows "\<exists>toks lx. tokenize (new_lexer s h) = Inr (toks, lx)"
  using tokenize_loop_total [of "new_lexer s h" "[]"] assms by (simp add: tokenize_def)


theorem tokenize_tiles_witness:
  "\<exists>toks lx. tokenize (new_lexer (''x+=0x1F;/*c*/ $'') False) = Inr (toks, lx) \<and>
     map tk_kind toks = [TkIdentifier, TkPunct PPlusEq, TkIntLiteral, TkPunct PSemicolon, TkError, TkEnd] \<and>
     tiled False (''x+=0x1F;/*c*/ $'') 0 toks \<and> 0 < ds_errorCount (lx_sink lx)"
proof -
  have "case tokenize (new_lexer (''x+=0x1F;/*c*/ $'') False) of Inl e \<Rightarrow> False
      | Inr (toks, lx) \<Rightarrow> map tk_kind toks =
          [TkIdentifier, TkPunct PPlusEq, TkIntLiteral, TkPunct PSemicolon, TkError, TkEnd]"
    by code_simp
  then obtain toks lx where run: "tokenize (new_lexer (''x+=0x1F;/*c*/ $'') False) = Inr (toks, lx)"
    and k: "map tk_kind toks = [TkIdentifier, TkPunct PPlusEq, TkIntLiteral, TkPunct PSemicolon, TkError, TkEnd]"
    by (auto split: sum.splits)
  have "error_tokens toks = length (filter (\<lambda>k. k = TkError) (map tk_kind toks))"
    by (simp add: error_tokens_def filter_map o_def)
  with k have "error_tokens toks = 1" by simp
  with tokenize_tiles [OF run] run k show ?thesis by auto
qed

theorem tokenize_total_witness: "\<exists>toks lx. tokenize (new_lexer (''r'' @ [DQUOTE] @ ''a'') False) = Inr (toks, lx)"
  using tokenize_total [of "''r'' @ [DQUOTE] @ ''a''" False] by simp

section \<open>Lexing written tokens\<close>

text \<open>The lexer in whole-file mode in front of the text \<open>r\<close>.\<close>

definition facing :: "lexer \<Rightarrow> string \<Rightarrow> bool" where
  "facing lx r \<longleftrightarrow> lx_limit lx = 0 \<and> drop (lx_pos lx) (lx_text lx) = r \<and> lx_pos lx \<le> length (lx_text lx)"

lemma facing_end: "facing lx r \<Longrightarrow> lx_end lx = lx_pos lx + length r"
  by (auto simp: facing_def lx_end_def)

lemma facing_peek: "facing lx r \<Longrightarrow> peek lx i = (if i < length r then r ! i else NUL)"
  using facing_end [of lx r] by (auto simp: facing_def peek_def)

lemma facing_nth: "facing lx (c # r) \<Longrightarrow> lx_text lx ! lx_pos lx = c"
  by (metis facing_def nth_via_drop)

lemma facing_adv:
  assumes "facing lx (w @ r)" "n = length w" shows "facing (adv n lx) r"
proof -
  have d: "drop (lx_pos lx) (lx_text lx) = w @ r" using assms(1) by (simp add: facing_def)
  have "drop (lx_pos lx + n) (lx_text lx) = drop n (drop (lx_pos lx) (lx_text lx))" by (simp add: add.commute)
  also have "\<dots> = r" unfolding d assms(2) by simp
  finally have "drop (lx_pos lx + n) (lx_text lx) = r" .
  moreover have "length (lx_text lx) - lx_pos lx = n + length r"
    using arg_cong [OF d, of length] assms(2) by simp
  ultimately show ?thesis using assms(1) unfolding facing_def by auto
qed

lemma facing_atEnd: "facing lx r \<Longrightarrow> atEnd lx \<longleftrightarrow> r = []"
  by (simp add: atEnd_def facing_end)

lemma facing_slice: "facing lx (w @ r) \<Longrightarrow> slice lx (lx_pos lx) (lx_pos lx + length w) = w"
  by (auto simp: facing_def slice_def)

lemma facing_wf: "facing lx r \<Longrightarrow> lx_wf lx"
  by (auto simp: facing_def lx_wf_def lx_end_def)

lemma facing_scan:
  "facing lx (w @ r) \<Longrightarrow> list_all P w \<Longrightarrow> r = [] \<or> \<not> P (hd r) \<Longrightarrow> scan_while P lx = adv (length w) lx"
proof (induction w arbitrary: lx)
  case Nil
  then show ?case
    using facing_atEnd [of lx r] facing_peek [of lx r 0]
    by (subst scan_while.simps) (cases r; simp add: adv_def)
next
  case (Cons c w)
  have "facing (adv 1 lx) (w @ r)" using facing_adv [of lx "[c]" "w @ r" 1] Cons.prems by simp
  from Cons.IH [OF this] Cons.prems have "scan_while P (adv 1 lx) = adv (length w) (adv 1 lx)" by simp
  then show ?case
    using Cons.prems facing_atEnd [of lx] facing_peek [of lx _ 0]
    by (subst scan_while.simps) (simp add: adv_adv)
qed

lemma facing_emit:
  "facing lx (w @ r) \<Longrightarrow>
   emit k (lx_pos lx) (adv (length w) lx) =
     Inr (\<lparr>tk_kind = k, tk_span = \<lparr>sp_offset = lx_pos lx, sp_length = length w\<rparr>, tk_text = w\<rparr>, adv (length w) lx)"
  by (auto simp: emit_def make_def facing_def)

lemma facing_skip:
  "facing lx (c # r) \<Longrightarrow> \<not> is_blank c \<Longrightarrow> \<not> (c = CHR ''/'' \<and> r \<noteq> [] \<and> (hd r = CHR ''/'' \<or> hd r = CHR ''*'')) \<Longrightarrow>
   skipTrivia lx = lx"
  using facing_peek [of lx "c # r" 0] facing_peek [of lx "c # r" 1]
  by (subst skipTrivia.simps) (cases r; auto simp: Let_def)

lemma facing_blank: "facing lx (CHR '' '' # r) \<Longrightarrow> skipTrivia lx = skipTrivia (adv 1 lx)"
  using facing_peek [of lx "CHR '' '' # r" 0] by (subst skipTrivia.simps) (simp add: is_blank_def)

lemma lexToken_punct:
  assumes "facing lx (punct_spelling p @ CHR '' '' # r)"
  shows "lexToken lx = emit (TkPunct p) (lx_pos lx) (adv (length (punct_spelling p)) lx)"
proof -
  have "punct_spelling p \<noteq> []" by (cases p) auto
  then obtain c w where w: "punct_spelling p = c # w" by (cases "punct_spelling p") auto
  have f: "facing lx (c # w @ CHR '' '' # r)" using assms w by simp
  have "lx_text lx ! lx_pos lx = hd (punct_spelling p)" "peek lx 1 = hd (tl (punct_spelling p) @ '' '')"
    using facing_nth [OF f] facing_peek [OF f, of 1] w by (cases w; simp)+
  then show ?thesis
    by (cases p) (simp_all add: lexToken_def punct_case_def match_char_def peek_adv Let_def adv_adv)
qed

lemma word_char_start:
  "word_char False c \<Longrightarrow> \<not> isDigit c \<Longrightarrow>
   isIdentStart c \<and> punct_case c = None \<and> c \<noteq> DQUOTE \<and> c \<noteq> SQUOTE \<and> c \<noteq> BACKTICK \<and> c \<noteq> CHR ''$'' \<and>
   \<not> is_blank c \<and> c \<noteq> CHR ''/''"
proof -
  assume "word_char False c" "\<not> isDigit c"
  then have s: "isIdentStart c" by (auto simp: word_char_def isIdentCont_def isDigit_def)
  moreover have "punct_case c = None"
  proof (cases "punct_case c")
    case (Some a)
    with s show ?thesis by (cases a) (auto simp: punct_case_def isIdentStart_def split: if_splits)
  qed
  ultimately show ?thesis by (auto simp: isIdentStart_def is_blank_def)
qed

lemma lexToken_word:
  assumes f: "facing lx (w @ CHR '' '' # r)" and w: "w \<noteq> []" "list_all (word_char False) w" "\<not> isDigit (hd w)"
    and h: "\<not> lx_allowHoles lx"
  shows "lexToken lx = emit (keywordKind w) (lx_pos lx) (adv (length w) lx)"
proof -
  obtain c v where c: "w = c # v" using w(1) by (cases w) auto
  have fc: "facing lx (c # v @ CHR '' '' # r)" using f c by simp
  have "peek lx 1 \<noteq> DQUOTE \<and> peek lx 1 \<noteq> SQUOTE"
    using facing_peek [OF fc, of 1] w(2) unfolding c
    by (cases v) (auto simp: word_char_def isIdentCont_def isIdentStart_def)
  moreover have "scan_while (\<lambda>c. isIdentCont c \<or> (lx_allowHoles lx \<and> c = CHR ''$'')) lx = adv (length w) lx"
    using w(2) h by (intro facing_scan [OF f]) (auto simp: list_all_iff word_char_def isIdentCont_def isIdentStart_def)
  moreover have "slice lx (lx_pos lx) (lx_pos lx + length w) = w" using facing_slice [OF f] .
  ultimately show ?thesis
    using word_char_start [of c] w(2,3) facing_nth [OF fc] unfolding c
    by (simp add: lexToken_def Let_def peek_adv lexIdentifier_def)
qed

text \<open>A written token: an operator, a keyword or a name.\<close>

definition written :: "token_kind \<times> string \<Rightarrow> bool" where
  "written kw \<longleftrightarrow>
     (case kw of (k, w) \<Rightarrow>
        (\<exists>p. k = TkPunct p \<and> w = punct_spelling p) \<or> (\<exists>q. k = TkKw q \<and> w = kw_spelling q) \<or>
        (k = TkIdentifier \<and> spelled False TkIdentifier w))"

lemma kw_spelling_word: "list_all (word_char False) (kw_spelling q) \<and> kw_spelling q \<noteq> [] \<and> \<not> isDigit (hd (kw_spelling q))"
  by (cases q) (simp_all add: word_char_def isIdentCont_def isIdentStart_def isDigit_def)

lemma written_word:
  "written (k, w) \<Longrightarrow> (\<exists>p. k = TkPunct p \<and> w = punct_spelling p) \<or>
     (k = keywordKind w \<and> w \<noteq> [] \<and> list_all (word_char False) w \<and> \<not> isDigit (hd w))"
proof -
  have "keywordKind (kw_spelling q) = TkKw q" for q by (simp add: keywordKind_spelling)
  then show "written (k, w) \<Longrightarrow> ?thesis" using kw_spelling_word by (auto simp: written_def)
qed

lemma lexToken_written:
  "written (k, w) \<Longrightarrow> facing lx (w @ CHR '' '' # r) \<Longrightarrow> \<not> lx_allowHoles lx \<Longrightarrow>
   lexToken lx = emit k (lx_pos lx) (adv (length w) lx)"
  using written_word [of k w] lexToken_punct lexToken_word by blast

lemma skip_written:
  assumes "written (k, w)" "facing lx (w @ CHR '' '' # r)" shows "skipTrivia lx = lx \<and> w \<noteq> []"
  using written_word [OF assms(1)]
proof
  assume "\<exists>p. k = TkPunct p \<and> w = punct_spelling p"
  then obtain p where p: "w = punct_spelling p" by blast
  show ?thesis using assms(2) unfolding p
    by (cases p) (auto intro!: facing_skip simp: is_blank_def)
next
  assume "k = keywordKind w \<and> w \<noteq> [] \<and> list_all (word_char False) w \<and> \<not> isDigit (hd w)"
  then show ?thesis using assms(2) word_char_start [of "hd w"] by (cases w) (auto intro!: facing_skip)
qed

definition spaced :: "(token_kind \<times> string) list \<Rightarrow> string" where
  "spaced ws = concat (map (\<lambda>(k, w). w @ '' '') ws)"

lemma tokenize_spaced:
  assumes "list_all written ws" "facing lx (spaced ws)" "\<not> lx_allowHoles lx"
  shows "\<exists>toks lx'. tokenize_loop lx acc = Inr (acc @ toks, lx') \<and>
    map (\<lambda>t. (tk_kind t, tk_text t)) toks = ws @ [(TkEnd, [])] \<and> lx_sink lx' = lx_sink lx"
  using assms
proof (induction ws arbitrary: lx acc)
  case Nil
  then have f: "facing lx []" by (simp add: spaced_def)
  have "skipTrivia lx = lx"
    using facing_peek [OF f] by (subst skipTrivia.simps) (simp add: is_blank_def)
  then show ?case
    using facing_wf [OF f] facing_atEnd [OF f] f
    by (subst tokenize_loop.simps) (simp add: make_def facing_def)
next
  case (Cons kw ws)
  obtain k w where kw: "kw = (k, w)" by (cases kw)
  have f: "facing lx (w @ CHR '' '' # spaced ws)" and wr: "written (k, w)"
    using Cons.prems by (simp_all add: spaced_def kw)
  let ?lx1 = "adv (length w) lx"
  have f1: "facing ?lx1 (CHR '' '' # spaced ws)" by (rule facing_adv [OF f refl])
  have f2: "facing (adv 1 ?lx1) (spaced ws)" using facing_adv [of ?lx1 "'' ''" "spaced ws" 1] f1 by simp
  let ?t = "\<lparr>tk_kind = k, tk_span = \<lparr>sp_offset = lx_pos lx, sp_length = length w\<rparr>, tk_text = w\<rparr>"
  have one: "tokenize_loop lx acc = tokenize_loop ?lx1 (acc @ [?t])"
    using skip_written [OF wr f] facing_wf [OF f] facing_atEnd [OF f] lexToken_written [OF wr f] Cons.prems(3)
      facing_emit [OF f] by (subst tokenize_loop.simps) simp
  have two: "tokenize_loop ?lx1 (acc @ [?t]) = tokenize_loop (adv 1 ?lx1) (acc @ [?t])"
    by (subst (1 2) tokenize_loop.simps) (simp add: facing_blank [OF f1])
  obtain toks lx' where "tokenize_loop (adv 1 ?lx1) (acc @ [?t]) = Inr ((acc @ [?t]) @ toks, lx')"
    "map (\<lambda>t. (tk_kind t, tk_text t)) toks = ws @ [(TkEnd, [])]" "lx_sink lx' = lx_sink lx"
    using Cons.IH [of "adv 1 ?lx1" "acc @ [?t]"] Cons.prems f2 by auto
  then show ?case unfolding one two by (intro exI [of _ "?t # toks"]) (simp add: kw)
qed

text \<open>
  Printing a sequence of operators, keywords and names with a blank after each and lexing the
  result gives the same kinds and texts back, in order, followed by the end token, without a
  diagnostic.
\<close>

lemma tokenize_written:
  assumes "list_all written ws"
  shows "\<exists>toks lx. tokenize (new_lexer (concat (map (\<lambda>(k, w). w @ '' '') ws)) False) = Inr (toks, lx) \<and>
    map (\<lambda>t. (tk_kind t, tk_text t)) toks = ws @ [(TkEnd, [])] \<and> ds_diags (lx_sink lx) = []"
proof -
  obtain toks lx where "tokenize_loop (new_lexer (spaced ws) False) [] = Inr ([] @ toks, lx)"
    "map (\<lambda>t. (tk_kind t, tk_text t)) toks = ws @ [(TkEnd, [])]" "lx_sink lx = sink_empty"
    using tokenize_spaced [OF assms, of "new_lexer (spaced ws) False" "[]"] by (auto simp: facing_def)
  then show ?thesis by (simp add: tokenize_def spaced_def sink_empty_def)
qed

lemma tokenize_written_witness:
  "\<exists>toks lx. tokenize (new_lexer ''var x2 => '' False) = Inr (toks, lx) \<and>
     map tk_kind toks = [TkKw KwVar, TkIdentifier, TkPunct PArrow, TkEnd]"
proof -
  let ?ws = "[(TkKw KwVar, ''var''), (TkIdentifier, ''x2''), (TkPunct PArrow, ''=>'')]"
  have "keywordKind ''x2'' = TkIdentifier" by (simp add: keywordKind_def keyword_table_def)
  then have "list_all written ?ws"
    by (auto simp: written_def word_char_def isIdentCont_def isIdentStart_def isDigit_def)
  from tokenize_written [OF this] obtain toks lx where
    "tokenize (new_lexer ''var x2 => '' False) = Inr (toks, lx)"
    and k: "map (\<lambda>t. (tk_kind t, tk_text t)) toks = ?ws @ [(TkEnd, [])]" by auto
  moreover have "map tk_kind toks = map fst (map (\<lambda>t. (tk_kind t, tk_text t)) toks)" by simp
  ultimately show ?thesis by simp
qed

section \<open>Lexing written strings\<close>

lemma string_loop_char:
  assumes "facing lx (c # r)" "c \<noteq> BSLASH" "c \<noteq> NL" "c \<noteq> q"
  shows "string_loop q lx = string_loop q (adv 1 lx)" "facing (adv 1 lx) r"
  using assms facing_atEnd [OF assms(1)] facing_peek [OF assms(1), of 0] facing_adv [of lx "[c]" r 1]
  by (simp_all add: string_loop.simps [of q lx])

lemma hex_char_quotable: "k < 16 \<Longrightarrow> hex_char k \<noteq> BSLASH \<and> hex_char k \<noteq> NL \<and> hex_char k \<noteq> DQUOTE"
  using hex_char_digit [of k] by (auto simp: isHexDigitChar_def)

lemma hex_nibbles:
  "hex_char (of_char c div 16) \<notin> {BSLASH, NL, DQUOTE}" "hex_char (of_char c mod 16) \<notin> {BSLASH, NL, DQUOTE}"
proof -
  have "(of_char c :: nat) < 256" by (metis of_char_of char_of_char mod_less_divisor zero_less_numeral)
  then have "(of_char c :: nat) div 16 < 16" by (intro less_mult_imp_div_less) simp
  then show "hex_char (of_char c div 16) \<notin> {BSLASH, NL, DQUOTE}" using hex_char_quotable by blast
  show "hex_char (of_char c mod 16) \<notin> {BSLASH, NL, DQUOTE}" using hex_char_quotable [of "of_char c mod 16"] by simp
qed

lemma string_loop_escape:
  assumes f: "facing lx (escape_char c @ r)"
  shows "string_loop DQUOTE lx = string_loop DQUOTE (adv (length (escape_char c)) lx)"
proof (cases "plain_char c")
  case True
  then have "c \<noteq> BSLASH" "c \<noteq> NL" "c \<noteq> DQUOTE" by (auto simp: plain_char_def)
  with f True string_loop_char(1) show ?thesis by (simp add: escape_char_def)
next
  case False
  let ?h = "hex_char (of_char c div 16)" and ?l = "hex_char (of_char c mod 16)"
  note h = hex_nibbles [of c]
  have f0: "facing lx ([BSLASH, CHR ''x''] @ ?h # ?l # r)" using f False by (simp add: escape_char_def)
  have "string_loop DQUOTE lx = string_loop DQUOTE (adv 2 lx)"
    using facing_atEnd [OF f0] facing_peek [OF f0, of 0] by (simp add: string_loop.simps [of DQUOTE lx])
  also have "facing (adv 2 lx) (?h # ?l # r)" by (rule facing_adv [OF f0]) simp
  note s1 = string_loop_char [OF this, of DQUOTE]
  have "string_loop DQUOTE (adv 2 lx) = string_loop DQUOTE (adv 1 (adv 2 lx))" using s1(1) h by simp
  also have "\<dots> = string_loop DQUOTE (adv 1 (adv 1 (adv 2 lx)))"
    using string_loop_char(1) [OF s1(2), of DQUOTE] h by simp
  also have "adv 1 (adv 1 (adv 2 lx)) = adv 4 lx" by (simp add: adv_adv)
  also have "4 = length (escape_char c)" using False by (simp add: escape_char_def)
  finally show ?thesis .
qed

lemma string_loop_escaped:
  "facing lx (escape_string s @ DQUOTE # r) \<Longrightarrow>
   string_loop DQUOTE lx = (True, adv (Suc (length (escape_string s))) lx)"
proof (induction s arbitrary: lx)
  case Nil
  then show ?case
    using facing_atEnd [of lx "DQUOTE # r"] facing_peek [of lx "DQUOTE # r" 0]
    by (simp add: string_loop.simps [of DQUOTE lx] escape_string_def)
next
  case (Cons c s)
  then have f: "facing lx (escape_char c @ escape_string s @ DQUOTE # r)" by (simp add: escape_string_def)
  from Cons.IH [OF facing_adv [OF f refl]] string_loop_escape [OF f] show ?case
    by (simp add: escape_string_def adv_adv)
qed

lemma escape_string_no_quote: "DQUOTE \<notin> set (escape_string s)"
proof -
  have "DQUOTE \<notin> set (escape_char c)" for c
    using hex_nibbles [of c] by (auto simp: escape_char_def plain_char_def)
  then show ?thesis by (auto simp: escape_string_def)
qed

text \<open>
  C23. Every byte string can be written as a literal: quoting the escaped string gives a file that lexes
  to one string token and the end token without a diagnostic, and the decoder shared by the engines
  turns that token's text back into the string.
\<close>

theorem tokenize_string_literal:
  "\<exists>t e lx. tokenize (new_lexer (DQUOTE # escape_string s @ [DQUOTE]) h) = Inr ([t, e], lx) \<and>
     tk_kind t = TkStringLiteral \<and> tk_kind e = TkEnd \<and> ds_diags (lx_sink lx) = [] \<and>
     decodeStringLiteral (tk_text t) = s"
proof -
  let ?w = "DQUOTE # escape_string s @ [DQUOTE]"
  let ?lx = "new_lexer ?w h"
  have f: "facing ?lx (?w @ [])" by (simp add: facing_def)
  have fc: "facing ?lx ([DQUOTE] @ escape_string s @ [DQUOTE])" by (simp add: facing_def)
  have skip: "skipTrivia ?lx = ?lx" by (rule facing_skip [of _ DQUOTE]) (simp_all add: facing_def is_blank_def)
  have pk: "\<not> (peek ?lx 1 = DQUOTE \<and> peek ?lx 2 = DQUOTE)"
    using facing_peek [OF f, of 1] facing_peek [OF f, of 2] escape_string_no_quote [of s]
    by (cases "escape_string s") (auto simp: nth_append numeral_2_eq_2)
  have "string_loop DQUOTE (adv 1 ?lx) = (True, adv (length ?w) ?lx)"
    using string_loop_escaped [OF facing_adv [OF fc, of 1]] by (simp add: adv_adv)
  then have tok: "lexToken ?lx = emit TkStringLiteral (lx_pos ?lx) (adv (length ?w) ?lx)"
    using pk facing_nth [of ?lx DQUOTE "escape_string s @ [DQUOTE]"] f
    by (auto simp: lexToken_def Let_def punct_case_def peek_adv lexString_def finish_quoted_def numeral_2_eq_2)
  let ?e = "adv (length ?w) ?lx"
  have fe: "facing ?e []" by (rule facing_adv [OF f refl])
  have "skipTrivia ?e = ?e" using facing_peek [OF fe] by (subst skipTrivia.simps) (simp add: is_blank_def)
  then have last: "\<exists>e. tokenize_loop ?e acc = Inr (acc @ [e], ?e) \<and> tk_kind e = TkEnd" for acc
    using facing_wf [OF fe] facing_atEnd [OF fe] fe
    by (subst tokenize_loop.simps) (simp add: make_def facing_def)
  let ?t = "\<lparr>tk_kind = TkStringLiteral, tk_span = \<lparr>sp_offset = lx_pos ?lx, sp_length = length ?w\<rparr>, tk_text = ?w\<rparr>"
  have run: "tokenize_loop ?lx [] = tokenize_loop ?e [?t]"
    using skip facing_wf [OF f] facing_atEnd [OF f] tok facing_emit [OF f]
    by (subst tokenize_loop.simps) simp
  obtain e where "tokenize_loop ?e [?t] = Inr ([?t] @ [e], ?e)" "tk_kind e = TkEnd" using last by blast
  with run decodeStringLiteral_escape [of s] show ?thesis
    by (intro exI [of _ ?t] exI [of _ e] exI [of _ ?e]) (simp add: tokenize_def sink_empty_def)
qed

end
