(* ===== verification/Runtime_Value.thy ===== *)
theory Runtime_Value
  imports Token "HOL-Library.Signed_Division"
begin

unbundle bit_operations_syntax

text \<open>
  The value model of \<open>src/runtime/RuntimeValue.hpp\<close> that the evaluator and the IR interpreter share. A
  \<open>Value\<close> is a record of all its fields, as in the source: an operation that reads a field the kind
  does not populate sees its default. Integers are 64-bit words, a double is its 64-bit pattern, and a
  \<open>shared_ptr\<close> is an optional address into a heap of objects, arrays and maps. The double arithmetic of
  the machine is the parameter \<open>fp\<close> of the operations that use it. Signed overflow, which C++ leaves
  undefined, is the outcome \<open>RUndef\<close>.
\<close>

section \<open>Values\<close>

type_synonym addr = nat

datatype vkind =
    KVoid | KInt | KFloat | KBool | KString | KObject | KClosure | KArray | KMap | KNone | KChar | KBlock | KAst

record rt_value =
  v_kind :: vkind
  v_i :: "64 word"
  v_f :: "64 word"
  v_b :: bool
  v_s :: string
  v_obj :: "addr option"
  v_closure :: "addr option"
  v_arr :: "addr option"
  v_map :: "addr option"
  v_block :: "addr option"
  v_ast :: "addr option"

definition vvoid :: rt_value where
  "vvoid = \<lparr>v_kind = KVoid, v_i = 0, v_f = 0, v_b = False, v_s = [], v_obj = None, v_closure = None,
     v_arr = None, v_map = None, v_block = None, v_ast = None\<rparr>"

definition vint :: "64 word \<Rightarrow> rt_value" where "vint x = vvoid\<lparr>v_kind := KInt, v_i := x\<rparr>"
definition vchar :: "64 word \<Rightarrow> rt_value" where "vchar x = vvoid\<lparr>v_kind := KChar, v_i := x\<rparr>"
definition vbool :: "bool \<Rightarrow> rt_value" where "vbool x = vvoid\<lparr>v_kind := KBool, v_b := x\<rparr>"
definition vfloat :: "64 word \<Rightarrow> rt_value" where "vfloat x = vvoid\<lparr>v_kind := KFloat, v_f := x\<rparr>"
definition vstr :: "string \<Rightarrow> rt_value" where "vstr x = vvoid\<lparr>v_kind := KString, v_s := x\<rparr>"
definition vnone :: rt_value where "vnone = vvoid\<lparr>v_kind := KNone\<rparr>"
definition vobj :: "addr \<Rightarrow> rt_value" where "vobj a = vvoid\<lparr>v_kind := KObject, v_obj := Some a\<rparr>"

lemmas value_defs = vvoid_def vint_def vchar_def vbool_def vfloat_def vstr_def vnone_def vobj_def

text \<open>What the value operations read of a class symbol.\<close>

record class_sym =
  cls_id :: nat
  cls_name :: string
  cls_isValue :: bool

record rt_object =
  ob_cls :: "class_sym option"
  ob_fields :: "(string \<times> rt_value) list"

record rt_heap =
  hp_obj :: "addr \<Rightarrow> rt_object"
  hp_arr :: "addr \<Rightarrow> rt_value list"
  hp_map :: "addr \<Rightarrow> (rt_value \<times> rt_value) list"
  hp_block_len :: "addr \<Rightarrow> nat"
  hp_next :: addr

text \<open>The machine's double operations on bit patterns.\<close>

record fp_ops =
  fp_add :: "64 word \<Rightarrow> 64 word \<Rightarrow> 64 word"
  fp_sub :: "64 word \<Rightarrow> 64 word \<Rightarrow> 64 word"
  fp_mul :: "64 word \<Rightarrow> 64 word \<Rightarrow> 64 word"
  fp_div :: "64 word \<Rightarrow> 64 word \<Rightarrow> 64 word"
  fp_eq :: "64 word \<Rightarrow> 64 word \<Rightarrow> bool"
  fp_lt :: "64 word \<Rightarrow> 64 word \<Rightarrow> bool"
  fp_le :: "64 word \<Rightarrow> 64 word \<Rightarrow> bool"
  fp_of_int :: "64 word \<Rightarrow> 64 word"
  fp_str :: "64 word \<Rightarrow> string"
  fp_floor :: "64 word \<Rightarrow> 64 word"
  fp_ceil :: "64 word \<Rightarrow> 64 word"
  fp_round :: "64 word \<Rightarrow> 64 word"
  fp_trunc :: "64 word \<Rightarrow> 64 word"
  fp_sqrt :: "64 word \<Rightarrow> 64 word"
  fp_pow :: "64 word \<Rightarrow> 64 word \<Rightarrow> 64 word"
  fp_strtod :: "string \<Rightarrow> 64 word \<times> nat"

definition int64_str :: "64 word \<Rightarrow> string" where
  "int64_str w = int_str (sint w)"

section \<open>Stringification\<close>

definition intercalate :: "string \<Rightarrow> string list \<Rightarrow> string" where
  "intercalate sep xs = (case xs of [] \<Rightarrow> [] | x # r \<Rightarrow> x @ concat (map (\<lambda>y. sep @ y) r))"

text \<open>All results of a list, or nothing.\<close>

fun all_some :: "'a option list \<Rightarrow> 'a list option" where
  "all_some [] = Some []"
| "all_some (x # xs) = (case x of None \<Rightarrow> None | Some y \<Rightarrow> (case all_some xs of None \<Rightarrow> None | Some ys \<Rightarrow> Some (y # ys)))"

text \<open>\<open>n\<close> bounds the nesting of arrays and maps; \<open>None\<close> is a deeper (or cyclic) value.\<close>

fun valueToString :: "nat \<Rightarrow> fp_ops \<Rightarrow> rt_heap \<Rightarrow> rt_value \<Rightarrow> string option" where
  "valueToString n fp h v =
     (case v_kind v of
        KInt \<Rightarrow> Some (int64_str (v_i v))
      | KChar \<Rightarrow> Some (utf8Encode (unat (v_i v)))
      | KBool \<Rightarrow> Some (if v_b v then ''true'' else ''false'')
      | KFloat \<Rightarrow> Some (fp_str fp (v_f v))
      | KString \<Rightarrow> Some (v_s v)
      | KObject \<Rightarrow>
          Some (case v_obj v of
                  None \<Rightarrow> ''<object>''
                | Some a \<Rightarrow>
                    (let ob = hp_obj h a
                     in case (ob_cls ob, map_of (ob_fields ob) ''start'', map_of (ob_fields ob) ''end'') of
                          (Some c, Some s, Some e) \<Rightarrow>
                            if cls_name c = ''Range'' then int64_str (v_i s) @ ''..'' @ int64_str (v_i e)
                            else ''<object>''
                        | _ \<Rightarrow> ''<object>''))
      | KClosure \<Rightarrow> Some ''<closure>''
      | KArray \<Rightarrow>
          (case v_arr v of
             None \<Rightarrow> Some ''[]''
           | Some a \<Rightarrow>
               (case n of
                  0 \<Rightarrow> None
                | Suc m \<Rightarrow>
                    (case all_some (map (valueToString m fp h) (hp_arr h a)) of
                       None \<Rightarrow> None
                     | Some xs \<Rightarrow> Some (''['' @ intercalate '', '' xs @ '']''))))
      | KMap \<Rightarrow>
          (case v_map v of
             None \<Rightarrow> Some ''{}''
           | Some a \<Rightarrow>
               (case n of
                  0 \<Rightarrow> None
                | Suc m \<Rightarrow>
                    (case all_some (map (\<lambda>(k, x). (case valueToString m fp h k of None \<Rightarrow> None
                                      | Some ks \<Rightarrow> (case valueToString m fp h x of None \<Rightarrow> None
                                                    | Some xs \<Rightarrow> Some (ks @ '': '' @ xs)))) (hp_map h a)) of
                       None \<Rightarrow> None
                     | Some xs \<Rightarrow> Some (''{'' @ intercalate '', '' xs @ ''}''))))
      | KNone \<Rightarrow> Some ''None''
      | KVoid \<Rightarrow> Some []
      | KBlock \<Rightarrow>
          Some (''Block(len='' @ nat_str (case v_block v of None \<Rightarrow> 0 | Some a \<Rightarrow> hp_block_len h a) @ '')'')
      | KAst \<Rightarrow> Some (''Ast('' @ (if v_s v = [] then ''empty'' else v_s v) @ '')''))"

declare valueToString.simps [simp del]

section \<open>Union types\<close>

text \<open>The loop of \<open>unionMembersOf\<close>: \<open>cur\<close> is the text since \<open>start\<close>, \<open>first\<close> that the current character is
  the first of the spelling. A bar right after a separator is preceded by its space, and \<open>substr\<close> with a
  length of -1 then takes the rest.\<close>

fun union_scan :: "bool \<Rightarrow> int \<Rightarrow> string \<Rightarrow> string \<Rightarrow> string list" where
  "union_scan first depth cur [] = [cur]"
| "union_scan first depth cur (c # r) =
     (if c = CHR ''<'' \<or> c = CHR ''('' then union_scan False (depth + 1) (cur @ [c]) r
      else if c = CHR ''>'' \<or> c = CHR '')'' then union_scan False (depth - 1) (cur @ [c]) r
      else if depth = 0 \<and> c = CHR ''|'' \<and> \<not> first \<and> (cur \<noteq> [] \<longrightarrow> last cur = CHR '' '') \<and> r \<noteq> [] \<and> hd r = CHR '' ''
      then (if cur = [] then c # r else butlast cur) # union_scan False depth [] (tl r)
      else union_scan False depth (cur @ [c]) r)"

definition unionMembersOf :: "string \<Rightarrow> string list" where
  "unionMembersOf canonical = union_scan True 0 [] canonical"

section \<open>Default values\<close>

text \<open>\<open>make_shared\<close> of an empty array or map takes the next address of the heap.\<close>

definition new_array :: "rt_heap \<Rightarrow> rt_value \<times> rt_heap" where
  "new_array h =
     (vvoid\<lparr>v_kind := KArray, v_arr := Some (hp_next h)\<rparr>,
      h\<lparr>hp_arr := (hp_arr h)(hp_next h := []), hp_next := hp_next h + 1\<rparr>)"

definition new_map :: "rt_heap \<Rightarrow> rt_value \<times> rt_heap" where
  "new_map h =
     (vvoid\<lparr>v_kind := KMap, v_map := Some (hp_next h)\<rparr>,
      h\<lparr>hp_map := (hp_map h)(hp_next h := []), hp_next := hp_next h + 1\<rparr>)"

lemma union_scan_nonempty [simp]: "union_scan b d cur r \<noteq> []"
  by (induction b d cur r rule: union_scan.induct) auto

lemma union_scan_hd:
  "cur = [] \<longrightarrow> b \<Longrightarrow> 1 < length (union_scan b d cur r) \<Longrightarrow> length (hd (union_scan b d cur r)) < length cur + length r"
proof (induction b d cur r rule: union_scan.induct)
  case (2 first depth cur c r)
  then show ?case by (auto split: if_splits)
qed simp

function defaultForCanonical :: "string \<Rightarrow> rt_heap \<Rightarrow> rt_value \<times> rt_heap" where
  "defaultForCanonical c h =
     (let members = unionMembersOf c
      in if length members > 1 then
           (if ''None'' \<in> set members then (vnone, h) else defaultForCanonical (hd members) h)
         else if c = ''None'' then (vnone, h)
         else if c = ''int'' then (vint 0, h)
         else if c = ''char'' then (vchar 0, h)
         else if c = ''bool'' then (vbool False, h)
         else if c = ''float'' then (vfloat 0, h)
         else if c = ''string'' then (vstr [], h)
         else if take 5 c = ''Array'' then new_array h
         else if take 3 c = ''Map'' then new_map h
         else (vvoid, h))"
  by pat_completeness auto
termination
  by (relation "measure (\<lambda>(c, h). length c)") (auto simp: unionMembersOf_def intro: union_scan_hd [where cur = "[]" and b = True, simplified])

declare defaultForCanonical.simps [simp del]

section \<open>Key equality\<close>

definition lv_canon :: "64 word \<Rightarrow> 64 word" where
  "lv_canon b =
     (let is_nan = (b AND 0x7FF0000000000000 = 0x7FF0000000000000) \<and> (b AND 0x000FFFFFFFFFFFFF \<noteq> 0);
          is_zero = (push_bit 1 b = 0)
      in if is_nan then 0x7FF8000000000000 else if is_zero then 0 else b)"

fun fields_match :: "(rt_value \<Rightarrow> rt_value \<Rightarrow> bool option) \<Rightarrow> (string \<times> rt_value) list \<Rightarrow> (string \<times> rt_value) list \<Rightarrow>
    bool option" where
  "fields_match eq [] fb = Some True"
| "fields_match eq ((k, av) # r) fb =
     (case map_of fb k of
        None \<Rightarrow> Some False
      | Some bv \<Rightarrow>
          (case eq av bv of
             None \<Rightarrow> None
           | Some False \<Rightarrow> Some False
           | Some True \<Rightarrow> fields_match eq r fb))"

text \<open>Two references to objects of the same value class compare field by field.\<close>

definition value_pair :: "rt_heap \<Rightarrow> rt_value \<Rightarrow> rt_value \<Rightarrow> (rt_object \<times> rt_object) option" where
  "value_pair h a b =
     (case (v_obj a, v_obj b) of
        (Some x, Some y) \<Rightarrow>
          (case (ob_cls (hp_obj h x), ob_cls (hp_obj h y)) of
             (Some c, Some d) \<Rightarrow>
               if cls_id c = cls_id d \<and> cls_isValue c then Some (hp_obj h x, hp_obj h y) else None
           | _ \<Rightarrow> None)
      | _ \<Rightarrow> None)"

fun keyEquals :: "nat \<Rightarrow> rt_heap \<Rightarrow> rt_value \<Rightarrow> rt_value \<Rightarrow> bool option" where
  "keyEquals n h a b =
     (if v_kind a \<noteq> v_kind b then Some False
      else case v_kind a of
        KInt \<Rightarrow> Some (v_i a = v_i b)
      | KChar \<Rightarrow> Some (v_i a = v_i b)
      | KString \<Rightarrow> Some (v_s a = v_s b)
      | KBool \<Rightarrow> Some (v_b a = v_b b)
      | KFloat \<Rightarrow> Some (lv_canon (v_f a) = lv_canon (v_f b))
      | KObject \<Rightarrow>
          (case value_pair h a b of
             Some (x, y) \<Rightarrow>
               if length (ob_fields x) \<noteq> length (ob_fields y) then Some False
               else (case n of 0 \<Rightarrow> None | Suc m \<Rightarrow> fields_match (keyEquals m h) (ob_fields x) (ob_fields y))
           | None \<Rightarrow> Some (v_obj a = v_obj b))
      | KNone \<Rightarrow> Some True
      | KBlock \<Rightarrow> Some (v_block a = v_block b)
      | KAst \<Rightarrow> Some (v_ast a = v_ast b)
      | _ \<Rightarrow> Some False)"

declare keyEquals.simps [simp del]

section \<open>Primitive operations\<close>

datatype arith_result = RVal rt_value | RErr string | RUndef | RDeep

text \<open>A signed result, undefined when it overflows.\<close>

definition signed_result :: "int \<Rightarrow> arith_result" where
  "signed_result x = (if - (2 ^ 63) \<le> x \<and> x < 2 ^ 63 then RVal (vint (word_of_int x)) else RUndef)"

definition compare_ops :: "punct \<Rightarrow> bool \<Rightarrow> bool \<Rightarrow> bool option" where
  "compare_ops op eq lt =
     (case op of
        PEqEq \<Rightarrow> Some eq | PBangEq \<Rightarrow> Some (\<not> eq)
      | PLt \<Rightarrow> Some lt | PGt \<Rightarrow> Some (\<not> lt \<and> \<not> eq)
      | PLe \<Rightarrow> Some (lt \<or> eq) | PGe \<Rightarrow> Some (\<not> lt)
      | _ \<Rightarrow> None)"

definition arithInt :: "token_kind \<Rightarrow> 64 word \<Rightarrow> 64 word \<Rightarrow> arith_result" where
  "arithInt op a b =
     (case op of
        TkPunct p \<Rightarrow>
          (case p of
             PPlus \<Rightarrow> signed_result (sint a + sint b)
           | PMinus \<Rightarrow> signed_result (sint a - sint b)
           | PStar \<Rightarrow> signed_result (sint a * sint b)
           | PSlash \<Rightarrow> if b = 0 then RErr ''division by zero'' else signed_result (sint a sdiv sint b)
           | PPercent \<Rightarrow>
               if b = 0 then RErr ''modulo by zero''
               else if sint a = - (2 ^ 63) \<and> sint b = - 1 then RUndef
               else RVal (vint (word_of_int (sint a smod sint b)))
           | PEqEq \<Rightarrow> RVal (vbool (a = b))
           | PBangEq \<Rightarrow> RVal (vbool (a \<noteq> b))
           | PLt \<Rightarrow> RVal (vbool (sint a < sint b))
           | PGt \<Rightarrow> RVal (vbool (sint a > sint b))
           | PLe \<Rightarrow> RVal (vbool (sint a \<le> sint b))
           | PGe \<Rightarrow> RVal (vbool (sint a \<ge> sint b))
           | PPipe \<Rightarrow> RVal (vint (a OR b))
           | PAmp \<Rightarrow> RVal (vint (a AND b))
           | PCaret \<Rightarrow> RVal (vint (a XOR b))
           | PLtLt \<Rightarrow>
               if sint b < 0 \<or> sint b > 63 then RErr ''shift count out of range''
               else RVal (vint (push_bit (unat b) a))
           | PGtGt \<Rightarrow>
               if sint b < 0 \<or> sint b > 63 then RErr ''shift count out of range''
               else RVal (vint (signed_drop_bit (unat b) a))
           | _ \<Rightarrow> RVal vvoid)
      | _ \<Rightarrow> RVal vvoid)"

definition arithFloat :: "fp_ops \<Rightarrow> token_kind \<Rightarrow> 64 word \<Rightarrow> 64 word \<Rightarrow> arith_result" where
  "arithFloat fp op a b =
     (case op of
        TkPunct p \<Rightarrow>
          (case p of
             PPlus \<Rightarrow> RVal (vfloat (fp_add fp a b))
           | PMinus \<Rightarrow> RVal (vfloat (fp_sub fp a b))
           | PStar \<Rightarrow> RVal (vfloat (fp_mul fp a b))
           | PSlash \<Rightarrow> RVal (vfloat (fp_div fp a b))
           | PEqEq \<Rightarrow> RVal (vbool (fp_eq fp a b))
           | PBangEq \<Rightarrow> RVal (vbool (\<not> fp_eq fp a b))
           | PLt \<Rightarrow> RVal (vbool (fp_lt fp a b))
           | PGt \<Rightarrow> RVal (vbool (fp_lt fp b a))
           | PLe \<Rightarrow> RVal (vbool (fp_le fp a b))
           | PGe \<Rightarrow> RVal (vbool (fp_le fp b a))
           | _ \<Rightarrow> RVal vvoid)
      | _ \<Rightarrow> RVal vvoid)"

text \<open>The comparisons of characters and strings, and of booleans and blocks (which have no order).\<close>

definition compared :: "token_kind \<Rightarrow> bool \<Rightarrow> bool \<Rightarrow> arith_result option" where
  "compared op eq lt =
     (case op of TkPunct p \<Rightarrow> map_option (RVal \<circ> vbool) (compare_ops p eq lt) | _ \<Rightarrow> None)"

definition eq_compared :: "token_kind \<Rightarrow> bool \<Rightarrow> arith_result" where
  "eq_compared op eq =
     (if op = TkPunct PEqEq then RVal (vbool eq)
      else if op = TkPunct PBangEq then RVal (vbool (\<not> eq)) else RVal vvoid)"

definition or_void :: "arith_result option \<Rightarrow> arith_result" where
  "or_void r = (case r of None \<Rightarrow> RVal vvoid | Some x \<Rightarrow> x)"

definition float_operands :: "rt_value \<Rightarrow> rt_value \<Rightarrow> bool" where
  "float_operands l r \<longleftrightarrow>
     (v_kind l = KFloat \<and> (v_kind r = KFloat \<or> v_kind r = KInt)) \<or> (v_kind r = KFloat \<and> v_kind l = KInt)"

definition arithPrim :: "nat \<Rightarrow> fp_ops \<Rightarrow> rt_heap \<Rightarrow> token_kind \<Rightarrow> rt_value \<Rightarrow> rt_value \<Rightarrow> arith_result" where
  "arithPrim n fp h op l r =
     (let rest =
        (if float_operands l r then
           arithFloat fp op (if v_kind l = KFloat then v_f l else fp_of_int fp (v_i l))
             (if v_kind r = KFloat then v_f r else fp_of_int fp (v_i r))
         else arithInt op (v_i l) (v_i r))
      in if v_kind l = KNone \<or> v_kind r = KNone then
           (if op = TkPunct PEqEq then RVal (vbool (v_kind l = v_kind r))
            else if op = TkPunct PBangEq then RVal (vbool (v_kind l \<noteq> v_kind r))
            else if op \<in> {TkPunct PLt, TkPunct PGt, TkPunct PLe, TkPunct PGe} then RVal (vbool False)
            else RVal vvoid)
         else if v_kind l = KBool \<and> v_kind r = KBool then eq_compared op (v_b l = v_b r)
         else if v_kind l = KBlock \<and> v_kind r = KBlock then eq_compared op (v_block l = v_block r)
         else if v_kind l = KChar \<and> v_kind r = KChar then
           or_void (compared op (v_i l = v_i r) (sint (v_i l) < sint (v_i r)))
         else if v_kind l = KString \<or> v_kind r = KString then
           (if op = TkPunct PPlus then
              (case (valueToString n fp h l, valueToString n fp h r) of
                 (Some x, Some y) \<Rightarrow> RVal (vstr (x @ y))
               | _ \<Rightarrow> RDeep)
            else case compared op (v_s l = v_s r) (v_s l < v_s r) of
                   Some x \<Rightarrow> x
                 | None \<Rightarrow> rest)
         else rest)"

section \<open>Unions\<close>

text \<open>A member of a union as the canonical spelling has it: brackets balanced, no bar outside brackets.\<close>

fun member_at :: "int \<Rightarrow> string \<Rightarrow> bool" where
  "member_at d [] \<longleftrightarrow> d = 0"
| "member_at d (c # r) \<longleftrightarrow>
     (if c = CHR ''<'' \<or> c = CHR ''('' then member_at (d + 1) r
      else if c = CHR ''>'' \<or> c = CHR '')'' then member_at (d - 1) r
      else \<not> (d = 0 \<and> c = CHR ''|'') \<and> member_at d r)"

lemma union_scan_member: "member_at d m \<Longrightarrow> union_scan b d cur (m @ r) = union_scan (b \<and> m = []) 0 (cur @ m) r"
  by (induction d m arbitrary: b cur rule: member_at.induct) (auto split: if_splits)

lemma union_scan_members:
  "list_all (member_at 0) (m # ms) \<Longrightarrow> union_scan b 0 [] (m @ concat (map ((@) '' | '') ms)) = m # ms"
proof (induction ms arbitrary: b m)
  case Nil
  then show ?case using union_scan_member [of 0 m b "[]" "[]"] by simp
next
  case (Cons x ms)
  let ?r = "concat (map ((@) '' | '') ms)"
  have m: "member_at 0 m" and xs: "list_all (member_at 0) (x # ms)" using Cons.prems by simp_all
  have "union_scan b 0 [] (m @ concat (map ((@) '' | '') (x # ms))) = union_scan (b \<and> m = []) 0 m ('' | '' @ x @ ?r)"
    using union_scan_member [OF m, of b "[]"] by simp
  also have "\<dots> = m # union_scan False 0 [] (x @ ?r)" by simp
  also have "\<dots> = m # x # ms" using Cons.IH [OF xs] by (rule arg_cong)
  finally show ?case .
qed

text \<open>
  Splitting a union's canonical spelling gives back its members: for members with balanced brackets
  and no bar outside them, joining with \<open> | \<close> and splitting is the identity, so a bar nested in a
  generic argument never splits a type.
\<close>

lemma unionMembersOf_join:
  assumes "ms \<noteq> []" and "list_all (member_at 0) ms"
  shows "unionMembersOf (intercalate '' | '' ms) = ms"
  using assms union_scan_members by (cases ms) (simp_all add: unionMembersOf_def intercalate_def)

lemma unionMembersOf_join_witness:
  "unionMembersOf (intercalate '' | '' [''Promise<T | None>'', ''int'', ''Map<A, (B)>'']) =
     [''Promise<T | None>'', ''int'', ''Map<A, (B)>'']"
  by (rule unionMembersOf_join) simp_all

section \<open>Key equality as equality of keys\<close>

text \<open>The key a value stands for: primitives by value (a float by its canonical pattern), a value
  struct by its class and the keys of its fields, everything else by reference.\<close>

datatype key =
    KeyInt "64 word" | KeyChar "64 word" | KeyStr string | KeyBool bool | KeyFloat "64 word"
  | KeyStruct nat "string \<Rightarrow> key option" | KeyRef "addr option" | KeyNone
  | KeyBlock "addr option" | KeyAst "addr option"

definition struct_of :: "rt_heap \<Rightarrow> rt_value \<Rightarrow> rt_object option" where
  "struct_of h v =
     (case v_obj v of None \<Rightarrow> None | Some a \<Rightarrow>
        (case ob_cls (hp_obj h a) of
           Some c \<Rightarrow> if cls_isValue c then Some (hp_obj h a) else None
         | None \<Rightarrow> None))"

fun key_of :: "nat \<Rightarrow> rt_heap \<Rightarrow> rt_value \<Rightarrow> key option" where
  "key_of n h v =
     (case v_kind v of
        KInt \<Rightarrow> Some (KeyInt (v_i v))
      | KChar \<Rightarrow> Some (KeyChar (v_i v))
      | KString \<Rightarrow> Some (KeyStr (v_s v))
      | KBool \<Rightarrow> Some (KeyBool (v_b v))
      | KFloat \<Rightarrow> Some (KeyFloat (lv_canon (v_f v)))
      | KObject \<Rightarrow>
          (case struct_of h v of
             None \<Rightarrow> Some (KeyRef (v_obj v))
           | Some x \<Rightarrow>
               (case n of
                  0 \<Rightarrow> None
                | Suc m \<Rightarrow>
                    if list_all (\<lambda>(k, fv). key_of m h fv \<noteq> None) (ob_fields x)
                    then Some (KeyStruct (cls_id (the (ob_cls x)))
                                (\<lambda>k. case map_of (ob_fields x) k of None \<Rightarrow> None | Some fv \<Rightarrow> key_of m h fv))
                    else None))
      | KNone \<Rightarrow> Some KeyNone
      | KBlock \<Rightarrow> Some (KeyBlock (v_block v))
      | KAst \<Rightarrow> Some (KeyAst (v_ast v))
      | _ \<Rightarrow> None)"

declare key_of.simps [simp del]

text \<open>Field names are distinct, as in a map, and a class identifier names one class.\<close>

definition heap_ok :: "rt_heap \<Rightarrow> bool" where
  "heap_ok h \<longleftrightarrow>
     (\<forall>a. distinct (map fst (ob_fields (hp_obj h a)))) \<and>
     (\<forall>a b c d. ob_cls (hp_obj h a) = Some c \<longrightarrow> ob_cls (hp_obj h b) = Some d \<longrightarrow> cls_id c = cls_id d \<longrightarrow> c = d)"

lemma fields_match_iff:
  assumes "\<And>k av bv. (k, av) \<in> set fa \<Longrightarrow> map_of fb k = Some bv \<Longrightarrow> eq av bv = Some (R av bv)"
  shows "fields_match eq fa fb = Some (\<forall>(k, av) \<in> set fa. \<exists>bv. map_of fb k = Some bv \<and> R av bv)"
  using assms
proof (induction fa)
  case (Cons x r)
  obtain k av where x: "x = (k, av)" by (cases x)
  show ?case
  proof (cases "map_of fb k")
    case (Some bv)
    then have "eq av bv = Some (R av bv)" using Cons.prems [of k av bv] x by simp
    with Some x Cons show ?thesis by (cases "R av bv") auto
  qed (simp add: x)
qed simp

lemma map_of_same_dom:
  assumes "distinct (map fst fa)" "distinct (map fst fb)" "length fa = length fb"
    and "fst ` set fa \<subseteq> fst ` set fb"
  shows "fst ` set fa = fst ` set fb"
proof (rule card_subset_eq)
  show "card (fst ` set fa) = card (fst ` set fb)"
    using assms(1-3) distinct_card [of "map fst fa"] distinct_card [of "map fst fb"] by simp
qed (use assms(4) in auto)

lemma struct_keys_eq:
  assumes d: "distinct (map fst fa)" "distinct (map fst fb)"
    and ka: "\<And>k v. (k, v) \<in> set fa \<Longrightarrow> f v \<noteq> None" and kb: "\<And>k v. (k, v) \<in> set fb \<Longrightarrow> f v \<noteq> None"
  shows "((\<lambda>k. case map_of fa k of None \<Rightarrow> None | Some v \<Rightarrow> f v) =
          (\<lambda>k. case map_of fb k of None \<Rightarrow> None | Some v \<Rightarrow> f v)) \<longleftrightarrow>
    length fa = length fb \<and> (\<forall>(k, av) \<in> set fa. \<exists>bv. map_of fb k = Some bv \<and> f av = f bv)"
    (is "?F fa = ?F fb \<longleftrightarrow> _")
proof
  assume eq: "?F fa = ?F fb"
  have "k \<in> dom (map_of fa) \<longleftrightarrow> k \<in> dom (map_of fb)" for k
    using fun_cong [OF eq, of k] ka [OF map_of_SomeD] kb [OF map_of_SomeD]
    by (cases "map_of fa k"; cases "map_of fb k") fastforce+
  then have "fst ` set fa = fst ` set fb" by (auto simp: dom_map_of_conv_image_fst [symmetric])
  then have "length fa = length fb"
    using distinct_card [OF d(1)] distinct_card [OF d(2)] by simp
  moreover have "\<exists>bv. map_of fb k = Some bv \<and> f av = f bv" if "(k, av) \<in> set fa" for k av
    using fun_cong [OF eq, of k] that d(1) ka [OF that] by (auto split: option.splits)
  ultimately show "length fa = length fb \<and> (\<forall>(k, av) \<in> set fa. \<exists>bv. map_of fb k = Some bv \<and> f av = f bv)"
    by blast
next
  assume r: "length fa = length fb \<and> (\<forall>(k, av) \<in> set fa. \<exists>bv. map_of fb k = Some bv \<and> f av = f bv)"
  then have "fst ` set fa \<subseteq> fst ` set fb" by (force dest: map_of_SomeD)
  then have dom: "fst ` set fa = fst ` set fb" using map_of_same_dom [OF d] r by blast
  show "?F fa = ?F fb"
  proof
    fix k
    show "?F fa k = ?F fb k"
    proof (cases "map_of fa k")
      case None
      then have "map_of fb k = None" using dom by (simp add: map_of_eq_None_iff)
      with None show ?thesis by simp
    next
      case (Some av)
      then have "(k, av) \<in> set fa" by (rule map_of_SomeD)
      with r Some show ?thesis by fastforce
    qed
  qed
qed

lemma struct_of_SomeD:
  "struct_of h v = Some x \<Longrightarrow> \<exists>a c. v_obj v = Some a \<and> x = hp_obj h a \<and> ob_cls x = Some c \<and> cls_isValue c"
  by (auto simp: struct_of_def split: option.splits if_splits)

lemma value_pair_struct:
  assumes "heap_ok h"
  shows "value_pair h a b =
    (case (struct_of h a, struct_of h b) of
       (Some x, Some y) \<Rightarrow> if cls_id (the (ob_cls x)) = cls_id (the (ob_cls y)) then Some (x, y) else None
     | _ \<Rightarrow> None)"
  using assms unfolding value_pair_def struct_of_def heap_ok_def
  by (fastforce split: option.splits)

text \<open>The equation of \<open>key_of\<close> at a value struct.\<close>

lemma key_of_struct:
  assumes "v_kind v = KObject" and "struct_of h v = Some x" and "key_of n h v = Some k"
  obtains m where "n = Suc m" and "\<And>f fv. (f, fv) \<in> set (ob_fields x) \<Longrightarrow> key_of m h fv \<noteq> None"
    and "k = KeyStruct (cls_id (the (ob_cls x)))
               (\<lambda>k. case map_of (ob_fields x) k of None \<Rightarrow> None | Some fv \<Rightarrow> key_of m h fv)"
proof (cases n)
  case 0
  then show ?thesis using assms by (simp add: key_of.simps [of 0])
next
  case (Suc m)
  then show ?thesis using assms that [of m]
    by (fastforce simp: key_of.simps [of "Suc m"] list_all_iff split: if_splits)
qed

lemma keyEquals_structs:
  assumes ok: "heap_ok h" and kind: "v_kind a = KObject" "v_kind b = KObject"
    and sa: "struct_of h a = Some x" and sb: "struct_of h b = Some y"
    and ka: "key_of (Suc n) h a = Some ka" and kb: "key_of (Suc n) h b = Some kb"
    and IH: "\<And>a b ka kb. key_of n h a = Some ka \<Longrightarrow> key_of n h b = Some kb \<Longrightarrow> keyEquals n h a b = Some (ka = kb)"
  shows "keyEquals (Suc n) h a b = Some (ka = kb)"
proof -
  let ?F = "\<lambda>fs k. case map_of fs k of None \<Rightarrow> None | Some fv \<Rightarrow> key_of n h fv"
  have fx: "\<And>f v. (f, v) \<in> set (ob_fields x) \<Longrightarrow> key_of n h v \<noteq> None"
    and ka': "ka = KeyStruct (cls_id (the (ob_cls x))) (?F (ob_fields x))"
    using key_of_struct [OF kind(1) sa ka] by auto
  have fy: "\<And>f v. (f, v) \<in> set (ob_fields y) \<Longrightarrow> key_of n h v \<noteq> None"
    and kb': "kb = KeyStruct (cls_id (the (ob_cls y))) (?F (ob_fields y))"
    using key_of_struct [OF kind(2) sb kb] by auto
  have d: "distinct (map fst (ob_fields x))" "distinct (map fst (ob_fields y))"
    using ok struct_of_SomeD [OF sa] struct_of_SomeD [OF sb] by (auto simp: heap_ok_def)
  show ?thesis
  proof (cases "cls_id (the (ob_cls x)) = cls_id (the (ob_cls y))")
    case True
    have "keyEquals n h av bv = Some (key_of n h av = key_of n h bv)"
      if "(k, av) \<in> set (ob_fields x)" "map_of (ob_fields y) k = Some bv" for k av bv
      using IH [of av _ bv] fx [OF that(1)] fy [OF map_of_SomeD [OF that(2)]] by auto
    then have m: "fields_match (keyEquals n h) (ob_fields x) (ob_fields y) =
        Some (\<forall>(k, av) \<in> set (ob_fields x). \<exists>bv. map_of (ob_fields y) k = Some bv \<and> key_of n h av = key_of n h bv)"
      by (rule fields_match_iff)
    have v: "value_pair h a b = Some (x, y)" using True sa sb by (simp add: value_pair_struct [OF ok])
    have "keyEquals (Suc n) h a b = Some (length (ob_fields x) = length (ob_fields y) \<and>
        (\<forall>(k, av) \<in> set (ob_fields x). \<exists>bv. map_of (ob_fields y) k = Some bv \<and> key_of n h av = key_of n h bv))"
      using m v kind by (simp add: keyEquals.simps [of "Suc n"])
    then show ?thesis using True struct_keys_eq [OF d fx fy] by (simp add: ka' kb')
  next
    case False
    have "keyEquals (Suc n) h a b = Some (v_obj a = v_obj b)"
      using False sa sb kind by (simp add: keyEquals.simps [of "Suc n"] value_pair_struct [OF ok])
    moreover have "v_obj a \<noteq> v_obj b"
      using False struct_of_SomeD [OF sa] struct_of_SomeD [OF sb] by auto
    ultimately show ?thesis using False by (simp add: ka' kb')
  qed
qed

lemma keyEquals_no_pair:
  assumes "heap_ok h" "v_kind a = KObject" "v_kind b = KObject" "struct_of h a = None \<or> struct_of h b = None"
  shows "keyEquals n h a b = Some (v_obj a = v_obj b)"
  using assms by (auto simp: keyEquals.simps [of n] value_pair_struct split: option.splits)

text \<open>
  Key equality is equality of keys: on a well-formed heap, comparing two values that have a key of
  nesting at most \<open>n\<close> answers, with the same recursion depth, whether their keys are the same. In
  particular map keys compare by an equivalence relation, a float by its canonical pattern (all zeros
  and all NaNs alike) and a value struct field by field, whatever the order of its fields.
\<close>

lemma keyEquals_key_of:
  assumes "heap_ok h" and "key_of n h a = Some ka" and "key_of n h b = Some kb"
  shows "keyEquals n h a b = Some (ka = kb)"
  using assms(2,3)
proof (induction n arbitrary: a b ka kb)
  case 0
  then show ?case using keyEquals_no_pair [OF assms(1), of a b 0]
    by (auto simp: key_of.simps [of 0] keyEquals.simps [of 0] split: vkind.splits option.splits)
next
  case (Suc n)
  consider x y where "v_kind a = KObject" "v_kind b = KObject" "struct_of h a = Some x" "struct_of h b = Some y"
    | "v_kind a = KObject" "v_kind b = KObject" "struct_of h a = None \<or> struct_of h b = None"
    | "v_kind a \<noteq> KObject \<or> v_kind b \<noteq> KObject" by (cases "struct_of h a"; cases "struct_of h b") auto
  then show ?case
  proof cases
    case 1
    then show ?thesis by (rule keyEquals_structs [OF assms(1) _ _ _ _ Suc.prems Suc.IH])
  next
    case 2
    then show ?thesis using keyEquals_no_pair [OF assms(1) 2, of "Suc n"] Suc.prems
      by (auto simp: key_of.simps [of "Suc n"] struct_of_def split: option.splits if_splits)
  next
    case 3
    then show ?thesis using Suc.prems
      by (auto simp: key_of.simps [of "Suc n"] keyEquals.simps [of "Suc n"] split: vkind.splits option.splits if_splits)
  qed
qed

lemma keyEquals_key_of_witness:
  "let c = \<lparr>cls_id = 7, cls_name = ''P'', cls_isValue = True\<rparr>;
       h = \<lparr>hp_obj = (\<lambda>a. if a = 1 then \<lparr>ob_cls = Some c, ob_fields = [(''x'', vint 1), (''y'', vfloat 0)]\<rparr>
             else if a = 2 then \<lparr>ob_cls = Some c, ob_fields = [(''y'', vfloat 0x8000000000000000), (''x'', vint 1)]\<rparr>
             else \<lparr>ob_cls = None, ob_fields = []\<rparr>),
           hp_arr = (\<lambda>a. []), hp_map = (\<lambda>a. []), hp_block_len = (\<lambda>a. 0), hp_next = 3\<rparr>
   in keyEquals 1 h (vobj 1) (vobj 2) = Some True"
proof -
  let ?c = "\<lparr>cls_id = 7, cls_name = ''P'', cls_isValue = True\<rparr>"
  let ?h = "\<lparr>hp_obj = (\<lambda>a. if a = 1 then \<lparr>ob_cls = Some ?c, ob_fields = [(''x'', vint 1), (''y'', vfloat 0)]\<rparr>
             else if a = 2 then \<lparr>ob_cls = Some ?c, ob_fields = [(''y'', vfloat 0x8000000000000000), (''x'', vint 1)]\<rparr>
             else \<lparr>ob_cls = None, ob_fields = []\<rparr>),
           hp_arr = (\<lambda>a. []), hp_map = (\<lambda>a. []), hp_block_len = (\<lambda>a. 0), hp_next = 3\<rparr>"
  let ?k = "KeyStruct 7 [''x'' \<mapsto> KeyInt 1, ''y'' \<mapsto> KeyFloat 0]"
  have ok: "heap_ok ?h" by (auto simp: heap_ok_def split: if_splits)
  have "lv_canon 0 = 0" "lv_canon 0x8000000000000000 = 0" by code_simp+
  then have "key_of 1 ?h (vobj 1) = Some ?k" "key_of 1 ?h (vobj 2) = Some ?k"
    by (auto simp: key_of.simps [of "Suc 0"] key_of.simps [of 0] value_defs struct_of_def)
  then show ?thesis using keyEquals_key_of [OF ok] by simp
qed

section \<open>Integer operations\<close>

lemma sint_uint_64: "sint (w :: 64 word) = (if uint w < 2 ^ 63 then uint w else uint w - 2 ^ 64)"
proof -
  have u: "0 \<le> uint w" "uint w < 2 ^ 64" using uint_lt2p [of w] by simp_all
  have s: "sint w = (uint w + 2 ^ 63) mod 2 ^ 64 - 2 ^ 63"
    by (simp add: sint_uint signed_take_bit_eq_take_bit_shift take_bit_eq_mod)
  show ?thesis
  proof (cases "uint w < 2 ^ 63")
    case True
    then have "(uint w + 2 ^ 63) mod 2 ^ 64 = uint w + 2 ^ 63" by (intro mod_pos_pos_trivial) auto
    then show ?thesis using True s by simp
  next
    case False
    have "(uint w + 2 ^ 63) mod 2 ^ 64 = (uint w - 2 ^ 63 + 2 ^ 64) mod 2 ^ 64" by (simp add: add.commute)
    also have "\<dots> = (uint w - 2 ^ 63) mod 2 ^ 64" by (rule mod_add_self2)
    also have "\<dots> = uint w - 2 ^ 63" using False u by (intro mod_pos_pos_trivial) auto
    finally show ?thesis using False s by simp
  qed
qed

lemma unat_less_iff: "unat (b :: 64 word) < n \<longleftrightarrow> uint b < int n"
  by (metis nat_int_comparison(2) uint_nat)

lemma shift_count_range: "sint (b :: 64 word) < 0 \<or> 63 < sint b \<longleftrightarrow> \<not> unat b < 64"
  using uint_lt2p [of b] by (auto simp: sint_uint_64 unat_less_iff)

lemma sint_nonzero: "(b :: 64 word) \<noteq> 0 \<Longrightarrow> sint b \<noteq> 0"
  using uint_lt2p [of b] by (auto simp: sint_uint_64 uint_0_iff)

lemma sint_range_64: "- (2 ^ 63) \<le> sint (w :: 64 word)" "sint (w :: 64 word) < 2 ^ 63"
  using sint_ge [of w] sint_lt [of w] by simp_all

lemma sint_vint_result:
  "- (2 ^ 63) \<le> x \<Longrightarrow> x < 2 ^ 63 \<Longrightarrow> sint (word_of_int x :: 64 word) = x"
  by (simp add: sint_sbintrunc' signed_take_bit_int_eq_self)

text \<open>Truncating division: the remainder has the sign of the dividend and is smaller than the divisor.\<close>

lemma smod_bounds:
  fixes a b :: int
  assumes "b \<noteq> 0"
  shows "\<bar>a smod b\<bar> < \<bar>b\<bar>" and "\<bar>a smod b\<bar> \<le> \<bar>a\<bar>" and "0 \<le> a * (a smod b)"
proof -
  have s: "a smod b = sgn a * (\<bar>a\<bar> mod \<bar>b\<bar>)" by (simp add: signed_modulo_int_def)
  have m: "0 \<le> \<bar>a\<bar> mod \<bar>b\<bar>" "\<bar>a\<bar> mod \<bar>b\<bar> < \<bar>b\<bar>" "\<bar>a\<bar> mod \<bar>b\<bar> \<le> \<bar>a\<bar>"
    using assms by (simp_all add: zmod_le_nonneg_dividend)
  show "\<bar>a smod b\<bar> < \<bar>b\<bar>" "\<bar>a smod b\<bar> \<le> \<bar>a\<bar>" "0 \<le> a * (a smod b)"
    using m assms by (auto simp: s abs_mult sgn_if mult_nonpos_nonneg)
qed

lemma sdiv_bound:
  fixes a b :: int
  assumes "b \<noteq> 0"
  shows "\<bar>a sdiv b\<bar> \<le> \<bar>a\<bar>" and "a sdiv b = - a \<Longrightarrow> a \<noteq> 0 \<Longrightarrow> b = - 1"
proof -
  have "0 \<le> \<bar>a\<bar> div \<bar>b\<bar>" "\<bar>a\<bar> div \<bar>b\<bar> \<le> \<bar>a\<bar>"
    using assms div_le_dividend [of "nat \<bar>a\<bar>" "nat \<bar>b\<bar>"]
    by (simp_all add: pos_imp_zdiv_nonneg_iff nat_div_distrib [symmetric])
  then show "\<bar>a sdiv b\<bar> \<le> \<bar>a\<bar>" by (auto simp: signed_divide_int_def abs_mult)
qed (simp add: int_sdiv_negated_is_minus1)

lemma arithPrim_ints: "arithPrim n fp h op (vint a) (vint b) = arithInt op a b"
  by (simp add: arithPrim_def float_operands_def value_defs)

definition overflows :: "int \<Rightarrow> bool" where
  "overflows x \<longleftrightarrow> x < - (2 ^ 63) \<or> 2 ^ 63 \<le> x"

lemma overflows_sdiv:
  fixes a b :: "64 word"
  assumes "b \<noteq> 0"
  shows "overflows (sint a sdiv sint b) \<longleftrightarrow> sint a = - (2 ^ 63) \<and> sint b = - 1"
proof
  have nz: "sint b \<noteq> 0" using assms by (rule sint_nonzero)
  assume "overflows (sint a sdiv sint b)"
  then have o: "sint a sdiv sint b < - (2 ^ 63) \<or> 2 ^ 63 \<le> sint a sdiv sint b" by (simp only: overflows_def)
  then have a: "sint a = - (2 ^ 63)" using sdiv_bound(1) [OF nz, of "sint a"] sint_range_64 [of a] by linarith
  then have "sint a sdiv sint b = - sint a" using o sdiv_bound(1) [OF nz, of "sint a"] by (auto simp: abs_le_iff)
  with a show "sint a = - (2 ^ 63) \<and> sint b = - 1" using sdiv_bound(2) [OF nz, of "sint a"] by simp
qed (simp add: signed_divide_int_def overflows_def)

lemma signed_result_iff [simp]:
  "signed_result x \<noteq> RErr m"
  "signed_result x = RUndef \<longleftrightarrow> overflows x"
  by (auto simp: signed_result_def overflows_def)

lemma signed_result_RVal:
  "signed_result x = RVal v \<Longrightarrow> v = vint (word_of_int x) \<and> sint (word_of_int x :: 64 word) = x"
  using sint_vint_result [of x] by (auto simp: signed_result_def split: if_splits)

text \<open>
  Integer operators raise exactly three exceptions: division by zero, modulo by zero, and a shift
  count outside 0..63; the message names the case.
\<close>

lemma arithPrim_int_error:
  "arithPrim n fp h op (vint a) (vint b) = RErr m \<longleftrightarrow>
     op = TkPunct PSlash \<and> b = 0 \<and> m = ''division by zero'' \<or>
     op = TkPunct PPercent \<and> b = 0 \<and> m = ''modulo by zero'' \<or>
     op \<in> {TkPunct PLtLt, TkPunct PGtGt} \<and> \<not> unat b < 64 \<and> m = ''shift count out of range''"
  unfolding arithPrim_ints arithInt_def shift_count_range
  by (cases op) (auto split: punct.splits if_splits)

text \<open>
  Where the integer operators leave what C++ defines: a sum, difference or product outside the 64-bit
  range, and the least integer divided by (or taken modulo) -1. Every other operation on integers has a
  result or raises.
\<close>

lemma arithPrim_int_undefined:
  "arithPrim n fp h op (vint a) (vint b) = RUndef \<longleftrightarrow>
     op = TkPunct PPlus \<and> overflows (sint a + sint b) \<or>
     op = TkPunct PMinus \<and> overflows (sint a - sint b) \<or>
     op = TkPunct PStar \<and> overflows (sint a * sint b) \<or>
     op \<in> {TkPunct PSlash, TkPunct PPercent} \<and> sint a = - (2 ^ 63) \<and> sint b = - 1"
proof -
  have nz: "sint b = - 1 \<Longrightarrow> b \<noteq> 0" by auto
  show ?thesis
  proof (cases op)
    case (TkPunct p)
    show ?thesis unfolding arithPrim_ints arithInt_def TkPunct using overflows_sdiv [of b a] nz
      by (cases p) (auto split: if_splits)
  qed (simp_all add: arithPrim_ints arithInt_def)
qed

text \<open>
  Integer division truncates toward zero and the remainder completes it: when both return, quotient
  times divisor plus remainder is the dividend, and the remainder is smaller than the divisor and never
  of the sign opposite to the dividend.
\<close>

lemma arithPrim_div_mod:
  assumes "arithPrim n fp h (TkPunct PSlash) (vint a) (vint b) = RVal q"
    and "arithPrim n fp h (TkPunct PPercent) (vint a) (vint b) = RVal r"
  shows "v_kind q = KInt \<and> v_kind r = KInt \<and>
    sint (v_i q) * sint b + sint (v_i r) = sint a \<and>
    \<bar>sint (v_i r)\<bar> < \<bar>sint b\<bar> \<and> 0 \<le> sint a * sint (v_i r)"
proof -
  have nz: "sint b \<noteq> 0" and q: "signed_result (sint a sdiv sint b) = RVal q"
    and r: "r = vint (word_of_int (sint a smod sint b))"
    using assms by (auto simp: arithPrim_ints arithInt_def dest: sint_nonzero split: if_splits)
  have "sint (word_of_int (sint a smod sint b) :: 64 word) = sint a smod sint b"
    using smod_bounds [OF nz, of "sint a"] sint_range_64 [of b] by (intro sint_vint_result) auto
  then show ?thesis using signed_result_RVal [OF q] smod_bounds [OF nz, of "sint a"] r
    by (simp add: vint_def vvoid_def sdiv_mult_smod_eq)
qed

lemma arithPrim_div_mod_witness:
  "\<exists>fp h. sint (- 3 :: 64 word) * sint (2 :: 64 word) + sint (- 1 :: 64 word) = sint (- 7 :: 64 word) \<and>
     arithPrim 0 fp h (TkPunct PSlash) (vint (- 7)) (vint 2) = RVal (vint (- 3))"
proof -
  fix fp h
  have d: "arithInt (TkPunct PSlash) (- 7) 2 = RVal (vint (- 3))"
    "arithInt (TkPunct PPercent) (- 7) 2 = RVal (vint (- 1))" by code_simp+
  then have "arithPrim 0 fp h (TkPunct PSlash) (vint (- 7)) (vint 2) = RVal (vint (- 3))"
    "arithPrim 0 fp h (TkPunct PPercent) (vint (- 7)) (vint 2) = RVal (vint (- 1))"
    by (simp_all only: arithPrim_ints)
  from this arithPrim_div_mod [OF this] show ?thesis by (auto simp: vint_def)
qed

section \<open>Kinds\<close>

text \<open>The kind of a primitive operation's result, from the operator and the kinds of its operands.\<close>

definition eq_op :: "token_kind \<Rightarrow> bool" where "eq_op op \<longleftrightarrow> op \<in> {TkPunct PEqEq, TkPunct PBangEq}"
definition rel_op :: "token_kind \<Rightarrow> bool" where
  "rel_op op \<longleftrightarrow> op \<in> {TkPunct PLt, TkPunct PGt, TkPunct PLe, TkPunct PGe}"
definition arith_op :: "token_kind \<Rightarrow> bool" where
  "arith_op op \<longleftrightarrow> op \<in> {TkPunct PPlus, TkPunct PMinus, TkPunct PStar, TkPunct PSlash}"
definition bit_op :: "token_kind \<Rightarrow> bool" where
  "bit_op op \<longleftrightarrow> op \<in> {TkPunct PPercent, TkPunct PPipe, TkPunct PAmp, TkPunct PCaret, TkPunct PLtLt, TkPunct PGtGt}"

definition result_kind :: "token_kind \<Rightarrow> vkind \<Rightarrow> vkind \<Rightarrow> vkind" where
  "result_kind op lk rk =
     (if eq_op op then KBool
      else if lk = KNone \<or> rk = KNone then if rel_op op then KBool else KVoid
      else if lk = rk \<and> lk \<in> {KBool, KBlock} then KVoid
      else if rel_op op then KBool
      else if lk = KChar \<and> rk = KChar then KVoid
      else if op = TkPunct PPlus \<and> (lk = KString \<or> rk = KString) then KString
      else if lk = KFloat \<and> rk \<in> {KFloat, KInt} \<or> rk = KFloat \<and> lk = KInt then if arith_op op then KFloat else KVoid
      else if arith_op op \<or> bit_op op then KInt else KVoid)"

lemma arithInt_kind:
  "arithInt op a b = RVal v \<Longrightarrow>
   v_kind v = (if eq_op op \<or> rel_op op then KBool else if arith_op op \<or> bit_op op then KInt else KVoid)"
  unfolding arithInt_def eq_op_def rel_op_def arith_op_def bit_op_def
  by (cases op) (auto simp: signed_result_def value_defs split: punct.splits if_splits)

lemma arithFloat_kind:
  "arithFloat fp op a b = RVal v \<Longrightarrow>
   v_kind v = (if eq_op op \<or> rel_op op then KBool else if arith_op op then KFloat else KVoid)"
  unfolding arithFloat_def eq_op_def rel_op_def arith_op_def
  by (cases op) (auto simp: value_defs split: punct.splits)

lemma compared_kind:
  "compared op eq lt = Some r \<Longrightarrow> (eq_op op \<or> rel_op op) \<and> (\<exists>b. r = RVal (vbool b))"
  "compared op eq lt = None \<longleftrightarrow> \<not> eq_op op \<and> \<not> rel_op op"
  unfolding compared_def compare_ops_def eq_op_def rel_op_def
  by (cases op; auto split: punct.splits)+

lemma value_kinds [simp]:
  "v_kind vvoid = KVoid" "v_kind (vint i) = KInt" "v_kind (vchar i) = KChar" "v_kind (vbool b) = KBool"
  "v_kind (vfloat f) = KFloat" "v_kind (vstr s) = KString" "v_kind vnone = KNone"
  by (simp_all add: value_defs)

lemma eq_compared_kind: "eq_compared op x = RVal v \<Longrightarrow> v_kind v = (if eq_op op then KBool else KVoid)"
  by (auto simp: eq_compared_def eq_op_def)

lemma or_void_kind:
  "or_void (compared op x y) = RVal v \<Longrightarrow> v_kind v = (if eq_op op \<or> rel_op op then KBool else KVoid)"
  by (cases "compared op x y") (auto simp: or_void_def dest!: compared_kind(1) simp: compared_kind(2))

lemma arithPrim_kind_same:
  assumes "arithPrim n fp h op l r = RVal v" and "v_kind l = v_kind r" and "v_kind l \<in> {KBool, KBlock, KChar}"
  shows "v_kind v = result_kind op (v_kind l) (v_kind r)"
proof -
  consider "v_kind l = KBool" "v_kind r = KBool" | "v_kind l = KBlock" "v_kind r = KBlock"
    | "v_kind l = KChar" "v_kind r = KChar" using assms(2,3) by auto
  then show ?thesis
  proof cases
    case 1
    then have "eq_compared op (v_b l = v_b r) = RVal v" using assms(1) by (simp add: arithPrim_def Let_def)
    then show ?thesis using eq_compared_kind 1 by (simp add: result_kind_def)
  next
    case 2
    then have "eq_compared op (v_block l = v_block r) = RVal v" using assms(1) by (simp add: arithPrim_def Let_def)
    then show ?thesis using eq_compared_kind 2 by (simp add: result_kind_def)
  next
    case 3
    then have "or_void (compared op (v_i l = v_i r) (sint (v_i l) < sint (v_i r))) = RVal v"
      using assms(1) by (simp add: arithPrim_def Let_def)
    then show ?thesis using or_void_kind 3 by (simp add: result_kind_def)
  qed
qed

text \<open>
  C38. The kind of every result is determined by the operator and the operands' kinds: equality always
  answers a Bool, a relational operator a Bool except on two Bools or two Blocks, \<open>+\<close> with a string is a
  String, mixed int and float arithmetic a Float, and the rest an Int or the void value.
\<close>

theorem arithPrim_kind:
  assumes "arithPrim n fp h op l r = RVal v"
  shows "v_kind v = result_kind op (v_kind l) (v_kind r)"
proof -
  have ops: "\<not> (eq_op op \<and> rel_op op)" "\<not> eq_op (TkPunct PPlus)" "\<not> rel_op (TkPunct PPlus)"
    by (auto simp: eq_op_def rel_op_def)
  show ?thesis
  proof (cases "v_kind l = KNone \<or> v_kind r = KNone")
    case True
    then show ?thesis using assms
      by (auto simp: arithPrim_def result_kind_def eq_op_def rel_op_def split: if_splits)
  next
    case None: False
    let ?rest = "if float_operands l r then
           arithFloat fp op (if v_kind l = KFloat then v_f l else fp_of_int fp (v_i l))
             (if v_kind r = KFloat then v_f r else fp_of_int fp (v_i r))
         else arithInt op (v_i l) (v_i r)"
    have rest: "?rest = RVal v \<Longrightarrow> v_kind v =
        (if eq_op op \<or> rel_op op then KBool else if float_operands l r then if arith_op op then KFloat else KVoid
         else if arith_op op \<or> bit_op op then KInt else KVoid)"
      using arithInt_kind [of op _ _ v] arithFloat_kind [of fp op _ _ v] by (simp split: if_splits)
    show ?thesis
    proof (cases "v_kind l = v_kind r \<and> v_kind l \<in> {KBool, KBlock, KChar}")
      case True
      then show ?thesis by (intro arithPrim_kind_same [OF assms]) blast+
    next
      case other: False
      then have no: "(v_kind l = KBool \<and> v_kind r = KBool) = False" "(v_kind l = KBlock \<and> v_kind r = KBlock) = False"
        "(v_kind l = KChar \<and> v_kind r = KChar) = False" "(v_kind l = KNone \<or> v_kind r = KNone) = False"
        using None by auto
      show ?thesis
      proof (cases "v_kind l = KString \<or> v_kind r = KString")
        case True
        have nf: "\<not> float_operands l r" using True by (auto simp: float_operands_def)
        have "(if op = TkPunct PPlus then
              (case (valueToString n fp h l, valueToString n fp h r) of
                 (Some x, Some y) \<Rightarrow> RVal (vstr (x @ y)) | _ \<Rightarrow> RDeep)
            else case compared op (v_s l = v_s r) (v_s l < v_s r) of Some x \<Rightarrow> x | None \<Rightarrow> ?rest) = RVal v"
          using assms True unfolding arithPrim_def Let_def no if_False by (simp only: if_True)
        then have "v_kind v = (if op = TkPunct PPlus then KString
            else if eq_op op \<or> rel_op op then KBool else if arith_op op \<or> bit_op op then KInt else KVoid)"
          using rest nf by (auto split: if_splits option.splits dest!: compared_kind(1))
        with None other True nf ops show ?thesis by (auto simp: result_kind_def float_operands_def)
      next
        case False
        then have "?rest = RVal v" using assms unfolding arithPrim_def Let_def no if_False by (simp only: if_False)
        with None other False show ?thesis using rest
          by (auto simp: result_kind_def float_operands_def)
      qed
    qed
  qed
qed

theorem arithPrim_kind_witness:
  "\<exists>fp h v. arithPrim 0 fp h (TkPunct PPlus) (vstr ''n = '') (vint 5) = RVal v \<and> v_kind v = KString"
proof -
  fix fp h
  have "valueToString 0 fp h (vstr ''n = '') = Some ''n = ''"
    "valueToString 0 fp h (vint 5) = Some (int64_str 5)"
    by (simp_all add: valueToString.simps [of 0] value_defs)
  then have "arithPrim 0 fp h (TkPunct PPlus) (vstr ''n = '') (vint 5) = RVal (vstr (''n = '' @ int64_str 5))"
    by (simp add: arithPrim_def)
  note r = this
  have "v_kind (vstr (''n = '' @ int64_str 5)) = KString"
    using arithPrim_kind [OF r] by (simp add: result_kind_def eq_op_def rel_op_def)
  with r show ?thesis by blast
qed

end
