(* ===== verification/Ir.thy ===== *)
theory Ir
  imports Runtime_Value
begin

text \<open>
  The bytecode IR of \<open>src/ir/Ir.hpp\<close>: the instruction set, functions and modules, with the fields the
  sources have (pointers into the semantic model are identifiers), and \<open>computeFnGlobalRefs\<close>, the
  memoized walk that gives each function the global slots it references through the closures it
  creates.
\<close>

section \<open>The instruction set\<close>

datatype (plugins only: code size) op =
    OpLoadConst | OpDefault | OpMove | OpMoveClear | OpCopyVal | OpArith | OpNot | OpNeg
  | OpJump | OpJumpIfFalse | OpJumpIfTrue | OpRet | OpRetVoid | OpThrow
  | OpCall | OpCallDyn | OpCallValue | OpCallNativeFn
  | OpNewObject | OpGetMember | OpSetMember | OpRawGet | OpRawSet | OpRawGetWeak | OpRawSetWeak
  | OpNewArray | OpNewArraySized | OpNewMap | OpNewBlock | OpNewBlockStr | OpMakeRange
  | OpGetIndex | OpIndexStore | OpIterLen | OpIterAt | OpColGet | OpIsType | OpAwait
  | OpLoadGlobal | OpStoreGlobal | OpMakeClosure | OpCaptureVar | OpLoadCapture
  | OpPrint | OpPrintNl | OpVFree

text \<open>A statement pointer is an identifier.\<close>

type_synonym decl = nat

record inst =
  in_op :: op
  in_a :: int
  in_b :: int
  in_c :: int
  in_d :: int
  in_tk :: token_kind
  in_sname :: string
  in_sym :: "class_sym option"
  in_decl :: "decl option"

definition inst0 :: "op \<Rightarrow> inst" where
  "inst0 o1 = \<lparr>in_op = o1, in_a = 0, in_b = 0, in_c = 0, in_d = 0, in_tk = TkEnd, in_sname = [],
     in_sym = None, in_decl = None\<rparr>"

record handler =
  hd_start :: int
  hd_end :: int
  hd_handlerPc :: int
  hd_bindReg :: int
  hd_type :: "class_sym option"

record ir_function =
  fn_name :: string
  fn_nparams :: nat
  fn_hasThis :: bool
  fn_nregs :: nat
  fn_code :: "inst list"
  fn_consts :: "rt_value list"
  fn_handlers :: "handler list"

record ir_module =
  md_functions :: "ir_function list"
  md_byDecl :: "decl \<rightharpoonup> int"
  md_initByClass :: "nat \<rightharpoonup> int"
  md_entry :: int
  md_ginit :: int
  md_nglobals :: int
  md_globalIndex :: "string \<rightharpoonup> int"
  md_columnar :: bool

section \<open>Global references of a function\<close>

datatype visit_state = Unvisited | InProgress | Done

record gr_state =
  gr_refs :: "int list list"
  gr_state :: "visit_state list"

text \<open>\<open>fuel\<close> bounds the nesting of \<open>visit\<close>; each nested call marks one more function, so the number of
  functions is enough.\<close>

fun gr_visit :: "nat \<Rightarrow> ir_module \<Rightarrow> nat \<Rightarrow> gr_state \<Rightarrow> gr_state option"
  and gr_code :: "nat \<Rightarrow> ir_module \<Rightarrow> inst list \<Rightarrow> int list \<Rightarrow> gr_state \<Rightarrow> (int list \<times> gr_state) option" where
  "gr_visit fuel m fi st =
     (if gr_state st ! fi \<noteq> Unvisited then Some st
      else case fuel of
        0 \<Rightarrow> None
      | Suc f \<Rightarrow>
          (case gr_code f m (fn_code (md_functions m ! fi)) [] (st\<lparr>gr_state := (gr_state st)[fi := InProgress]\<rparr>) of
             None \<Rightarrow> None
           | Some (slots, st') \<Rightarrow>
               Some (st'\<lparr>gr_refs := (gr_refs st')[fi := remdups (sort slots)], gr_state := (gr_state st')[fi := Done]\<rparr>)))"
| "gr_code fuel m [] slots st = Some (slots, st)"
| "gr_code fuel m (i # is) slots st =
     (if in_op i = OpLoadGlobal \<or> in_op i = OpStoreGlobal then gr_code fuel m is (slots @ [in_b i]) st
      else if in_op i = OpMakeClosure \<and> 0 \<le> in_b i \<and> nat (in_b i) < length (md_functions m) then
        (case gr_visit fuel m (nat (in_b i)) st of
           None \<Rightarrow> None
         | Some st' \<Rightarrow> gr_code fuel m is (slots @ gr_refs st' ! nat (in_b i)) st')
      else gr_code fuel m is slots st)"

fun gr_all :: "nat \<Rightarrow> ir_module \<Rightarrow> nat list \<Rightarrow> gr_state \<Rightarrow> gr_state option" where
  "gr_all fuel m [] st = Some st"
| "gr_all fuel m (i # is) st = (case gr_visit fuel m i st of None \<Rightarrow> None | Some st' \<Rightarrow> gr_all fuel m is st')"

definition computeFnGlobalRefs :: "ir_module \<Rightarrow> int list list option" where
  "computeFnGlobalRefs m =
     (let n = length (md_functions m)
      in map_option gr_refs (gr_all n m [0..<n] \<lparr>gr_refs = replicate n [], gr_state = replicate n Unvisited\<rparr>))"

declare gr_visit.simps [simp del]

subsection \<open>What it computes\<close>

text \<open>\<open>f\<close> creates a closure of \<open>g\<close>; \<open>f\<close> itself reads or writes the slot \<open>s\<close>; and what a function
  references through the closures it creates.\<close>

definition creates :: "ir_module \<Rightarrow> (nat \<times> nat) set" where
  "creates m = {(f, g). f < length (md_functions m) \<and> g < length (md_functions m) \<and>
     (\<exists>i \<in> set (fn_code (md_functions m ! f)). in_op i = OpMakeClosure \<and> in_b i = int g)}"

definition own_slots :: "ir_module \<Rightarrow> nat \<Rightarrow> int set" where
  "own_slots m f = {in_b i |i. i \<in> set (fn_code (md_functions m ! f)) \<and> in_op i \<in> {OpLoadGlobal, OpStoreGlobal}}"

definition global_refs :: "ir_module \<Rightarrow> nat \<Rightarrow> int set" where
  "global_refs m f = (\<Union>g \<in> {g. (f, g) \<in> (creates m)\<^sup>*}. own_slots m g)"

lemma global_refs_unfold: "global_refs m f = own_slots m f \<union> (\<Union>g \<in> {g. (f, g) \<in> creates m}. global_refs m g)"
proof -
  have "(f, g) \<in> (creates m)\<^sup>* \<longleftrightarrow> f = g \<or> (\<exists>h. (f, h) \<in> creates m \<and> (h, g) \<in> (creates m)\<^sup>*)" for g
    by (metis converse_rtranclE converse_rtrancl_into_rtrancl rtrancl.rtrancl_refl)
  then show ?thesis unfolding global_refs_def by auto
qed

text \<open>The slots a piece of code contributes.\<close>

definition code_slots :: "ir_module \<Rightarrow> inst list \<Rightarrow> int set" where
  "code_slots m is =
     {in_b i |i. i \<in> set is \<and> in_op i \<in> {OpLoadGlobal, OpStoreGlobal}} \<union>
     (\<Union>i \<in> {i \<in> set is. in_op i = OpMakeClosure \<and> 0 \<le> in_b i \<and> nat (in_b i) < length (md_functions m)}.
        global_refs m (nat (in_b i)))"

lemma code_slots_fn:
  "f < length (md_functions m) \<Longrightarrow> code_slots m (fn_code (md_functions m ! f)) = global_refs m f"
  by (subst global_refs_unfold) (force simp: code_slots_def own_slots_def creates_def)

lemma code_slots_Nil [simp]: "code_slots m [] = {}"
  by (simp add: code_slots_def)

lemma code_slots_Cons:
  "code_slots m (i # is) =
     (if in_op i \<in> {OpLoadGlobal, OpStoreGlobal} then {in_b i}
      else if in_op i = OpMakeClosure \<and> 0 \<le> in_b i \<and> nat (in_b i) < length (md_functions m)
      then global_refs m (nat (in_b i)) else {}) \<union> code_slots m is"
  by (auto simp: code_slots_def)

subsection \<open>The walk\<close>

definition gr_inv :: "ir_module \<Rightarrow> gr_state \<Rightarrow> bool" where
  "gr_inv m st \<longleftrightarrow> length (gr_refs st) = length (md_functions m) \<and> length (gr_state st) = length (md_functions m) \<and>
     (\<forall>f < length (md_functions m). gr_state st ! f = Done \<longrightarrow>
        sorted_wrt (<) (gr_refs st ! f) \<and> set (gr_refs st ! f) = global_refs m f)"

definition in_progress :: "gr_state \<Rightarrow> nat set" where
  "in_progress st = {f. f < length (gr_state st) \<and> gr_state st ! f = InProgress}"

definition unvisited :: "gr_state \<Rightarrow> nat set" where
  "unvisited st = {f. f < length (gr_state st) \<and> gr_state st ! f = Unvisited}"

lemma finite_unvisited [simp]: "finite (unvisited st)"
  by (simp add: unvisited_def)

text \<open>What a visit keeps: the invariant and the functions in progress; done functions stay done.\<close>

definition gr_step_ok :: "ir_module \<Rightarrow> gr_state \<Rightarrow> gr_state \<Rightarrow> bool" where
  "gr_step_ok m st st' \<longleftrightarrow> gr_inv m st' \<and> in_progress st' = in_progress st \<and> unvisited st' \<subseteq> unvisited st \<and>
     length (gr_state st') = length (gr_state st) \<and>
     (\<forall>f < length (gr_state st). gr_state st ! f = Done \<longrightarrow> gr_state st' ! f = Done)"

lemma gr_step_ok_trans: "gr_step_ok m s1 s2 \<Longrightarrow> gr_step_ok m s2 s3 \<Longrightarrow> gr_step_ok m s1 s3"
  by (auto simp: gr_step_ok_def)

lemma gr_step_ok_refl: "gr_inv m st \<Longrightarrow> gr_step_ok m st st"
  by (simp add: gr_step_ok_def)

text \<open>Entering a function and leaving it.\<close>

lemma gr_enter:
  assumes "gr_inv m st" and "fi < length (md_functions m)" and "gr_state st ! fi = Unvisited"
  defines "st1 \<equiv> st\<lparr>gr_state := (gr_state st)[fi := InProgress]\<rparr>"
  shows "gr_inv m st1" and "in_progress st1 = insert fi (in_progress st)" and "unvisited st1 = unvisited st - {fi}"
    and "fi \<in> unvisited st"
  using assms by (auto simp: gr_inv_def in_progress_def unvisited_def nth_list_update)

lemma gr_leave:
  assumes inv: "gr_inv m st" and fi: "fi < length (md_functions m)" "gr_state st ! fi = Unvisited"
    and ok: "gr_step_ok m (st\<lparr>gr_state := (gr_state st)[fi := InProgress]\<rparr>) st2"
    and slots: "set slots = global_refs m fi"
  defines "st' \<equiv> st2\<lparr>gr_refs := (gr_refs st2)[fi := remdups (sort slots)], gr_state := (gr_state st2)[fi := Done]\<rparr>"
  shows "gr_step_ok m st st'" and "gr_state st' ! fi = Done"
proof -
  have len: "length (gr_state st2) = length (md_functions m)" "length (gr_refs st2) = length (md_functions m)"
    and inv2: "gr_inv m st2" using ok inv by (auto simp: gr_step_ok_def gr_inv_def)
  have s: "sorted_wrt (<) (remdups (sort slots))" by (simp add: strict_sorted_iff sorted_remdups)
  have "gr_inv m st'" using inv2 s slots len fi by (auto simp: gr_inv_def st'_def nth_list_update)
  moreover have "in_progress st' = in_progress st2 - {fi}"
    using len fi by (auto simp: in_progress_def st'_def nth_list_update split: if_splits)
  moreover have "in_progress st2 = insert fi (in_progress st)" "unvisited st2 \<subseteq> unvisited st"
    using ok gr_enter [OF inv fi] by (auto simp: gr_step_ok_def)
  moreover have "fi \<notin> in_progress st" using fi by (simp add: in_progress_def)
  moreover have "unvisited st' \<subseteq> unvisited st2"
    using len fi by (auto simp: unvisited_def st'_def nth_list_update split: if_splits)
  ultimately show "gr_step_ok m st st'"
    using ok len inv fi
    by (auto simp: gr_step_ok_def st'_def nth_list_update gr_inv_def)
  show "gr_state st' ! fi = Done" using len fi by (simp add: st'_def)
qed

lemma gr_visit_code:
  shows "acyclic (creates m) \<Longrightarrow> gr_inv m st \<Longrightarrow> fi < length (md_functions m) \<Longrightarrow>
      \<forall>p \<in> in_progress st. (p, fi) \<in> (creates m)\<^sup>+ \<Longrightarrow> card (unvisited st) \<le> fuel \<Longrightarrow>
      \<exists>st'. gr_visit fuel m fi st = Some st' \<and> gr_step_ok m st st' \<and> gr_state st' ! fi = Done"
    and "acyclic (creates m) \<Longrightarrow> gr_inv m st \<Longrightarrow> fi < length (md_functions m) \<Longrightarrow>
      set is \<subseteq> set (fn_code (md_functions m ! fi)) \<Longrightarrow>
      \<forall>p \<in> in_progress st. (p, fi) \<in> (creates m)\<^sup>* \<Longrightarrow> card (unvisited st) \<le> fuel \<Longrightarrow>
      \<exists>slots' st'. gr_code fuel m is slots st = Some (slots', st') \<and> gr_step_ok m st st' \<and>
        set slots' = set slots \<union> code_slots m is"
proof (induction fuel m fi st and fuel m "is" slots st arbitrary: and fi rule: gr_visit_gr_code.induct)
  case (1 fuel m fi st)
  show ?case
  proof (cases "gr_state st ! fi")
    case Unvisited
    note enter = gr_enter [OF 1(3,4) Unvisited]
    let ?st1 = "st\<lparr>gr_state := (gr_state st)[fi := InProgress]\<rparr>"
    have pos: "0 < card (unvisited st)" using enter(4) card_gt_0_iff finite_unvisited by blast
    then obtain f where f: "fuel = Suc f" using 1(6) by (cases fuel) auto
    have c: "card (unvisited ?st1) \<le> f" using 1(6) enter(3,4) f pos by simp
    have p: "\<forall>p \<in> in_progress ?st1. (p, fi) \<in> (creates m)\<^sup>*" using 1(5) enter(2) by (auto simp: trancl_into_rtrancl)
    obtain slots st2 where r: "gr_code f m (fn_code (md_functions m ! fi)) [] ?st1 = Some (slots, st2)"
      "gr_step_ok m ?st1 st2" "set slots = global_refs m fi"
      using 1(1) [OF _ f 1(2) enter(1) 1(4) subset_refl p c] Unvisited code_slots_fn [OF 1(4)] by auto
    show ?thesis using gr_leave [OF 1(3,4) Unvisited r(2,3)] r(1) f Unvisited
      by (simp add: gr_visit.simps)
  next
    case InProgress
    then have "(fi, fi) \<in> (creates m)\<^sup>+" using 1(3-5) by (auto simp: in_progress_def gr_inv_def)
    with 1(2) show ?thesis by (simp add: acyclic_def)
  next
    case Done
    then show ?thesis using 1(3) by (simp add: gr_visit.simps gr_step_ok_refl)
  qed
next
  case (2 fuel m slots st)
  then show ?case by (simp add: gr_step_ok_refl)
next
  case (3 fuel m i "is" slots st)
  have sub: "set is \<subseteq> set (fn_code (md_functions m ! fi))" using 3(8) by simp
  show ?case
  proof (cases "in_op i \<in> {OpLoadGlobal, OpStoreGlobal}")
    case True
    then show ?thesis using 3(1) [OF _ 3(5-7) sub 3(9,10)] by (auto simp: code_slots_Cons)
  next
    case no: False
    show ?thesis
    proof (cases "in_op i = OpMakeClosure \<and> 0 \<le> in_b i \<and> nat (in_b i) < length (md_functions m)")
      case True
      let ?g = "nat (in_b i)"
      have e: "(fi, ?g) \<in> creates m" using True 3(7,8) by (auto simp: creates_def)
      then have p: "\<forall>p \<in> in_progress st. (p, ?g) \<in> (creates m)\<^sup>+" using 3(9) by (meson rtrancl_into_trancl1)
      obtain st1 where v: "gr_visit fuel m ?g st = Some st1" "gr_step_ok m st st1" "gr_state st1 ! ?g = Done"
        using 3(2) [OF _ True 3(5,6) _ p 3(10)] no True by auto
      have st1: "gr_inv m st1" "\<forall>p \<in> in_progress st1. (p, fi) \<in> (creates m)\<^sup>*" "card (unvisited st1) \<le> fuel"
        using v(2) 3(9,10) card_mono [OF finite_unvisited, of "unvisited st1" st] by (auto simp: gr_step_ok_def)
      have g: "set (gr_refs st1 ! ?g) = global_refs m ?g" using st1(1) v(3) True by (auto simp: gr_inv_def)
      show ?thesis using 3(3) [OF _ True v(1) 3(5) st1(1) 3(7) sub st1(2,3)] no True v g
        by (auto simp: code_slots_Cons intro: gr_step_ok_trans)
    next
      case False
      show ?thesis using 3(4) [OF _ False 3(5-7) sub 3(9,10)] no False by (auto simp: code_slots_Cons)
    qed
  qed
qed

lemma gr_all_correct:
  assumes "acyclic (creates m)"
  shows "gr_inv m st \<Longrightarrow> set is \<subseteq> {..<length (md_functions m)} \<Longrightarrow> in_progress st = {} \<Longrightarrow>
    card (unvisited st) \<le> fuel \<Longrightarrow>
    \<exists>st'. gr_all fuel m is st = Some st' \<and> gr_step_ok m st st' \<and> (\<forall>f \<in> set is. gr_state st' ! f = Done)"
proof (induction "is" arbitrary: st)
  case Nil
  then show ?case by (simp add: gr_step_ok_refl)
next
  case (Cons i "is")
  obtain st1 where v: "gr_visit fuel m i st = Some st1" "gr_step_ok m st st1" "gr_state st1 ! i = Done"
    using gr_visit_code(1) [OF assms Cons.prems(1), of i fuel] Cons.prems by auto
  then obtain st2 where w: "gr_all fuel m is st1 = Some st2" "gr_step_ok m st1 st2" "\<forall>f \<in> set is. gr_state st2 ! f = Done"
    using Cons.IH [of st1] Cons.prems card_mono [OF finite_unvisited, of "unvisited st1" st]
    by (auto simp: gr_step_ok_def)
  have "gr_state st2 ! i = Done" using v w Cons.prems by (auto simp: gr_step_ok_def gr_inv_def)
  with v w show ?case by (auto intro: gr_step_ok_trans)
qed

text \<open>
  C25. The memoized walk terminates and gives every function the strictly increasing list of exactly the
  global slots that the function, or a function whose closure it creates directly or transitively, reads
  or writes, when the closure-creation graph has no cycle.
\<close>

theorem computeFnGlobalRefs_correct:
  assumes "acyclic (creates m)"
  shows "\<exists>refs. computeFnGlobalRefs m = Some refs \<and> length refs = length (md_functions m) \<and>
    (\<forall>f < length (md_functions m). sorted_wrt (<) (refs ! f) \<and> set (refs ! f) = global_refs m f)"
proof -
  let ?n = "length (md_functions m)"
  let ?st = "\<lparr>gr_refs = replicate ?n [], gr_state = replicate ?n Unvisited\<rparr>"
  have "gr_inv m ?st" "in_progress ?st = {}" "unvisited ?st = {..<?n}"
    by (auto simp: gr_inv_def in_progress_def unvisited_def)
  then obtain st' where "gr_all ?n m [0..<?n] ?st = Some st'" "gr_step_ok m ?st st'" "\<forall>f < ?n. gr_state st' ! f = Done"
    using gr_all_correct [OF assms, of ?st "[0..<?n]" ?n] by (auto simp: lessThan_atLeast0)
  then show ?thesis by (auto simp: computeFnGlobalRefs_def Let_def gr_step_ok_def gr_inv_def)
qed

text \<open>Functions and modules for the examples.\<close>

definition mk_fn :: "nat \<Rightarrow> nat \<Rightarrow> inst list \<Rightarrow> ir_function" where
  "mk_fn np nr c = \<lparr>fn_name = [], fn_nparams = np, fn_hasThis = False, fn_nregs = nr, fn_code = c,
     fn_consts = [], fn_handlers = []\<rparr>"

definition mk_module :: "ir_function list \<Rightarrow> ir_module" where
  "mk_module fs = \<lparr>md_functions = fs, md_byDecl = Map.empty, md_initByClass = Map.empty, md_entry = 0,
     md_ginit = - 1, md_nglobals = 8, md_globalIndex = Map.empty, md_columnar = False\<rparr>"

theorem computeFnGlobalRefs_correct_witness:
  "\<exists>m. computeFnGlobalRefs m = Some [[2, 4], [2]] \<and> global_refs m 0 = {2, 4}"
proof -
  let ?m = "mk_module [mk_fn 0 1 [(inst0 OpMakeClosure)\<lparr>in_b := 1\<rparr>, (inst0 OpLoadGlobal)\<lparr>in_b := 4\<rparr>],
                       mk_fn 0 1 [(inst0 OpStoreGlobal)\<lparr>in_b := 2\<rparr>]]"
  have c: "creates ?m \<subseteq> {(x, y). x < y}"
    by (auto simp: creates_def inst0_def mk_module_def mk_fn_def nth_Cons split: nat.splits)
  have "acyclic (creates ?m)" by (rule acyclic_subset [OF wf_acyclic [OF wf_less] c])
  then obtain refs where r: "computeFnGlobalRefs ?m = Some refs" "set (refs ! 0) = global_refs ?m 0"
    using computeFnGlobalRefs_correct [of ?m] by (auto simp: mk_module_def)
  moreover have e: "computeFnGlobalRefs ?m = Some [[2, 4], [2]]" by code_simp
  ultimately have "refs = [[2, 4], [2]]" by simp
  with r e show ?thesis by auto
qed

end
