(* ===== verification/Ownership.thy ===== *)
theory Ownership
  imports Ir "HOL-Library.While_Combinator"
begin

text \<open>
  The escape analysis of \<open>src/ir/Ownership.cpp\<close>. A site is the position of an allocating instruction, or
  \<open>-(p+1)\<close> for the parameter \<open>p\<close>; the analysis keeps a set of sites per register, the escape reason of
  each site, and for every function whether each parameter escapes and whether it may be returned.
  \<open>analyzeFn\<close> is the local fixpoint (a \<open>while\<close> loop, whose termination is proved) and the pass over the
  sinks; \<open>analyzeOwnership\<close> repeats it over all functions for at most 32 rounds. A register index outside
  the register file, which the source leaves undefined, reads as the empty set.
\<close>

section \<open>Allocations and natives\<close>

definition isAlloc :: "op \<Rightarrow> bool" where
  "isAlloc o1 \<longleftrightarrow> o1 \<in> {OpNewObject, OpNewArray, OpNewArraySized, OpNewMap, OpMakeRange, OpMakeClosure}"

definition cvAlloc :: "inst \<Rightarrow> bool" where
  "cvAlloc i \<longleftrightarrow> in_op i = OpCopyVal \<and> in_c i = 1"

definition value_struct :: "inst \<Rightarrow> bool" where
  "value_struct i \<longleftrightarrow>
     cvAlloc i \<or> (in_op i = OpNewObject \<and> (case in_sym i of None \<Rightarrow> False | Some c \<Rightarrow> cls_isValue c))"

record summary =
  paramEscapes :: "bool list"
  paramToRet :: "bool list"

record native_info =
  selfToResult :: bool
  argsToResult :: bool

definition nativeInfo :: "string \<Rightarrow> native_info option" where
  "nativeInfo name =
     (let plain = \<lparr>selfToResult = False, argsToResult = False\<rparr>
      in map_of
        [(''length'', plain), (''at'', plain), (''has'', plain), (''keys'', plain), (''values'', plain),
         (''isEmpty'', plain), (''contains'', plain), (''indexOf'', plain), (''toString'', plain),
         (''charAt'', plain), (''subStr'', plain), (''toUpper'', plain), (''toLower'', plain),
         (''trim'', plain), (''startsWith'', plain), (''endsWith'', plain),
         (''abs'', plain), (''max'', plain), (''min'', plain),
         (''add'', \<lparr>selfToResult = True, argsToResult = True\<rparr>),
         (''with'', \<lparr>selfToResult = True, argsToResult = True\<rparr>),
         (''without'', \<lparr>selfToResult = True, argsToResult = False\<rparr>)] name)"

section \<open>The state of the analysis of one function\<close>

type_synonym sites = "int set"

record an_state =
  an_regs :: "sites list"
  an_esc :: "int \<rightharpoonup> string"
  an_sums :: "summary list"
  an_summaryChanged :: bool
  an_changed :: bool

definition reg_at :: "sites list \<Rightarrow> int \<Rightarrow> sites" where
  "reg_at regs r = (if 0 \<le> r \<and> nat r < length regs then regs ! nat r else {})"

text \<open>The parameter \<open>p\<close> of the function \<open>g\<close> escapes, or may be returned, by the summaries.\<close>

definition pe_at :: "summary list \<Rightarrow> int \<Rightarrow> nat \<Rightarrow> bool" where
  "pe_at sums g p \<longleftrightarrow> 0 \<le> g \<and> nat g < length sums \<and> p < length (paramEscapes (sums ! nat g)) \<and>
     paramEscapes (sums ! nat g) ! p"

definition pr_at :: "summary list \<Rightarrow> int \<Rightarrow> nat \<Rightarrow> bool" where
  "pr_at sums g p \<longleftrightarrow> 0 \<le> g \<and> nat g < length sums \<and> p < length (paramToRet (sums ! nat g)) \<and>
     paramToRet (sums ! nat g) ! p"

text \<open>Marking the parameters among a set of sites.\<close>

definition mark :: "sites \<Rightarrow> bool list \<Rightarrow> bool list" where
  "mark s bs = map (\<lambda>(p, b). b \<or> - (int p + 1) \<in> s) (enumerate 0 bs)"

definition mark_esc :: "sites \<Rightarrow> string \<Rightarrow> (int \<rightharpoonup> string) \<Rightarrow> (int \<rightharpoonup> string)" where
  "mark_esc s why esc = (\<lambda>id. if 0 \<le> id \<and> id \<in> s \<and> esc id = None then Some why else esc id)"

definition escapeSet :: "nat \<Rightarrow> sites \<Rightarrow> string \<Rightarrow> an_state \<Rightarrow> an_state" where
  "escapeSet fi s why st =
     (let sum = an_sums st ! fi; pe = mark s (paramEscapes sum)
      in st\<lparr>an_esc := mark_esc s why (an_esc st),
            an_sums := (an_sums st)[fi := sum\<lparr>paramEscapes := pe\<rparr>],
            an_summaryChanged := an_summaryChanged st \<or> pe \<noteq> paramEscapes sum\<rparr>)"

text \<open>The source of a return: sites become \<open>returned to caller\<close>, parameters aliases of the result.\<close>

definition returnSet :: "nat \<Rightarrow> sites \<Rightarrow> an_state \<Rightarrow> an_state" where
  "returnSet fi s st =
     (let sum = an_sums st ! fi; pr = mark s (paramToRet sum)
      in st\<lparr>an_esc := mark_esc s ''returned to caller'' (an_esc st),
            an_sums := (an_sums st)[fi := sum\<lparr>paramToRet := pr\<rparr>],
            an_summaryChanged := an_summaryChanged st \<or> pr \<noteq> paramToRet sum\<rparr>)"

text \<open>The registers of a window that starts at \<open>base\<close>, one after another.\<close>

fun each_arg :: "(nat \<Rightarrow> an_state \<Rightarrow> an_state) \<Rightarrow> nat list \<Rightarrow> an_state \<Rightarrow> an_state" where
  "each_arg f [] st = st"
| "each_arg f (k # ks) st = each_arg f ks (f k st)"

definition escape_arg :: "nat \<Rightarrow> int \<Rightarrow> string \<Rightarrow> nat \<Rightarrow> an_state \<Rightarrow> an_state" where
  "escape_arg fi base why k st = escapeSet fi (reg_at (an_regs st) (base + int k)) why st"

text \<open>The arguments the callee \<open>g\<close> retains; its summary is read again for each argument.\<close>

definition retained_arg :: "nat \<Rightarrow> int \<Rightarrow> int \<Rightarrow> nat \<Rightarrow> an_state \<Rightarrow> an_state" where
  "retained_arg fi g base k st =
     (if pe_at (an_sums st) g k then escape_arg fi base ''passed to a retaining callee'' k st else st)"

definition callSinks :: "nat \<Rightarrow> int \<Rightarrow> int \<Rightarrow> int \<Rightarrow> an_state \<Rightarrow> sites \<times> an_state" where
  "callSinks fi g base argc st =
     ((\<Union>k \<in> set (filter (pr_at (an_sums st) g) [0..<nat argc]). reg_at (an_regs st) (base + int k)),
      each_arg (retained_arg fi g base) [0..<nat argc] st)"

definition argIsValueStruct :: "inst list \<Rightarrow> sites \<Rightarrow> bool" where
  "argIsValueStruct code s \<longleftrightarrow> s \<noteq> {} \<and> (\<forall>id \<in> s. 0 \<le> id \<and> value_struct (code ! nat id))"

definition merge :: "int \<Rightarrow> sites \<Rightarrow> an_state \<Rightarrow> an_state" where
  "merge r s st =
     (if 0 \<le> r \<and> nat r < length (an_regs st) \<and> \<not> s \<subseteq> an_regs st ! nat r
      then st\<lparr>an_regs := (an_regs st)[nat r := an_regs st ! nat r \<union> s], an_changed := True\<rparr>
      else st)"

section \<open>The local fixpoint\<close>

definition callee_of :: "ir_module \<Rightarrow> inst \<Rightarrow> int option" where
  "callee_of m i =
     (case in_decl i of
        None \<Rightarrow> None
      | Some d \<Rightarrow> (case md_byDecl m d of None \<Rightarrow> None | Some g \<Rightarrow> if 0 \<le> g then Some g else None))"

definition native_alias :: "inst list \<Rightarrow> native_info \<Rightarrow> inst \<Rightarrow> sites list \<Rightarrow> sites" where
  "native_alias code ni i regs =
     (if selfToResult ni then reg_at regs (in_c i) else {}) \<union>
     (if argsToResult ni
      then (\<Union>k \<in> set (filter (\<lambda>k. \<not> argIsValueStruct code (reg_at regs (in_c i + int k))) [1..<nat (in_d i)]).
              reg_at regs (in_c i + int k))
      else {})"

definition call_alias :: "nat \<Rightarrow> int \<Rightarrow> inst \<Rightarrow> an_state \<Rightarrow> an_state" where
  "call_alias fi g i st = (case callSinks fi g (in_c i) (in_d i) st of (alias, st') \<Rightarrow> merge (in_a i) alias st')"

definition alias_step :: "ir_module \<Rightarrow> nat \<Rightarrow> nat \<times> inst \<Rightarrow> an_state \<Rightarrow> an_state" where
  "alias_step m fi = (\<lambda>(pc, i) st.
     if isAlloc (in_op i) \<or> cvAlloc i then
       (let st1 = merge (in_a i) {int pc} st
        in if in_op i = OpNewArray
           then each_arg (\<lambda>k s. merge (in_a i) (reg_at (an_regs s) (in_c i + int k)) s) [0..<nat (in_d i)] st1
           else if in_op i = OpNewArraySized \<and> in_d i = 2
           then merge (in_a i) (reg_at (an_regs st1) (in_c i + 1)) st1
           else st1)
     else if in_op i \<in> {OpMove, OpMoveClear, OpCopyVal, OpIndexStore} then
       merge (in_a i) (reg_at (an_regs st) (in_b i)) st
     else if in_op i = OpCall then call_alias fi (in_b i) i st
     else if in_op i = OpCallDyn then
       (case callee_of m i of
          Some g \<Rightarrow> call_alias fi g i st
        | None \<Rightarrow>
            (case nativeInfo (in_sname i) of
               Some ni \<Rightarrow> merge (in_a i) (native_alias (fn_code (md_functions m ! fi)) ni i (an_regs st)) st
             | None \<Rightarrow> st))
     else st)"

definition alias_pass :: "ir_module \<Rightarrow> nat \<Rightarrow> an_state \<Rightarrow> an_state" where
  "alias_pass m fi st =
     fold (alias_step m fi) (enumerate 0 (fn_code (md_functions m ! fi))) (st\<lparr>an_changed := False\<rparr>)"

section \<open>The sinks\<close>

definition arith_sink :: "ir_module \<Rightarrow> nat \<Rightarrow> inst \<Rightarrow> an_state \<Rightarrow> an_state" where
  "arith_sink m fi i st =
     (case in_decl i of
        None \<Rightarrow>
          (if (reg_at (an_regs st) (in_b i) \<noteq> {} \<or> reg_at (an_regs st) (in_c i) \<noteq> {}) \<and> in_tk i \<noteq> TkEnd then
             escapeSet fi (reg_at (an_regs st) (in_c i)) ''operand of an unresolved operator''
               (escapeSet fi (reg_at (an_regs st) (in_b i)) ''operand of an unresolved operator'' st)
           else st)
      | Some d \<Rightarrow>
          (case md_byDecl m d of
             None \<Rightarrow> st
           | Some g \<Rightarrow>
               (let st1 = if pe_at (an_sums st) g 0
                          then escapeSet fi (reg_at (an_regs st) (in_b i)) ''passed to a retaining operator'' st else st
                in if pe_at (an_sums st1) g 1
                   then escapeSet fi (reg_at (an_regs st1) (in_c i)) ''passed to a retaining operator'' st1 else st1)))"

definition sink_step :: "ir_module \<Rightarrow> nat \<Rightarrow> inst \<Rightarrow> an_state \<Rightarrow> an_state" where
  "sink_step m fi i st =
     (let R = reg_at (an_regs st); args = [0..<nat (in_d i)]
      in if in_op i = OpRet then returnSet fi (R (in_a i)) st
         else if in_op i = OpThrow then escapeSet fi (R (in_a i)) ''thrown'' st
         else if in_op i = OpSetMember \<or> in_op i = OpRawSet then escapeSet fi (R (in_a i)) ''stored in an object'' st
         else if in_op i = OpIndexStore then escapeSet fi (R (in_d i)) ''stored by index'' st
         else if in_op i = OpCaptureVar then escapeSet fi (R (in_b i)) ''captured by a closure'' st
         else if in_op i = OpStoreGlobal then escapeSet fi (R (in_a i)) ''stored in a global'' st
         else if in_op i = OpCallNativeFn then each_arg (escape_arg fi (in_c i) ''passed to a native'') args st
         else if in_op i = OpCall then each_arg (retained_arg fi (in_b i) (in_c i)) args st
         else if in_op i = OpCallDyn then
           (case callee_of m i of
              Some g \<Rightarrow> each_arg (retained_arg fi g (in_c i)) args st
            | None \<Rightarrow>
                if nativeInfo (in_sname i) = None
                then each_arg (escape_arg fi (in_c i) ''passed to an unknown callee'') args st else st)
         else if in_op i = OpCallValue then
           each_arg (escape_arg fi (in_c i) ''passed through a function value'') args st
         else if in_op i = OpArith then arith_sink m fi i st
         else st)"

definition init_state :: "ir_function \<Rightarrow> summary list \<Rightarrow> an_state" where
  "init_state fn sums =
     \<lparr>an_regs = map (\<lambda>p. if p < fn_nparams fn then {- (int p + 1)} else {}) [0..<fn_nregs fn],
      an_esc = Map.empty, an_sums = sums, an_summaryChanged = False, an_changed = True\<rparr>"

definition analyzeFn :: "ir_module \<Rightarrow> nat \<Rightarrow> summary list \<Rightarrow> an_state option" where
  "analyzeFn m fi sums =
     (let fn = md_functions m ! fi
      in map_option (fold (sink_step m fi) (fn_code fn))
           (while_option an_changed (alias_pass m fi) (init_state fn sums)))"

section \<open>The interprocedural fixpoint\<close>

record analyzer =
  az_sums :: "summary list"
  az_siteEscape :: "(int \<rightharpoonup> string) list"

definition new_analyzer :: "ir_module \<Rightarrow> analyzer" where
  "new_analyzer m =
     \<lparr>az_sums = map (\<lambda>fn. \<lparr>paramEscapes = replicate (fn_nparams fn) False,
                            paramToRet = replicate (fn_nparams fn) False\<rparr>) (md_functions m),
      az_siteEscape = map (\<lambda>fn. Map.empty) (md_functions m)\<rparr>"

fun round_fns :: "ir_module \<Rightarrow> nat list \<Rightarrow> analyzer \<times> bool \<Rightarrow> (analyzer \<times> bool) option" where
  "round_fns m [] s = Some s"
| "round_fns m (fi # fis) (a, changed) =
     (case analyzeFn m fi (az_sums a) of
        None \<Rightarrow> None
      | Some st \<Rightarrow>
          round_fns m fis
            (\<lparr>az_sums = an_sums st, az_siteEscape = (az_siteEscape a)[fi := an_esc st]\<rparr>,
             changed \<or> an_summaryChanged st))"

definition analyze_round :: "ir_module \<Rightarrow> analyzer \<Rightarrow> (analyzer \<times> bool) option" where
  "analyze_round m a = round_fns m [0..<length (md_functions m)] (a, False)"

text \<open>The rounds left, and whether the last round changed a summary.\<close>

fun analyze_rounds :: "nat \<Rightarrow> ir_module \<Rightarrow> analyzer \<times> bool \<Rightarrow> (analyzer \<times> bool) option" where
  "analyze_rounds 0 m s = Some s"
| "analyze_rounds (Suc n) m (a, changed) =
     (if changed then
        (case analyze_round m a of None \<Rightarrow> None | Some s \<Rightarrow> analyze_rounds n m s)
      else Some (a, False))"

definition max_rounds :: nat where "max_rounds = 32"

record alloc_site =
  as_fn :: nat
  as_pc :: nat
  as_op :: op
  as_escapes :: bool
  as_reason :: string

record ownership_info =
  oi_sites :: "alloc_site list"
  oi_scopeOwned :: "(nat \<times> nat) set"

definition site_of :: "nat \<Rightarrow> (int \<rightharpoonup> string) \<Rightarrow> nat \<times> inst \<Rightarrow> alloc_site option" where
  "site_of fi esc = (\<lambda>(pc, i).
     if \<not> isAlloc (in_op i) \<and> \<not> cvAlloc i then None
     else
       let real_escape = (case esc (int pc) of None \<Rightarrow> False | Some why \<Rightarrow> take 8 why \<noteq> ''passed t'');
           own = (if value_struct i then \<not> real_escape else esc (int pc) = None)
       in Some \<lparr>as_fn = fi, as_pc = pc, as_op = in_op i, as_escapes = \<not> own,
                 as_reason = (if own then [] else the (esc (int pc)))\<rparr>)"

definition fn_sites :: "ir_module \<Rightarrow> analyzer \<Rightarrow> nat \<Rightarrow> alloc_site list" where
  "fn_sites m a fi =
     List.map_filter (site_of fi (az_siteEscape a ! fi)) (enumerate 0 (fn_code (md_functions m ! fi)))"

definition collect_sites :: "ir_module \<Rightarrow> analyzer \<Rightarrow> ownership_info" where
  "collect_sites m a =
     (let sites = concat (map (fn_sites m a) [0..<length (md_functions m)])
      in \<lparr>oi_sites = sites,
          oi_scopeOwned = set (map (\<lambda>s. (as_fn s, as_pc s)) (filter (\<lambda>s. \<not> as_escapes s) sites))\<rparr>)"

definition analyzeOwnership :: "ir_module \<Rightarrow> ownership_info option" where
  "analyzeOwnership m =
     map_option (collect_sites m \<circ> fst) (analyze_rounds max_rounds m (new_analyzer m, True))"

end
