(* ===== verification/Ownership_Solution.thy ===== *)
theory Ownership_Solution
  imports Ownership
begin

text \<open>
  What the escape analysis computes. The constraints it collects are stated as inductive predicates; every
  step of the analysis stays inside their least solution (soundness of each update), every step only grows
  the state (proved once for all steps in the locale \<open>an_invariant\<close>), the local loop terminates because the
  register sets have bounded room, and a round that changes no summary leaves a closed state, which
  contains the least solution. The properties of \<open>analyzeOwnership\<close> at the end combine them.
\<close>

section \<open>The constraint system\<close>

text \<open>The least solution the analysis is after, as inductive predicates: \<open>flow m f r z\<close>, the register \<open>r\<close>
  of \<open>f\<close> may hold the site \<open>z\<close>; \<open>sink m f r\<close>, \<open>f\<close> lets the value of \<open>r\<close> escape; \<open>pesc\<close> and \<open>to_ret\<close>, a
  parameter escapes or is returned.\<close>

abbreviation code_of :: "ir_module \<Rightarrow> nat \<Rightarrow> inst list" where
  "code_of m f \<equiv> fn_code (md_functions m ! f)"

definition reg_in :: "ir_module \<Rightarrow> nat \<Rightarrow> int \<Rightarrow> bool" where
  "reg_in m f r \<longleftrightarrow> 0 \<le> r \<and> nat r < fn_nregs (md_functions m ! f)"

definition window :: "inst \<Rightarrow> int set" where
  "window i = (\<lambda>k. in_c i + int k) ` {..<nat (in_d i)}"

definition call_target :: "ir_module \<Rightarrow> inst \<Rightarrow> int option" where
  "call_target m i =
     (if in_op i = OpCall then Some (in_b i) else if in_op i = OpCallDyn then callee_of m i else None)"

definition native_call :: "ir_module \<Rightarrow> inst \<Rightarrow> native_info option" where
  "native_call m i = (if in_op i = OpCallDyn \<and> callee_of m i = None then nativeInfo (in_sname i) else None)"

text \<open>The registers an instruction copies from whatever the summaries say.\<close>

definition alias_srcs :: "ir_module \<Rightarrow> inst \<Rightarrow> int set" where
  "alias_srcs m i =
     (if in_op i = OpNewArray then window i
      else if in_op i = OpNewArraySized \<and> in_d i = 2 then {in_c i + 1}
      else if in_op i \<in> {OpMove, OpMoveClear, OpIndexStore} \<or> in_op i = OpCopyVal \<and> \<not> cvAlloc i then {in_b i}
      else if (case native_call m i of None \<Rightarrow> False | Some ni \<Rightarrow> selfToResult ni) then {in_c i}
      else {})"

definition plain_sinks :: "ir_module \<Rightarrow> inst \<Rightarrow> int set" where
  "plain_sinks m i =
     (if in_op i \<in> {OpThrow, OpSetMember, OpRawSet, OpStoreGlobal} then {in_a i}
      else if in_op i = OpIndexStore then {in_d i}
      else if in_op i = OpCaptureVar then {in_b i}
      else if in_op i \<in> {OpCallNativeFn, OpCallValue} then window i
      else if in_op i = OpCallDyn \<and> callee_of m i = None \<and> nativeInfo (in_sname i) = None then window i
      else if in_op i = OpArith \<and> in_decl i = None \<and> in_tk i \<noteq> TkEnd then {in_b i, in_c i}
      else {})"

definition operator_target :: "ir_module \<Rightarrow> inst \<Rightarrow> int option" where
  "operator_target m i =
     (if in_op i = OpArith then (case in_decl i of None \<Rightarrow> None | Some d \<Rightarrow> md_byDecl m d) else None)"

text \<open>The sinks of an instruction, given which parameters escape.\<close>

definition sinks_by :: "ir_module \<Rightarrow> (int \<Rightarrow> nat \<Rightarrow> bool) \<Rightarrow> inst \<Rightarrow> int set" where
  "sinks_by m pe i =
     plain_sinks m i \<union>
     {in_c i + int k |k g. k < nat (in_d i) \<and> call_target m i = Some g \<and> pe g k} \<union>
     {r. \<exists>g. operator_target m i = Some g \<and> (r = in_b i \<and> pe g 0 \<or> r = in_c i \<and> pe g 1)}"

lemma sinks_by_mono [mono]:
  "(\<And>g p. pe g p \<longrightarrow> pe' g p) \<Longrightarrow> r \<in> sinks_by m pe i \<longrightarrow> r \<in> sinks_by m pe' i"
  unfolding sinks_by_def by blast

definition struct_site :: "ir_module \<Rightarrow> nat \<Rightarrow> int \<Rightarrow> bool" where
  "struct_site m f z \<longleftrightarrow> 0 \<le> z \<and> value_struct (code_of m f ! nat z)"

inductive flow :: "ir_module \<Rightarrow> nat \<Rightarrow> int \<Rightarrow> int \<Rightarrow> bool"
  and to_ret :: "ir_module \<Rightarrow> int \<Rightarrow> nat \<Rightarrow> bool"
  and pesc :: "ir_module \<Rightarrow> int \<Rightarrow> nat \<Rightarrow> bool" for m where
  flow_param: "\<lbrakk>f < length (md_functions m); p < fn_nparams (md_functions m ! f); p < fn_nregs (md_functions m ! f)\<rbrakk>
    \<Longrightarrow> flow m f (int p) (- (int p + 1))"
| flow_alloc: "\<lbrakk>f < length (md_functions m); pc < length (code_of m f); i = code_of m f ! pc;
    isAlloc (in_op i) \<or> cvAlloc i; reg_in m f (in_a i)\<rbrakk> \<Longrightarrow> flow m f (in_a i) (int pc)"
| flow_copy: "\<lbrakk>f < length (md_functions m); i \<in> set (code_of m f); r \<in> alias_srcs m i; reg_in m f (in_a i); flow m f r z\<rbrakk>
    \<Longrightarrow> flow m f (in_a i) z"
| flow_call: "\<lbrakk>f < length (md_functions m); i \<in> set (code_of m f); call_target m i = Some g; k < nat (in_d i);
    to_ret m g k; reg_in m f (in_a i); flow m f (in_c i + int k) z\<rbrakk> \<Longrightarrow> flow m f (in_a i) z"
| flow_native: "\<lbrakk>f < length (md_functions m); i \<in> set (code_of m f); native_call m i = Some ni; argsToResult ni;
    1 \<le> k; k < nat (in_d i); reg_in m f (in_a i); flow m f (in_c i + int k) z;
    flow m f (in_c i + int k) z'; \<not> struct_site m f z'\<rbrakk> \<Longrightarrow> flow m f (in_a i) z"
| to_ret: "\<lbrakk>f < length (md_functions m); i \<in> set (code_of m f); in_op i = OpRet; p < fn_nparams (md_functions m ! f);
    flow m f (in_a i) (- (int p + 1))\<rbrakk> \<Longrightarrow> to_ret m (int f) p"
| pesc: "\<lbrakk>f < length (md_functions m); i \<in> set (code_of m f); r \<in> sinks_by m (pesc m) i; p < fn_nparams (md_functions m ! f);
    flow m f r (- (int p + 1))\<rbrakk> \<Longrightarrow> pesc m (int f) p"

text \<open>An allocation escapes when a register that may hold it is returned or a sink.\<close>

definition escapes :: "ir_module \<Rightarrow> nat \<Rightarrow> int \<Rightarrow> bool" where
  "escapes m f z \<longleftrightarrow> f < length (md_functions m) \<and>
     (\<exists>i \<in> set (code_of m f). \<exists>r. (in_op i = OpRet \<and> r = in_a i \<or> r \<in> sinks_by m (pesc m) i) \<and> flow m f r z)"

lemma flow_sites:
  "flow m f r z \<Longrightarrow> - int (fn_nparams (md_functions m ! f)) \<le> z \<and> z < int (length (code_of m f)) \<and> reg_in m f r"
  "to_ret m g p \<Longrightarrow> True" "pesc m g p \<Longrightarrow> True"
  by (induction rule: flow_to_ret_pesc.inducts) (auto simp: reg_in_def)

section \<open>Every step is sound\<close>

definition shape :: "ir_module \<Rightarrow> summary list \<Rightarrow> bool" where
  "shape m sums \<longleftrightarrow> length sums = length (md_functions m) \<and>
     (\<forall>g < length sums. length (paramEscapes (sums ! g)) = fn_nparams (md_functions m ! g) \<and>
                         length (paramToRet (sums ! g)) = fn_nparams (md_functions m ! g))"

definition sums_sound :: "ir_module \<Rightarrow> summary list \<Rightarrow> bool" where
  "sums_sound m sums \<longleftrightarrow> shape m sums \<and> (\<forall>g p. pe_at sums g p \<longrightarrow> pesc m g p) \<and> (\<forall>g p. pr_at sums g p \<longrightarrow> to_ret m g p)"

definition an_sound :: "ir_module \<Rightarrow> nat \<Rightarrow> an_state \<Rightarrow> bool" where
  "an_sound m f st \<longleftrightarrow> sums_sound m (an_sums st) \<and>
     length (an_regs st) = fn_nregs (md_functions m ! f) \<and>
     (\<forall>r z. z \<in> reg_at (an_regs st) r \<longrightarrow> flow m f r z) \<and>
     (\<forall>z. an_esc st z \<noteq> None \<longrightarrow> escapes m f z)"

lemma length_mark [simp]: "length (mark s bs) = length bs"
  by (simp add: mark_def)

lemma nth_mark [simp]: "p < length bs \<Longrightarrow> mark s bs ! p \<longleftrightarrow> bs ! p \<or> - (int p + 1) \<in> s"
  by (simp add: mark_def nth_enumerate_eq)

lemma mark_eq_iff: "mark s bs = bs \<longleftrightarrow> (\<forall>p < length bs. - (int p + 1) \<in> s \<longrightarrow> bs ! p)"
  by (auto simp: list_eq_iff_nth_eq)

lemma reg_at_update:
  "reg_at (regs[nat r := s]) r' = (if 0 \<le> r \<and> nat r < length regs \<and> r = r' then s else reg_at regs r')" if "0 \<le> r"
  using that by (auto simp: reg_at_def nth_list_update eq_nat_nat_iff)

lemma reg_at_merge:
  "reg_at (an_regs (merge r s st)) r' =
     (if r' = r \<and> 0 \<le> r \<and> nat r < length (an_regs st) then reg_at (an_regs st) r \<union> s else reg_at (an_regs st) r')"
  by (auto simp: merge_def reg_at_update) (auto simp: reg_at_def)

lemma merge_keeps [simp]:
  "an_sums (merge r s st) = an_sums st" "an_esc (merge r s st) = an_esc st"
  "an_summaryChanged (merge r s st) = an_summaryChanged st" "length (an_regs (merge r s st)) = length (an_regs st)"
  by (simp_all add: merge_def)

lemma merge_sound:
  "an_sound m f st \<Longrightarrow> (\<And>z. z \<in> s \<Longrightarrow> reg_in m f r \<Longrightarrow> flow m f r z) \<Longrightarrow> an_sound m f (merge r s st)"
  by (auto simp: an_sound_def reg_at_merge reg_in_def)

text \<open>The summaries after marking parameters of \<open>f\<close>.\<close>

lemma pe_at_mark:
  assumes "f < length sums"
  shows "pe_at (sums[f := (sums ! f)\<lparr>paramEscapes := mark s (paramEscapes (sums ! f))\<rparr>]) g p \<longleftrightarrow>
      pe_at sums g p \<or> g = int f \<and> p < length (paramEscapes (sums ! f)) \<and> - (int p + 1) \<in> s"
    and "pr_at (sums[f := (sums ! f)\<lparr>paramEscapes := mark s (paramEscapes (sums ! f))\<rparr>]) g p \<longleftrightarrow> pr_at sums g p"
    and "pr_at (sums[f := (sums ! f)\<lparr>paramToRet := mark s (paramToRet (sums ! f))\<rparr>]) g p \<longleftrightarrow>
      pr_at sums g p \<or> g = int f \<and> p < length (paramToRet (sums ! f)) \<and> - (int p + 1) \<in> s"
    and "pe_at (sums[f := (sums ! f)\<lparr>paramToRet := mark s (paramToRet (sums ! f))\<rparr>]) g p \<longleftrightarrow> pe_at sums g p"
  using assms by (auto simp: pe_at_def pr_at_def nth_list_update)

lemma shape_mark:
  "shape m sums \<Longrightarrow> shape m (sums[f := (sums ! f)\<lparr>paramEscapes := mark s (paramEscapes (sums ! f))\<rparr>])"
  "shape m sums \<Longrightarrow> shape m (sums[f := (sums ! f)\<lparr>paramToRet := mark s (paramToRet (sums ! f))\<rparr>])"
  by (cases "f < length sums"; auto simp: shape_def nth_list_update)+

lemma escapeSet_sound:
  assumes "an_sound m f st" and f: "f < length (md_functions m)"
    and s: "\<And>z. z \<in> s \<Longrightarrow> \<exists>i \<in> set (code_of m f). \<exists>r \<in> sinks_by m (pesc m) i. flow m f r z"
  shows "an_sound m f (escapeSet f s why st)"
proof -
  have sh: "shape m (an_sums st)" using assms(1) by (simp add: an_sound_def sums_sound_def)
  then have fl: "f < length (an_sums st)" and np: "length (paramEscapes (an_sums st ! f)) = fn_nparams (md_functions m ! f)"
    using f by (auto simp: shape_def)
  have "pesc m (int f) p" if "p < fn_nparams (md_functions m ! f)" "- (int p + 1) \<in> s" for p
    using s [OF that(2)] that(1) f by (auto intro: flow_to_ret_pesc.pesc)
  moreover have "escapes m f z" if "z \<in> s" for z
    using s [OF that] f by (auto simp: escapes_def)
  ultimately show ?thesis
    using assms(1) shape_mark(1) [OF sh] fl np
    by (auto simp: an_sound_def sums_sound_def escapeSet_def Let_def pe_at_mark mark_esc_def split: if_splits)
qed

lemma returnSet_sound:
  assumes "an_sound m f st" and f: "f < length (md_functions m)" and i: "i \<in> set (code_of m f)" "in_op i = OpRet"
    and s: "\<And>z. z \<in> s \<Longrightarrow> flow m f (in_a i) z"
  shows "an_sound m f (returnSet f s st)"
proof -
  have sh: "shape m (an_sums st)" using assms(1) by (simp add: an_sound_def sums_sound_def)
  then have fl: "f < length (an_sums st)" and np: "length (paramToRet (an_sums st ! f)) = fn_nparams (md_functions m ! f)"
    using f by (auto simp: shape_def)
  have "to_ret m (int f) p" if "p < fn_nparams (md_functions m ! f)" "- (int p + 1) \<in> s" for p
    using s [OF that(2)] that(1) f i by (auto intro: flow_to_ret_pesc.to_ret)
  moreover have "escapes m f z" if "z \<in> s" for z
    using s [OF that] f i by (auto simp: escapes_def)
  ultimately show ?thesis
    using assms(1) shape_mark(2) [OF sh] fl np
    by (auto simp: an_sound_def sums_sound_def returnSet_def Let_def pe_at_mark mark_esc_def split: if_splits)
qed

lemma escapeSet_keeps [simp]:
  "an_regs (escapeSet f s why st) = an_regs st" "an_changed (escapeSet f s why st) = an_changed st"
  "an_regs (returnSet f s st) = an_regs st" "an_changed (returnSet f s st) = an_changed st"
  by (simp_all add: escapeSet_def returnSet_def Let_def)

lemma retained_arg_keeps [simp]:
  "an_regs (retained_arg f g base k st) = an_regs st" "an_changed (retained_arg f g base k st) = an_changed st"
  "an_regs (escape_arg f base why k st) = an_regs st" "an_changed (escape_arg f base why k st) = an_changed st"
  by (simp_all add: retained_arg_def escape_arg_def)

lemma each_arg_inv:
  assumes "P st" and "\<And>k st. k \<in> set ks \<Longrightarrow> P st \<Longrightarrow> P (h k st)"
  shows "P (each_arg h ks st)"
  using assms by (induction ks arbitrary: st) auto

lemma an_soundD:
  assumes "an_sound m f st"
  shows "z \<in> reg_at (an_regs st) r \<Longrightarrow> flow m f r z" "pe_at (an_sums st) g p \<Longrightarrow> pesc m g p"
    "pr_at (an_sums st) g p \<Longrightarrow> to_ret m g p"
  using assms by (auto simp: an_sound_def sums_sound_def)

text \<open>The arguments a callee retains are sinks.\<close>

lemma retained_args_sound:
  assumes "an_sound m f st" and f: "f < length (md_functions m)" and i: "i \<in> set (code_of m f)"
    and g: "call_target m i = Some g"
  shows "an_sound m f (each_arg (retained_arg f g (in_c i)) [0..<nat (in_d i)] st)"
proof (rule each_arg_inv [where P = "an_sound m f", OF assms(1)])
  fix k st assume k: "k \<in> set [0..<nat (in_d i)]" and st: "an_sound m f st"
  show "an_sound m f (retained_arg f g (in_c i) k st)"
  proof (cases "pe_at (an_sums st) g k")
    case True
    then have "in_c i + int k \<in> sinks_by m (pesc m) i"
      using k g an_soundD(2) [OF st] by (auto simp: sinks_by_def)
    then show ?thesis using True st i f unfolding retained_arg_def escape_arg_def
      by (auto intro!: escapeSet_sound dest: an_soundD(1))
  qed (simp add: retained_arg_def st)
qed

lemma escape_window_sound:
  assumes "an_sound m f st" and f: "f < length (md_functions m)" and i: "i \<in> set (code_of m f)"
    and w: "window i \<subseteq> plain_sinks m i"
  shows "an_sound m f (each_arg (escape_arg f (in_c i) why) [0..<nat (in_d i)] st)"
proof (rule each_arg_inv [where P = "an_sound m f", OF assms(1)])
  fix k st assume k: "k \<in> set [0..<nat (in_d i)]" and st: "an_sound m f st"
  have "in_c i + int k \<in> sinks_by m (pesc m) i" using k w by (auto simp: sinks_by_def window_def)
  then show "an_sound m f (escape_arg f (in_c i) why k st)" using st i f unfolding escape_arg_def
    by (auto intro!: escapeSet_sound dest: an_soundD(1))
qed

lemma call_alias_sound:
  assumes st: "an_sound m f st" and f: "f < length (md_functions m)" and i: "i \<in> set (code_of m f)"
    and g: "call_target m i = Some g"
  shows "an_sound m f (call_alias f g i st)"
proof -
  have "flow m f (in_a i) z"
    if "reg_in m f (in_a i)" "k < nat (in_d i)" "pr_at (an_sums st) g k" "z \<in> reg_at (an_regs st) (in_c i + int k)" for z k
    using that an_soundD [OF st] f i g by (auto intro: flow_call)
  then show ?thesis using retained_args_sound [OF assms]
    by (auto simp: call_alias_def callSinks_def intro!: merge_sound)
qed

lemma native_alias_flow:
  assumes st: "an_sound m f st" and f: "f < length (md_functions m)" and i: "i \<in> set (code_of m f)"
    and ni: "native_call m i = Some ni" and r: "reg_in m f (in_a i)"
    and z: "z \<in> native_alias (code_of m f) ni i (an_regs st)"
  shows "flow m f (in_a i) z"
proof -
  have op: "in_op i = OpCallDyn" using ni by (auto simp: native_call_def split: if_splits)
  consider "selfToResult ni" "z \<in> reg_at (an_regs st) (in_c i)"
    | k where "argsToResult ni" "1 \<le> k" "k < nat (in_d i)" "z \<in> reg_at (an_regs st) (in_c i + int k)"
        "\<not> argIsValueStruct (code_of m f) (reg_at (an_regs st) (in_c i + int k))"
    using z by (auto simp: native_alias_def split: if_splits)
  then show ?thesis
  proof cases
    case 1
    then have "in_c i \<in> alias_srcs m i" using op ni by (simp add: alias_srcs_def)
    then show ?thesis using 1 f i r an_soundD(1) [OF st] by (auto intro: flow_copy)
  next
    case 2
    then obtain z' where "z' \<in> reg_at (an_regs st) (in_c i + int k)" "\<not> struct_site m f z'"
      by (auto simp: argIsValueStruct_def struct_site_def)
    then show ?thesis using 2 an_soundD(1) [OF st] by (intro flow_native [OF f i ni _ 2(2,3) r]) auto
  qed
qed

lemma copy_sound:
  assumes "an_sound m f st" "f < length (md_functions m)" "i \<in> set (code_of m f)" "r \<in> alias_srcs m i"
  shows "an_sound m f (merge (in_a i) (reg_at (an_regs st) r) st)"
  using assms by (auto intro!: merge_sound intro: flow_copy dest: an_soundD(1))

lemma alias_step_sound:
  assumes st: "an_sound m f st" and f: "f < length (md_functions m)"
    and pc: "pc < length (code_of m f)" "i = code_of m f ! pc"
  shows "an_sound m f (alias_step m f (pc, i) st)"
proof -
  have i: "i \<in> set (code_of m f)" using pc by simp
  show ?thesis
  proof (cases "isAlloc (in_op i) \<or> cvAlloc i")
    case True
    let ?st1 = "merge (in_a i) {int pc} st"
    have s1: "an_sound m f ?st1" using st f pc True by (auto intro!: merge_sound intro: flow_alloc)
    have e: "an_sound m f (each_arg (\<lambda>k s. merge (in_a i) (reg_at (an_regs s) (in_c i + int k)) s) [0..<nat (in_d i)] ?st1)"
      if "in_op i = OpNewArray"
      using that f i s1 by (intro each_arg_inv [where P = "an_sound m f"]) (auto intro!: copy_sound simp: alias_srcs_def window_def)
    have e2: "an_sound m f (merge (in_a i) (reg_at (an_regs ?st1) (in_c i + 1)) ?st1)"
      if "in_op i = OpNewArraySized" "in_d i = 2"
      using that f i s1 by (intro copy_sound) (auto simp: alias_srcs_def)
    show ?thesis unfolding alias_step_def using True s1 e e2 by (simp add: Let_def)
  next
    case False
    have c: "an_sound m f (merge (in_a i) (reg_at (an_regs st) (in_b i)) st)"
      if "in_op i \<in> {OpMove, OpMoveClear, OpCopyVal, OpIndexStore}"
      using that False st f i by (intro copy_sound) (auto simp: alias_srcs_def)
    have n: "an_sound m f (merge (in_a i) (native_alias (code_of m f) ni i (an_regs st)) st)"
      if "native_call m i = Some ni" for ni
      using native_alias_flow [OF st f i that] st by (intro merge_sound) auto
    show ?thesis unfolding alias_step_def
      using False st c n call_alias_sound [OF st f i]
      by (auto simp: call_target_def native_call_def split: option.splits)
  qed
qed

lemma sink_sound:
  assumes "an_sound m f st" "f < length (md_functions m)" "i \<in> set (code_of m f)" "r \<in> sinks_by m (pesc m) i"
  shows "an_sound m f (escapeSet f (reg_at (an_regs st) r) why st)"
  using assms by (auto intro!: escapeSet_sound dest: an_soundD(1))

lemma plain_sink_sound:
  assumes "an_sound m f st" "f < length (md_functions m)" "i \<in> set (code_of m f)" "r \<in> plain_sinks m i"
  shows "an_sound m f (escapeSet f (reg_at (an_regs st) r) why st)"
  using assms by (intro sink_sound) (auto simp: sinks_by_def)

lemma arith_sink_sound:
  assumes st: "an_sound m f st" and f: "f < length (md_functions m)" and i: "i \<in> set (code_of m f)"
    and op: "in_op i = OpArith"
  shows "an_sound m f (arith_sink m f i st)"
proof (cases "in_decl i")
  case None
  have "an_sound m f (escapeSet f (reg_at (an_regs st) (in_c i)) why (escapeSet f (reg_at (an_regs st) (in_b i)) why st))"
    if "in_tk i \<noteq> TkEnd" for why
    using that plain_sink_sound [OF plain_sink_sound [OF st f i, of "in_b i" why] f i, of "in_c i" why] op None
    by (simp add: plain_sinks_def)
  then show ?thesis using st None by (simp add: arith_sink_def)
next
  case (Some d)
  show ?thesis
  proof (cases "md_byDecl m d")
    case (Some g)
    let ?why = "''passed to a retaining operator''"
    have t: "operator_target m i = Some g" using op \<open>in_decl i = Some d\<close> Some by (simp add: operator_target_def)
    define st1 where "st1 = (if pe_at (an_sums st) g 0 then escapeSet f (reg_at (an_regs st) (in_b i)) ?why st else st)"
    have s1: "an_sound m f st1" using t st f i an_soundD(2) [OF st]
      by (auto simp: st1_def sinks_by_def intro!: sink_sound)
    have "an_sound m f (if pe_at (an_sums st1) g 1 then escapeSet f (reg_at (an_regs st1) (in_c i)) ?why st1 else st1)"
      using t s1 f i an_soundD(2) [OF s1] by (auto simp: sinks_by_def intro!: sink_sound)
    moreover have "arith_sink m f i st =
        (if pe_at (an_sums st1) g 1 then escapeSet f (reg_at (an_regs st1) (in_c i)) ?why st1 else st1)"
      using \<open>in_decl i = Some d\<close> Some by (simp add: arith_sink_def st1_def Let_def)
    ultimately show ?thesis by simp
  qed (simp add: arith_sink_def Some st)
qed

lemma sink_step_sound:
  assumes st: "an_sound m f st" and f: "f < length (md_functions m)" and i: "i \<in> set (code_of m f)"
  shows "an_sound m f (sink_step m f i st)"
proof -
  note p = plain_sink_sound [OF st f i] and w = escape_window_sound [OF st f i] and r = retained_args_sound [OF st f i]
  show ?thesis
    using st returnSet_sound [OF st f i] an_soundD(1) [OF st] p w r arith_sink_sound [OF st f i]
    unfolding sink_step_def Let_def plain_sinks_def call_target_def
    by (simp split: option.split)
qed

lemma fold_inv:
  assumes "P st" and "\<And>x st. x \<in> set xs \<Longrightarrow> P st \<Longrightarrow> P (h x st)"
  shows "P (fold h xs st)"
  using assms by (induction xs arbitrary: st) auto

lemma alias_pass_sound:
  assumes "an_sound m f st" and "f < length (md_functions m)"
  shows "an_sound m f (alias_pass m f st)"
  unfolding alias_pass_def
proof (rule fold_inv [where P = "an_sound m f"])
  show "an_sound m f (st\<lparr>an_changed := False\<rparr>)" using assms(1) by (simp add: an_sound_def)
next
  fix x st assume x: "x \<in> set (enumerate 0 (code_of m f))" and st: "an_sound m f st"
  obtain pc i where pi: "x = (pc, i)" by (cases x)
  then have "pc < length (code_of m f)" "i = code_of m f ! pc" using x by (auto simp: in_set_enumerate_eq)
  then show "an_sound m f (alias_step m f x st)" using alias_step_sound [OF st assms(2)] pi by simp
qed

lemma init_state_sound:
  assumes "sums_sound m sums" and "f < length (md_functions m)"
  shows "an_sound m f (init_state (md_functions m ! f) sums)"
  using assms flow_param [OF assms(2)]
  by (auto simp: an_sound_def init_state_def reg_at_def split: if_splits) (metis int_nat_eq)+

section \<open>Every step grows the state\<close>

text \<open>What the three updates keep, every step of the analysis of \<open>f\<close> keeps.\<close>

locale an_invariant =
  fixes f :: nat and P :: "an_state \<Rightarrow> bool"
  assumes merge: "P st \<Longrightarrow> P (merge r s st)"
    and escape: "P st \<Longrightarrow> P (escapeSet f s why st)"
    and return: "P st \<Longrightarrow> P (returnSet f s st)"
begin

lemma args: "P st \<Longrightarrow> P (each_arg (retained_arg f g base) ks st)" "P st \<Longrightarrow> P (each_arg (escape_arg f base why) ks st)"
  by (rule each_arg_inv; simp add: retained_arg_def escape_arg_def escape)+

lemma merges: "P st \<Longrightarrow> P (each_arg (\<lambda>k s. Ownership.merge a (reg_at (an_regs s) (h k)) s) ks st)"
  by (rule each_arg_inv) (simp_all add: merge)

lemma call_alias: "P st \<Longrightarrow> P (call_alias f g i st)"
  by (simp add: call_alias_def callSinks_def merge args)

lemma alias_step: "P st \<Longrightarrow> P (alias_step m f x st)"
  by (cases x) (simp add: alias_step_def Let_def merge merges call_alias split: option.split)

lemma alias_fold: "P st \<Longrightarrow> P (fold (Ownership.alias_step m f) xs st)"
  by (rule fold_inv) (simp_all add: alias_step)

lemma arith_sink: "P st \<Longrightarrow> P (arith_sink m f i st)"
  by (simp add: arith_sink_def Let_def escape split: option.split)

lemma sink_step: "P st \<Longrightarrow> P (sink_step m f i st)"
  by (simp add: sink_step_def Let_def escape return args arith_sink split: option.split)

lemma sink_fold: "P st \<Longrightarrow> P (fold (Ownership.sink_step m f) xs st)"
  by (rule fold_inv) (simp_all add: sink_step)

end

text \<open>Sets of sites and escapes only grow, and the flags say whether something changed.\<close>

definition an_le :: "an_state \<Rightarrow> an_state \<Rightarrow> bool" where
  "an_le st st' \<longleftrightarrow>
     (\<forall>r. reg_at (an_regs st) r \<subseteq> reg_at (an_regs st') r) \<and> length (an_regs st') = length (an_regs st) \<and>
     (\<forall>z. an_esc st z \<noteq> None \<longrightarrow> an_esc st' z = an_esc st z) \<and>
     (an_summaryChanged st \<longrightarrow> an_summaryChanged st') \<and> (an_changed st \<longrightarrow> an_changed st') \<and>
     (\<not> an_summaryChanged st' \<longrightarrow> an_sums st' = an_sums st) \<and> (\<not> an_changed st' \<longrightarrow> an_regs st' = an_regs st) \<and>
     (an_changed st' \<longrightarrow> an_changed st \<or> an_regs st' \<noteq> an_regs st)"

lemma an_le_refl [simp]: "an_le st st"
  by (simp add: an_le_def)

lemma reg_at_eqI: "length xs = length ys \<Longrightarrow> (\<And>r. reg_at xs r = reg_at ys r) \<Longrightarrow> xs = ys"
  by (rule nth_equalityI) (simp, metis nat_int of_nat_0_le_iff reg_at_def)

lemma an_le_trans:
  assumes "an_le a b" and "an_le b c"
  shows "an_le a c"
proof -
  have "an_regs b = an_regs a" if "an_regs c = an_regs a"
    using assms that by (intro reg_at_eqI) (auto simp: an_le_def)
  then show ?thesis using assms unfolding an_le_def by (metis subset_trans)
qed

lemma an_le_quiet: "an_le a b \<Longrightarrow> \<not> an_summaryChanged b \<Longrightarrow> \<not> an_summaryChanged a"
  unfolding an_le_def by blast

lemma merge_le: "an_le st (merge r s st)"
proof -
  have "an_changed (merge r s st) \<longleftrightarrow> an_changed st \<or> an_regs (merge r s st) \<noteq> an_regs st"
    by (auto simp: merge_def list_update_same_conv)
  moreover have "\<not> an_changed (merge r s st) \<Longrightarrow> merge r s st = st" by (auto simp: merge_def split: if_splits)
  ultimately show ?thesis by (auto simp: an_le_def reg_at_merge)
qed

lemma escapeSet_le [simp]: "an_le st (escapeSet f s why st)"
  by (auto simp: an_le_def escapeSet_def Let_def mark_esc_def)

lemma returnSet_le [simp]: "an_le st (returnSet f s st)"
  by (auto simp: an_le_def returnSet_def Let_def mark_esc_def)

interpretation le: an_invariant f "an_le st0" for f st0
  by unfold_locales (erule an_le_trans, simp add: merge_le)+

lemmas alias_step_le = le.alias_step [OF an_le_refl]
  and sink_step_le = le.sink_step [OF an_le_refl]

lemma each_arg_le: "(\<And>k st. an_le st (h k st)) \<Longrightarrow> an_le st (each_arg h ks st)"
  by (induction ks arbitrary: st) (auto intro: an_le_trans)

lemma arg_le [simp]: "an_le st (retained_arg f g base k st)" "an_le st (escape_arg f base why k st)"
  by (simp_all add: retained_arg_def escape_arg_def)

section \<open>When nothing changes, the state is closed\<close>

definition alias_closed :: "ir_module \<Rightarrow> nat \<Rightarrow> sites list \<Rightarrow> summary list \<Rightarrow> nat \<times> inst \<Rightarrow> bool" where
  "alias_closed m f regs sums = (\<lambda>(pc, i). reg_in m f (in_a i) \<longrightarrow>
     ((isAlloc (in_op i) \<or> cvAlloc i \<longrightarrow> int pc \<in> reg_at regs (in_a i)) \<and>
      (\<forall>r \<in> alias_srcs m i. reg_at regs r \<subseteq> reg_at regs (in_a i)) \<and>
      (\<forall>g k. call_target m i = Some g \<longrightarrow> k < nat (in_d i) \<longrightarrow> pr_at sums g k \<longrightarrow>
         reg_at regs (in_c i + int k) \<subseteq> reg_at regs (in_a i)) \<and>
      (\<forall>ni. native_call m i = Some ni \<longrightarrow> native_alias (code_of m f) ni i regs \<subseteq> reg_at regs (in_a i))))"

lemma merge_closed:
  assumes "\<not> an_changed (merge r s st)" and "0 \<le> r" and "nat r < length (an_regs st)"
  shows "s \<subseteq> reg_at (an_regs st) r" and "merge r s st = st"
  using assms by (auto simp: merge_def reg_at_def split: if_splits)

lemma merge_quiet: "\<not> an_changed (merge r s st) \<Longrightarrow> merge r s st = st \<and> \<not> an_changed st"
  by (auto simp: merge_def split: if_splits)

lemma each_merge_closed:
  assumes "\<not> an_changed (each_arg (\<lambda>k s. merge r (reg_at (an_regs s) (h k)) s) ks st)"
    and "0 \<le> r" and "nat r < length (an_regs st)"
  shows "\<forall>k \<in> set ks. reg_at (an_regs st) (h k) \<subseteq> reg_at (an_regs st) r"
  using assms
proof (induction ks arbitrary: st)
  case (Cons k ks)
  have "an_le (merge r (reg_at (an_regs st) (h k)) st)
      (each_arg (\<lambda>k s. merge r (reg_at (an_regs s) (h k)) s) ks (merge r (reg_at (an_regs st) (h k)) st))"
    by (intro each_arg_le merge_le)
  then have q: "\<not> an_changed (merge r (reg_at (an_regs st) (h k)) st)" using Cons.prems(1) by (auto simp: an_le_def)
  note c = merge_closed [OF q Cons.prems(2,3)]
  show ?case using c(1) Cons.IH [of st] Cons.prems c(2) by simp
qed simp

lemma call_alias_closed:
  assumes q: "\<not> an_changed (call_alias f g i st)" and r: "0 \<le> in_a i" "nat (in_a i) < length (an_regs st)"
    and k: "k < nat (in_d i)" "pr_at (an_sums st) g k"
  shows "reg_at (an_regs st) (in_c i + int k) \<subseteq> reg_at (an_regs st) (in_a i)"
proof -
  let ?s = "each_arg (retained_arg f g (in_c i)) [0..<nat (in_d i)] st"
  have e: "an_regs ?s = an_regs st"
    by (rule each_arg_inv [where P = "\<lambda>s. an_regs s = an_regs st"]) simp_all
  have "(\<Union>k \<in> set (filter (pr_at (an_sums st) g) [0..<nat (in_d i)]). reg_at (an_regs st) (in_c i + int k)) \<subseteq>
      reg_at (an_regs st) (in_a i)"
    using merge_closed(1) [of "in_a i" _ ?s] q r unfolding call_alias_def callSinks_def prod.case e by blast
  with k show ?thesis by fastforce
qed

lemma alias_step_closed:
  assumes q: "\<not> an_changed (alias_step m f (pc, i) st)" and len: "length (an_regs st) = fn_nregs (md_functions m ! f)"
  shows "alias_closed m f (an_regs st) (an_sums st) (pc, i)"
proof (cases "reg_in m f (in_a i)")
  case True
  then have r: "0 \<le> in_a i" "nat (in_a i) < length (an_regs st)" using len by (auto simp: reg_in_def)
  show ?thesis
  proof (cases "isAlloc (in_op i) \<or> cvAlloc i")
    case al: True
    let ?st1 = "merge (in_a i) {int pc} st"
    let ?loop = "each_arg (\<lambda>k s. merge (in_a i) (reg_at (an_regs s) (in_c i + int k)) s) [0..<nat (in_d i)] ?st1"
    let ?two = "merge (in_a i) (reg_at (an_regs ?st1) (in_c i + 1)) ?st1"
    have step: "alias_step m f (pc, i) st =
        (if in_op i = OpNewArray then ?loop else if in_op i = OpNewArraySized \<and> in_d i = 2 then ?two else ?st1)"
      using al by (simp add: alias_step_def Let_def)
    have "an_le ?st1 (alias_step m f (pc, i) st)"
      unfolding step by (auto intro!: each_arg_le merge_le)
    then have q1: "\<not> an_changed ?st1" using q by (auto simp: an_le_def)
    note c = merge_closed [OF q1 r]
    have "\<forall>r \<in> alias_srcs m i. reg_at (an_regs st) r \<subseteq> reg_at (an_regs st) (in_a i)"
      using q step al c(2) each_merge_closed [of "in_a i" "\<lambda>k. in_c i + int k" "[0..<nat (in_d i)]" st]
        merge_closed(1) [of "in_a i" _ st] r
      by (auto simp: alias_srcs_def window_def native_call_def isAlloc_def cvAlloc_def split: if_splits)
    moreover have "call_target m i = None" "native_call m i = None"
      using al by (auto simp: call_target_def native_call_def isAlloc_def cvAlloc_def)
    ultimately show ?thesis using c(1) by (simp add: alias_closed_def)
  next
    case al: False
    consider (copy) "in_op i \<in> {OpMove, OpMoveClear, OpCopyVal, OpIndexStore}"
      | (call) g where "call_target m i = Some g"
      | (native) ni where "native_call m i = Some ni"
      | (none) "in_op i \<notin> {OpMove, OpMoveClear, OpCopyVal, OpIndexStore}" "call_target m i = None" "native_call m i = None"
      by (cases "call_target m i"; cases "native_call m i") blast+
    then show ?thesis
    proof cases
      case copy
      then have "alias_step m f (pc, i) st = merge (in_a i) (reg_at (an_regs st) (in_b i)) st"
        using al by (simp add: alias_step_def)
      moreover have "call_target m i = None" "native_call m i = None" "alias_srcs m i = {in_b i}"
        using copy al by (auto simp: call_target_def native_call_def alias_srcs_def)
      ultimately show ?thesis using merge_closed(1) [of "in_a i" _ st] q r al by (simp add: alias_closed_def)
    next
      case call
      then have op: "in_op i = OpCall \<or> in_op i = OpCallDyn" by (auto simp: call_target_def split: if_splits)
      then have "alias_step m f (pc, i) st = call_alias f g i st"
        using al call by (auto simp: alias_step_def call_target_def)
      moreover have "native_call m i = None" "alias_srcs m i = {}"
        using call op by (auto simp: call_target_def native_call_def alias_srcs_def split: if_splits)
      ultimately show ?thesis using call_alias_closed [of f g i st] q r al call by (simp add: alias_closed_def)
    next
      case native
      then have op: "in_op i = OpCallDyn" "callee_of m i = None" "nativeInfo (in_sname i) = Some ni"
        by (auto simp: native_call_def split: if_splits)
      then have "alias_step m f (pc, i) st = merge (in_a i) (native_alias (code_of m f) ni i (an_regs st)) st"
        using al by (simp add: alias_step_def)
      then have n: "native_alias (code_of m f) ni i (an_regs st) \<subseteq> reg_at (an_regs st) (in_a i)"
        using merge_closed(1) [of "in_a i" _ st] q r by simp
      have "call_target m i = None" "alias_srcs m i = (if selfToResult ni then {in_c i} else {})"
        using native op by (simp_all add: call_target_def native_call_def alias_srcs_def)
      with n al native show ?thesis by (auto simp: alias_closed_def native_alias_def)
    next
      case none
      then have "alias_srcs m i = {}" using al by (auto simp: alias_srcs_def isAlloc_def)
      with none al show ?thesis by (simp add: alias_closed_def)
    qed
  qed
qed (simp add: alias_closed_def)

text \<open>All sites of a set are recorded: allocations as escaping, parameters in the summary.\<close>

definition covered :: "nat \<Rightarrow> an_state \<Rightarrow> sites \<Rightarrow> bool" where
  "covered f st s \<longleftrightarrow> (\<forall>z \<in> s. (0 \<le> z \<longrightarrow> an_esc st z \<noteq> None) \<and>
     (\<forall>p. z = - (int p + 1) \<longrightarrow> p < length (paramEscapes (an_sums st ! f)) \<longrightarrow> paramEscapes (an_sums st ! f) ! p))"

lemma covered_escapeSet:
  assumes "\<not> an_summaryChanged (escapeSet f s why st)"
  shows "covered f (escapeSet f s why st) s"
proof -
  have "mark s (paramEscapes (an_sums st ! f)) = paramEscapes (an_sums st ! f)"
    using assms by (simp add: escapeSet_def Let_def)
  then have "\<forall>p < length (paramEscapes (an_sums st ! f)). - (int p + 1) \<in> s \<longrightarrow> paramEscapes (an_sums st ! f) ! p"
    by (simp add: mark_eq_iff)
  then show ?thesis
    by (cases "f < length (an_sums st)") (auto simp: covered_def escapeSet_def Let_def mark_esc_def list_update_beyond)
qed

lemma covered_le: "covered f st s \<Longrightarrow> an_le st st' \<Longrightarrow> \<not> an_summaryChanged st' \<Longrightarrow> covered f st' s"
  unfolding covered_def an_le_def by metis

lemma covered_args:
  assumes "\<And>k st. k \<in> set ks \<Longrightarrow> P k (an_sums st) \<Longrightarrow> \<not> an_summaryChanged (h k st) \<Longrightarrow> covered f (h k st) (reg_at (an_regs st) (r k))"
    and le: "\<And>k st. an_le st (h k st)" and regs: "\<And>k st. an_regs (h k st) = an_regs st"
    and q: "\<not> an_summaryChanged (each_arg h ks st)"
  shows "\<forall>k \<in> set ks. P k (an_sums st) \<longrightarrow> covered f (each_arg h ks st) (reg_at (an_regs st) (r k))"
  using assms(1) q
proof (induction ks arbitrary: st)
  case (Cons k ks)
  let ?st1 = "h k st"
  have l: "an_le ?st1 (each_arg h ks ?st1)" by (rule each_arg_le [OF le])
  then have q1: "\<not> an_summaryChanged ?st1" using Cons.prems(2) by (auto simp: an_le_def)
  have sums: "an_sums ?st1 = an_sums st" using le [of st k] q1 by (simp add: an_le_def)
  have "covered f (each_arg h ks ?st1) (reg_at (an_regs st) (r k))" if "P k (an_sums st)"
    using covered_le [OF Cons.prems(1) [of k st] l] that q1 Cons.prems(2) by simp
  moreover have "\<forall>k \<in> set ks. P k (an_sums st) \<longrightarrow> covered f (each_arg h ks ?st1) (reg_at (an_regs st) (r k))"
    using Cons.IH [of ?st1] Cons.prems sums regs by simp
  ultimately show ?case by simp
qed simp

lemma covered_escape_args:
  assumes "\<not> an_summaryChanged (each_arg (escape_arg f (in_c i) why) [0..<nat (in_d i)] st)" and "r \<in> window i"
  shows "covered f (each_arg (escape_arg f (in_c i) why) [0..<nat (in_d i)] st) (reg_at (an_regs st) r)"
  using covered_args [where P = "\<lambda>_ _. True" and h = "escape_arg f (in_c i) why" and ks = "[0..<nat (in_d i)]"
      and r = "\<lambda>k. in_c i + int k" and f = f and st = st] assms
  by (auto simp: escape_arg_def covered_escapeSet window_def)

lemma covered_retained_args:
  assumes "\<not> an_summaryChanged (each_arg (retained_arg f g (in_c i)) [0..<nat (in_d i)] st)"
    and "k < nat (in_d i)" and "pe_at (an_sums st) g k"
  shows "covered f (each_arg (retained_arg f g (in_c i)) [0..<nat (in_d i)] st) (reg_at (an_regs st) (in_c i + int k))"
  using covered_args [where P = "\<lambda>k sums. pe_at sums g k" and h = "retained_arg f g (in_c i)" and ks = "[0..<nat (in_d i)]"
      and r = "\<lambda>k. in_c i + int k" and f = f and st = st] assms
  by (auto simp: escape_arg_def retained_arg_def covered_escapeSet)

lemma covered_arith_sink:
  assumes q: "\<not> an_summaryChanged (arith_sink m f i st)" and op: "in_op i = OpArith"
    and r: "r \<in> sinks_by m (pe_at (an_sums st)) i"
  shows "covered f (arith_sink m f i st) (reg_at (an_regs st) r)"
proof (cases "in_decl i")
  case None
  let ?why = "''operand of an unresolved operator''"
  let ?s1 = "escapeSet f (reg_at (an_regs st) (in_b i)) ?why st"
  let ?s2 = "escapeSet f (reg_at (an_regs st) (in_c i)) ?why ?s1"
  have tk: "in_tk i \<noteq> TkEnd" and bc: "r = in_b i \<or> r = in_c i"
    using r op None by (auto simp: sinks_by_def plain_sinks_def call_target_def operator_target_def split: if_splits)
  show ?thesis
  proof (cases "reg_at (an_regs st) (in_b i) \<noteq> {} \<or> reg_at (an_regs st) (in_c i) \<noteq> {}")
    case True
    then have e: "arith_sink m f i st = ?s2" using None tk by (simp add: arith_sink_def)
    have q2: "\<not> an_summaryChanged ?s2" using q e by simp
    then have q1: "\<not> an_summaryChanged ?s1" by (rule an_le_quiet [OF escapeSet_le])
    show ?thesis unfolding e
      using bc covered_escapeSet [OF q2] covered_le [OF covered_escapeSet [OF q1] escapeSet_le q2] by blast
  next
    case False
    then show ?thesis using bc by (auto simp: covered_def)
  qed
next
  case (Some d)
  then obtain g where g: "operator_target m i = Some g" "md_byDecl m d = Some g"
    and rg: "r = in_b i \<and> pe_at (an_sums st) g 0 \<or> r = in_c i \<and> pe_at (an_sums st) g 1"
    using r op by (auto simp: sinks_by_def plain_sinks_def call_target_def operator_target_def split: if_splits)
  let ?why = "''passed to a retaining operator''"
  define st1 where "st1 = (if pe_at (an_sums st) g 0 then escapeSet f (reg_at (an_regs st) (in_b i)) ?why st else st)"
  define st2 where "st2 = (if pe_at (an_sums st1) g 1 then escapeSet f (reg_at (an_regs st1) (in_c i)) ?why st1 else st1)"
  have e: "arith_sink m f i st = st2" using Some g(2) by (simp add: arith_sink_def st1_def st2_def Let_def)
  have l: "an_le st1 st2" "an_le st st1" by (simp_all add: st1_def st2_def)
  have q2: "\<not> an_summaryChanged st2" using q e by simp
  then have q1: "\<not> an_summaryChanged st1" using l by (auto simp: an_le_def)
  have sums: "an_sums st1 = an_sums st" "an_regs st1 = an_regs st" using l q1 by (simp_all add: an_le_def st1_def)
  show ?thesis unfolding e using rg
  proof
    assume b: "r = in_b i \<and> pe_at (an_sums st) g 0"
    then have "covered f st1 (reg_at (an_regs st) r)" using q1 covered_escapeSet by (simp add: st1_def)
    then show "covered f st2 (reg_at (an_regs st) r)" using l(1) q2 by (rule covered_le)
  next
    assume "r = in_c i \<and> pe_at (an_sums st) g 1"
    then show "covered f st2 (reg_at (an_regs st) r)" using q2 covered_escapeSet sums by (simp add: st2_def)
  qed
qed

lemma sink_step_covered:
  assumes q: "\<not> an_summaryChanged (sink_step m f i st)" and r: "r \<in> sinks_by m (pe_at (an_sums st)) i"
  shows "covered f (sink_step m f i st) (reg_at (an_regs st) r)"
proof -
  consider (arith) "in_op i = OpArith" | (call) g where "call_target m i = Some g"
    | (plain) "in_op i \<noteq> OpArith" "call_target m i = None" by (cases "call_target m i") auto
  then show ?thesis
  proof cases
    case arith
    then have "sink_step m f i st = arith_sink m f i st" by (simp add: sink_step_def)
    then show ?thesis using covered_arith_sink [OF _ arith r] q by simp
  next
    case call
    then have "sink_step m f i st = each_arg (retained_arg f g (in_c i)) [0..<nat (in_d i)] st"
      by (auto simp: sink_step_def call_target_def split: if_splits)
    moreover obtain k where "r = in_c i + int k" "k < nat (in_d i)" "pe_at (an_sums st) g k"
      using r call by (auto simp: sinks_by_def plain_sinks_def operator_target_def call_target_def split: if_splits)
    ultimately show ?thesis using covered_retained_args q by simp
  next
    case plain
    then have r: "r \<in> plain_sinks m i" using r by (auto simp: sinks_by_def operator_target_def)
    show ?thesis using r q plain covered_escapeSet covered_escape_args [of f i _ st r]
      unfolding sink_step_def Let_def plain_sinks_def call_target_def
      by (auto split: if_splits)
  qed
qed

section \<open>The analysis of one function\<close>

text \<open>The sets of sites can grow only this much.\<close>

definition room :: "ir_module \<Rightarrow> nat \<Rightarrow> an_state \<Rightarrow> nat" where
  "room m f st = sum_list (map (\<lambda>s. fn_nparams (md_functions m ! f) + length (code_of m f) - card s) (an_regs st))"

definition site_range :: "ir_module \<Rightarrow> nat \<Rightarrow> int set" where
  "site_range m f = {- int (fn_nparams (md_functions m ! f))..<int (length (code_of m f))}"

lemma card_site_range: "card (site_range m f) = fn_nparams (md_functions m ! f) + length (code_of m f)"
  by (simp add: site_range_def)

lemma an_sound_range:
  assumes "an_sound m f st" and "s \<in> set (an_regs st)"
  shows "s \<subseteq> site_range m f"
proof -
  obtain r where "r < length (an_regs st)" "s = an_regs st ! r" using assms(2) by (auto simp: in_set_conv_nth)
  then have "s = reg_at (an_regs st) (int r)" by (simp add: reg_at_def)
  then show ?thesis using an_soundD(1) [OF assms(1), of _ "int r"] flow_sites(1)
    by (fastforce simp: site_range_def)
qed

lemma room_le:
  assumes "an_le st st'" and s: "an_sound m f st'" and "an_regs st' \<noteq> an_regs st"
  shows "room m f st' < room m f st"
proof -
  let ?U = "fn_nparams (md_functions m ! f) + length (code_of m f)"
  have len: "length (an_regs st') = length (an_regs st)" using assms(1) by (simp add: an_le_def)
  have sub: "an_regs st ! r \<subseteq> an_regs st' ! r" "an_regs st' ! r \<subseteq> site_range m f" if "r < length (an_regs st)" for r
  proof -
    have "reg_at (an_regs st) (int r) \<subseteq> reg_at (an_regs st') (int r)" using assms(1) by (simp add: an_le_def)
    then show "an_regs st ! r \<subseteq> an_regs st' ! r" using that len by (simp add: reg_at_def)
    show "an_regs st' ! r \<subseteq> site_range m f" using that len an_sound_range [OF s] by simp
  qed
  have fin: "finite (site_range m f)" by (simp add: site_range_def)
  have c: "card (an_regs st ! r) \<le> card (an_regs st' ! r)" "card (an_regs st' ! r) \<le> ?U"
    if "r < length (an_regs st)" for r
    using sub [OF that] fin by (auto intro: card_mono finite_subset simp flip: card_site_range)
  obtain r where r: "r < length (an_regs st)" "an_regs st ! r \<noteq> an_regs st' ! r"
    using assms(3) len by (metis nth_equalityI)
  then have "card (an_regs st ! r) < card (an_regs st' ! r)"
    using sub [OF r(1)] fin by (intro psubset_card_mono) (auto intro: finite_subset)
  then have "?U - card (an_regs st' ! r) < ?U - card (an_regs st ! r)" using c [OF r(1)] by simp
  then have "(\<Sum>r<length (an_regs st). ?U - card (an_regs st' ! r)) < (\<Sum>r<length (an_regs st). ?U - card (an_regs st ! r))"
    using c r by (intro sum_strict_mono_ex1) (auto intro!: diff_le_mono2)
  then show ?thesis using len by (simp add: room_def sum_list_sum_nth atLeast0LessThan)
qed

lemma alias_pass_le: "an_le (st\<lparr>an_changed := False\<rparr>) (alias_pass m f st)"
  unfolding alias_pass_def by (rule le.alias_fold) simp

lemma alias_pass_closed:
  assumes q: "\<not> an_changed (alias_pass m f st)" and len: "length (an_regs st) = fn_nregs (md_functions m ! f)"
    and s: "\<not> an_summaryChanged (alias_pass m f st)" and x: "x \<in> set (enumerate 0 (code_of m f))"
  shows "alias_closed m f (an_regs (alias_pass m f st)) (an_sums (alias_pass m f st)) x"
proof -
  let ?st = "st\<lparr>an_changed := False\<rparr>"
  obtain ys zs where xs: "enumerate 0 (code_of m f) = ys @ x # zs" using split_list [OF x] by blast
  define st1 where "st1 = fold (alias_step m f) ys ?st"
  have l: "an_le ?st st1" "an_le st1 (alias_step m f x st1)" "an_le (alias_step m f x st1) (alias_pass m f st)"
    unfolding st1_def alias_pass_def xs by (auto intro!: le.alias_fold alias_step_le)
  then have l2: "an_le st1 (alias_pass m f st)" by (blast intro: an_le_trans)
  have "\<not> an_changed (alias_step m f x st1)" using l(3) q by (auto simp: an_le_def)
  moreover have "length (an_regs st1) = fn_nregs (md_functions m ! f)" using l(1) len by (simp add: an_le_def)
  ultimately have "alias_closed m f (an_regs st1) (an_sums st1) x" by (cases x) (simp add: alias_step_closed)
  then show ?thesis using l2 q s by (simp add: an_le_def)
qed

lemma analyzeFn_total:
  assumes "sums_sound m sums" and f: "f < length (md_functions m)"
  shows "\<exists>st. while_option an_changed (alias_pass m f) (init_state (md_functions m ! f) sums) = Some st"
proof (rule measure_while_option_Some [where P = "an_sound m f" and f = "\<lambda>st. 2 * room m f st + of_bool (an_changed st)"])
  show "an_sound m f (init_state (md_functions m ! f) sums)" by (rule init_state_sound [OF assms])
next
  fix st assume st: "an_sound m f st" and ch: "an_changed st"
  have s': "an_sound m f (alias_pass m f st)" by (rule alias_pass_sound [OF st f])
  note l = alias_pass_le [of st m f]
  have "2 * room m f (alias_pass m f st) + of_bool (an_changed (alias_pass m f st)) < 2 * room m f st + of_bool (an_changed st)"
  proof (cases "an_changed (alias_pass m f st)")
    case True
    then have "an_regs (alias_pass m f st) \<noteq> an_regs (st\<lparr>an_changed := False\<rparr>)" using l by (auto simp: an_le_def)
    then have "room m f (alias_pass m f st) < room m f (st\<lparr>an_changed := False\<rparr>)" using room_le [OF l s'] by blast
    moreover have "room m f (st\<lparr>an_changed := False\<rparr>) = room m f st" by (simp add: room_def)
    ultimately show ?thesis using ch True by simp
  next
    case False
    then have "an_regs (alias_pass m f st) = an_regs st" using l by (simp add: an_le_def)
    then show ?thesis using ch False by (simp add: room_def)
  qed
  with s' show "an_sound m f (alias_pass m f st) \<and>
    2 * room m f (alias_pass m f st) + of_bool (an_changed (alias_pass m f st)) < 2 * room m f st + of_bool (an_changed st)" ..
qed

text \<open>What the analysis of a function whose summaries stayed the same leaves behind.\<close>

definition ret_covered :: "nat \<Rightarrow> an_state \<Rightarrow> sites \<Rightarrow> bool" where
  "ret_covered f st s \<longleftrightarrow> (\<forall>z \<in> s. (0 \<le> z \<longrightarrow> an_esc st z \<noteq> None) \<and>
     (\<forall>p. z = - (int p + 1) \<longrightarrow> p < length (paramToRet (an_sums st ! f)) \<longrightarrow> paramToRet (an_sums st ! f) ! p))"

definition closed_fn :: "ir_module \<Rightarrow> nat \<Rightarrow> an_state \<Rightarrow> bool" where
  "closed_fn m f st \<longleftrightarrow>
     (\<forall>p < min (fn_nparams (md_functions m ! f)) (fn_nregs (md_functions m ! f)).
        - (int p + 1) \<in> reg_at (an_regs st) (int p)) \<and>
     (\<forall>x \<in> set (enumerate 0 (code_of m f)). alias_closed m f (an_regs st) (an_sums st) x) \<and>
     (\<forall>i \<in> set (code_of m f). (\<forall>r \<in> sinks_by m (pe_at (an_sums st)) i. covered f st (reg_at (an_regs st) r)) \<and>
        (in_op i = OpRet \<longrightarrow> ret_covered f st (reg_at (an_regs st) (in_a i))))"

lemma ret_covered_le: "ret_covered f st s \<Longrightarrow> an_le st st' \<Longrightarrow> \<not> an_summaryChanged st' \<Longrightarrow> ret_covered f st' s"
  unfolding ret_covered_def an_le_def by metis

lemma ret_covered_returnSet:
  assumes "\<not> an_summaryChanged (returnSet f s st)"
  shows "ret_covered f (returnSet f s st) s"
proof -
  have "mark s (paramToRet (an_sums st ! f)) = paramToRet (an_sums st ! f)"
    using assms by (simp add: returnSet_def Let_def)
  then have "\<forall>p < length (paramToRet (an_sums st ! f)). - (int p + 1) \<in> s \<longrightarrow> paramToRet (an_sums st ! f) ! p"
    by (simp add: mark_eq_iff)
  then show ?thesis
    by (cases "f < length (an_sums st)") (auto simp: ret_covered_def returnSet_def Let_def mark_esc_def list_update_beyond)
qed

lemma sink_step_regs: "an_regs (sink_step m f i st) = an_regs st"
proof -
  have a: "an_regs (each_arg (retained_arg f g base) ks st) = an_regs st"
    "an_regs (each_arg (escape_arg f base why) ks st) = an_regs st" for g base ks why
    by (rule each_arg_inv [where P = "\<lambda>s. an_regs s = an_regs st"]; simp)+
  have "an_regs (arith_sink m f i st) = an_regs st" by (simp add: arith_sink_def Let_def split: option.split)
  then show ?thesis using a by (simp add: sink_step_def Let_def split: option.split)
qed

lemma sink_fold_regs: "an_regs (fold (sink_step m f) is st) = an_regs st"
  by (induction "is" arbitrary: st) (simp_all add: sink_step_regs)

lemma sinks_closed:
  assumes q: "\<not> an_summaryChanged (fold (sink_step m f) is st)" and i: "i \<in> set is"
  defines "st' \<equiv> fold (sink_step m f) is st"
  shows "(\<forall>r \<in> sinks_by m (pe_at (an_sums st')) i. covered f st' (reg_at (an_regs st') r)) \<and>
    (in_op i = OpRet \<longrightarrow> ret_covered f st' (reg_at (an_regs st') (in_a i)))"
proof -
  obtain js ks where xs: "is = js @ i # ks" using split_list [OF i] by blast
  define st1 where "st1 = fold (sink_step m f) js st"
  let ?st2 = "sink_step m f i st1"
  have l: "an_le st1 ?st2" "an_le ?st2 st'"
    unfolding st1_def st'_def xs by (auto intro!: le.sink_fold sink_step_le)
  have q': "\<not> an_summaryChanged st'" using q by (simp add: st'_def)
  have q2: "\<not> an_summaryChanged ?st2" by (rule an_le_quiet [OF l(2) q'])
  have sums: "an_sums st' = an_sums st1" using l q2 q' by (simp add: an_le_def)
  have regs: "an_regs st' = an_regs st1" by (simp add: st'_def xs st1_def sink_step_regs sink_fold_regs)
  have "covered f st' (reg_at (an_regs st1) r)" if "r \<in> sinks_by m (pe_at (an_sums st1)) i" for r
    using covered_le [OF sink_step_covered [OF q2 that] l(2) q'] .
  moreover have "ret_covered f st' (reg_at (an_regs st1) (in_a i))" if "in_op i = OpRet"
  proof -
    have "?st2 = returnSet f (reg_at (an_regs st1) (in_a i)) st1" using that by (simp add: sink_step_def)
    then have "ret_covered f ?st2 (reg_at (an_regs st1) (in_a i))" using ret_covered_returnSet q2 by metis
    then show ?thesis using l(2) q' by (rule ret_covered_le)
  qed
  ultimately show ?thesis by (simp add: sums regs)
qed

text \<open>The loop invariant: the state has grown from the initial one, and a pass without changes has closed it.\<close>

definition loop_inv :: "ir_module \<Rightarrow> nat \<Rightarrow> an_state \<Rightarrow> an_state \<Rightarrow> bool" where
  "loop_inv m f st0 st \<longleftrightarrow> an_sound m f st \<and> (\<forall>r. reg_at (an_regs st0) r \<subseteq> reg_at (an_regs st) r) \<and>
     (\<not> an_summaryChanged st \<longrightarrow> an_sums st = an_sums st0 \<and>
       (\<not> an_changed st \<longrightarrow> (\<forall>x \<in> set (enumerate 0 (code_of m f)). alias_closed m f (an_regs st) (an_sums st) x)))"

lemma loop_inv_pass:
  assumes "loop_inv m f st0 st" and "f < length (md_functions m)"
  shows "loop_inv m f st0 (alias_pass m f st)"
proof -
  note l = alias_pass_le [of st m f]
  have "an_sound m f (alias_pass m f st)" using assms by (intro alias_pass_sound) (auto simp: loop_inv_def)
  moreover have "length (an_regs st) = fn_nregs (md_functions m ! f)" using assms by (simp add: loop_inv_def an_sound_def)
  then have "alias_closed m f (an_regs (alias_pass m f st)) (an_sums (alias_pass m f st)) x"
    if "\<not> an_summaryChanged (alias_pass m f st)" "\<not> an_changed (alias_pass m f st)" "x \<in> set (enumerate 0 (code_of m f))" for x
    using alias_pass_closed that by blast
  moreover have "an_sums (alias_pass m f st) = an_sums st0" if "\<not> an_summaryChanged (alias_pass m f st)"
    using that l assms(1) an_le_quiet [OF l] by (auto simp: an_le_def loop_inv_def)
  moreover have "reg_at (an_regs st0) r \<subseteq> reg_at (an_regs (alias_pass m f st)) r" for r
    using l assms(1) by (fastforce simp: an_le_def loop_inv_def)
  ultimately show ?thesis by (simp add: loop_inv_def)
qed

lemma analyzeFn_correct:
  assumes s: "sums_sound m sums" and f: "f < length (md_functions m)"
  shows "\<exists>st. analyzeFn m f sums = Some st \<and> an_sound m f st \<and>
    (\<not> an_summaryChanged st \<longrightarrow> an_sums st = sums \<and> closed_fn m f st)"
proof -
  let ?st0 = "init_state (md_functions m ! f) sums"
  obtain st1 where w: "while_option an_changed (alias_pass m f) ?st0 = Some st1"
    using analyzeFn_total [OF assms] by blast
  have i0: "loop_inv m f ?st0 ?st0"
    using init_state_sound [OF assms] by (simp add: loop_inv_def init_state_def)
  have i1: "loop_inv m f ?st0 st1"
    by (rule while_option_rule [where P = "loop_inv m f ?st0", OF _ w i0]) (simp add: loop_inv_pass f)
  have nc: "\<not> an_changed st1" using while_option_stop [OF w] .
  define st where "st = fold (sink_step m f) (code_of m f) st1"
  have a: "analyzeFn m f sums = Some st" using w by (simp add: analyzeFn_def Let_def st_def)
  have "an_sound m f st" unfolding st_def
    by (rule fold_inv) (use i1 f sink_step_sound in \<open>auto simp: loop_inv_def\<close>)
  moreover have "an_sums st = sums \<and> closed_fn m f st" if q: "\<not> an_summaryChanged st"
  proof -
    have l: "an_le st1 st" unfolding st_def by (rule le.sink_fold) simp
    have q1: "\<not> an_summaryChanged st1" by (rule an_le_quiet [OF l q])
    have regs: "an_regs st = an_regs st1" by (simp add: st_def sink_fold_regs)
    have sums: "an_sums st = an_sums st1" "an_sums st1 = sums"
      using l q q1 i1 by (auto simp: an_le_def loop_inv_def init_state_def)
    have "- (int p + 1) \<in> reg_at (an_regs ?st0) (int p)"
      if "p < min (fn_nparams (md_functions m ! f)) (fn_nregs (md_functions m ! f))" for p
      using that by (simp add: init_state_def reg_at_def)
    moreover have "reg_at (an_regs ?st0) r \<subseteq> reg_at (an_regs st) r" for r using i1 regs by (simp add: loop_inv_def)
    moreover have "alias_closed m f (an_regs st) (an_sums st) x" if "x \<in> set (enumerate 0 (code_of m f))" for x
      using that i1 q1 nc regs sums by (auto simp: loop_inv_def)
    ultimately show ?thesis
      using sums sinks_closed [of m f "code_of m f" st1] q unfolding closed_fn_def st_def by blast
  qed
  ultimately show ?thesis using a by blast
qed

section \<open>Rounds\<close>

definition az_sound :: "ir_module \<Rightarrow> analyzer \<Rightarrow> bool" where
  "az_sound m a \<longleftrightarrow> sums_sound m (az_sums a) \<and> length (az_siteEscape a) = length (md_functions m) \<and>
     (\<forall>f < length (md_functions m). \<forall>z. (az_siteEscape a ! f) z \<noteq> None \<longrightarrow> escapes m f z)"

text \<open>The functions \<open>fs\<close> are closed under the summaries of the analyzer, with its escapes.\<close>

definition az_closed :: "ir_module \<Rightarrow> nat set \<Rightarrow> analyzer \<Rightarrow> bool" where
  "az_closed m fs a \<longleftrightarrow> (\<forall>f \<in> fs. \<exists>st. an_sums st = az_sums a \<and> an_esc st = az_siteEscape a ! f \<and> closed_fn m f st)"

lemma round_fns_correct:
  assumes "az_sound m a" and "set fis \<subseteq> {..<length (md_functions m)}" and "distinct fis"
  shows "\<exists>a' ch'. round_fns m fis (a, ch) = Some (a', ch') \<and> az_sound m a' \<and>
    (\<forall>f. f \<notin> set fis \<longrightarrow> az_siteEscape a' ! f = az_siteEscape a ! f) \<and>
    (\<not> ch' \<longrightarrow> \<not> ch \<and> az_sums a' = az_sums a \<and> az_closed m (set fis) a')"
  using assms
proof (induction fis arbitrary: a ch)
  case Nil
  then show ?case by (simp add: az_closed_def)
next
  case (Cons f fis)
  have f: "f < length (md_functions m)" using Cons.prems by simp
  obtain st where st: "analyzeFn m f (az_sums a) = Some st" "an_sound m f st"
    "\<not> an_summaryChanged st \<longrightarrow> an_sums st = az_sums a \<and> closed_fn m f st"
    using analyzeFn_correct [OF _ f, of "az_sums a"] Cons.prems(1) unfolding az_sound_def by blast
  let ?a1 = "\<lparr>az_sums = an_sums st, az_siteEscape = (az_siteEscape a)[f := an_esc st]\<rparr>"
  have a1: "az_sound m ?a1"
    using st(2) Cons.prems(1) f by (auto simp: az_sound_def an_sound_def nth_list_update)
  obtain a' ch' where r: "round_fns m fis (?a1, ch \<or> an_summaryChanged st) = Some (a', ch')" "az_sound m a'"
    "\<forall>g. g \<notin> set fis \<longrightarrow> az_siteEscape a' ! g = az_siteEscape ?a1 ! g"
    "\<not> ch' \<longrightarrow> \<not> (ch \<or> an_summaryChanged st) \<and> az_sums a' = az_sums ?a1 \<and> az_closed m (set fis) a'"
    using Cons.IH [OF a1, of "ch \<or> an_summaryChanged st"] Cons.prems by auto
  have "az_siteEscape a' ! f = an_esc st" using r(3) Cons.prems f by (simp add: az_sound_def)
  then have "az_closed m (set (f # fis)) a'" if "\<not> ch'"
    using that r(4) st(3) by (auto simp: az_closed_def)
  with r st show ?case by auto
qed

lemma analyze_round_correct:
  assumes "az_sound m a"
  shows "\<exists>a' ch'. analyze_round m a = Some (a', ch') \<and> az_sound m a' \<and>
    (\<not> ch' \<longrightarrow> az_sums a' = az_sums a \<and> az_closed m {..<length (md_functions m)} a')"
  using round_fns_correct [OF assms, of "[0..<length (md_functions m)]" False]
  by (auto simp: analyze_round_def atLeast0LessThan)

lemma analyze_rounds_correct:
  assumes "az_sound m a" and "\<not> ch \<longrightarrow> az_closed m {..<length (md_functions m)} a"
  shows "\<exists>a' ch'. analyze_rounds n m (a, ch) = Some (a', ch') \<and> az_sound m a' \<and>
    (\<not> ch' \<longrightarrow> az_closed m {..<length (md_functions m)} a')"
  using assms
proof (induction n arbitrary: a ch)
  case (Suc n)
  show ?case
  proof (cases ch)
    case True
    obtain a1 c1 where "analyze_round m a = Some (a1, c1)" "az_sound m a1"
      "\<not> c1 \<longrightarrow> az_closed m {..<length (md_functions m)} a1"
      using analyze_round_correct [OF Suc.prems(1)] by auto
    then show ?thesis using Suc.IH [of a1 c1] True by simp
  next
    case False
    then show ?thesis using Suc.prems by (intro exI [of _ a] exI [of _ False]) simp
  qed
qed simp

lemma new_analyzer_sound: "az_sound m (new_analyzer m)"
  by (auto simp: az_sound_def new_analyzer_def sums_sound_def shape_def pe_at_def pr_at_def)

lemma enumerated: "i \<in> set is \<Longrightarrow> \<exists>pc. (pc, i) \<in> set (enumerate 0 is)"
  by (metis image_iff set_map map_snd_enumerate prod.collapse)

lemma closed_at:
  "an_sums st = sums \<and> closed_fn m f st \<Longrightarrow> i \<in> set (code_of m f) \<Longrightarrow> \<exists>pc. alias_closed m f (an_regs st) sums (pc, i)"
  using enumerated [of i "code_of m f"] by (auto simp: closed_fn_def)

text \<open>Closed states contain the least solution.\<close>

lemma closed_least:
  assumes sh: "shape m sums"
    and cl: "\<And>f. f < length (md_functions m) \<Longrightarrow> an_sums (S f) = sums \<and> closed_fn m f (S f)"
  shows "flow m f r z \<Longrightarrow> z \<in> reg_at (an_regs (S f)) r" and "to_ret m g p \<Longrightarrow> pr_at sums g p" and "pesc m g p \<Longrightarrow> pe_at sums g p"
proof (induction rule: flow_to_ret_pesc.inducts)
  case (flow_param f p)
  then show ?case using cl [of f] by (auto simp: closed_fn_def)
next
  case (flow_alloc f pc i)
  then have "(pc, i) \<in> set (enumerate 0 (code_of m f))" by (auto simp: in_set_enumerate_eq)
  then have "alias_closed m f (an_regs (S f)) sums (pc, i)" using cl [OF flow_alloc(1)] by (auto simp: closed_fn_def)
  then show ?case using flow_alloc by (auto simp: alias_closed_def)
next
  case (flow_copy f i r z)
  obtain pc where "alias_closed m f (an_regs (S f)) sums (pc, i)"
    using closed_at [OF cl [OF flow_copy(1)] flow_copy(2)] by blast
  then have "reg_at (an_regs (S f)) r \<subseteq> reg_at (an_regs (S f)) (in_a i)"
    using flow_copy(3,4) by (simp add: alias_closed_def)
  then show ?case using flow_copy(6) by (rule subsetD)
next
  case (flow_call f i g k z)
  obtain pc where "alias_closed m f (an_regs (S f)) sums (pc, i)"
    using closed_at [OF cl [OF flow_call(1)] flow_call(2)] by blast
  then have "reg_at (an_regs (S f)) (in_c i + int k) \<subseteq> reg_at (an_regs (S f)) (in_a i)"
    using flow_call by (simp add: alias_closed_def)
  then show ?case using flow_call by auto
next
  case (flow_native f i ni k z z')
  obtain pc where c: "alias_closed m f (an_regs (S f)) sums (pc, i)"
    using closed_at [OF cl [OF flow_native(1)] flow_native(2)] by blast
  let ?R = "reg_at (an_regs (S f)) (in_c i + int k)"
  have "\<not> argIsValueStruct (code_of m f) ?R"
    using flow_native by (auto simp: argIsValueStruct_def struct_site_def)
  then have "z \<in> native_alias (code_of m f) ni i (an_regs (S f))"
    using flow_native by (auto simp: native_alias_def)
  then show ?case using c flow_native by (auto simp: alias_closed_def)
next
  case (to_ret f i p)
  then have "ret_covered f (S f) (reg_at (an_regs (S f)) (in_a i))" using cl [of f] by (auto simp: closed_fn_def)
  then show ?case using to_ret cl [of f] sh by (auto simp: ret_covered_def pr_at_def shape_def)
next
  case (pesc f i r p)
  have "r \<in> sinks_by m (pe_at sums) i" using pesc(3) by (auto simp: sinks_by_def)
  then have "covered f (S f) (reg_at (an_regs (S f)) r)" using cl [of f] pesc by (auto simp: closed_fn_def)
  then show ?case using pesc cl [of f] sh by (auto simp: covered_def pe_at_def shape_def)
qed

lemma az_closed_exact:
  assumes "az_sound m a" and "az_closed m {..<length (md_functions m)} a" and f: "f < length (md_functions m)" and z: "0 \<le> z"
  shows "(az_siteEscape a ! f) z \<noteq> None \<longleftrightarrow> escapes m f z"
proof
  assume "(az_siteEscape a ! f) z \<noteq> None"
  then show "escapes m f z" using assms(1) f by (auto simp: az_sound_def)
next
  assume e: "escapes m f z"
  have "\<forall>f \<in> {..<length (md_functions m)}. \<exists>st. an_sums st = az_sums a \<and> an_esc st = az_siteEscape a ! f \<and> closed_fn m f st"
    using assms(2) by (simp add: az_closed_def)
  from bchoice [OF this] obtain S where S: "\<And>f. f < length (md_functions m) \<Longrightarrow> an_sums (S f) = az_sums a \<and> closed_fn m f (S f)"
    "\<And>f. f < length (md_functions m) \<Longrightarrow> an_esc (S f) = az_siteEscape a ! f" by auto
  have sh: "shape m (az_sums a)" using assms(1) by (simp add: az_sound_def sums_sound_def)
  note least = closed_least [OF sh S(1)]
  obtain i r where i: "i \<in> set (code_of m f)" "in_op i = OpRet \<and> r = in_a i \<or> r \<in> sinks_by m (pesc m) i" "flow m f r z"
    using e by (auto simp: escapes_def)
  have "z \<in> reg_at (an_regs (S f)) r" using least(1) i(3) by blast
  moreover have "sinks_by m (pesc m) i \<subseteq> sinks_by m (pe_at (az_sums a)) i" using least(3) by (auto simp: sinks_by_def)
  moreover have "covered f (S f) (reg_at (an_regs (S f)) r)" if "r \<in> sinks_by m (pe_at (az_sums a)) i"
    using that i(1) S(1) [OF f] by (auto simp: closed_fn_def)
  moreover have "ret_covered f (S f) (reg_at (an_regs (S f)) r)" if "in_op i = OpRet" "r = in_a i"
    using that i(1) S(1) [OF f] by (auto simp: closed_fn_def)
  ultimately have "an_esc (S f) z \<noteq> None"
    using i(2) z unfolding covered_def ret_covered_def by blast
  then show "(az_siteEscape a ! f) z \<noteq> None" using S(2) [OF f] by simp
qed

section \<open>The number of rounds\<close>

text \<open>The bits of the summaries that are set.\<close>

definition bits :: "bool list \<Rightarrow> nat" where
  "bits bs = length (filter (\<lambda>b. b) bs)"

definition weight :: "summary list \<Rightarrow> nat" where
  "weight sums = sum_list (map (\<lambda>s. bits (paramEscapes s) + bits (paramToRet s)) sums)"

lemma bits_mark: "bits bs \<le> bits (mark s bs)" "mark s bs \<noteq> bs \<Longrightarrow> bits bs < bits (mark s bs)"
proof -
  have b: "bits xs = card {p. p < length xs \<and> xs ! p}" for xs
    by (simp add: bits_def length_filter_conv_card)
  have sub: "{p. p < length bs \<and> bs ! p} \<subseteq> {p. p < length (mark s bs) \<and> mark s bs ! p}" by auto
  have fin: "finite {p. p < length (mark s bs) \<and> mark s bs ! p}" by simp
  show "bits bs \<le> bits (mark s bs)" unfolding b by (rule card_mono [OF fin sub])
  assume "mark s bs \<noteq> bs"
  then have "{p. p < length bs \<and> bs ! p} \<noteq> {p. p < length (mark s bs) \<and> mark s bs ! p}"
    by (auto simp: mark_eq_iff set_eq_iff)
  then show "bits bs < bits (mark s bs)" unfolding b using sub fin by (intro psubset_card_mono) auto
qed

lemma weight_update:
  "f < length sums \<Longrightarrow> weight (sums[f := x]) + (bits (paramEscapes (sums ! f)) + bits (paramToRet (sums ! f))) =
   weight sums + (bits (paramEscapes x) + bits (paramToRet x))"
  by (induction sums arbitrary: f) (auto simp: weight_def nth_Cons split: nat.splits)

definition grown :: "nat \<Rightarrow> summary list \<Rightarrow> an_state \<Rightarrow> bool" where
  "grown f s0 st \<longleftrightarrow> f < length s0 \<and> length (an_sums st) = length s0 \<and>
     weight s0 + of_bool (an_summaryChanged st) \<le> weight (an_sums st)"

interpretation gr: an_invariant f "grown f s0" for f s0
proof unfold_locales
  fix st r s assume "grown f s0 st"
  then show "grown f s0 (merge r s st)" by (simp add: grown_def)
next
  fix st s why assume g: "grown f s0 st"
  show "grown f s0 (escapeSet f s why st)"
    using g bits_mark [where bs = "paramEscapes (an_sums st ! f)" and s = s]
      weight_update [of f "an_sums st" "(an_sums st ! f)\<lparr>paramEscapes := mark s (paramEscapes (an_sums st ! f))\<rparr>"]
    by (cases "mark s (paramEscapes (an_sums st ! f)) = paramEscapes (an_sums st ! f)")
      (auto simp: grown_def escapeSet_def Let_def)
next
  fix st s assume g: "grown f s0 st"
  show "grown f s0 (returnSet f s st)"
    using g bits_mark [where bs = "paramToRet (an_sums st ! f)" and s = s]
      weight_update [of f "an_sums st" "(an_sums st ! f)\<lparr>paramToRet := mark s (paramToRet (an_sums st ! f))\<rparr>"]
    by (cases "mark s (paramToRet (an_sums st ! f)) = paramToRet (an_sums st ! f)")
      (auto simp: grown_def returnSet_def Let_def)
qed

lemma analyzeFn_weight:
  assumes "analyzeFn m f sums = Some st" and "f < length sums"
  shows "weight sums + of_bool (an_summaryChanged st) \<le> weight (an_sums st)" and "length (an_sums st) = length sums"
proof -
  obtain st1 where w: "while_option an_changed (alias_pass m f) (init_state (md_functions m ! f) sums) = Some st1"
    and st: "st = fold (sink_step m f) (code_of m f) st1"
    using assms(1) by (auto simp: analyzeFn_def Let_def)
  have "grown f sums (init_state (md_functions m ! f) sums)" using assms(2) by (simp add: grown_def init_state_def)
  moreover have "grown f sums (alias_pass m f s)" if "grown f sums s" for s
    unfolding alias_pass_def by (rule gr.alias_fold) (use that in \<open>simp add: grown_def\<close>)
  ultimately have "grown f sums st1" by (intro while_option_rule [where P = "grown f sums", OF _ w])
  then have g: "grown f sums st" unfolding st by (rule gr.sink_fold)
  then show "weight sums + of_bool (an_summaryChanged st) \<le> weight (an_sums st)"
    by (simp add: grown_def)
  show "length (an_sums st) = length sums" using g by (simp add: grown_def)
qed

lemma round_fns_weight:
  "round_fns m fis (a, ch) = Some (a', ch') \<Longrightarrow> set fis \<subseteq> {..<length (az_sums a)} \<Longrightarrow>
   weight (az_sums a) + of_bool ch' \<le> weight (az_sums a') + of_bool ch \<and> length (az_sums a') = length (az_sums a)"
proof (induction fis arbitrary: a ch)
  case (Cons f fis)
  obtain st where st: "analyzeFn m f (az_sums a) = Some st" using Cons.prems by (auto split: option.splits)
  note w = analyzeFn_weight [OF st]
  let ?a1 = "\<lparr>az_sums = an_sums st, az_siteEscape = (az_siteEscape a)[f := an_esc st]\<rparr>"
  have "round_fns m fis (?a1, ch \<or> an_summaryChanged st) = Some (a', ch')" using Cons.prems(1) st by simp
  from Cons.IH [OF this] show ?case using w Cons.prems(2)
    by (cases ch; cases ch'; cases "an_summaryChanged st") auto
qed simp

lemma analyze_rounds_weight:
  "analyze_rounds n m (a, True) = Some (a', True) \<Longrightarrow> length (az_sums a) = length (md_functions m) \<Longrightarrow>
   weight (az_sums a) + n \<le> weight (az_sums a') \<and> length (az_sums a') = length (md_functions m)"
proof (induction n arbitrary: a)
  case (Suc n)
  obtain a1 c1 where r: "analyze_round m a = Some (a1, c1)" "analyze_rounds n m (a1, c1) = Some (a', True)"
    using Suc.prems(1) by (auto split: option.splits)
  have c1: "c1" using r(2) by (cases n) (auto split: if_splits)
  show ?case using Suc.IH [of a1] r c1 Suc.prems(2) round_fns_weight [of m "[0..<length (md_functions m)]" a False a1 c1]
    by (auto simp: analyze_round_def atLeast0LessThan)
qed simp

lemma weight_bound:
  assumes "shape m sums"
  shows "weight sums \<le> 2 * (\<Sum>fn \<leftarrow> md_functions m. fn_nparams fn)"
proof -
  have "bits (paramEscapes (sums ! g)) + bits (paramToRet (sums ! g)) \<le> 2 * fn_nparams (md_functions m ! g)"
    if "g < length sums" for g
    using that assms length_filter_le [of "\<lambda>b. b" "paramEscapes (sums ! g)"] length_filter_le [of "\<lambda>b. b" "paramToRet (sums ! g)"]
    by (auto simp: shape_def bits_def)
  then have "weight sums \<le> (\<Sum>g < length sums. 2 * fn_nparams (md_functions m ! g))"
    unfolding weight_def sum_list_sum_nth by (auto simp: atLeast0LessThan intro: sum_mono)
  also have "\<dots> = 2 * (\<Sum>fn \<leftarrow> md_functions m. fn_nparams fn)"
    using assms by (simp add: sum_list_sum_nth shape_def atLeast0LessThan sum_distrib_left)
  finally show ?thesis .
qed

text \<open>The analysis always returns; with fewer than 32 summary bits its last round changed nothing.\<close>

lemma analysis_result:
  obtains a ch where "analyze_rounds max_rounds m (new_analyzer m, True) = Some (a, ch)" "az_sound m a"
    "\<not> ch \<longrightarrow> az_closed m {..<length (md_functions m)} a"
    "2 * (\<Sum>fn \<leftarrow> md_functions m. fn_nparams fn) < max_rounds \<longrightarrow> \<not> ch"
proof -
  obtain a ch where r: "analyze_rounds max_rounds m (new_analyzer m, True) = Some (a, ch)" "az_sound m a"
    "\<not> ch \<longrightarrow> az_closed m {..<length (md_functions m)} a"
    using analyze_rounds_correct [OF new_analyzer_sound, of True m max_rounds] by auto
  have "max_rounds \<le> 2 * (\<Sum>fn \<leftarrow> md_functions m. fn_nparams fn)" if ch
    using analyze_rounds_weight [of max_rounds m "new_analyzer m" a] r(1,2) that weight_bound [of m "az_sums a"]
    by (auto simp: new_analyzer_def az_sound_def sums_sound_def)
  with r that show ?thesis by (metis leD)
qed

section \<open>Properties of the analysis\<close>

definition alloc_at :: "ir_module \<Rightarrow> nat \<Rightarrow> nat \<Rightarrow> bool" where
  "alloc_at m f pc \<longleftrightarrow> f < length (md_functions m) \<and> pc < length (code_of m f) \<and>
     (isAlloc (in_op (code_of m f ! pc)) \<or> cvAlloc (code_of m f ! pc))"

lemma collected:
  "s \<in> set (oi_sites (collect_sites m a)) \<longleftrightarrow>
     (\<exists>f < length (md_functions m). \<exists>pc < length (code_of m f). site_of f (az_siteEscape a ! f) (pc, code_of m f ! pc) = Some s)"
proof -
  have "s \<in> set (fn_sites m a f) \<longleftrightarrow> (\<exists>pc < length (code_of m f). site_of f (az_siteEscape a ! f) (pc, code_of m f ! pc) = Some s)" for f
    unfolding fn_sites_def map_filter_def by (force simp: in_set_enumerate_eq)
  then show ?thesis by (auto simp: collect_sites_def Let_def)
qed

lemma site_of_Some:
  "site_of f esc (pc, i) = Some s \<longleftrightarrow> (isAlloc (in_op i) \<or> cvAlloc i) \<and> as_fn s = f \<and> as_pc s = pc \<and> as_op s = in_op i \<and>
     (as_escapes s \<longleftrightarrow> (if value_struct i then \<exists>why. esc (int pc) = Some why \<and> take 8 why \<noteq> ''passed t'' else esc (int pc) \<noteq> None)) \<and>
     as_reason s = (if as_escapes s then the (esc (int pc)) else [])"
  by (cases s) (auto simp: site_of_def Let_def split: option.splits)

lemma scopeOwned_iff:
  "(f, pc) \<in> oi_scopeOwned (collect_sites m a) \<longleftrightarrow> alloc_at m f pc \<and>
     (let esc = (az_siteEscape a ! f) (int pc)
      in if value_struct (code_of m f ! pc) then \<nexists>why. esc = Some why \<and> take 8 why \<noteq> ''passed t'' else esc = None)"
  (is "_ \<longleftrightarrow> ?R")
proof -
  have "(f, pc) \<in> oi_scopeOwned (collect_sites m a) \<longleftrightarrow>
      (\<exists>s \<in> set (oi_sites (collect_sites m a)). \<not> as_escapes s \<and> as_fn s = f \<and> as_pc s = pc)"
    by (auto simp: collect_sites_def Let_def)
  also have "\<dots> \<longleftrightarrow> (\<exists>s. f < length (md_functions m) \<and> pc < length (code_of m f) \<and>
      site_of f (az_siteEscape a ! f) (pc, code_of m f ! pc) = Some s \<and> \<not> as_escapes s)"
    unfolding Bex_def collected by (auto simp: site_of_Some)
  also have "\<dots> \<longleftrightarrow> ?R" unfolding alloc_at_def
    by (auto simp: site_of_def Let_def split: option.splits)
  finally show ?thesis .
qed

text \<open>
  C2. The escape analysis computes the least solution of its constraints: when the functions have fewer
  than 16 parameters in all, the 32 rounds reach the fixpoint, an allocation that is not a value struct is
  scope-owned exactly when it does not escape in the least solution, and a value struct that does not
  escape is scope-owned.
\<close>

theorem analyzeOwnership_exact:
  assumes "2 * (\<Sum>fn \<leftarrow> md_functions m. fn_nparams fn) < max_rounds" and "alloc_at m f pc"
  shows "\<exists>info. analyzeOwnership m = Some info \<and>
    (\<not> value_struct (code_of m f ! pc) \<longrightarrow> ((f, pc) \<in> oi_scopeOwned info \<longleftrightarrow> \<not> escapes m f (int pc))) \<and>
    (\<not> escapes m f (int pc) \<longrightarrow> (f, pc) \<in> oi_scopeOwned info)"
proof -
  obtain a ch where a: "analyze_rounds max_rounds m (new_analyzer m, True) = Some (a, ch)" "az_sound m a"
    "\<not> ch \<longrightarrow> az_closed m {..<length (md_functions m)} a" "\<not> ch"
    using analysis_result [of m] assms(1) by blast
  have "(az_siteEscape a ! f) (int pc) \<noteq> None \<longleftrightarrow> escapes m f (int pc)"
    using az_closed_exact [OF a(2), of f "int pc"] a(3,4) assms(2) by (auto simp: alloc_at_def)
  then have "(az_siteEscape a ! f) (int pc) = None \<longleftrightarrow> \<not> escapes m f (int pc)" by blast
  then show ?thesis using a(1) assms(2) scopeOwned_iff [of f pc m a]
    by (auto simp: analyzeOwnership_def)
qed

text \<open>
  C24. The escape analysis terminates on every module, its local fixpoints included, lists exactly the
  allocating instructions, and reports as escaping only allocations that escape in the least solution.
\<close>

theorem analyzeOwnership_total:
  "\<exists>info. analyzeOwnership m = Some info \<and>
    (\<forall>f pc. (\<exists>s \<in> set (oi_sites info). as_fn s = f \<and> as_pc s = pc) \<longleftrightarrow> alloc_at m f pc) \<and>
    (\<forall>s \<in> set (oi_sites info). as_escapes s \<longrightarrow> escapes m (as_fn s) (int (as_pc s)))"
proof -
  obtain a ch where a: "analyze_rounds max_rounds m (new_analyzer m, True) = Some (a, ch)" "az_sound m a"
    using analysis_result [of m] by blast
  have "(\<exists>s \<in> set (oi_sites (collect_sites m a)). as_fn s = f \<and> as_pc s = pc) \<longleftrightarrow> alloc_at m f pc" for f pc
  proof -
    have "(\<exists>s \<in> set (oi_sites (collect_sites m a)). as_fn s = f \<and> as_pc s = pc) \<longleftrightarrow>
        f < length (md_functions m) \<and> pc < length (code_of m f) \<and> (\<exists>s. site_of f (az_siteEscape a ! f) (pc, code_of m f ! pc) = Some s)"
      unfolding Bex_def collected by (auto simp: site_of_Some)
    also have "\<dots> \<longleftrightarrow> alloc_at m f pc" by (auto simp: alloc_at_def site_of_def Let_def)
    finally show ?thesis .
  qed
  moreover have "escapes m (as_fn s) (int (as_pc s))" if "s \<in> set (oi_sites (collect_sites m a))" "as_escapes s" for s
    using that a(2) unfolding collected by (auto simp: site_of_Some az_sound_def split: if_splits)
  ultimately show ?thesis using a(1) by (auto simp: analyzeOwnership_def)
qed

theorem analyzeOwnership_total_witness:
  "\<exists>info. analyzeOwnership (mk_module [mk_fn 0 1 [inst0 OpNewMap, inst0 OpRet]]) = Some info \<and>
     (\<exists>s \<in> set (oi_sites info). as_fn s = 0 \<and> as_pc s = 0 \<and> as_escapes s \<and> as_reason s = ''returned to caller'') \<and>
     escapes (mk_module [mk_fn 0 1 [inst0 OpNewMap, inst0 OpRet]]) 0 0"
proof -
  let ?m = "mk_module [mk_fn 0 1 [inst0 OpNewMap, inst0 OpRet]]"
  have e: "map_option oi_sites (analyzeOwnership ?m) =
      Some [\<lparr>as_fn = 0, as_pc = 0, as_op = OpNewMap, as_escapes = True, as_reason = ''returned to caller''\<rparr>]"
    by code_simp
  obtain info where i: "analyzeOwnership ?m = Some info" "\<forall>s \<in> set (oi_sites info). as_escapes s \<longrightarrow> escapes ?m (as_fn s) (int (as_pc s))"
    using analyzeOwnership_total [of ?m] by blast
  with e show ?thesis by simp
qed

theorem analyzeOwnership_exact_witness:
  "\<not> escapes (mk_module [mk_fn 0 2 [inst0 OpNewMap, (inst0 OpMove)\<lparr>in_a := 1, in_b := 0\<rparr>]]) 0 0"
proof -
  let ?m = "mk_module [mk_fn 0 2 [inst0 OpNewMap, (inst0 OpMove)\<lparr>in_a := 1, in_b := 0\<rparr>]]"
  have e: "map_option (\<lambda>i. (0, 0) \<in> oi_scopeOwned i) (analyzeOwnership ?m) = Some True" by code_simp
  have "2 * (\<Sum>fn \<leftarrow> md_functions ?m. fn_nparams fn) < max_rounds" "alloc_at ?m 0 0" "\<not> value_struct (code_of ?m 0 ! 0)"
    by code_simp+
  with analyzeOwnership_exact [of ?m 0 0] e show ?thesis by auto
qed

section \<open>A call chain longer than the rounds\<close>

text \<open>The function 0 allocates a map and passes it to 1; each function passes its parameter on to the next,
  and the last one, 32, stores it in a global.\<close>

definition chain_fn :: "nat \<Rightarrow> ir_function" where
  "chain_fn j =
     (if j = 0 then mk_fn 0 2 [inst0 OpNewMap, (inst0 OpCall)\<lparr>in_a := 1, in_b := 1, in_d := 1\<rparr>]
      else if j = 32 then mk_fn 1 2 [inst0 OpStoreGlobal]
      else mk_fn 1 2 [(inst0 OpCall)\<lparr>in_a := 1, in_b := int j + 1, in_d := 1\<rparr>])"

definition chain :: ir_module where
  "chain = mk_module (map chain_fn [0..<33])"

text \<open>The summaries when the parameters of the last functions, from \<open>t\<close> on, are known to escape.\<close>

definition chain_sum :: "nat \<Rightarrow> nat \<Rightarrow> summary" where
  "chain_sum t j = (if j = 0 then \<lparr>paramEscapes = [], paramToRet = []\<rparr> else \<lparr>paramEscapes = [t \<le> j], paramToRet = [False]\<rparr>)"

lemma while_two:
  "b s \<Longrightarrow> \<not> b (c s) \<Longrightarrow> while_option b c s = Some (c s)"
  by (simp add: while_option_unfold [of b c s] while_option_unfold [of b c "c s"])

lemma chain_nth: "j < 33 \<Longrightarrow> md_functions chain ! j = chain_fn j" "length (md_functions chain) = 33"
  by (simp_all add: chain_def mk_module_def)

lemmas own_eval = alias_pass_def alias_step_def isAlloc_def cvAlloc_def call_alias_def callSinks_def retained_arg_def
  escape_arg_def escapeSet_def Let_def reg_at_def merge_def init_state_def inst0_def mk_fn_def sink_step_def

lemma chain_last:
  assumes "length sums = 33" and "sums ! 32 = \<lparr>paramEscapes = [b], paramToRet = [False]\<rparr>"
  shows "\<exists>st. analyzeFn chain 32 sums = Some st \<and> an_sums st = sums[32 := \<lparr>paramEscapes = [True], paramToRet = [False]\<rparr>] \<and>
    (an_summaryChanged st \<longleftrightarrow> \<not> b)"
proof -
  have fn: "md_functions chain ! 32 = mk_fn 1 2 [inst0 OpStoreGlobal]" by (simp add: chain_nth chain_fn_def)
  let ?st = "init_state (mk_fn 1 2 [inst0 OpStoreGlobal]) sums"
  have p: "alias_pass chain 32 ?st = ?st\<lparr>an_changed := False\<rparr>" by (simp add: own_eval fn)
  have w: "while_option an_changed (alias_pass chain 32) ?st = Some (?st\<lparr>an_changed := False\<rparr>)"
    using while_two [of an_changed ?st "alias_pass chain 32"] p by (simp add: init_state_def)
  have "mark {- 1} [b] = [True]" by (simp add: mark_def)
  then show ?thesis using assms w unfolding analyzeFn_def fn Let_def
    by (simp add: mk_fn_def own_eval)
qed

lemma chain_call:
  assumes j: "0 < j" "j < 32" and len: "length sums = 33"
    and sj: "sums ! j = \<lparr>paramEscapes = [b], paramToRet = [False]\<rparr>"
    and sk: "sums ! (j + 1) = \<lparr>paramEscapes = [c], paramToRet = [False]\<rparr>"
  shows "\<exists>st. analyzeFn chain j sums = Some st \<and> an_sums st = sums[j := \<lparr>paramEscapes = [b \<or> c], paramToRet = [False]\<rparr>] \<and>
    (an_summaryChanged st \<longleftrightarrow> c \<and> \<not> b)"
proof -
  let ?i = "(inst0 OpCall)\<lparr>in_a := 1, in_b := int j + 1, in_d := 1\<rparr>"
  have fn: "md_functions chain ! j = mk_fn 1 2 [?i]" using j by (simp add: chain_nth chain_fn_def)
  let ?st = "init_state (mk_fn 1 2 [?i]) sums"
  have k: "nat (int j + 1) = j + 1" by simp
  have pe: "pe_at sums (int j + 1) 0 \<longleftrightarrow> c" "\<not> pr_at sums (int j + 1) 0"
    using len j sk unfolding pe_at_def pr_at_def k by simp_all
  define st1 where "st1 = (if c then escapeSet j {- 1} ''passed to a retaining callee'' (?st\<lparr>an_changed := False\<rparr>)
    else ?st\<lparr>an_changed := False\<rparr>)"
  have m1: "mark {- 1} [x] = [True]" for x by (simp add: mark_def)
  have regs: "an_regs st1 = [{- 1}, {}]" "\<not> an_changed st1"
    by (simp_all add: st1_def init_state_def mk_fn_def upt_rec [of 0] upt_rec [of "Suc 0"])
  have p: "alias_pass chain j ?st = st1"
    using pe unfolding st1_def alias_pass_def fn
    by (simp add: mk_fn_def alias_step_def isAlloc_def cvAlloc_def inst0_def call_alias_def callSinks_def
        retained_arg_def escape_arg_def init_state_def reg_at_def merge_def)
  have w: "while_option an_changed (alias_pass chain j) ?st = Some st1"
    using while_two [of an_changed ?st "alias_pass chain j"] p regs by (simp add: init_state_def)
  have s1: "an_sums st1 = sums[j := \<lparr>paramEscapes = [b \<or> c], paramToRet = [False]\<rparr>]"
    using sj len j m1 list_update_id [of sums j] by (auto simp: st1_def escapeSet_def Let_def init_state_def)
  have ch1: "an_summaryChanged st1 \<longleftrightarrow> c \<and> \<not> b"
    using sj m1 by (auto simp: st1_def escapeSet_def Let_def init_state_def)
  have pe1: "pe_at (an_sums st1) (int j + 1) 0 \<longleftrightarrow> c"
    using pe(1) unfolding s1 pe_at_def k by simp
  have "fold (sink_step chain j) [?i] st1 =
      (if c then escapeSet j {- 1} ''passed to a retaining callee'' st1 else st1)"
    using pe1 regs by (simp add: sink_step_def inst0_def retained_arg_def escape_arg_def reg_at_def)
  moreover have "an_sums (escapeSet j {- 1} why st1) = an_sums st1" "an_summaryChanged (escapeSet j {- 1} why st1) = an_summaryChanged st1"
    if c for why
    using that s1 len j m1 by (auto simp: escapeSet_def Let_def)
  ultimately show ?thesis using w s1 ch1 unfolding analyzeFn_def fn Let_def by (auto simp: mk_fn_def)
qed

lemma chain_main:
  assumes len: "length sums = 33" and s0: "sums ! 0 = \<lparr>paramEscapes = [], paramToRet = []\<rparr>"
    and s1: "sums ! 1 = \<lparr>paramEscapes = [False], paramToRet = [False]\<rparr>"
  shows "\<exists>st. analyzeFn chain 0 sums = Some st \<and> an_sums st = sums \<and> \<not> an_summaryChanged st \<and> an_esc st 0 = None"
proof -
  let ?i = "(inst0 OpCall)\<lparr>in_a := 1, in_b := 1, in_d := 1\<rparr>"
  have fn: "md_functions chain ! 0 = mk_fn 0 2 [inst0 OpNewMap, ?i]" by (simp add: chain_nth chain_fn_def)
  let ?st = "init_state (mk_fn 0 2 [inst0 OpNewMap, ?i]) sums"
  have pe: "\<not> pe_at sums 1 0" "\<not> pr_at sums 1 0" using len s1 by (simp_all add: pe_at_def pr_at_def)
  let ?st1 = "?st\<lparr>an_regs := [{0}, {}]\<rparr>"
  have step: "alias_pass chain 0 st = st\<lparr>an_regs := [{0}, {}], an_changed := an_regs st \<noteq> [{0}, {}]\<rparr>"
    if "an_sums st = sums" "an_regs st \<in> {[{}, {}], [{0}, {}]}" for st
    using that pe unfolding alias_pass_def fn
    by (auto simp: mk_fn_def alias_step_def isAlloc_def cvAlloc_def inst0_def call_alias_def callSinks_def
        retained_arg_def escape_arg_def reg_at_def merge_def)
  have i: "an_regs ?st = [{}, {}]" "an_sums ?st = sums" "an_changed ?st"
    by (simp_all add: init_state_def mk_fn_def upt_rec [of 0] upt_rec [of "Suc 0"])
  have "while_option an_changed (alias_pass chain 0) ?st = Some (?st1\<lparr>an_changed := False\<rparr>)"
    using step [of ?st] step [of "?st1\<lparr>an_changed := True\<rparr>"] i while_two [of an_changed "?st1\<lparr>an_changed := True\<rparr>" "alias_pass chain 0"]
    by (subst while_option_unfold) simp
  moreover have "fold (sink_step chain 0) [inst0 OpNewMap, ?i] (?st1\<lparr>an_changed := False\<rparr>) = ?st1\<lparr>an_changed := False\<rparr>"
    using pe by (simp add: sink_step_def inst0_def retained_arg_def init_state_def)
  ultimately show ?thesis unfolding analyzeFn_def fn Let_def by (simp add: mk_fn_def init_state_def)
qed

text \<open>In a round, the functions before \<open>j\<close> have been analyzed again: each parameter escapes when it, or the
  next function's, did at the start of the round.\<close>

definition chain_sums :: "nat \<Rightarrow> nat \<Rightarrow> summary list" where
  "chain_sums t j = map (\<lambda>i. chain_sum (if i < j then t - 1 else t) i) [0..<33]"

lemma chain_sums_update:
  assumes "0 < j" "j < 33" "2 \<le> t"
  shows "(chain_sums t j)[j := \<lparr>paramEscapes = [t \<le> j \<or> t \<le> j + 1], paramToRet = [False]\<rparr>] = chain_sums t (Suc j)"
  using assms by (intro nth_equalityI) (auto simp: chain_sums_def chain_sum_def nth_list_update)

lemma chain_sums_nth: "i < 33 \<Longrightarrow> chain_sums t j ! i = chain_sum (if i < j then t - 1 else t) i" "length (chain_sums t j) = 33"
  by (simp_all add: chain_sums_def)

lemma chain_analyze:
  assumes t: "2 \<le> t" "t \<le> 33" and j: "0 < j" "j < 33"
  shows "\<exists>st. analyzeFn chain j (chain_sums t j) = Some st \<and> an_sums st = chain_sums t (Suc j) \<and>
    (an_summaryChanged st \<longleftrightarrow> j = t - 1)"
proof (cases "j = 32")
  case True
  then have "chain_sums t j ! 32 = \<lparr>paramEscapes = [t \<le> 32], paramToRet = [False]\<rparr>"
    by (simp add: chain_sums_nth chain_sum_def)
  from chain_last [OF chain_sums_nth(2) this] show ?thesis
    using True t chain_sums_update [of 32 t] by auto
next
  case False
  then have "chain_sums t j ! j = \<lparr>paramEscapes = [t \<le> j], paramToRet = [False]\<rparr>"
    "chain_sums t j ! (j + 1) = \<lparr>paramEscapes = [t \<le> j + 1], paramToRet = [False]\<rparr>"
    using j by (simp_all add: chain_sums_nth chain_sum_def)
  from chain_call [OF j(1) _ chain_sums_nth(2) this] show ?thesis
    using False j t chain_sums_update [of j t] by auto
qed

lemma chain_tail:
  assumes t: "2 \<le> t" "t \<le> 33"
  shows "0 < j \<Longrightarrow> j \<le> 33 \<Longrightarrow> az_sums a = chain_sums t j \<Longrightarrow>
    \<exists>a'. round_fns chain [j..<33] (a, ch) = Some (a', ch \<or> j \<le> t - 1) \<and> az_sums a' = chain_sums t 33 \<and>
      az_siteEscape a' ! 0 = az_siteEscape a ! 0"
proof (induction "33 - j" arbitrary: j a ch)
  case 0
  then show ?case using t by auto
next
  case (Suc n)
  then have j: "0 < j" "j < 33" by simp_all
  obtain st where st: "analyzeFn chain j (az_sums a) = Some st" "an_sums st = chain_sums t (Suc j)"
    "an_summaryChanged st \<longleftrightarrow> j = t - 1"
    using chain_analyze [OF t j] Suc.prems by auto
  let ?a = "\<lparr>az_sums = an_sums st, az_siteEscape = (az_siteEscape a)[j := an_esc st]\<rparr>"
  have n: "n = 33 - Suc j" using Suc.hyps(2) by simp
  obtain a' where "round_fns chain [Suc j..<33] (?a, ch \<or> j = t - 1) = Some (a', (ch \<or> j = t - 1) \<or> Suc j \<le> t - 1)"
    "az_sums a' = chain_sums t 33" "az_siteEscape a' ! 0 = az_siteEscape ?a ! 0"
    using Suc.hyps(1) [OF n, of ?a "ch \<or> j = t - 1"] j st(2) by auto
  moreover have "(ch \<or> j = t - 1) \<or> Suc j \<le> t - 1 \<longleftrightarrow> ch \<or> j \<le> t - 1" by auto
  ultimately show ?case using st j by (auto simp: upt_conv_Cons)
qed

lemma round_fns_length: "round_fns m fis (a, ch) = Some (a', ch') \<Longrightarrow> length (az_siteEscape a') = length (az_siteEscape a)"
  by (induction m fis "(a, ch)" arbitrary: a ch rule: round_fns.induct) (auto split: option.splits)

lemma chain_round:
  assumes t: "2 \<le> t" "t \<le> 33" and a: "az_sums a = map (chain_sum t) [0..<33]" "length (az_siteEscape a) = 33"
  shows "\<exists>a'. analyze_round chain a = Some (a', True) \<and> az_sums a' = map (chain_sum (t - 1)) [0..<33] \<and>
    length (az_siteEscape a') = 33 \<and> (az_siteEscape a' ! 0) 0 = None"
proof -
  have s: "az_sums a = chain_sums t 0" using a(1) by (simp add: chain_sums_def)
  obtain st where st: "analyzeFn chain 0 (az_sums a) = Some st" "an_sums st = az_sums a" "\<not> an_summaryChanged st" "an_esc st 0 = None"
    using chain_main [of "az_sums a"] t unfolding s by (auto simp: chain_sums_nth chain_sum_def)
  let ?a = "\<lparr>az_sums = an_sums st, az_siteEscape = (az_siteEscape a)[0 := an_esc st]\<rparr>"
  have "chain_sums t 0 = chain_sums t 1"
    by (intro nth_equalityI) (auto simp: chain_sums_nth chain_sum_def)
  then obtain a' where r: "round_fns chain [1..<33] (?a, False) = Some (a', False \<or> 1 \<le> t - 1)"
    "az_sums a' = chain_sums t 33" "az_siteEscape a' ! 0 = an_esc st"
    using chain_tail [OF t, of 1 ?a False] st(2) s a(2) by auto
  have "round_fns chain [0..<33] (a, False) = Some (a', True)"
    using st r(1) t by (simp add: upt_conv_Cons)
  moreover have "chain_sums t 33 = map (chain_sum (t - 1)) [0..<33]" by (simp add: chain_sums_def)
  moreover have "length (az_siteEscape a') = length (az_siteEscape a)"
    using round_fns_length calculation(1) by blast
  ultimately show ?thesis using r st(4) a(2) by (auto simp: analyze_round_def chain_nth)
qed

lemma chain_rounds:
  assumes "n < t" and "t \<le> 33" and "az_sums a = map (chain_sum t) [0..<33]" and "length (az_siteEscape a) = 33"
    and "(az_siteEscape a ! 0) 0 = None"
  shows "\<exists>a'. analyze_rounds n chain (a, True) = Some (a', True) \<and> (az_siteEscape a' ! 0) 0 = None"
  using assms
proof (induction n arbitrary: t a)
  case (Suc n)
  obtain a1 where "analyze_round chain a = Some (a1, True)" "az_sums a1 = map (chain_sum (t - 1)) [0..<33]"
    "length (az_siteEscape a1) = 33" "(az_siteEscape a1 ! 0) 0 = None"
    using chain_round [of t a] Suc.prems by auto
  then show ?case using Suc.IH [of "t - 1" a1] Suc.prems by simp
qed simp

lemma chain_pesc: "0 < j \<Longrightarrow> j \<le> 32 \<Longrightarrow> pesc chain (int j) 0"
proof (induction "32 - j" arbitrary: j)
  case 0
  then have j: "j = 32" by simp
  have "flow chain 32 0 (- 1)"
    using flow_param [of 32 chain 0] by (simp add: chain_nth chain_fn_def mk_fn_def)
  then show ?case unfolding j
    by (intro flow_to_ret_pesc.pesc [of _ _ "inst0 OpStoreGlobal" 0])
      (simp_all add: chain_nth chain_fn_def mk_fn_def inst0_def sinks_by_def plain_sinks_def)
next
  case (Suc n)
  then have j: "0 < j" "j < 32" by simp_all
  let ?i = "(inst0 OpCall)\<lparr>in_a := 1, in_b := int j + 1, in_d := 1\<rparr>"
  have p: "pesc chain (int j + 1) 0" using Suc.hyps(1) [of "Suc j"] Suc.hyps(2) j by (simp add: add.commute)
  have "flow chain j 0 (- 1)"
    using flow_param [of j chain 0] j by (simp add: chain_nth chain_fn_def mk_fn_def)
  then show ?case using p j
    by (intro flow_to_ret_pesc.pesc [of _ _ ?i 0])
      (auto simp: chain_nth chain_fn_def mk_fn_def inst0_def sinks_by_def call_target_def)
qed

lemma chain_escapes: "escapes chain 0 0"
proof -
  let ?i = "(inst0 OpCall)\<lparr>in_a := 1, in_b := 1, in_d := 1\<rparr>"
  have f: "flow chain 0 0 0"
    using flow_alloc [of 0 chain 0 "inst0 OpNewMap"]
    by (simp add: chain_nth chain_fn_def mk_fn_def inst0_def isAlloc_def reg_in_def)
  have "pesc chain 1 0" using chain_pesc [of 1] by simp
  then have "0 \<in> sinks_by chain (pesc chain) ?i"
    by (auto simp: sinks_by_def call_target_def inst0_def)
  moreover have "?i \<in> set (code_of chain 0)" by (simp add: chain_nth chain_fn_def mk_fn_def)
  ultimately show ?thesis using f unfolding escapes_def by (auto simp: chain_nth)
qed

text \<open>
  C40. The round limit makes the analysis report an escaping allocation as scope-owned: in a module where
  the map allocated by the first function is passed down 32 calls and stored in a global by the last, the
  allocation escapes in the least solution, yet the 32 rounds end with summaries still changing and the
  allocation listed as scope-owned.
\<close>

theorem analyzeOwnership_round_limit:
  "escapes chain 0 0 \<and> (\<exists>info. analyzeOwnership chain = Some info \<and> (0, 0) \<in> oi_scopeOwned info)"
proof -
  have n: "az_sums (new_analyzer chain) = map (chain_sum 33) [0..<33]"
    unfolding new_analyzer_def
    by (intro nth_equalityI) (auto simp: chain_nth chain_fn_def mk_fn_def chain_sum_def)
  obtain a where a: "analyze_rounds max_rounds chain (new_analyzer chain, True) = Some (a, True)" "(az_siteEscape a ! 0) 0 = None"
    using chain_rounds [of max_rounds 33, OF _ _ n] by (auto simp: max_rounds_def new_analyzer_def chain_nth)
  have "code_of chain 0 ! 0 = inst0 OpNewMap" "0 < length (code_of chain 0)"
    by (simp_all add: chain_nth chain_fn_def mk_fn_def)
  then have "(0, 0) \<in> oi_scopeOwned (collect_sites chain a)"
    using a(2) by (simp add: scopeOwned_iff alloc_at_def chain_nth isAlloc_def inst0_def value_struct_def cvAlloc_def)
  then show ?thesis using a(1) chain_escapes by (simp add: analyzeOwnership_def)
qed

section \<open>Two imprecisions\<close>

text \<open>Only the first reason of a site is kept: a value struct passed to a function that stores its
  parameter, and then returned, is listed as scope-owned, because the reason recorded first is the call.\<close>

definition passed_then_returned :: ir_module where
  "passed_then_returned = mk_module
     [mk_fn 0 2 [(inst0 OpNewObject)\<lparr>in_b := - 1, in_sym := Some \<lparr>cls_id = 1, cls_name = ''P'', cls_isValue = True\<rparr>\<rparr>,
                 (inst0 OpCall)\<lparr>in_a := 1, in_b := 1, in_d := 1\<rparr>, inst0 OpRet],
      mk_fn 1 1 [inst0 OpStoreGlobal, inst0 OpRetVoid]]"

lemma struct_first_reason:
  "map_option (\<lambda>i. (0, 0) \<in> oi_scopeOwned i) (analyzeOwnership passed_then_returned) = Some True"
  by code_simp

text \<open>An element read back from an array literal aliases nothing: an object put into the literal and
  returned through an index is listed as scope-owned.\<close>

definition element_returned :: ir_module where
  "element_returned = mk_module
     [mk_fn 0 4 [(inst0 OpNewObject)\<lparr>in_b := - 1\<rparr>, (inst0 OpNewArray)\<lparr>in_a := 1, in_d := 1\<rparr>,
                 (inst0 OpLoadConst)\<lparr>in_a := 2\<rparr>, (inst0 OpGetIndex)\<lparr>in_a := 3, in_b := 1, in_c := 2\<rparr>,
                 (inst0 OpRet)\<lparr>in_a := 3\<rparr>]]"

lemma element_returned_owned:
  "map_option (\<lambda>i. (0, 0) \<in> oi_scopeOwned i) (analyzeOwnership element_returned) = Some True"
  by code_simp

end
