(* ===== verification/Sha256.thy ===== *)
theory Sha256
  imports Lev_Prelude
begin

unbundle bit_operations_syntax

text \<open>
  The SHA-256 of \<open>tools/trident/hash.cpp\<close>: the streaming object with its 64-byte buffer and 64-bit length
  counter, on machine words. \<open>sha_buffer\<close> is the part of \<open>buffer_\<close> below \<open>bufferLen_\<close>. The properties relate
  the streaming interface to the one-block-at-a-time definition of the standard on the padded message,
  whatever the message is cut into.
\<close>

section \<open>The compression function\<close>

type_synonym byte = "8 word"

definition kH0 :: "32 word list" where
  "kH0 = [0x6a09e667, 0xbb67ae85, 0x3c6ef372, 0xa54ff53a,
          0x510e527f, 0x9b05688c, 0x1f83d9ab, 0x5be0cd19]"

definition kK :: "32 word list" where
  "kK = concat
    [[0x428a2f98, 0x71374491, 0xb5c0fbcf, 0xe9b5dba5, 0x3956c25b, 0x59f111f1, 0x923f82a4, 0xab1c5ed5],
     [0xd807aa98, 0x12835b01, 0x243185be, 0x550c7dc3, 0x72be5d74, 0x80deb1fe, 0x9bdc06a7, 0xc19bf174],
     [0xe49b69c1, 0xefbe4786, 0x0fc19dc6, 0x240ca1cc, 0x2de92c6f, 0x4a7484aa, 0x5cb0a9dc, 0x76f988da],
     [0x983e5152, 0xa831c66d, 0xb00327c8, 0xbf597fc7, 0xc6e00bf3, 0xd5a79147, 0x06ca6351, 0x14292967],
     [0x27b70a85, 0x2e1b2138, 0x4d2c6dfc, 0x53380d13, 0x650a7354, 0x766a0abb, 0x81c2c92e, 0x92722c85],
     [0xa2bfe8a1, 0xa81a664b, 0xc24b8b70, 0xc76c51a3, 0xd192e819, 0xd6990624, 0xf40e3585, 0x106aa070],
     [0x19a4c116, 0x1e376c08, 0x2748774c, 0x34b0bcb5, 0x391c0cb3, 0x4ed8aa4a, 0x5b9cca4f, 0x682e6ff3],
     [0x748f82ee, 0x78a5636f, 0x84c87814, 0x8cc70208, 0x90befffa, 0xa4506ceb, 0xbef9a3f7, 0xc67178f2]]"

definition rotr :: "32 word \<Rightarrow> nat \<Rightarrow> 32 word" where
  "rotr x n = (drop_bit n x) OR (push_bit (32 - n) x)"

definition be_word :: "byte list \<Rightarrow> nat \<Rightarrow> 32 word" where
  "be_word block i =
     push_bit 24 (ucast (block ! (i * 4))) OR push_bit 16 (ucast (block ! (i * 4 + 1))) OR
     push_bit 8 (ucast (block ! (i * 4 + 2))) OR ucast (block ! (i * 4 + 3))"

definition schedule_step :: "nat \<Rightarrow> 32 word list \<Rightarrow> 32 word list" where
  "schedule_step i w =
     (let s0 = rotr (w ! (i - 15)) 7 XOR rotr (w ! (i - 15)) 18 XOR drop_bit 3 (w ! (i - 15));
          s1 = rotr (w ! (i - 2)) 17 XOR rotr (w ! (i - 2)) 19 XOR drop_bit 10 (w ! (i - 2))
      in w @ [w ! (i - 16) + s0 + w ! (i - 7) + s1])"

definition schedule :: "byte list \<Rightarrow> 32 word list" where
  "schedule block = fold schedule_step [16..<64] (map (be_word block) [0..<16])"

record sha_vars =
  va :: "32 word"
  vb :: "32 word"
  vc :: "32 word"
  vd :: "32 word"
  ve :: "32 word"
  vf :: "32 word"
  vg :: "32 word"
  vh :: "32 word"

definition sha_round :: "32 word \<times> 32 word \<Rightarrow> sha_vars \<Rightarrow> sha_vars" where
  "sha_round = (\<lambda>(k, w) s.
     let S1 = rotr (ve s) 6 XOR rotr (ve s) 11 XOR rotr (ve s) 25;
         ch = (ve s AND vf s) XOR (NOT (ve s) AND vg s);
         temp1 = vh s + S1 + ch + k + w;
         S0 = rotr (va s) 2 XOR rotr (va s) 13 XOR rotr (va s) 22;
         maj = (va s AND vb s) XOR (va s AND vc s) XOR (vb s AND vc s);
         temp2 = S0 + maj
     in \<lparr>va = temp1 + temp2, vb = va s, vc = vb s, vd = vc s,
         ve = vd s + temp1, vf = ve s, vg = vf s, vh = vg s\<rparr>)"

definition processBlock :: "byte list \<Rightarrow> 32 word list \<Rightarrow> 32 word list" where
  "processBlock block st =
     (let w = schedule block;
          s0 = \<lparr>va = st ! 0, vb = st ! 1, vc = st ! 2, vd = st ! 3, ve = st ! 4, vf = st ! 5, vg = st ! 6, vh = st ! 7\<rparr>;
          s = fold sha_round (zip kK w) s0
      in [st ! 0 + va s, st ! 1 + vb s, st ! 2 + vc s, st ! 3 + vd s,
          st ! 4 + ve s, st ! 5 + vf s, st ! 6 + vg s, st ! 7 + vh s])"

section \<open>The streaming object\<close>

record sha256 =
  sha_state :: "32 word list"
  sha_bitLen :: "64 word"
  sha_buffer :: "byte list"

definition new_sha256 :: sha256 where
  "new_sha256 = \<lparr>sha_state = kH0, sha_bitLen = 0, sha_buffer = []\<rparr>"

text \<open>The loop of \<open>update\<close>. The buffer is never full here (\<open>sha_ok\<close>), so each turn takes at least a byte.\<close>

definition sha_ok :: "sha256 \<Rightarrow> bool" where
  "sha_ok s \<longleftrightarrow> length (sha_buffer s) < 64"

function update_loop :: "byte list \<Rightarrow> sha256 \<Rightarrow> sha256" where
  "update_loop p s =
     (if p = [] \<or> \<not> sha_ok s then s
      else
        let n = min (64 - length (sha_buffer s)) (length p);
            buf = sha_buffer s @ take n p
        in update_loop (drop n p)
             (if length buf = 64 then s\<lparr>sha_state := processBlock buf (sha_state s), sha_buffer := []\<rparr>
              else s\<lparr>sha_buffer := buf\<rparr>))"
  by pat_completeness auto
termination
  by (relation "measure (\<lambda>(p, s). length p)") (auto simp: sha_ok_def)

declare update_loop.simps [simp del]

definition sha_update :: "byte list \<Rightarrow> sha256 \<Rightarrow> sha256" where
  "sha_update p s = update_loop p (s\<lparr>sha_bitLen := sha_bitLen s + of_nat (length p) * 8\<rparr>)"

lemma update_one:
  assumes "sha_ok s"
  shows "sha_buffer (sha_update [b] s) = (if length (sha_buffer s) = 63 then [] else sha_buffer s @ [b])"
  using assms unfolding sha_update_def
  by (auto simp: update_loop.simps [of "[b]"] update_loop.simps [of "[]"] sha_ok_def Let_def min_def)

text \<open>The loop of \<open>final\<close> that fills up with zeros.\<close>

function pad_zeros :: "sha256 \<Rightarrow> sha256" where
  "pad_zeros s = (if length (sha_buffer s) = 56 \<or> \<not> sha_ok s then s else pad_zeros (sha_update [0] s))"
  by pat_completeness auto
termination
proof (relation "measure (\<lambda>s. if length (sha_buffer s) \<le> 56 then 56 - length (sha_buffer s) else 120 - length (sha_buffer s))")
  fix s assume "\<not> (length (sha_buffer s) = 56 \<or> \<not> sha_ok s)"
  then show "(sha_update [0] s, s) \<in> measure (\<lambda>s. if length (sha_buffer s) \<le> 56 then 56 - length (sha_buffer s) else 120 - length (sha_buffer s))"
    using update_one [of s 0] by (auto simp: sha_ok_def)
qed simp

declare pad_zeros.simps [simp del]

definition len_bytes :: "64 word \<Rightarrow> byte list" where
  "len_bytes n = map (\<lambda>i. ucast (drop_bit (56 - 8 * i) n)) [0..<8]"

definition out_bytes :: "32 word list \<Rightarrow> byte list" where
  "out_bytes st = concat (map (\<lambda>i. [ucast (drop_bit 24 (st ! i)), ucast (drop_bit 16 (st ! i)),
     ucast (drop_bit 8 (st ! i)), ucast (st ! i)]) [0..<8])"

definition sha_final :: "sha256 \<Rightarrow> byte list" where
  "sha_final s =
     (let bitLen = sha_bitLen s;
          s1 = pad_zeros (sha_update [0x80] s)
      in out_bytes (processBlock (sha_buffer s1 @ len_bytes bitLen) (sha_state s1)))"

section \<open>Hexadecimal digests\<close>

definition hex_digits :: string where
  "hex_digits = ''0123456789abcdef''"

definition hex_byte :: "byte \<Rightarrow> string" where
  "hex_byte b = [hex_digits ! unat (drop_bit 4 b), hex_digits ! unat (b AND 0xF)]"

definition finalHex :: "sha256 \<Rightarrow> string" where
  "finalHex s = concat (map hex_byte (sha_final s))"

definition bytes_of :: "string \<Rightarrow> byte list" where
  "bytes_of s = map of_char s"

definition sha256Hex :: "string \<Rightarrow> string" where
  "sha256Hex s = finalHex (sha_update (bytes_of s) new_sha256)"

section \<open>The standard, one block at a time\<close>

text \<open>All full blocks of a message are processed; the rest is left over.\<close>

function absorb :: "32 word list \<Rightarrow> byte list \<Rightarrow> 32 word list \<times> byte list" where
  "absorb st msg = (if length msg < 64 then (st, msg) else absorb (processBlock (take 64 msg) st) (drop 64 msg))"
  by pat_completeness auto
termination
  by (relation "measure (\<lambda>(st, msg). length msg)") auto

declare absorb.simps [simp del]

text \<open>The padded message: a one bit, zeros up to 56 modulo 64, and the length in bits.\<close>

definition padded :: "byte list \<Rightarrow> byte list" where
  "padded msg = msg @ [0x80] @ replicate ((119 - length msg mod 64) mod 64) 0 @ len_bytes (of_nat (length msg) * 8)"

definition sha256_spec :: "byte list \<Rightarrow> byte list" where
  "sha256_spec msg = out_bytes (fst (absorb kH0 (padded msg)))"

lemma absorb_short: "length msg < 64 \<Longrightarrow> absorb st msg = (st, msg)"
  by (simp add: absorb.simps)

lemma absorb_full: "length msg = 64 \<Longrightarrow> absorb st msg = (processBlock msg st, [])"
  by (simp add: absorb.simps [of st] absorb_short)

lemma absorb_append: "absorb st (x @ y) = (case absorb st x of (st', r) \<Rightarrow> absorb st' (r @ y))"
proof (induction st x rule: absorb.induct)
  case (1 st x)
  show ?case
  proof (cases "length x < 64")
    case False
    then have "absorb st (x @ y) = absorb (processBlock (take 64 x) st) (drop 64 x @ y)"
      by (subst absorb.simps) simp
    then show ?thesis using 1 [OF False] False by (simp add: absorb.simps [of st x])
  qed (simp add: absorb_short)
qed

lemma absorb_rest: "length (snd (absorb st x)) = length x mod 64"
proof (induction st x rule: absorb.induct)
  case (1 st x)
  then show ?case by (cases "length x < 64") (auto simp: absorb.simps [of st x] mod_if)
qed

lemma absorb_buffer:
  "length buf \<le> 64 \<Longrightarrow> absorb st buf = (if length buf = 64 then (processBlock buf st, []) else (st, buf))"
  using absorb_full [of buf st] absorb_short [of buf st] by auto

lemma update_loop_absorb:
  "sha_ok s \<Longrightarrow> update_loop p s =
     s\<lparr>sha_state := fst (absorb (sha_state s) (sha_buffer s @ p)), sha_buffer := snd (absorb (sha_state s) (sha_buffer s @ p))\<rparr>"
proof (induction p s rule: update_loop.induct)
  case (1 p s)
  show ?case
  proof (cases "p = []")
    case True
    then show ?thesis using 1(2) by (simp add: update_loop.simps absorb_short sha_ok_def)
  next
    case False
    define n where "n = min (64 - length (sha_buffer s)) (length p)"
    define buf where "buf = sha_buffer s @ take n p"
    define s' where "s' = (if length buf = 64 then s\<lparr>sha_state := processBlock buf (sha_state s), sha_buffer := []\<rparr> else s\<lparr>sha_buffer := buf\<rparr>)"
    have le: "length buf \<le> 64" using 1(2) by (auto simp: sha_ok_def buf_def n_def)
    then have ok: "sha_ok s'" by (auto simp: sha_ok_def s'_def)
    have "absorb (sha_state s) buf = (sha_state s', sha_buffer s')" using absorb_buffer [OF le] by (simp add: s'_def)
    moreover have "sha_buffer s @ p = buf @ drop n p" by (simp add: buf_def)
    ultimately have e: "absorb (sha_state s) (sha_buffer s @ p) = absorb (sha_state s') (sha_buffer s' @ drop n p)"
      using absorb_append [of "sha_state s" buf "drop n p"] by simp
    have "update_loop p s = update_loop (drop n p) s'"
      using False 1(2) by (subst update_loop.simps) (simp add: Let_def n_def buf_def s'_def)
    also have "\<dots> = s'\<lparr>sha_state := fst (absorb (sha_state s') (sha_buffer s' @ drop n p)),
        sha_buffer := snd (absorb (sha_state s') (sha_buffer s' @ drop n p))\<rparr>"
      using 1(1) [OF _ n_def buf_def, folded s'_def, OF _ ok] False 1(2) by blast
    also have "\<dots> = s\<lparr>sha_state := fst (absorb (sha_state s) (sha_buffer s @ p)),
        sha_buffer := snd (absorb (sha_state s) (sha_buffer s @ p))\<rparr>"
      unfolding e by (simp add: s'_def)
    finally show ?thesis .
  qed
qed

text \<open>The object after a message: its blocks absorbed, its length counted.\<close>

definition holds :: "byte list \<Rightarrow> sha256 \<Rightarrow> bool" where
  "holds msg s \<longleftrightarrow> absorb kH0 msg = (sha_state s, sha_buffer s) \<and> sha_bitLen s = of_nat (length msg) * 8"

lemma holds_ok: "holds msg s \<Longrightarrow> sha_ok s"
  using absorb_rest [of kH0 msg] by (auto simp: holds_def sha_ok_def)

lemma holds_new: "holds [] new_sha256"
  by (simp add: holds_def new_sha256_def absorb_short)

lemma holds_update:
  assumes "holds msg s"
  shows "holds (msg @ p) (sha_update p s)"
proof -
  have ok: "sha_ok (s\<lparr>sha_bitLen := sha_bitLen s + of_nat (length p) * 8\<rparr>)"
    using holds_ok [OF assms] by (simp add: sha_ok_def)
  have "absorb kH0 (msg @ p) = absorb (sha_state s) (sha_buffer s @ p)"
    using assms absorb_append [of kH0 msg p] by (simp add: holds_def)
  then show ?thesis using assms unfolding holds_def sha_update_def update_loop_absorb [OF ok]
    by (simp add: algebra_simps)
qed

lemma pad_count: "r < 64 \<Longrightarrow> r \<noteq> 56 \<Longrightarrow> (120 - Suc r mod 64) mod 64 + 1 = (120 - r) mod (64 :: nat)"
  by (cases "r < 56"; cases "r = 63") (auto simp: mod_if)

lemma pad_total: "(Suc n + (119 - n mod 64) mod 64) mod 64 = (56 :: nat)"
proof -
  have "(Suc n + (119 - n mod 64) mod 64) mod 64 = (n mod 64 + Suc (119 - n mod 64)) mod 64"
    by (metis add_Suc add_Suc_right mod_add_left_eq mod_add_right_eq)
  also have "n mod 64 + Suc (119 - n mod 64) = 120" using mod_less_divisor [of 64 n] by linarith
  finally show ?thesis by simp
qed

lemma pad_zeros_holds:
  "holds msg s \<Longrightarrow> holds (msg @ replicate ((120 - length msg mod 64) mod 64) 0) (pad_zeros s)"
proof (induction s arbitrary: msg rule: pad_zeros.induct)
  case (1 s)
  have len: "length (sha_buffer s) = length msg mod 64"
    using 1(2) absorb_rest [of kH0 msg] by (simp add: holds_def)
  show ?case
  proof (cases "length msg mod 64 = 56")
    case True
    then show ?thesis using 1(2) len by (subst pad_zeros.simps) simp
  next
    case False
    have ok: "sha_ok s" by (rule holds_ok [OF 1(2)])
    have step: "(120 - length (msg @ [0 :: byte]) mod 64) mod 64 + 1 = (120 - length msg mod 64) mod 64"
      using pad_count [of "length msg mod 64"] False by (simp add: mod_Suc_eq)
    have "holds ((msg @ [0]) @ replicate ((120 - length (msg @ [0 :: byte]) mod 64) mod 64) 0) (pad_zeros (sha_update [0] s))"
      using 1(1) [OF _ holds_update [OF 1(2)]] False ok len by simp
    moreover have "(msg @ [0]) @ replicate ((120 - length (msg @ [0 :: byte]) mod 64) mod 64) 0 =
        msg @ replicate ((120 - length msg mod 64) mod 64) 0"
      unfolding step [symmetric] by (simp flip: replicate_Suc)
    ultimately show ?thesis using False ok len by (subst pad_zeros.simps) simp
  qed
qed

text \<open>Finalizing an object gives the digest of the message it holds.\<close>

lemma sha_final_holds:
  assumes m: "holds msg s"
  shows "sha_final s = sha256_spec msg"
proof -
  have p: "holds ((msg @ [0x80]) @ replicate ((120 - length (msg @ [0x80 :: byte]) mod 64) mod 64) 0) (pad_zeros (sha_update [0x80] s))"
    by (rule pad_zeros_holds [OF holds_update [OF m]])
  have "(120 - length (msg @ [0x80 :: byte]) mod 64) mod 64 = (119 - length msg mod 64) mod 64"
    by (simp add: mod_Suc)
  with p have q: "holds ((msg @ [0x80]) @ replicate ((119 - length msg mod 64) mod 64) 0) (pad_zeros (sha_update [0x80] s))" (is "holds ?p ?t")
    by simp
  have "length (sha_buffer ?t) = length ?p mod 64" using q absorb_rest [of kH0 ?p] by (simp add: holds_def)
  also have "\<dots> = 56" using pad_total [of "length msg"] by simp
  finally have "length (sha_buffer ?t @ len_bytes (sha_bitLen s)) = 64" by (simp add: len_bytes_def)
  then have "absorb (sha_state ?t) (sha_buffer ?t @ len_bytes (sha_bitLen s)) =
      (processBlock (sha_buffer ?t @ len_bytes (sha_bitLen s)) (sha_state ?t), [])" by (rule absorb_full)
  moreover have "absorb kH0 (?p @ len_bytes (sha_bitLen s)) = absorb (sha_state ?t) (sha_buffer ?t @ len_bytes (sha_bitLen s))"
    using q absorb_append [of kH0 ?p] by (simp add: holds_def)
  moreover have "padded msg = ?p @ len_bytes (sha_bitLen s)" using m by (simp add: padded_def holds_def)
  ultimately show ?thesis by (simp add: sha_final_def sha256_spec_def Let_def)
qed

lemma holds_chunks: "holds msg s \<Longrightarrow> holds (msg @ concat chunks) (fold sha_update chunks s)"
  by (induction chunks arbitrary: msg s) (simp_all add: holds_update flip: append_assoc)

lemma sha_final_chunks: "sha_final (fold sha_update chunks new_sha256) = sha256_spec (concat chunks)"
  using sha_final_holds [OF holds_chunks [OF holds_new]] by simp

text \<open>
  C16. Streaming SHA-256 is the standard one: feeding a message in any pieces and finalizing gives the
  digest of the padded message processed block by block, so the digest depends on the concatenation only.
\<close>

theorem sha_final_stream: "sha_final (fold sha_update chunks new_sha256) = sha256_spec (concat chunks)"
  by (rule sha_final_chunks)

text \<open>A digest is 64 lowercase hexadecimal digits.\<close>

lemma finalHex_hex: "length (finalHex s) = 64 \<and> set (finalHex s) \<subseteq> set hex_digits"
proof -
  have "length (sha_final s) = 32"
    by (simp add: sha_final_def out_bytes_def Let_def length_concat comp_def sum_list_triv)
  then have len: "length (finalHex s) = 64"
    by (simp add: finalHex_def length_concat comp_def hex_byte_def sum_list_triv)
  have "unat (drop_bit 4 b) < 16" "unat (b AND 0xF) < 16" for b :: byte
  proof -
    have "unat b < 256" using unsigned_less [of b] by simp
    then show "unat (drop_bit 4 b) < 16" by (simp only: unat_drop_bit_eq) (simp add: drop_bit_eq_div)
    have "b AND 0xF = take_bit 4 b" by (simp add: take_bit_eq_mask mask_eq_exp_minus_1)
    then show "unat (b AND 0xF) < 16" by (simp add: unsigned_take_bit_eq take_bit_nat_less_exp [of 4, simplified])
  qed
  moreover have "hex_digits ! k \<in> set hex_digits" if "k < 16" for k
    using that by (intro nth_mem) (simp add: hex_digits_def)
  ultimately have "set (hex_byte b) \<subseteq> set hex_digits" for b by (simp add: hex_byte_def)
  then have "set (finalHex s) \<subseteq> set hex_digits" by (auto simp: finalHex_def)
  with len show ?thesis ..
qed

end
