(* ===== verification/Checksum_Db.thy ===== *)
theory Checksum_Db
  imports Semver Sha256
begin

text \<open>
  The checksum database of \<open>tools/trident/checksum.cpp\<close>: a text file of hash-chained records. The file is
  its bytes, or \<open>None\<close> when it does not exist; what the file system does with an append (the directory or
  the file cannot be created, the write stops after some bytes, or it goes through) is the parameter \<open>w\<close> of
  the operations that write. The messages of the source are the constructors of \<open>checksum_error\<close>.
\<close>

section \<open>Records\<close>

definition kGenesisHash :: string where
  "kGenesisHash = ''0000000000000000000000000000000000000000000000000000000000000''"

datatype ce_kind = Content | Yank

record checksum_entry =
  ce_kind :: ce_kind
  ce_path :: string
  ce_major :: int
  ce_version :: string
  ce_contentHash :: string
  ce_chainHash :: string

definition chainHashOfPayload :: "string \<Rightarrow> string \<Rightarrow> string" where
  "chainHashOfPayload prevChainHash payload =
     finalHex (sha_update (bytes_of payload) (sha_update (bytes_of '' '') (sha_update (bytes_of prevChainHash) new_sha256)))"

definition contentPayload :: "string \<Rightarrow> int \<Rightarrow> string \<Rightarrow> string \<Rightarrow> string" where
  "contentPayload path major version contentHash =
     path @ '' '' @ int_str major @ '' '' @ version @ '' '' @ contentHash"

definition yankPayload :: "string \<Rightarrow> int \<Rightarrow> string \<Rightarrow> string" where
  "yankPayload path major version = ''yank '' @ path @ '' '' @ int_str major @ '' '' @ version"

section \<open>Loading\<close>

text \<open>The lines \<open>std::getline\<close> returns, and the tokens \<open>>>\<close> extracts from one.\<close>

function getlines :: "string \<Rightarrow> string list" where
  "getlines s =
     (if s = [] then [] else takeWhile (\<lambda>c. c \<noteq> NL) s # getlines (tl (dropWhile (\<lambda>c. c \<noteq> NL) s)))"
  by pat_completeness auto
termination
proof (relation "measure length")
  fix s :: string assume "s \<noteq> []"
  then have "length (tl (dropWhile (\<lambda>c. c \<noteq> NL) s)) < length s"
    using length_dropWhile_le [of "\<lambda>c. c \<noteq> NL" s] unfolding length_tl length_greater_0_conv [symmetric] by linarith
  then show "(tl (dropWhile (\<lambda>c. c \<noteq> NL) s), s) \<in> measure length" by simp
qed simp

declare getlines.simps [simp del]

function tokens :: "string \<Rightarrow> string list" where
  "tokens s =
     (let t = dropWhile isspace s
      in if t = [] then [] else takeWhile (\<lambda>c. \<not> isspace c) t # tokens (dropWhile (\<lambda>c. \<not> isspace c) t))"
  by pat_completeness auto
termination
proof (relation "measure length")
  fix s t assume t: "t = dropWhile isspace s" "t \<noteq> []"
  then have "\<not> isspace (hd t)" using hd_dropWhile by blast
  then have "length (dropWhile (\<lambda>c. \<not> isspace c) t) < length t"
    using t(2) by (cases t) (auto simp: le_imp_less_Suc length_dropWhile_le)
  also have "\<dots> \<le> length s" using t(1) by (simp add: length_dropWhile_le)
  finally show "(dropWhile (\<lambda>c. \<not> isspace c) t, s) \<in> measure length" by simp
qed simp

declare tokens.simps [simp del]

datatype checksum_error =
    MalformedRecord nat | MalformedYank nat | MalformedContent nat | ChainBroken nat | Tampered nat
  | CannotCreateDir | CannotWrite | WriteIncomplete
  | ContentMismatch string string | NothingToYank

text \<open>A line as its entry, the previous hash it names and the payload its hash covers.\<close>

definition parse_record :: "nat \<Rightarrow> string \<Rightarrow> checksum_error + (checksum_entry \<times> string \<times> string)" where
  "parse_record lineNo line =
     (case tokens line of
        chain # prev # first # rest \<Rightarrow>
          if first = ''yank'' then
            (case rest of
               [path, majorText, version] \<Rightarrow>
                 Inr (\<lparr>ce_kind = Yank, ce_path = path, ce_major = atoi majorText, ce_version = version,
                       ce_contentHash = [], ce_chainHash = chain\<rparr>,
                      prev, yankPayload path (atoi majorText) version)
             | _ \<Rightarrow> Inl (MalformedYank lineNo))
          else
            (case rest of
               [majorText, version, contentHash] \<Rightarrow>
                 Inr (\<lparr>ce_kind = Content, ce_path = first, ce_major = atoi majorText, ce_version = version,
                       ce_contentHash = contentHash, ce_chainHash = chain\<rparr>,
                      prev, contentPayload first (atoi majorText) version contentHash)
             | _ \<Rightarrow> Inl (MalformedContent lineNo))
      | _ \<Rightarrow> Inl (MalformedRecord lineNo))"

fun load_lines :: "nat \<Rightarrow> string list \<Rightarrow> checksum_entry list \<Rightarrow> string \<Rightarrow>
    checksum_error + (checksum_entry list \<times> string)" where
  "load_lines lineNo [] entries lastChainHash = Inr (entries, lastChainHash)"
| "load_lines lineNo (line # lines) entries lastChainHash =
     (if line = [] then load_lines (lineNo + 1) lines entries lastChainHash
      else case parse_record (lineNo + 1) line of
             Inl err \<Rightarrow> Inl err
           | Inr (e, prev, payload) \<Rightarrow>
               if prev \<noteq> lastChainHash then Inl (ChainBroken (lineNo + 1))
               else if chainHashOfPayload prev payload \<noteq> ce_chainHash e then Inl (Tampered (lineNo + 1))
               else load_lines (lineNo + 1) lines (entries @ [e]) (ce_chainHash e))"

definition loadChecksumDb :: "string option \<Rightarrow> checksum_error + (checksum_entry list \<times> string)" where
  "loadChecksumDb db =
     (case db of None \<Rightarrow> Inr ([], kGenesisHash) | Some s \<Rightarrow> load_lines 0 (getlines s) [] kGenesisHash)"

section \<open>Appending\<close>

datatype write_outcome = DirFails | OpenFails | WriteStops nat | Written

definition append_record :: "write_outcome \<Rightarrow> string option \<Rightarrow> string \<Rightarrow> (checksum_error + unit) \<times> string option" where
  "append_record w db record =
     (case w of
        DirFails \<Rightarrow> (Inl CannotCreateDir, db)
      | OpenFails \<Rightarrow> (Inl CannotWrite, db)
      | WriteStops n \<Rightarrow> (Inl WriteIncomplete, Some (case_option [] (\<lambda>s. s) db @ take n record))
      | Written \<Rightarrow> (Inr (), Some (case_option [] (\<lambda>s. s) db @ record)))"

definition content_record :: "string \<Rightarrow> string \<Rightarrow> int \<Rightarrow> string \<Rightarrow> string \<Rightarrow> string" where
  "content_record prev path major version contentHash =
     (let payload = contentPayload path major version contentHash; chainHash = chainHashOfPayload prev payload
      in chainHash @ '' '' @ prev @ '' '' @ path @ '' '' @ int_str major @ '' '' @ version @ '' '' @ contentHash @ [NL])"

definition appendChecksumEntry :: "write_outcome \<Rightarrow> string option \<Rightarrow> string \<Rightarrow> string \<Rightarrow> int \<Rightarrow> string \<Rightarrow> string \<Rightarrow>
    (checksum_error + unit) \<times> string option" where
  "appendChecksumEntry w db prev path major version contentHash =
     append_record w db (content_record prev path major version contentHash)"

definition yank_record :: "string \<Rightarrow> string \<Rightarrow> int \<Rightarrow> string \<Rightarrow> string" where
  "yank_record prev path major version =
     (let payload = yankPayload path major version; chainHash = chainHashOfPayload prev payload
      in chainHash @ '' '' @ prev @ '' '' @ payload @ [NL])"

definition appendYankEntry :: "write_outcome \<Rightarrow> string option \<Rightarrow> string \<Rightarrow> string \<Rightarrow> int \<Rightarrow> string \<Rightarrow>
    (checksum_error + unit) \<times> string option" where
  "appendYankEntry w db prev path major version = append_record w db (yank_record prev path major version)"

section \<open>The operations\<close>

text \<open>The two environment variables are arguments.\<close>

definition checksumDbPath :: "string option \<Rightarrow> string option \<Rightarrow> string" where
  "checksumDbPath trident_home home =
     (case trident_home of
        Some d \<Rightarrow> d @ ''/checksum.db''
      | None \<Rightarrow> (case home of Some h \<Rightarrow> h @ ''/.trident/checksum.db'' | None \<Rightarrow> ''./.trident/checksum.db''))"

definition names :: "module_id \<Rightarrow> version \<Rightarrow> checksum_entry \<Rightarrow> bool" where
  "names m v e \<longleftrightarrow> ce_path e = mod_path m \<and> ce_major e = mod_major m \<and> ce_version e = formatSemVer v"

fun find_content :: "module_id \<Rightarrow> version \<Rightarrow> checksum_entry list \<Rightarrow> checksum_entry option" where
  "find_content m v [] = None"
| "find_content m v (e # es) =
     (if ce_kind e \<noteq> Content then find_content m v es
      else if \<not> names m v e then find_content m v es
      else Some e)"

definition checksumDbVerifyOrRecord :: "write_outcome \<Rightarrow> string option \<Rightarrow> module_id \<Rightarrow> version \<Rightarrow> string \<Rightarrow>
    (checksum_error + unit) \<times> string option" where
  "checksumDbVerifyOrRecord w db m v contentHash =
     (case loadChecksumDb db of
        Inl err \<Rightarrow> (Inl err, db)
      | Inr (entries, lastChainHash) \<Rightarrow>
          (case find_content m v entries of
             Some e \<Rightarrow>
               (if ce_contentHash e = contentHash then (Inr (), db)
                else (Inl (ContentMismatch (ce_contentHash e) contentHash), db))
           | None \<Rightarrow>
               appendChecksumEntry w db lastChainHash (mod_path m) (mod_major m) (formatSemVer v) contentHash))"

definition checksumDbIsYanked :: "string option \<Rightarrow> module_id \<Rightarrow> version \<Rightarrow> checksum_error + bool" where
  "checksumDbIsYanked db m v =
     (case loadChecksumDb db of
        Inl err \<Rightarrow> Inl err
      | Inr (entries, lastChainHash) \<Rightarrow> Inr (list_ex (\<lambda>e. ce_kind e = Yank \<and> names m v e) entries))"

definition checksumDbYank :: "write_outcome \<Rightarrow> string option \<Rightarrow> module_id \<Rightarrow> version \<Rightarrow>
    (checksum_error + unit) \<times> string option" where
  "checksumDbYank w db m v =
     (case loadChecksumDb db of
        Inl err \<Rightarrow> (Inl err, db)
      | Inr (entries, lastChainHash) \<Rightarrow>
          (let hasContent = list_ex (\<lambda>e. names m v e \<and> ce_kind e = Content) entries;
               alreadyYanked = list_ex (\<lambda>e. names m v e \<and> ce_kind e = Yank) entries
           in if \<not> hasContent then (Inl NothingToYank, db)
              else if alreadyYanked then (Inr (), db)
              else appendYankEntry w db lastChainHash (mod_path m) (mod_major m) (formatSemVer v)))"

section \<open>Lines and tokens\<close>

lemma chainHash_eq: "chainHashOfPayload prev payload = sha256Hex (prev @ '' '' @ payload)"
  using sha_final_chunks [of "[bytes_of prev, bytes_of '' '', bytes_of payload]"]
    sha_final_chunks [of "[bytes_of (prev @ '' '' @ payload)]"]
  by (simp add: chainHashOfPayload_def sha256Hex_def finalHex_def bytes_of_def)

definition tok :: "string \<Rightarrow> bool" where
  "tok s \<longleftrightarrow> s \<noteq> [] \<and> list_all (\<lambda>c. \<not> isspace c) s"

lemma tokens_Nil [simp]: "tokens [] = []"
  by (simp add: tokens.simps)

lemma tokens_tok:
  assumes "tok x" and "r = [] \<or> isspace (hd r)"
  shows "tokens (x @ r) = x # tokens r"
proof -
  have "dropWhile isspace (x @ r) = x @ r" using assms(1) by (cases x) (auto simp: tok_def)
  moreover have "takeWhile (\<lambda>c. \<not> isspace c) (x @ r) = x" "dropWhile (\<lambda>c. \<not> isspace c) (x @ r) = r"
    using assms by (auto simp: tok_def intro: takeWhile_span dropWhile_span)
  ultimately show ?thesis using assms(1) by (subst tokens.simps) (simp add: tok_def)
qed

lemma tokens_space [simp]: "tokens (CHR '' '' # r) = tokens r"
  by (subst (1 2) tokens.simps) (simp add: isspace_def)

lemma tokens_word [simp]: "tok x \<Longrightarrow> tokens (x @ CHR '' '' # r) = x # tokens r"
  by (subst tokens_tok) (simp_all add: isspace_def)

lemma tokens_last [simp]: "tok x \<Longrightarrow> tokens x = [x]"
  using tokens_tok [of x "[]"] by simp

lemma tokens_tok_all: "x \<in> set (tokens s) \<Longrightarrow> tok x"
proof (induction s rule: tokens.induct)
  case (1 s)
  let ?t = "dropWhile isspace s"
  have t: "?t \<noteq> []" using 1(2) by (subst (asm) tokens.simps) (auto simp: Let_def split: if_splits)
  have "x = takeWhile (\<lambda>c. \<not> isspace c) ?t \<or> x \<in> set (tokens (dropWhile (\<lambda>c. \<not> isspace c) ?t))"
    using 1(2) by (subst (asm) tokens.simps) (auto simp: Let_def split: if_splits)
  moreover have "tok (takeWhile (\<lambda>c. \<not> isspace c) ?t)"
    using t hd_dropWhile [OF t] by (cases ?t) (auto simp: tok_def list_all_iff dest: set_takeWhileD)
  ultimately show ?case using 1(1) [OF refl t] by blast
qed

lemma getlines_line: "NL \<notin> set l \<Longrightarrow> getlines (l @ NL # r) = l # getlines r"
proof -
  assume l: "NL \<notin> set l"
  then have "takeWhile (\<lambda>c. c \<noteq> NL) (l @ NL # r) = l" "dropWhile (\<lambda>c. c \<noteq> NL) (l @ NL # r) = NL # r"
    by (induction l) auto
  then show ?thesis by (subst getlines.simps) simp
qed

text \<open>A text made of whole lines.\<close>

definition whole_lines :: "string \<Rightarrow> bool" where
  "whole_lines s \<longleftrightarrow> s = [] \<or> last s = NL"

lemma getlines_append: "whole_lines s \<Longrightarrow> getlines (s @ t) = getlines s @ getlines t"
proof (induction s rule: getlines.induct)
  case (1 s)
  show ?case
  proof (cases "s = []")
    case False
    then have "NL \<in> set s" using 1(2) by (metis last_in_set whole_lines_def)
    then obtain l r where lr: "s = l @ NL # r" "NL \<notin> set l" by (meson split_list_first)
    then have d: "tl (dropWhile (\<lambda>c. c \<noteq> NL) s) = r" by (induction l arbitrary: s) auto
    have "whole_lines r" using 1(2) lr by (auto simp: whole_lines_def split: if_splits)
    then have "getlines (r @ t) = getlines r @ getlines t" using 1(1) [OF False] d by simp
    then show ?thesis using lr getlines_line [OF lr(2), of r] getlines_line [OF lr(2), of "r @ t"] by simp
  qed (simp add: getlines.simps [of "[]"])
qed

lemma load_lines_append:
  "load_lines n (xs @ ys) es h =
     (case load_lines n xs es h of Inl e \<Rightarrow> Inl e | Inr (es', h') \<Rightarrow> load_lines (n + length xs) ys es' h')"
  by (induction n xs es h rule: load_lines.induct) (auto split: sum.split)

section \<open>The log\<close>

definition db_text :: "string option \<Rightarrow> string" where
  "db_text db = (case db of None \<Rightarrow> [] | Some s \<Rightarrow> s)"

lemma load_text: "loadChecksumDb db = load_lines 0 (getlines (db_text db)) [] kGenesisHash"
  by (simp add: loadChecksumDb_def db_text_def getlines.simps [of "[]"] split: option.split)

text \<open>The database loads to the entries \<open>es\<close>, the last chain hash is \<open>h\<close>, and it ends in a whole line.\<close>

definition db_valid :: "string option \<Rightarrow> checksum_entry list \<Rightarrow> string \<Rightarrow> bool" where
  "db_valid db es h \<longleftrightarrow> loadChecksumDb db = Inr (es, h) \<and> whole_lines (db_text db)"

text \<open>A line that parses: its tokens, its entry and its payload.\<close>

definition yank_entry :: "string \<Rightarrow> string \<Rightarrow> int \<Rightarrow> string \<Rightarrow> checksum_entry" where
  "yank_entry chain path major version =
     \<lparr>ce_kind = Yank, ce_path = path, ce_major = major, ce_version = version, ce_contentHash = [], ce_chainHash = chain\<rparr>"

definition content_entry :: "string \<Rightarrow> string \<Rightarrow> int \<Rightarrow> string \<Rightarrow> string \<Rightarrow> checksum_entry" where
  "content_entry chain path major version hash =
     \<lparr>ce_kind = Content, ce_path = path, ce_major = major, ce_version = version, ce_contentHash = hash, ce_chainHash = chain\<rparr>"

lemma parse_record_yank:
  "tokens l = [chain, prev, ''yank'', path, mt, version] \<Longrightarrow>
   parse_record n l = Inr (yank_entry chain path (atoi mt) version, prev, yankPayload path (atoi mt) version)"
  by (simp add: parse_record_def yank_entry_def)

lemma parse_record_content:
  "tokens l = [chain, prev, path, mt, version, hash] \<Longrightarrow> path \<noteq> ''yank'' \<Longrightarrow>
   parse_record n l = Inr (content_entry chain path (atoi mt) version hash, prev, contentPayload path (atoi mt) version hash)"
  by (simp add: parse_record_def content_entry_def)

lemma parse_record_cases:
  assumes "parse_record n l = Inr (e, prev, payload)"
  obtains (yank) chain path mt version where "tokens l = [chain, prev, ''yank'', path, mt, version]"
      "e = yank_entry chain path (atoi mt) version" "payload = yankPayload path (atoi mt) version"
    | (content) chain path mt version hash where "tokens l = [chain, prev, path, mt, version, hash]" "path \<noteq> ''yank''"
      "e = content_entry chain path (atoi mt) version hash" "payload = contentPayload path (atoi mt) version hash"
proof -
  obtain chain p first rest where t: "tokens l = chain # p # first # rest"
    using assms unfolding parse_record_def by (auto split: list.splits)
  show thesis
  proof (cases "first = ''yank''")
    case True
    then show thesis using assms t yank unfolding parse_record_def yank_entry_def by (auto split: list.splits)
  next
    case False
    then show thesis using assms t content unfolding parse_record_def content_entry_def by (auto split: list.splits)
  qed
qed

lemma parse_record_tok:
  assumes "parse_record n l = Inr (e, prev, payload)"
  shows "tok (ce_chainHash e)"
  using assms
proof (cases rule: parse_record_cases)
  case yank
  then show ?thesis using tokens_tok_all [of "ce_chainHash e" l] by (simp add: yank_entry_def)
next
  case content
  then show ?thesis using tokens_tok_all [of "ce_chainHash e" l] by (simp add: content_entry_def)
qed

lemma load_lines_tok: "load_lines n ls es h = Inr (es', h') \<Longrightarrow> tok h \<Longrightarrow> tok h'"
  by (induction n ls es h rule: load_lines.induct) (auto split: sum.splits if_splits dest: parse_record_tok)

lemma tok_genesis: "tok kGenesisHash"
  by code_simp

lemma db_valid_tok: "db_valid db es h \<Longrightarrow> tok h"
  using load_lines_tok [OF _ tok_genesis] by (auto simp: db_valid_def load_text)

lemma load_line_append:
  assumes db: "db_valid db es h" and l: "NL \<notin> set l" "l \<noteq> []"
    and p: "\<And>n. parse_record n l = Inr (e, h, payload)" and c: "ce_chainHash e = chainHashOfPayload h payload"
  shows "db_valid (Some (db_text db @ l @ [NL])) (es @ [e]) (ce_chainHash e)"
proof -
  have "getlines (db_text db @ l @ [NL]) = getlines (db_text db) @ [l]"
    using db l(1) getlines_line [of l "[]"] by (simp add: db_valid_def getlines_append getlines.simps [of "[]"])
  moreover have "load_lines 0 (getlines (db_text db)) [] kGenesisHash = Inr (es, h)"
    using db by (simp add: db_valid_def load_text)
  ultimately have "load_lines 0 (getlines (db_text db @ l @ [NL])) [] kGenesisHash = Inr (es @ [e], ce_chainHash e)"
    using l(2) p c by (simp add: load_lines_append)
  then show ?thesis by (simp add: db_valid_def load_text db_text_def whole_lines_def)
qed

lemma tok_int_str: "tok (int_str i)"
proof -
  have "\<not> isspace c" if "c \<in> set (nat_str n)" for c n
    using nat_str_digits [OF that] by (auto simp: isdigit_def isspace_def less_eq_char_def)
  moreover have "\<not> isspace CHR ''-''" by code_simp
  ultimately show ?thesis by (auto simp: tok_def int_str_def list_all_iff)
qed

lemma tok_append: "tok x \<Longrightarrow> tok y \<Longrightarrow> tok (x @ y)"
  by (simp add: tok_def)

lemma tok_formatSemVer: "tok (formatSemVer v)"
proof -
  have "tok ''.''" by code_simp
  then show ?thesis unfolding formatSemVer_def by (intro tok_append tok_int_str)
qed

lemma tok_finalHex: "tok (finalHex s)"
proof -
  have "list_all (\<lambda>c. \<not> isspace c) hex_digits" by code_simp
  then have "list_all (\<lambda>c. \<not> isspace c) (finalHex s)" using finalHex_hex [of s] by (auto simp: list_all_iff)
  moreover have "finalHex s \<noteq> []" using finalHex_hex [of s] by auto
  ultimately show ?thesis by (simp add: tok_def)
qed

lemma tok_chainHash: "tok (chainHashOfPayload prev payload)"
  by (simp add: chainHashOfPayload_def tok_finalHex)

lemma tok_NL: "tok x \<Longrightarrow> NL \<notin> set x"
proof -
  have "isspace NL" by code_simp
  then show "tok x \<Longrightarrow> NL \<notin> set x" by (auto simp: tok_def list_all_iff)
qed

text \<open>What the names in a manifest look like: no white space, and not the word that marks a yank.\<close>

definition mod_ok :: "module_id \<Rightarrow> bool" where
  "mod_ok m \<longleftrightarrow> tok (mod_path m) \<and> mod_path m \<noteq> ''yank'' \<and> int32 (mod_major m)"

lemma content_record_loads:
  assumes db: "db_valid db es h" and m: "mod_ok m" and hash: "tok hash"
  shows "db_valid (Some (db_text db @ content_record h (mod_path m) (mod_major m) (formatSemVer v) hash))
    (es @ [content_entry (chainHashOfPayload h (contentPayload (mod_path m) (mod_major m) (formatSemVer v) hash))
             (mod_path m) (mod_major m) (formatSemVer v) hash])
    (chainHashOfPayload h (contentPayload (mod_path m) (mod_major m) (formatSemVer v) hash))"
proof -
  let ?pl = "contentPayload (mod_path m) (mod_major m) (formatSemVer v) hash"
  let ?c = "chainHashOfPayload h ?pl"
  let ?l = "?c @ '' '' @ h @ '' '' @ mod_path m @ '' '' @ int_str (mod_major m) @ '' '' @ formatSemVer v @ '' '' @ hash"
  note toks = tok_chainHash [of h ?pl] db_valid_tok [OF db] tok_int_str [of "mod_major m"] tok_formatSemVer [of v] hash
  have p: "tok (mod_path m)" "mod_path m \<noteq> ''yank''" "atoi (int_str (mod_major m)) = mod_major m"
    using m by (auto simp: mod_ok_def atoi_int_str)
  have "tokens ?l = [?c, h, mod_path m, int_str (mod_major m), formatSemVer v, hash]" using toks p(1) by simp
  from parse_record_content [OF this p(2)] have "parse_record n ?l = Inr (content_entry ?c (mod_path m) (mod_major m) (formatSemVer v) hash, h, ?pl)" for n
    by (simp add: p(3))
  moreover have "NL \<notin> set ?l" using toks p(1) by (auto dest: tok_NL)
  moreover have "?l \<noteq> []" using toks(1) by (simp add: tok_def)
  ultimately have "db_valid (Some (db_text db @ ?l @ [NL])) (es @ [content_entry ?c (mod_path m) (mod_major m) (formatSemVer v) hash]) ?c"
    using load_line_append [OF db, of ?l "content_entry ?c (mod_path m) (mod_major m) (formatSemVer v) hash" ?pl]
    by (simp add: content_entry_def)
  then show ?thesis by (simp add: content_record_def Let_def)
qed

lemma yank_record_loads:
  assumes db: "db_valid db es h" and m: "mod_ok m"
  shows "db_valid (Some (db_text db @ yank_record h (mod_path m) (mod_major m) (formatSemVer v)))
    (es @ [yank_entry (chainHashOfPayload h (yankPayload (mod_path m) (mod_major m) (formatSemVer v)))
             (mod_path m) (mod_major m) (formatSemVer v)])
    (chainHashOfPayload h (yankPayload (mod_path m) (mod_major m) (formatSemVer v)))"
proof -
  let ?pl = "yankPayload (mod_path m) (mod_major m) (formatSemVer v)"
  let ?c = "chainHashOfPayload h ?pl"
  let ?l = "?c @ '' '' @ h @ '' '' @ ?pl"
  note toks = tok_chainHash [of h ?pl] db_valid_tok [OF db] tok_int_str [of "mod_major m"] tok_formatSemVer [of v]
  have p: "tok (mod_path m)" "atoi (int_str (mod_major m)) = mod_major m" "tok ''yank''"
    using m by (auto simp: mod_ok_def atoi_int_str) code_simp
  have pl: "?pl = ''yank'' @ '' '' @ mod_path m @ '' '' @ int_str (mod_major m) @ '' '' @ formatSemVer v"
    by (simp add: yankPayload_def)
  have "tokens ?l = [?c, h, ''yank'', mod_path m, int_str (mod_major m), formatSemVer v]"
    using toks p(1) tokens_word [OF p(3)] by (simp add: yankPayload_def)
  from parse_record_yank [OF this] have "parse_record n ?l = Inr (yank_entry ?c (mod_path m) (mod_major m) (formatSemVer v), h, ?pl)" for n
    by (simp add: p(2))
  moreover have "NL \<notin> set ?l" using toks p(1) by (auto simp: yankPayload_def dest: tok_NL)
  moreover have "?l \<noteq> []" using toks(1) by (simp add: tok_def)
  ultimately have "db_valid (Some (db_text db @ ?l @ [NL])) (es @ [yank_entry ?c (mod_path m) (mod_major m) (formatSemVer v)]) ?c"
    using load_line_append [OF db, of ?l "yank_entry ?c (mod_path m) (mod_major m) (formatSemVer v)" ?pl]
    by (simp add: yank_entry_def)
  then show ?thesis by (simp add: yank_record_def Let_def)
qed

section \<open>Operations on a valid log\<close>

text \<open>Any operation on the log by a client whose names are well formed and whose writes are all or nothing.\<close>

inductive db_op :: "string option \<Rightarrow> string option \<Rightarrow> bool" where
  verify: "mod_ok m \<Longrightarrow> tok hash \<Longrightarrow> w \<in> {DirFails, OpenFails, Written} \<Longrightarrow>
    checksumDbVerifyOrRecord w db m v hash = (r, db') \<Longrightarrow> db_op db db'"
| yank: "mod_ok m \<Longrightarrow> w \<in> {DirFails, OpenFails, Written} \<Longrightarrow> checksumDbYank w db m v = (r, db') \<Longrightarrow> db_op db db'"

lemma append_record_text:
  "append_record w db rec = (r, db') \<Longrightarrow> w \<in> {DirFails, OpenFails, Written} \<Longrightarrow>
   db' = db \<and> r \<noteq> Inr () \<or> w = Written \<and> r = Inr () \<and> db' = Some (db_text db @ rec)"
  by (auto simp: append_record_def db_text_def split: option.splits)

lemma verify_valid:
  assumes db: "db_valid db es h" and m: "mod_ok m" and hash: "tok hash" and w: "w \<in> {DirFails, OpenFails, Written}"
    and r: "checksumDbVerifyOrRecord w db m v hash = (r, db')"
  shows "\<exists>es' h'. db_valid db' (es @ es') h' \<and>
    (r = Inr () \<longrightarrow> (\<exists>e. find_content m v (es @ es') = Some e \<and> ce_contentHash e = hash))"
proof (cases "find_content m v es")
  case (Some e)
  then show ?thesis using r db
    by (intro exI [of _ "[]"] exI [of _ h]) (auto simp: checksumDbVerifyOrRecord_def db_valid_def split: if_splits)
next
  case None
  let ?rec = "content_record h (mod_path m) (mod_major m) (formatSemVer v) hash"
  have a: "append_record w db ?rec = (r, db')"
    using r db None by (simp add: checksumDbVerifyOrRecord_def db_valid_def appendChecksumEntry_def)
  let ?e = "content_entry (chainHashOfPayload h (contentPayload (mod_path m) (mod_major m) (formatSemVer v) hash))
             (mod_path m) (mod_major m) (formatSemVer v) hash"
  have "find_content m v (es @ [?e]) = Some ?e"
    using None by (induction es) (auto simp: content_entry_def names_def split: if_splits)
  then show ?thesis using append_record_text [OF a w] db content_record_loads [OF db m hash, of v]
    by (auto simp: content_entry_def) (metis append.right_neutral)
qed

lemma yank_valid:
  assumes db: "db_valid db es h" and m: "mod_ok m" and w: "w \<in> {DirFails, OpenFails, Written}"
    and r: "checksumDbYank w db m v = (r, db')"
  shows "\<exists>es' h'. db_valid db' (es @ es') h' \<and>
    (r = Inr () \<longrightarrow> list_ex (\<lambda>e. ce_kind e = Yank \<and> names m v e) (es @ es'))"
proof (cases "list_ex (\<lambda>e. names m v e \<and> ce_kind e = Content) es \<and> \<not> list_ex (\<lambda>e. names m v e \<and> ce_kind e = Yank) es")
  case True
  let ?rec = "yank_record h (mod_path m) (mod_major m) (formatSemVer v)"
  have a: "append_record w db ?rec = (r, db')"
    using r db True by (simp add: checksumDbYank_def db_valid_def appendYankEntry_def Let_def)
  let ?e = "yank_entry (chainHashOfPayload h (yankPayload (mod_path m) (mod_major m) (formatSemVer v)))
             (mod_path m) (mod_major m) (formatSemVer v)"
  have "ce_kind ?e = Yank \<and> names m v ?e" by (simp add: yank_entry_def names_def)
  then have e: "list_ex (\<lambda>e. ce_kind e = Yank \<and> names m v e) (es @ [?e])" by simp
  consider "db' = db" "r \<noteq> Inr ()" | "db' = Some (db_text db @ ?rec)" using append_record_text [OF a w] by blast
  then show ?thesis
  proof cases
    case 1
    then show ?thesis using db by (intro exI [of _ "[]"] exI [of _ h]) simp
  next
    case 2
    then show ?thesis using e yank_record_loads [OF db m, of v] by blast
  qed
next
  case False
  then show ?thesis using r db
    by (intro exI [of _ "[]"] exI [of _ h]) (auto simp: checksumDbYank_def db_valid_def Let_def list_ex_iff split: if_splits)
qed

lemma db_op_valid:
  assumes "db_op db db'" and "db_valid db es h"
  shows "\<exists>es' h'. db_valid db' (es @ es') h'"
  using assms
proof (cases rule: db_op.cases)
  case (verify m hash w v r)
  then show ?thesis using verify_valid [OF assms(2), of m hash w v r] by blast
next
  case (yank m w v r)
  then show ?thesis using yank_valid [OF assms(2), of m w v r] by blast
qed

lemma db_ops_valid:
  assumes "db_op\<^sup>*\<^sup>* db db'" and "db_valid db es h"
  shows "\<exists>es' h'. db_valid db' (es @ es') h'"
  using assms
proof (induction rule: rtranclp_induct)
  case base
  then show ?case by (metis append.right_neutral)
next
  case (step db1 db2)
  then show ?case using db_op_valid by (metis append.assoc)
qed

lemma find_content_append: "find_content m v es = Some e \<Longrightarrow> find_content m v (es @ es') = Some e"
  by (induction es) (auto split: if_splits)

lemma find_content_ex: "list_ex (\<lambda>e. names m v e \<and> ce_kind e = Content) es \<Longrightarrow> \<exists>e. find_content m v es = Some e"
  by (induction es) auto



text \<open>
  A successful yank is seen by every later query, whatever operations follow, and never changes which
  content hash is accepted.
\<close>

lemma checksumDb_yank:
  assumes "db_valid db es h0" and "mod_ok m" and "w \<in> {DirFails, OpenFails, Written}"
    and "checksumDbYank w db m v = (Inr (), db1)" and "db_op\<^sup>*\<^sup>* db1 db2"
  shows "checksumDbIsYanked db2 m v = Inr True \<and>
    (\<exists>e. find_content m v es = Some e \<and>
       checksumDbVerifyOrRecord w' db2 m v hash =
         (if hash = ce_contentHash e then Inr () else Inl (ContentMismatch (ce_contentHash e) hash), db2))"
proof -
  obtain es1 h1 where v1: "db_valid db1 (es @ es1) h1" "list_ex (\<lambda>e. ce_kind e = Yank \<and> names m v e) (es @ es1)"
    using yank_valid [OF assms(1-4)] by blast
  obtain es2 h2 where v2: "db_valid db2 ((es @ es1) @ es2) h2" using db_ops_valid [OF assms(5) v1(1)] by blast
  have "list_ex (\<lambda>e. names m v e \<and> ce_kind e = Content) es"
    using assms(1,4) by (auto simp: checksumDbYank_def db_valid_def Let_def split: if_splits)
  then obtain e where e: "find_content m v es = Some e" using find_content_ex by blast
  then have "find_content m v ((es @ es1) @ es2) = Some e" by (simp add: find_content_append)
  then show ?thesis using e v1(2) v2
    by (auto simp: checksumDbVerifyOrRecord_def checksumDbIsYanked_def db_valid_def)
qed

lemma checksumDb_yank_witness:
  "\<exists>db1. checksumDbIsYanked db1 (ModuleId ''github.com/x/json'' 1) (Version 1 2 0) = Inr True"
proof -
  let ?m = "ModuleId ''github.com/x/json'' 1" and ?v = "Version 1 2 0"
  let ?h = "chainHashOfPayload kGenesisHash (contentPayload (mod_path ?m) (mod_major ?m) (formatSemVer ?v) ''cafe'')"
  let ?e = "content_entry ?h (mod_path ?m) (mod_major ?m) (formatSemVer ?v) ''cafe''"
  have m: "mod_ok ?m" "tok ''cafe''" by code_simp+
  have "db_valid None [] kGenesisHash" by (simp add: db_valid_def loadChecksumDb_def db_text_def whole_lines_def)
  from content_record_loads [OF this m, of ?v] obtain db where db: "db_valid db [?e] ?h" by auto
  have "names ?m ?v ?e" "ce_kind ?e = Content" by (simp_all add: names_def content_entry_def)
  then obtain db1 where "checksumDbYank Written db ?m ?v = (Inr (), db1)"
    using db by (simp add: checksumDbYank_def db_valid_def appendYankEntry_def append_record_def Let_def)
  from checksumDb_yank [OF db m(1) _ this rtranclp.rtrancl_refl] show ?thesis by auto
qed

section \<open>Tamper evidence\<close>

text \<open>The text a record's chain hash covers, and those of a list of entries.\<close>

definition payload_of :: "checksum_entry \<Rightarrow> string" where
  "payload_of e =
     (if ce_kind e = Yank then yankPayload (ce_path e) (ce_major e) (ce_version e)
      else contentPayload (ce_path e) (ce_major e) (ce_version e) (ce_contentHash e))"

fun chain_inputs :: "string \<Rightarrow> checksum_entry list \<Rightarrow> string list" where
  "chain_inputs h [] = []"
| "chain_inputs h (e # es) = (h @ '' '' @ payload_of e) # chain_inputs (ce_chainHash e) es"

text \<open>Entries as they come out of a log: their fields are tokens, and each hash covers the one before.\<close>

definition entry_ok :: "checksum_entry \<Rightarrow> bool" where
  "entry_ok e \<longleftrightarrow> tok (ce_path e) \<and> tok (ce_version e) \<and>
     (case ce_kind e of Yank \<Rightarrow> ce_contentHash e = [] | Content \<Rightarrow> tok (ce_contentHash e) \<and> ce_path e \<noteq> ''yank'')"

fun chained :: "string \<Rightarrow> checksum_entry list \<Rightarrow> string \<Rightarrow> bool" where
  "chained h [] h' \<longleftrightarrow> h' = h"
| "chained h (e # es) h' \<longleftrightarrow> entry_ok e \<and> ce_chainHash e = sha256Hex (h @ '' '' @ payload_of e) \<and> chained (ce_chainHash e) es h'"

lemma parse_record_ok:
  assumes "parse_record n l = Inr (e, prev, payload)"
  shows "entry_ok e \<and> payload = payload_of e"
  using assms
proof (cases rule: parse_record_cases)
  case (yank chain path mt version)
  then show ?thesis using tokens_tok_all [of path l] tokens_tok_all [of version l]
    by (simp add: yank_entry_def entry_ok_def payload_of_def)
next
  case (content chain path mt version hash)
  then show ?thesis using tokens_tok_all [of path l] tokens_tok_all [of version l] tokens_tok_all [of hash l]
    by (simp add: content_entry_def entry_ok_def payload_of_def)
qed

lemma load_lines_chained:
  "load_lines n ls es h = Inr (es', h') \<Longrightarrow> \<exists>new. es' = es @ new \<and> chained h new h'"
proof (induction n ls es h rule: load_lines.induct)
  case (2 n line ls es h)
  show ?case
  proof (cases "line = []")
    case False
    obtain e prev payload where p: "parse_record (n + 1) line = Inr (e, prev, payload)"
      and c: "prev = h" "chainHashOfPayload prev payload = ce_chainHash e"
      and r: "load_lines (n + 1) ls (es @ [e]) (ce_chainHash e) = Inr (es', h')"
      using 2(3) False by (auto split: sum.splits if_splits)
    obtain new where "es' = (es @ [e]) @ new" "chained (ce_chainHash e) new h'"
      using 2(2) [OF False p refl _ _ _ r] c by auto
    then show ?thesis using parse_record_ok [OF p] c by (intro exI [of _ "e # new"]) (simp add: chainHash_eq)
  qed (use 2 in simp)
qed simp

lemma load_chained: "loadChecksumDb db = Inr (es, h) \<Longrightarrow> chained kGenesisHash es h"
  unfolding load_text by (drule load_lines_chained) simp

lemma int_str_inject: "int_str i = int_str j \<longleftrightarrow> i = j"
proof -
  have d: "nat_str n \<noteq> CHR ''-'' # r" for n r
    using nat_str_digits [of "CHR ''-''" n] by (auto simp: isdigit_def less_eq_char_def)
  then show ?thesis using d [of "nat i"] d [of "nat j"] by (auto simp: int_str_def split: if_splits dest: sym)
qed

text \<open>A payload determines its entry, up to the chain hash.\<close>

lemma payload_of_inject:
  assumes "entry_ok e" "entry_ok e'" "payload_of e = payload_of e'" "ce_chainHash e = ce_chainHash e'"
  shows "e = e'"
proof -
  have y: "tok ''yank''" by code_simp
  have t: "tokens (payload_of e) = (if ce_kind e = Yank then [''yank'', ce_path e, int_str (ce_major e), ce_version e]
      else [ce_path e, int_str (ce_major e), ce_version e, ce_contentHash e])" if "entry_ok e" for e
    using that tok_int_str [of "ce_major e"] tokens_word [OF y]
    by (cases "ce_kind e") (simp_all add: payload_of_def entry_ok_def yankPayload_def contentPayload_def)
  have "tokens (payload_of e) = tokens (payload_of e')" using assms(3) by simp
  then show ?thesis using t [OF assms(1)] t [OF assms(2)] assms(1,2,4) int_str_inject
    by (cases "ce_kind e"; cases "ce_kind e'") (auto simp: entry_ok_def intro: checksum_entry.equality)
qed

lemma chained_snoc:
  "chained h (es @ [e]) h' \<longleftrightarrow> (\<exists>h1. chained h es h1 \<and> entry_ok e \<and> ce_chainHash e = sha256Hex (h1 @ '' '' @ payload_of e) \<and> h' = ce_chainHash e)"
  by (induction es arbitrary: h) auto

lemma chain_inputs_snoc:
  "chained h es h1 \<Longrightarrow> set (chain_inputs h (es @ [e])) = insert (h1 @ '' '' @ payload_of e) (set (chain_inputs h es))"
  by (induction es arbitrary: h) auto

lemma sha256Hex_tok: "tok (sha256Hex s)" "length (sha256Hex s) = 64"
  using finalHex_hex by (auto simp: sha256Hex_def tok_finalHex)

lemma chained_tok: "chained h es h' \<Longrightarrow> tok h \<Longrightarrow> tok h'"
  by (induction es arbitrary: h) (auto simp: sha256Hex_tok)

lemma chained_unique:
  assumes g: "tok g" "length g \<noteq> 64"
  shows "chained g es1 h \<Longrightarrow> chained g es2 h \<Longrightarrow>
    es1 = es2 \<or> (\<exists>x \<in> set (chain_inputs g es1). \<exists>y \<in> set (chain_inputs g es2). x \<noteq> y \<and> sha256Hex x = sha256Hex y)"
proof (induction es1 arbitrary: es2 h rule: rev_induct)
  case Nil
  then show ?case using g(2) sha256Hex_tok(2) by (cases es2 rule: rev_cases) (auto simp: chained_snoc)
next
  case (snoc e es1)
  obtain h1 where h1: "chained g es1 h1" "entry_ok e" "ce_chainHash e = sha256Hex (h1 @ '' '' @ payload_of e)" "h = ce_chainHash e"
    using snoc.prems(1) by (auto simp: chained_snoc)
  show ?case
  proof (cases es2 rule: rev_cases)
    case Nil
    then show ?thesis using snoc.prems(2) g(2) h1(3,4) sha256Hex_tok(2) [of "h1 @ '' '' @ payload_of e"] by simp
  next
    case (snoc es2' e')
    obtain h2 where h2: "chained g es2' h2" "entry_ok e'" "ce_chainHash e' = sha256Hex (h2 @ '' '' @ payload_of e')" "h = ce_chainHash e'"
      using \<open>chained g es2 h\<close> snoc by (auto simp: chained_snoc)
    let ?x = "h1 @ '' '' @ payload_of e" and ?y = "h2 @ '' '' @ payload_of e'"
    have ix: "set (chain_inputs g (es1 @ [e])) = insert ?x (set (chain_inputs g es1))"
      and iy: "set (chain_inputs g es2) = insert ?y (set (chain_inputs g es2'))"
      using chain_inputs_snoc [OF h1(1)] chain_inputs_snoc [OF h2(1)] snoc by simp_all
    show ?thesis
    proof (cases "?x = ?y")
      case False
      moreover have "sha256Hex ?x = sha256Hex ?y" using h1(3,4) h2(3,4) by simp
      ultimately show ?thesis unfolding ix iy by blast
    next
      case True
      have "tokens ?x = h1 # tokens (payload_of e)" "tokens ?y = h2 # tokens (payload_of e')"
        using chained_tok [OF h1(1) g(1)] chained_tok [OF h2(1) g(1)] by simp_all
      then have eq: "h1 = h2" "payload_of e = payload_of e'" using True by auto
      then have "e = e'" using payload_of_inject [OF h1(2) h2(2)] h1(4) h2(4) by simp
      then show ?thesis using snoc.IH [OF h1(1), of es2'] h2(1) eq snoc unfolding ix iy by blast
    qed
  qed
qed

text \<open>
  C15. The log is tamper-evident: two logs that load and end in the same chain hash have the same entries,
  or else the texts they hash contain an explicit SHA-256 collision.
\<close>

theorem checksumDb_tamper_evident:
  assumes "loadChecksumDb db1 = Inr (es1, h)" and "loadChecksumDb db2 = Inr (es2, h)"
  shows "es1 = es2 \<or>
    (\<exists>x \<in> set (chain_inputs kGenesisHash es1). \<exists>y \<in> set (chain_inputs kGenesisHash es2). x \<noteq> y \<and> sha256Hex x = sha256Hex y)"
  using chained_unique [OF tok_genesis _ load_chained [OF assms(1)] load_chained [OF assms(2)]]
  by (simp add: kGenesisHash_def)

theorem checksumDb_tamper_evident_witness:
  "loadChecksumDb None = Inr ([], kGenesisHash) \<and> loadChecksumDb (Some [NL]) = Inr ([], kGenesisHash)"
  using checksumDb_tamper_evident [of None "[]" kGenesisHash "Some [NL]" "[]"]
  by (simp add: loadChecksumDb_def getlines.simps [of "[NL]"] getlines.simps [of "[]"])

text \<open>
  Removing records from the end of the log is not detected: any prefix of whole lines of a log that
  loads, loads as well, to a prefix of the entries.
\<close>

lemma checksumDb_truncation:
  assumes "loadChecksumDb (Some (s @ t)) = Inr (es, h)" and "whole_lines s"
  shows "\<exists>es1 es2 h1. es = es1 @ es2 \<and> loadChecksumDb (Some s) = Inr (es1, h1)"
proof -
  have "load_lines 0 (getlines s @ getlines t) [] kGenesisHash = Inr (es, h)"
    using assms by (simp add: loadChecksumDb_def getlines_append)
  then obtain es1 h1 where "load_lines 0 (getlines s) [] kGenesisHash = Inr (es1, h1)"
    "load_lines (0 + length (getlines s)) (getlines t) es1 h1 = Inr (es, h)"
    by (auto simp: load_lines_append split: sum.splits)
  then show ?thesis using load_lines_chained by (fastforce simp: loadChecksumDb_def)
qed

lemma checksumDb_truncation_witness:
  "\<exists>es1 h1. loadChecksumDb (Some [NL]) = Inr (es1, h1)"
  using checksumDb_truncation [of "[NL]" "[NL]" "[]" kGenesisHash]
  by (auto simp: loadChecksumDb_def whole_lines_def getlines.simps [of "[NL, NL]"] getlines.simps [of "[NL]"] getlines.simps [of "[]"])

end
