(* ===== verification/Sha256_Vector.thy ===== *)
theory Sha256_Vector
  imports Sha256
begin

text \<open>
  A published test vector, evaluated on the model: it fixes every constant of \<open>hash.cpp\<close>.
\<close>

lemma sha256Hex_abc: "sha256Hex ''abc'' = ''ba7816bf8f01cfea414140de5dae2223b00361a396177a9cb410ff61f20015ad''"
  by code_simp

end
