(* ===== verification/Build_Plan.thy ===== *)
theory Build_Plan
  imports Lexer Trident_Types
begin

text \<open>
  The build plan, the text file through which the package manager hands a resolved project to the
  compiler: its writer \<open>tools/trident/plan.cpp\<close> and its reader \<open>src/driver/BuildPlan.{hpp,cpp}\<close>, which
  runs the compiler's lexer. The reader's methods take and return the cursor (the tokens from the
  current one on, and the sink); a \<open>return plan\<close> on an error is the \<open>False\<close> in a method's result. Opening and
  reading a file is a parameter. The round trip at the end composes the writer, the lexer and the reader.
\<close>

section \<open>The plan\<close>

datatype plan_entry_kind = EkScript | EkFile | EkFunction

record plan_source =
  ps_path :: string
  ps_moduleId :: string
  ps_origin :: string

record plan_edge =
  pe_from :: string
  pe_to :: string

record plan_asset =
  pa_rel :: string
  pa_path :: string
  pa_moduleId :: string
  pa_hash :: string

record build_plan =
  bp_ok :: bool
  bp_planFile :: source_file
  bp_out :: string
  bp_mode :: string
  bp_target :: string
  bp_optLevel :: int
  bp_entryKind :: plan_entry_kind
  bp_entryTarget :: string
  bp_sources :: "plan_source list"
  bp_edges :: "plan_edge list"
  bp_assets :: "plan_asset list"

definition build_plan_default :: build_plan where
  "build_plan_default =
     \<lparr>bp_ok = False, bp_planFile = \<lparr>sf_name = [], sf_text = []\<rparr>, bp_out = [], bp_mode = [], bp_target = [],
      bp_optLevel = 2, bp_entryKind = EkScript, bp_entryTarget = [], bp_sources = [], bp_edges = [],
      bp_assets = []\<rparr>"

section \<open>The token cursor\<close>

definition unquote :: "string \<Rightarrow> string" where
  "unquote tok =
     (if 2 \<le> length tok \<and> (hd tok = DQUOTE \<or> hd tok = SQUOTE) then take (length tok - 2) (drop 1 tok) else tok)"

text \<open>The reader's fields: the tokens from \<open>i\<close> on, and the sink.\<close>

record plan_reader =
  pr_toks :: "token list"
  pr_sink :: diagnostic_sink

definition pr_cur :: "plan_reader \<Rightarrow> token" where
  "pr_cur r = hd (pr_toks r)"

definition pr_at :: "token_kind \<Rightarrow> plan_reader \<Rightarrow> bool" where
  "pr_at k r \<longleftrightarrow> tk_kind (pr_cur r) = k"

definition pr_advance :: "plan_reader \<Rightarrow> plan_reader" where
  "pr_advance r = (if tk_kind (pr_cur r) \<noteq> TkEnd then r\<lparr>pr_toks := tl (pr_toks r)\<rparr> else r)"

definition pr_error :: "string \<Rightarrow> plan_reader \<Rightarrow> plan_reader" where
  "pr_error msg r = r\<lparr>pr_sink := sink_error (tk_span (pr_cur r)) msg (pr_sink r)\<rparr>"

definition pr_expect :: "token_kind \<Rightarrow> string \<Rightarrow> plan_reader \<Rightarrow> bool \<times> plan_reader" where
  "pr_expect k what r =
     (if \<not> pr_at k r then (False, pr_error (''expected '' @ what) r) else (True, pr_advance r))"

definition sq :: "string \<Rightarrow> string" where
  "sq s = [SQUOTE] @ s @ [SQUOTE]"

definition pr_expectIdent :: "string \<Rightarrow> plan_reader \<Rightarrow> bool \<times> plan_reader" where
  "pr_expectIdent name r =
     (if \<not> (pr_at TkIdentifier r \<and> tk_text (pr_cur r) = name)
      then (False, pr_error (''expected '' @ sq name) r) else (True, pr_advance r))"

definition pr_scalar :: "plan_reader \<Rightarrow> string option \<times> plan_reader" where
  "pr_scalar r =
     (if pr_at TkStringLiteral r then (Some (unquote (tk_text (pr_cur r))), pr_advance r)
      else if pr_at TkIntLiteral r then (Some (tk_text (pr_cur r)), pr_advance r)
      else (None, pr_error ''expected a string or a number'' r))"

definition pr_optSemi :: "plan_reader \<Rightarrow> plan_reader" where
  "pr_optSemi r = (if pr_at (TkPunct PSemicolon) r then pr_advance r else r)"

lemma pr_advance_sink [simp]: "pr_sink (pr_advance r) = pr_sink r"
  by (simp add: pr_advance_def)

text \<open>Every method leaves a suffix of the tokens; past any token but the end, a shorter one.\<close>

lemma pr_error_toks [simp]: "pr_toks (pr_error msg r) = pr_toks r"
  by (simp add: pr_error_def)

lemma pr_advance_length:
  "length (pr_toks (pr_advance r)) \<le> length (pr_toks r)"
  "pr_toks r \<noteq> [] \<Longrightarrow> \<not> pr_at TkEnd r \<Longrightarrow> length (pr_toks (pr_advance r)) < length (pr_toks r)"
  by (simp_all add: pr_advance_def pr_at_def)

lemma pr_steps_length:
  "length (pr_toks (snd (pr_expect k what r))) \<le> length (pr_toks r)"
  "length (pr_toks (snd (pr_scalar r))) \<le> length (pr_toks r)"
  "length (pr_toks (pr_optSemi r)) \<le> length (pr_toks r)"
  using pr_advance_length(1) [of r] by (simp_all add: pr_expect_def pr_scalar_def pr_optSemi_def)

text \<open>\<open>onField\<close> captures the block's variables and the sink, and reads the position of the cursor for its
  messages; \<open>toks\<close> never runs empty, since the cursor stops at the end token.\<close>

type_synonym 'a on_field = "string \<Rightarrow> string \<Rightarrow> source_span \<Rightarrow> 'a \<times> diagnostic_sink \<Rightarrow> 'a \<times> diagnostic_sink"

definition field_step :: "'a on_field \<Rightarrow> 'a \<Rightarrow> plan_reader \<Rightarrow> bool \<times> 'a \<times> plan_reader" where
  "field_step onField a r =
     (if \<not> pr_at TkIdentifier r then (False, a, pr_error ''expected a field name'' r)
      else
        (let field = tk_text (pr_cur r);
             (okEq, r1) = pr_expect (TkPunct PEq) (sq ''='') (pr_advance r)
         in if \<not> okEq then (False, a, r1)
            else case pr_scalar r1 of
                   (None, r2) \<Rightarrow> (False, a, r2)
                 | (Some value, r2) \<Rightarrow>
                     (let (a', s') = onField field value (tk_span (pr_cur r2)) (a, pr_sink r2)
                      in (True, a', pr_optSemi (r2\<lparr>pr_sink := s'\<rparr>)))))"

lemma field_step_length:
  assumes "field_step onField a r = (True, a', r')" "pr_toks r \<noteq> []"
  shows "length (pr_toks r') < length (pr_toks r)"
proof -
  define r1 where "r1 = snd (pr_expect (TkPunct PEq) (sq ''='') (pr_advance r))"
  define r2 where "r2 = snd (pr_scalar r1)"
  have i: "pr_at TkIdentifier r" using assms(1) by (auto simp: field_step_def split: if_splits)
  then have "length (pr_toks (pr_advance r)) < length (pr_toks r)"
    using assms(2) by (intro pr_advance_length(2)) (auto simp: pr_at_def)
  moreover have "length (pr_toks r1) \<le> length (pr_toks (pr_advance r))" "length (pr_toks r2) \<le> length (pr_toks r1)"
    using pr_steps_length unfolding r1_def r2_def by blast+
  moreover have "\<exists>s'. r' = pr_optSemi (r2\<lparr>pr_sink := s'\<rparr>)"
    using assms(1) i
    by (auto simp: field_step_def r1_def r2_def Let_def split: if_splits prod.splits option.splits)
  moreover have "length (pr_toks (pr_optSemi (r2\<lparr>pr_sink := s'\<rparr>))) \<le> length (pr_toks r2)" for s'
    using pr_steps_length(3) [of "r2\<lparr>pr_sink := s'\<rparr>"] by simp
  ultimately show ?thesis by (metis le_less_trans le_trans)
qed

function field_loop :: "'a on_field \<Rightarrow> 'a \<Rightarrow> plan_reader \<Rightarrow> bool \<times> 'a \<times> plan_reader" where
  "field_loop onField a r =
     (if pr_toks r \<noteq> [] \<and> \<not> pr_at (TkPunct PRBrace) r \<and> \<not> pr_at TkEnd r then
        (case field_step onField a r of
           (True, a', r') \<Rightarrow> field_loop onField a' r'
         | (False, a', r') \<Rightarrow> (False, a', r'))
      else (let (ok, r') = pr_expect (TkPunct PRBrace) (sq ''}'') r in (ok, a, r')))"
  by pat_completeness auto
termination
  by (relation "measure (\<lambda>(onField, a, r). length (pr_toks r))") (auto intro: field_step_length [OF sym])

declare field_loop.simps [simp del]

definition pr_fieldBlock :: "'a on_field \<Rightarrow> 'a \<Rightarrow> plan_reader \<Rightarrow> bool \<times> 'a \<times> plan_reader" where
  "pr_fieldBlock onField a r =
     (let (ok, r1) = pr_expect (TkPunct PLBrace) (sq ''{'') r
      in if \<not> ok then (False, a, r1) else field_loop onField a r1)"

section \<open>The rows of a plan\<close>

definition unknown_field :: "string \<Rightarrow> string \<Rightarrow> source_span \<Rightarrow> 'a \<times> diagnostic_sink \<Rightarrow> 'a \<times> diagnostic_sink" where
  "unknown_field block f sp st =
     (fst st, sink_error sp (''unknown '' @ sq block @ '' field '' @ sq f) (snd st))"

definition entry_field :: "(string \<times> string) on_field" where
  "entry_field f v sp st =
     (case st of ((kind, target), s) \<Rightarrow>
        if f = ''kind'' then ((v, target), s)
        else if f = ''target'' then ((kind, v), s)
        else unknown_field ''entry'' f sp st)"

definition src_field :: "plan_source on_field" where
  "src_field f v sp st =
     (case st of (x, s) \<Rightarrow>
        if f = ''path'' then (x\<lparr>ps_path := v\<rparr>, s)
        else if f = ''moduleId'' then (x\<lparr>ps_moduleId := v\<rparr>, s)
        else if f = ''origin'' then (x\<lparr>ps_origin := v\<rparr>, s)
        else unknown_field ''src'' f sp st)"

definition edge_field :: "plan_edge on_field" where
  "edge_field f v sp st =
     (case st of (x, s) \<Rightarrow>
        if f = ''from'' then (x\<lparr>pe_from := v\<rparr>, s)
        else if f = ''to'' then (x\<lparr>pe_to := v\<rparr>, s)
        else unknown_field ''edge'' f sp st)"

definition asset_field :: "plan_asset on_field" where
  "asset_field f v sp st =
     (case st of (x, s) \<Rightarrow>
        if f = ''rel'' then (x\<lparr>pa_rel := v\<rparr>, s)
        else if f = ''path'' then (x\<lparr>pa_path := v\<rparr>, s)
        else if f = ''moduleId'' then (x\<lparr>pa_moduleId := v\<rparr>, s)
        else if f = ''hash'' then (x\<lparr>pa_hash := v\<rparr>, s)
        else unknown_field ''asset'' f sp st)"

text \<open>A branch of the loop: whether the loop goes on, the plan and \<open>sawEntry\<close>, and the reader.\<close>

type_synonym plan_branch = "build_plan \<times> bool \<Rightarrow> plan_reader \<Rightarrow> bool \<times> (build_plan \<times> bool) \<times> plan_reader"

definition entryKindOf :: "string \<Rightarrow> plan_entry_kind option" where
  "entryKindOf kind =
     (if kind = ''script'' then Some EkScript
      else if kind = ''file'' then Some EkFile
      else if kind = ''function'' then Some EkFunction
      else None)"

definition entry_row :: plan_branch where
  "entry_row st r =
     (case pr_fieldBlock entry_field ([], []) r of
        (False, _, r1) \<Rightarrow> (False, st, r1)
      | (True, (kind, target), r1) \<Rightarrow>
          (case entryKindOf kind of
             Some k \<Rightarrow> (True, ((fst st)\<lparr>bp_entryKind := k, bp_entryTarget := target\<rparr>, True), r1)
           | None \<Rightarrow> (False, st, pr_error (''entry.kind must be '' @ sq ''script'' @ '', '' @ sq ''file'' @
                                          '', or '' @ sq ''function'') r1)))"

definition src_row :: plan_branch where
  "src_row st r =
     (case pr_fieldBlock src_field \<lparr>ps_path = [], ps_moduleId = [], ps_origin = []\<rparr> r of
        (False, _, r1) \<Rightarrow> (False, st, r1)
      | (True, x, r1) \<Rightarrow>
          if ps_path x = [] then (False, st, pr_error (sq ''src'' @ '' is missing '' @ sq ''path'') r1)
          else (True, ((fst st)\<lparr>bp_sources := bp_sources (fst st) @ [x]\<rparr>, snd st), r1))"

definition edge_row :: plan_branch where
  "edge_row st r =
     (case pr_fieldBlock edge_field \<lparr>pe_from = [], pe_to = []\<rparr> r of
        (False, _, r1) \<Rightarrow> (False, st, r1)
      | (True, x, r1) \<Rightarrow> (True, ((fst st)\<lparr>bp_edges := bp_edges (fst st) @ [x]\<rparr>, snd st), r1))"

definition asset_row :: plan_branch where
  "asset_row st r =
     (case pr_fieldBlock asset_field \<lparr>pa_rel = [], pa_path = [], pa_moduleId = [], pa_hash = []\<rparr> r of
        (False, _, r1) \<Rightarrow> (False, st, r1)
      | (True, x, r1) \<Rightarrow>
          if pa_rel x = [] then (False, st, pr_error (sq ''asset'' @ '' is missing '' @ sq ''rel'') r1)
          else if pa_path x = [] then (False, st, pr_error (sq ''asset'' @ '' is missing '' @ sq ''path'') r1)
          else (True, ((fst st)\<lparr>bp_assets := bp_assets (fst st) @ [x]\<rparr>, snd st), r1))"

definition scalar_row :: "(string \<Rightarrow> build_plan \<Rightarrow> build_plan) \<Rightarrow> plan_branch" where
  "scalar_row upd st r =
     (let (ok, r1) = pr_expect (TkPunct PEq) (sq ''='') r
      in if \<not> ok then (False, st, r1)
         else case pr_scalar r1 of
                (None, r2) \<Rightarrow> (False, st, r2)
              | (Some v, r2) \<Rightarrow> (True, (upd v (fst st), snd st), pr_optSemi r2))"

definition plan_branch_of :: "string \<Rightarrow> plan_branch" where
  "plan_branch_of name =
     (if name = ''entry'' then entry_row
      else if name = ''src'' then src_row
      else if name = ''edge'' then edge_row
      else if name = ''asset'' then asset_row
      else if name = ''out'' then scalar_row (\<lambda>v p. p\<lparr>bp_out := v\<rparr>)
      else if name = ''mode'' then scalar_row (\<lambda>v p. p\<lparr>bp_mode := v\<rparr>)
      else if name = ''target'' then scalar_row (\<lambda>v p. p\<lparr>bp_target := v\<rparr>)
      else if name = ''optLevel'' then scalar_row (\<lambda>v p. p\<lparr>bp_optLevel := atoi v\<rparr>)
      else (\<lambda>st r. (False, st, pr_error (''unknown plan field or block '' @ sq name) r)))"
text \<open>No branch moves the cursor back, so the loop ends.\<close>

lemma field_loop_length: "length (pr_toks (snd (snd (field_loop onField a r)))) \<le> length (pr_toks r)"
proof (induction onField a r rule: field_loop.induct)
  case (1 onField a r)
  note e = pr_steps_length(1) [of "TkPunct PRBrace" "sq ''}''" r]
  show ?case
  proof (cases "pr_toks r \<noteq> [] \<and> \<not> pr_at (TkPunct PRBrace) r \<and> \<not> pr_at TkEnd r")
    case False
    then show ?thesis using e by (subst field_loop.simps) (auto split: prod.splits)
  next
    case True
    obtain ok a' r' where s: "field_step onField a r = (ok, a', r')" by (cases "field_step onField a r")
    show ?thesis
    proof (cases ok)
      case True
      then have "length (pr_toks r') < length (pr_toks r)" using s \<open>pr_toks r \<noteq> [] \<and> _\<close> field_step_length [of onField a r a' r'] by simp
      with 1 [OF \<open>pr_toks r \<noteq> [] \<and> _\<close> s [symmetric] _ refl] s True \<open>pr_toks r \<noteq> [] \<and> _\<close> show ?thesis
        by (subst field_loop.simps) simp
    next
      case False
      have "length (pr_toks r') \<le> length (pr_toks r)"
        using s False pr_advance_length(1) [of r] pr_steps_length(1) [of "TkPunct PEq" "sq ''=''" "pr_advance r"]
          pr_steps_length(2) [of "snd (pr_expect (TkPunct PEq) (sq ''='') (pr_advance r))"]
        by (auto simp: field_step_def Let_def split: if_splits prod.splits option.splits)
      then show ?thesis using s False \<open>pr_toks r \<noteq> [] \<and> _\<close> by (subst field_loop.simps) simp
    qed
  qed
qed

lemma pr_fieldBlock_length: "length (pr_toks (snd (snd (pr_fieldBlock onField a r)))) \<le> length (pr_toks r)"
  using pr_steps_length(1) [of "TkPunct PLBrace" "sq ''{''" r]
    field_loop_length [of onField a "snd (pr_expect (TkPunct PLBrace) (sq ''{'') r)"]
  by (auto simp: pr_fieldBlock_def split: prod.splits)

lemma plan_branch_length: "length (pr_toks (snd (snd (plan_branch_of name st r)))) \<le> length (pr_toks r)"
proof -
  have "length (pr_toks (snd (snd (scalar_row upd st r)))) \<le> length (pr_toks r)" for upd
    using pr_steps_length(1) [of "TkPunct PEq" "sq ''=''" r]
      pr_steps_length(2) [of "snd (pr_expect (TkPunct PEq) (sq ''='') r)"]
      pr_steps_length(3) [of "snd (pr_scalar (snd (pr_expect (TkPunct PEq) (sq ''='') r)))"]
    by (auto simp: scalar_row_def split: prod.splits option.splits)
  moreover have "length (pr_toks (snd (snd (entry_row st r)))) \<le> length (pr_toks r)"
    using pr_fieldBlock_length [of entry_field "([], [])" r]
    by (auto simp: entry_row_def split: prod.splits option.splits bool.splits)
  moreover have "length (pr_toks (snd (snd (src_row st r)))) \<le> length (pr_toks r)"
    using pr_fieldBlock_length [of src_field "\<lparr>ps_path = [], ps_moduleId = [], ps_origin = []\<rparr>" r]
    by (auto simp: src_row_def split: prod.splits bool.splits)
  moreover have "length (pr_toks (snd (snd (edge_row st r)))) \<le> length (pr_toks r)"
    using pr_fieldBlock_length [of edge_field "\<lparr>pe_from = [], pe_to = []\<rparr>" r]
    by (auto simp: edge_row_def split: prod.splits bool.splits)
  moreover have "length (pr_toks (snd (snd (asset_row st r)))) \<le> length (pr_toks r)"
    using pr_fieldBlock_length [of asset_field "\<lparr>pa_rel = [], pa_path = [], pa_moduleId = [], pa_hash = []\<rparr>" r]
    by (auto simp: asset_row_def split: prod.splits bool.splits)
  ultimately show ?thesis by (simp add: plan_branch_of_def)
qed

section \<open>Reading a plan\<close>

function plan_loop :: "build_plan \<times> bool \<Rightarrow> plan_reader \<Rightarrow> bool \<times> (build_plan \<times> bool) \<times> plan_reader" where
  "plan_loop st r =
     (if pr_toks r \<noteq> [] \<and> \<not> pr_at (TkPunct PRBrace) r \<and> \<not> pr_at TkEnd r then
        (if \<not> pr_at TkIdentifier r then (False, st, pr_error ''expected a field or block name'' r)
         else (case plan_branch_of (tk_text (pr_cur r)) st (pr_advance r) of
                 (True, st', r') \<Rightarrow> plan_loop st' r'
               | (False, st', r') \<Rightarrow> (False, st', r')))
      else (let (ok, r') = pr_expect (TkPunct PRBrace) (sq ''}'') r in (ok, st, r')))"
  by pat_completeness auto
termination
proof (relation "measure (\<lambda>(st, r). length (pr_toks r))", simp, clarsimp)
  fix st r pl sw r'
  assume "(True, (pl, sw), r') = plan_branch_of (tk_text (pr_cur r)) st (pr_advance r)"
    and "pr_toks r \<noteq> []" "\<not> pr_at TkEnd r"
  then show "length (pr_toks r') < length (pr_toks r)"
    using plan_branch_length [of "tk_text (pr_cur r)" st "pr_advance r"] pr_advance_length(2) [of r]
    by (metis snd_conv le_less_trans)
qed

declare plan_loop.simps [simp del]

text \<open>The last checks of \<open>readBuildPlan\<close>, and the whole of it; \<open>file\<close> is \<open>readWholeFile\<close>.\<close>

definition plan_checks :: "build_plan \<times> bool \<Rightarrow> diagnostic_sink \<Rightarrow> build_plan \<times> diagnostic_sink" where
  "plan_checks st s =
     (let none = \<lparr>sp_offset = 0, sp_length = 0\<rparr>;
          s1 = (if bp_sources (fst st) = []
                then sink_error none (''build plan lists no '' @ sq ''src'' @ '' rows '' @
                       map char_of [226 :: nat, 128, 148] @ '' nothing to compile'') s else s);
          s2 = (if \<not> snd st
                then sink_error none (''build plan is missing an '' @ sq ''entry { ... }'' @ '' block'') s1 else s1)
      in ((fst st)\<lparr>bp_ok := \<not> hasErrors s2\<rparr>, s2))"

definition readBuildPlan ::
  "(string \<Rightarrow> string option) \<Rightarrow> string \<Rightarrow> diagnostic_sink \<Rightarrow> lex_exn + (build_plan \<times> diagnostic_sink)" where
  "readBuildPlan file planPath sink =
     (let plan0 = build_plan_default\<lparr>bp_planFile := \<lparr>sf_name = planPath, sf_text = []\<rparr>\<rparr>
      in case file planPath of
           None \<Rightarrow> Inr (plan0, sink_error \<lparr>sp_offset = 0, sp_length = 0\<rparr> (''cannot read build plan '' @ sq planPath) sink)
         | Some s \<Rightarrow>
             (let plan = plan0\<lparr>bp_planFile := \<lparr>sf_name = planPath, sf_text = s\<rparr>\<rparr>
              in case tokenize ((new_lexer s False)\<lparr>lx_sink := sink\<rparr>) of
                   Inl e \<Rightarrow> Inl e
                 | Inr (toks, lx) \<Rightarrow>
                     (let (ok1, r1) = pr_expectIdent ''plan'' \<lparr>pr_toks = toks, pr_sink = lx_sink lx\<rparr>
                      in if \<not> ok1 then Inr (plan, pr_sink r1)
                         else
                           (let (ok2, r2) = pr_expect (TkPunct PLBrace) (sq ''{'') r1
                            in if \<not> ok2 then Inr (plan, pr_sink r2)
                               else
                                 (let (ok3, st, r3) = plan_loop (plan, False) r2
                                  in if \<not> ok3 then Inr (fst st, pr_sink r3)
                                     else Inr (plan_checks st (pr_sink r3)))))))"

section \<open>Writing a plan\<close>

record write_plan_options =
  wo_out :: string
  wo_mode :: string
  wo_target :: string
  wo_optLevel :: int

record resolved_source =
  rs_path :: string
  rs_moduleId :: string
  rs_origin :: string

record resolved_asset =
  ra_rel :: string
  ra_path :: string
  ra_moduleId :: string
  ra_hash :: string

text \<open>\<open>moduleDeps\<close>, a map of sets, is the list of its pairs in the order of iteration.\<close>

record resolved_project =
  rp_ok :: bool
  rp_manifest :: project_manifest
  rp_sources :: "resolved_source list"
  rp_moduleDeps :: "(string \<times> string list) list"
  rp_assets :: "resolved_asset list"
  rp_entryKind :: string
  rp_entryTarget :: string

definition escape_plan :: "string \<Rightarrow> string" where
  "escape_plan s = concat (map (\<lambda>c. if c = DQUOTE \<or> c = BSLASH then [BSLASH, c] else [c]) s)"

definition plan_quote :: "string \<Rightarrow> string" where
  "plan_quote s = [DQUOTE] @ escape_plan s @ [DQUOTE]"

definition src_line :: "resolved_source \<Rightarrow> string" where
  "src_line x =
     ''    src { path = '' @ plan_quote (rs_path x) @ ''; moduleId = '' @ plan_quote (rs_moduleId x) @
     ''; origin = '' @ plan_quote (rs_origin x) @ ''; }'' @ [NL]"

definition edge_line :: "string \<Rightarrow> string \<Rightarrow> string" where
  "edge_line from to = ''    edge { from = '' @ plan_quote from @ ''; to = '' @ plan_quote to @ ''; }'' @ [NL]"

definition asset_line :: "resolved_asset \<Rightarrow> string" where
  "asset_line x =
     ''    asset { rel = '' @ plan_quote (ra_rel x) @ ''; path = '' @ plan_quote (ra_path x) @
     ''; moduleId = '' @ plan_quote (ra_moduleId x) @ ''; hash = '' @ plan_quote (ra_hash x) @ ''; }'' @ [NL]"

definition plan_head :: "resolved_project \<Rightarrow> write_plan_options \<Rightarrow> string" where
  "plan_head rp opts =
     ''plan {'' @ [NL] @
     ''    out = '' @ plan_quote (wo_out opts) @ '';'' @ [NL] @
     ''    mode = '' @ plan_quote (wo_mode opts) @ '';'' @ [NL] @
     ''    target = '' @ plan_quote (wo_target opts) @ '';'' @ [NL] @
     ''    optLevel = '' @ int_str (wo_optLevel opts) @ '';'' @ [NL] @
     ''    entry { kind = '' @ plan_quote (rp_entryKind rp) @ ''; target = '' @ plan_quote (rp_entryTarget rp) @
     ''; }'' @ [NL]"

definition plan_text :: "resolved_project \<Rightarrow> write_plan_options \<Rightarrow> string" where
  "plan_text rp opts =
     plan_head rp opts @ concat (map src_line (rp_sources rp)) @
     concat (map (\<lambda>(from, tos). concat (map (edge_line from) tos)) (rp_moduleDeps rp)) @
     concat (map asset_line (rp_assets rp)) @ ''}'' @ [NL]"

text \<open>The stream's fate decides what is on disk: it does not open, it takes the bytes up to some point,
  or it takes them all. The result, the file's new contents and the line on standard error.\<close>

datatype stream_fate = NotOpened | Truncated nat | AllWritten

definition writeBuildPlan ::
  "stream_fate \<Rightarrow> string \<Rightarrow> resolved_project \<Rightarrow> write_plan_options \<Rightarrow> bool \<times> string option \<times> string" where
  "writeBuildPlan fate planPath rp opts =
     (case fate of
        NotOpened \<Rightarrow> (False, None, ''error: cannot write build plan '' @ sq planPath @ [NL])
      | Truncated n \<Rightarrow> (False, Some (take n (plan_text rp opts)), [])
      | AllWritten \<Rightarrow> (True, Some (plan_text rp opts), []))"

section \<open>Lexing written pieces\<close>

text \<open>\<open>w\<close> in front of \<open>r\<close> lexes as one token of kind \<open>k\<close>.\<close>

definition lexes :: "token_kind \<Rightarrow> string \<Rightarrow> string \<Rightarrow> bool" where
  "lexes k w r \<longleftrightarrow> w \<noteq> [] \<and>
     (\<forall>lx. facing lx (w @ r) \<longrightarrow> \<not> lx_allowHoles lx \<longrightarrow>
        skipTrivia lx = lx \<and> lexToken lx = emit k (lx_pos lx) (adv (length w) lx))"

datatype piece = Gap string | Tok token_kind string

fun piece_text :: "piece \<Rightarrow> string" where
  "piece_text (Gap b) = b"
| "piece_text (Tok k w) = w"

fun piece_toks :: "piece list \<Rightarrow> (token_kind \<times> string) list" where
  "piece_toks [] = []"
| "piece_toks (Gap b # ps) = piece_toks ps"
| "piece_toks (Tok k w # ps) = (k, w) # piece_toks ps"

abbreviation pieces_text :: "piece list \<Rightarrow> string" where
  "pieces_text ps \<equiv> concat (map piece_text ps)"

fun lexable :: "piece list \<Rightarrow> bool" where
  "lexable [] \<longleftrightarrow> True"
| "lexable (Gap b # ps) \<longleftrightarrow> list_all is_blank b \<and> lexable ps"
| "lexable (Tok k w # ps) \<longleftrightarrow> lexes k w (pieces_text ps) \<and> lexable ps"

lemma piece_toks_append [simp]: "piece_toks (ps @ qs) = piece_toks ps @ piece_toks qs"
  by (induction ps rule: piece_toks.induct) auto

definition kt :: "token \<Rightarrow> token_kind \<times> string" where
  "kt t = (tk_kind t, tk_text t)"

lemma skipTrivia_blank:
  assumes "facing lx (c # r)" "is_blank c"
  shows "skipTrivia lx = skipTrivia (adv 1 lx)" "facing (adv 1 lx) r"
  using assms facing_peek [OF assms(1), of 0] facing_adv [of lx "[c]" r 1]
  by (subst skipTrivia.simps, simp_all)

lemma skipTrivia_blanks:
  "facing lx (b @ r) \<Longrightarrow> list_all is_blank b \<Longrightarrow>
   skipTrivia lx = skipTrivia (adv (length b) lx) \<and> facing (adv (length b) lx) r"
proof (induction b arbitrary: lx)
  case Nil
  then show ?case by (simp add: adv_def)
next
  case (Cons c b)
  then have f: "facing lx (c # b @ r)" and c: "is_blank c" "list_all is_blank b" by simp_all
  from Cons.IH [OF skipTrivia_blank(2) [OF f c(1)] c(2)] skipTrivia_blank(1) [OF f c(1)]
  show ?case by (simp add: adv_adv)
qed

lemma tokenize_loop_skip: "skipTrivia lx = skipTrivia lx' \<Longrightarrow> tokenize_loop lx acc = tokenize_loop lx' acc"
  by (subst (1 2) tokenize_loop.simps) simp

lemma tokenize_pieces:
  "lexable ps \<Longrightarrow> facing lx (pieces_text ps) \<Longrightarrow> \<not> lx_allowHoles lx \<Longrightarrow>
   \<exists>toks lx'. tokenize_loop lx acc = Inr (acc @ toks, lx') \<and>
     map kt toks = piece_toks ps @ [(TkEnd, [])] \<and> lx_sink lx' = lx_sink lx"
proof (induction ps arbitrary: lx acc rule: lexable.induct)
  case 1
  then have f: "facing lx []" by simp
  have "skipTrivia lx = lx"
    using facing_peek [OF f] by (subst skipTrivia.simps) (simp add: is_blank_def)
  then have "tokenize_loop lx acc = Inr (acc @ [\<lparr>tk_kind = TkEnd, tk_span = \<lparr>sp_offset = lx_pos lx, sp_length = 0\<rparr>,
      tk_text = []\<rparr>], lx)"
    using facing_wf [OF f] facing_atEnd [OF f] f
    by (subst tokenize_loop.simps) (simp add: Lexer.make_def facing_def)
  then show ?case by (simp add: kt_def)
next
  case (2 b ps)
  then have s: "skipTrivia lx = skipTrivia (adv (length b) lx)" "facing (adv (length b) lx) (pieces_text ps)"
    using skipTrivia_blanks [of lx b] by auto
  from "2.IH" [of "adv (length b) lx" acc] 2 s tokenize_loop_skip [OF s(1)] show ?case by simp
next
  case (3 k w ps)
  then have f: "facing lx (w @ pieces_text ps)" and l: "lexes k w (pieces_text ps)" by simp_all
  let ?lx1 = "adv (length w) lx"
  let ?t = "\<lparr>tk_kind = k, tk_span = \<lparr>sp_offset = lx_pos lx, sp_length = length w\<rparr>, tk_text = w\<rparr>"
  have "skipTrivia lx = lx" "lexToken lx = Inr (?t, ?lx1)" "w \<noteq> []"
    using l f 3 facing_emit [OF f] by (auto simp: lexes_def)
  then have one: "tokenize_loop lx acc = tokenize_loop ?lx1 (acc @ [?t])"
    using facing_wf [OF f] facing_atEnd [OF f] by (subst tokenize_loop.simps) simp
  obtain toks lx' where "tokenize_loop ?lx1 (acc @ [?t]) = Inr ((acc @ [?t]) @ toks, lx')"
    "map kt toks = piece_toks ps @ [(TkEnd, [])]" "lx_sink lx' = lx_sink lx"
    using "3.IH" [of ?lx1 "acc @ [?t]"] 3 facing_adv [OF f refl] by auto
  moreover have "kt ?t = (k, w)" by (simp add: kt_def)
  ultimately show ?case unfolding one by (intro exI [of _ "?t # toks"]) simp
qed

text \<open>The tokens of a plan: a name and \<open>=\<close> before a blank, braces and semicolons anywhere, a quoted value
  and a number before a semicolon.\<close>

definition plan_name :: "string \<Rightarrow> bool" where
  "plan_name w \<longleftrightarrow> w \<noteq> [] \<and> list_all (word_char False) w \<and> \<not> isDigit (hd w) \<and> keywordKind w = TkIdentifier"

lemma lexes_name: "plan_name w \<Longrightarrow> lexes TkIdentifier w (CHR '' '' # r)"
  using skip_written [of TkIdentifier w] lexToken_word [of _ w r]
  by (auto simp: lexes_def plan_name_def written_def)

lemma lexes_eq: "lexes (TkPunct PEq) ''='' (CHR '' '' # r)"
  using skip_written [of "TkPunct PEq" "''=''"] lexToken_punct [of _ PEq r]
  by (auto simp: lexes_def written_def)

lemma lexes_punct:
  assumes "punct_case c = Some ([], p)" "\<not> is_blank c" "c \<noteq> CHR ''/''"
  shows "lexes (TkPunct p) [c] r"
  unfolding lexes_def
proof (intro conjI allI impI)
  fix lx assume f: "facing lx ([c] @ r)"
  then show "skipTrivia lx = lx" using assms by (auto intro!: facing_skip [of _ c r])
  show "lexToken lx = emit (TkPunct p) (lx_pos lx) (adv (length [c]) lx)"
    using f facing_nth [of lx c r] assms(1) by (simp add: lexToken_def Let_def)
qed simp

lemma lexes_braces:
  "lexes (TkPunct PLBrace) ''{'' r" "lexes (TkPunct PRBrace) ''}'' r" "lexes (TkPunct PSemicolon) '';'' r"
  by (rule lexes_punct; simp add: punct_case_def is_blank_def)+

lemma string_loop_plan:
  "facing lx (escape_plan s @ DQUOTE # r) \<Longrightarrow> NL \<notin> set s \<Longrightarrow>
   string_loop DQUOTE lx = (True, adv (Suc (length (escape_plan s))) lx)"
proof (induction s arbitrary: lx)
  case Nil
  then show ?case
    using facing_atEnd [of lx "DQUOTE # r"] facing_peek [of lx "DQUOTE # r" 0]
    by (simp add: string_loop.simps [of DQUOTE lx] escape_plan_def)
next
  case (Cons c s)
  show ?case
  proof (cases "c = DQUOTE \<or> c = BSLASH")
    case True
    then have f: "facing lx ([BSLASH, c] @ escape_plan s @ DQUOTE # r)" using Cons.prems by (simp add: escape_plan_def)
    have "string_loop DQUOTE lx = string_loop DQUOTE (adv 2 lx)"
      using facing_atEnd [OF f] facing_peek [OF f, of 0] by (simp add: string_loop.simps [of DQUOTE lx])
    with Cons.IH [OF facing_adv [OF f, of 2]] Cons.prems True show ?thesis by (simp add: escape_plan_def adv_adv)
  next
    case False
    then have f: "facing lx (c # escape_plan s @ DQUOTE # r)" using Cons.prems by (simp add: escape_plan_def)
    have n: "c \<noteq> BSLASH" "c \<noteq> NL" "c \<noteq> DQUOTE" using False Cons.prems by auto
    from Cons.IH [OF string_loop_char(2) [OF f n]] string_loop_char(1) [OF f n] Cons.prems False
    show ?thesis by (simp add: escape_plan_def adv_adv)
  qed
qed

lemma lexes_quoted:
  assumes "NL \<notin> set v" shows "lexes TkStringLiteral (plan_quote v) (CHR '';'' # r)"
  unfolding lexes_def
proof (intro conjI allI impI)
  fix lx assume f: "facing lx (plan_quote v @ CHR '';'' # r)" 
  let ?w = "plan_quote v"
  have fc: "facing lx ([DQUOTE] @ escape_plan v @ DQUOTE # CHR '';'' # r)" using f by (simp add: plan_quote_def)
  show "skipTrivia lx = lx" using fc by (auto intro!: facing_skip [of _ DQUOTE] simp: is_blank_def)
  have pk: "\<not> (peek lx 1 = DQUOTE \<and> peek lx 2 = DQUOTE)"
    using facing_peek [OF fc, of 1] facing_peek [OF fc, of 2]
    by (cases v) (auto simp: escape_plan_def numeral_2_eq_2)
  have "string_loop DQUOTE (adv 1 lx) = (True, adv (length ?w) lx)"
    using string_loop_plan [OF facing_adv [OF fc, of 1] assms] by (simp add: adv_adv plan_quote_def)
  then show "lexToken lx = emit TkStringLiteral (lx_pos lx) (adv (length ?w) lx)"
    using pk facing_nth [of lx DQUOTE] fc
    by (auto simp: lexToken_def Let_def punct_case_def peek_adv lexString_def finish_quoted_def numeral_2_eq_2)
qed (simp add: plan_quote_def)

lemma isDigit_cases: "isDigit c \<Longrightarrow> c \<in> set ''0123456789''"
proof -
  assume "isDigit c"
  then have n: "48 \<le> (of_char c :: nat)" "(of_char c :: nat) \<le> 57" by (simp_all add: isDigit_def less_eq_char_def)
  define m where "m = (of_char c :: nat)"
  have c: "c = char_of m" unfolding m_def by simp
  have "m = 48 \<or> m = 49 \<or> m = 50 \<or> m = 51 \<or> m = 52 \<or> m = 53 \<or> m = 54 \<or> m = 55 \<or> m = 56 \<or> m = 57"
    using n unfolding m_def by presburger
  then show ?thesis unfolding c by (elim disjE) (simp_all add: char_of_def bit_0)
qed

lemma isDigit_start:
  "isDigit c \<Longrightarrow> \<not> is_blank c \<and> c \<noteq> CHR ''/'' \<and> punct_case c = None \<and> c \<noteq> DQUOTE \<and> c \<noteq> SQUOTE \<and> c \<noteq> BACKTICK \<and>
   c \<noteq> CHR ''$''"
  by (drule isDigit_cases, simp, elim disjE) (simp_all add: is_blank_def punct_case_def)

lemma lexes_number:
  "lexes TkIntLiteral (nat_str n) (CHR '';'' # r)"
  unfolding lexes_def
proof (intro conjI allI impI)
  fix lx assume f: "facing lx (nat_str n @ CHR '';'' # r)"
  have "isDigit = isdigit" by (simp add: fun_eq_iff isdigit_def isDigit_def)
  then have d: "list_all isDigit (nat_str n)" by simp
  obtain c v where w: "nat_str n = c # v" by (cases "nat_str n") auto
  have c: "isDigit c" "list_all isDigit v" using d w by simp_all
  have fc: "facing lx (c # v @ CHR '';'' # r)" using f w by simp
  have cs: "\<not> is_blank c" "c \<noteq> CHR ''/''" "punct_case c = None" "c \<noteq> DQUOTE" "c \<noteq> SQUOTE" "c \<noteq> BACKTICK"
    "c \<noteq> CHR ''$''"
    using isDigit_start [OF c(1)] by simp_all
  then show "skipTrivia lx = lx" using facing_skip [OF fc] by simp
  have p1: "peek lx 1 \<noteq> CHR ''x''" "peek lx 1 \<noteq> CHR ''X''" "peek lx 1 \<noteq> CHR ''b''" "peek lx 1 \<noteq> CHR ''B''"
    using facing_peek [OF fc, of 1] c(2) by (cases v; auto simp: isDigit_def)+
  have sc: "scan_while (\<lambda>c. isDigit c \<or> c = CHR ''_'') lx = adv (length (nat_str n)) lx"
    using d by (intro facing_scan [OF f]) (auto simp: list_all_iff isDigit_def)
  have nu: "CHR ''_'' \<notin> set (nat_str n)" using d by (auto simp: list_all_iff isDigit_def)
  then have hl: "hd (nat_str n) \<noteq> CHR ''_''" "last (nat_str n) \<noteq> CHR ''_''"
    using hd_in_set [of "nat_str n"] last_in_set [of "nat_str n"] nat_str_nonempty [of n] by force+
  have du: "\<not> double_underscore w" if "CHR ''_'' \<notin> set w" for w
    using that by (induction w rule: double_underscore.induct) auto
  have sl: "slice lx (lx_pos lx) (lx_pos lx + length (nat_str n)) = nat_str n" using facing_slice [OF f] .
  have run: "scanDigitRun isDigit ''decimal'' lx = (length (filter (\<lambda>c. c \<noteq> CHR ''_'') (nat_str n)), adv (length (nat_str n)) lx)"
    using hl du [OF nu] by (simp add: scanDigitRun_def Let_def sc sl)
  have "facing (adv (length (nat_str n)) lx) (CHR '';'' # r)" by (rule facing_adv [OF f refl])
  from facing_peek [OF this, of 0] have "peek (adv (length (nat_str n)) lx) 0 \<noteq> CHR ''.''" by simp
  then have "lexNumber (lx_pos lx) lx = emit TkIntLiteral (lx_pos lx) (adv (length (nat_str n)) lx)"
    using p1 by (simp add: lexNumber_def run)
  then show "lexToken lx = emit TkIntLiteral (lx_pos lx) (adv (length (nat_str n)) lx)"
    using facing_nth [OF fc] cs c(1) by (simp add: lexToken_def Let_def)
qed simp

section \<open>The pieces of a plan\<close>

definition field_pieces :: "string \<times> string \<Rightarrow> piece list" where
  "field_pieces fv = [Tok TkIdentifier (fst fv), Gap '' '', Tok (TkPunct PEq) ''='', Gap '' '',
     Tok TkStringLiteral (plan_quote (snd fv)), Tok (TkPunct PSemicolon) '';'', Gap '' '']"

definition row_pieces :: "string \<Rightarrow> (string \<times> string) list \<Rightarrow> piece list" where
  "row_pieces name fs =
     [Gap ''    '', Tok TkIdentifier name, Gap '' '', Tok (TkPunct PLBrace) ''{'', Gap '' ''] @
     concat (map field_pieces fs) @ [Tok (TkPunct PRBrace) ''}'', Gap [NL]]"

definition value_pieces :: "string \<Rightarrow> token_kind \<Rightarrow> string \<Rightarrow> piece list" where
  "value_pieces name k w =
     [Gap ''    '', Tok TkIdentifier name, Gap '' '', Tok (TkPunct PEq) ''='', Gap '' '', Tok k w,
      Tok (TkPunct PSemicolon) '';'', Gap [NL]]"

definition field_ok :: "string \<times> string \<Rightarrow> bool" where
  "field_ok fv \<longleftrightarrow> plan_name (fst fv) \<and> NL \<notin> set (snd fv)"

lemma lexable_fields: "list_all field_ok fs \<Longrightarrow> lexable (concat (map field_pieces fs) @ ps) \<longleftrightarrow> lexable ps"
  by (induction fs) (auto simp: field_pieces_def field_ok_def is_blank_def lexes_name lexes_eq lexes_braces lexes_quoted)

lemma lexable_row:
  "plan_name name \<Longrightarrow> list_all field_ok fs \<Longrightarrow> lexable (row_pieces name fs @ ps) \<longleftrightarrow> lexable ps"
  by (auto simp: row_pieces_def lexable_fields is_blank_def lexes_name lexes_braces)

lemma lexable_value:
  "plan_name name \<Longrightarrow> (\<And>r. lexes k w (CHR '';'' # r)) \<Longrightarrow> lexable (value_pieces name k w @ ps) \<longleftrightarrow> lexable ps"
  by (auto simp: value_pieces_def is_blank_def lexes_name lexes_eq lexes_braces)

lemma plan_name_eval:
  "plan_name ''plan''" "plan_name ''out''" "plan_name ''mode''" "plan_name ''target''" "plan_name ''optLevel''"
  "plan_name ''entry''" "plan_name ''kind''" "plan_name ''src''" "plan_name ''path''" "plan_name ''moduleId''"
  "plan_name ''origin''" "plan_name ''edge''" "plan_name ''from''" "plan_name ''to''" "plan_name ''asset''"
  "plan_name ''rel''" "plan_name ''hash''"
  by (simp_all add: plan_name_def keywordKind_def keyword_table_def word_char_def isIdentCont_def isIdentStart_def isDigit_def)

section \<open>Reading written pieces\<close>

text \<open>The kinds and texts ahead of the cursor.\<close>

definition rd :: "plan_reader \<Rightarrow> (token_kind \<times> string) list" where
  "rd r = map kt (pr_toks r)"

lemma rd_cur:
  assumes "rd r = (k, w) # kts"
  shows "pr_at k' r \<longleftrightarrow> k = k'" "tk_text (pr_cur r) = w" "pr_toks r \<noteq> []"
    "k \<noteq> TkEnd \<Longrightarrow> rd (pr_advance r) = kts"
  using assms by (auto simp: rd_def pr_at_def pr_cur_def pr_advance_def kt_def)

lemma rd_expect:
  "rd r = (k, w) # kts \<Longrightarrow> k \<noteq> TkEnd \<Longrightarrow> pr_expect k what r = (True, pr_advance r)"
  by (simp add: pr_expect_def rd_cur(1))

lemma unquote_plan_quote [simp]: "unquote (plan_quote v) = escape_plan v"
  by (simp add: unquote_def plan_quote_def)

lemma rd_string:
  "rd r = (TkStringLiteral, plan_quote v) # kts \<Longrightarrow> pr_scalar r = (Some (escape_plan v), pr_advance r)"
  by (simp add: pr_scalar_def rd_cur(1,2))

lemma rd_number: "rd r = (TkIntLiteral, w) # kts \<Longrightarrow> pr_scalar r = (Some w, pr_advance r)"
  by (simp add: pr_scalar_def rd_cur(1,2))

lemma rd_semi: "rd r = (TkPunct PSemicolon, w) # kts \<Longrightarrow> pr_optSemi r = pr_advance r"
  by (simp add: pr_optSemi_def rd_cur(1))

lemma rd_sink [simp]: "rd (r\<lparr>pr_sink := s\<rparr>) = rd r"
  by (simp add: rd_def)

lemma pr_sink_same [simp]: "s = pr_sink r \<Longrightarrow> r\<lparr>pr_sink := s\<rparr> = r"
  by simp

text \<open>The cursor after a piece: the next tokens, and the sink as it was.\<close>

definition past :: "(token_kind \<times> string) list \<Rightarrow> plan_reader \<Rightarrow> plan_reader \<Rightarrow> bool" where
  "past kts r r' \<longleftrightarrow> rd r' = kts \<and> pr_sink r' = pr_sink r"

lemma field_step_past:
  assumes "rd r = piece_toks (field_pieces (f, v)) @ kts"
    and "\<And>sp s. onField f (escape_plan v) sp (a, s) = (a', s)"
  shows "\<exists>r'. field_step onField a r = (True, a', r') \<and> past kts r r'"
proof -
  let ?r1 = "pr_advance r" let ?r2 = "pr_advance ?r1" let ?r3 = "pr_advance ?r2"
  have 0: "rd r = (TkIdentifier, f) # (TkPunct PEq, ''='') # (TkStringLiteral, plan_quote v) # (TkPunct PSemicolon, '';'') # kts"
    using assms(1) by (simp add: field_pieces_def)
  have 1: "rd ?r1 = (TkPunct PEq, ''='') # (TkStringLiteral, plan_quote v) # (TkPunct PSemicolon, '';'') # kts"
    using rd_cur(4) [OF 0] by simp
  have 2: "rd ?r2 = (TkStringLiteral, plan_quote v) # (TkPunct PSemicolon, '';'') # kts" using rd_cur(4) [OF 1] by simp
  have 3: "rd ?r3 = (TkPunct PSemicolon, '';'') # kts" using rd_cur(4) [OF 2] by simp
  have "field_step onField a r = (True, a', pr_advance ?r3)"
    using rd_cur(1,2) [OF 0] rd_expect [OF 1] rd_string [OF 2] rd_semi [OF 3] assms(2)
    by (simp add: field_step_def)
  moreover have "past kts r (pr_advance ?r3)" using rd_cur(4) [OF 3] by (simp add: past_def)
  ultimately show ?thesis by blast
qed

lemma field_loop_past:
  assumes "rd r = piece_toks (concat (map field_pieces fs)) @ (TkPunct PRBrace, ''}'') # kts"
    and "\<And>f v sp a s. (f, v) \<in> set fs \<Longrightarrow> onField f (escape_plan v) sp (a, s) = (upd f (escape_plan v) a, s)"
  shows "\<exists>r'. field_loop onField a r = (True, fold (\<lambda>(f, v). upd f (escape_plan v)) fs a, r') \<and> past kts r r'"
  using assms
proof (induction fs arbitrary: a r)
  case Nil
  then have 0: "rd r = (TkPunct PRBrace, ''}'') # kts" by simp
  then have "field_loop onField a r = (True, a, pr_advance r)"
    using rd_cur(1) [OF 0] rd_expect [OF 0] by (subst field_loop.simps) simp
  moreover have "past kts r (pr_advance r)" using rd_cur(4) [OF 0] by (simp add: past_def)
  ultimately show ?case by simp
next
  case (Cons fv fs)
  obtain f v where fv: "fv = (f, v)" by (cases fv)
  let ?kts = "piece_toks (concat (map field_pieces fs)) @ (TkPunct PRBrace, ''}'') # kts"
  have 0: "rd r = piece_toks (field_pieces (f, v)) @ ?kts" using Cons.prems(1) fv by simp
  then have h: "rd r = (TkIdentifier, f) # tl (piece_toks (field_pieces (f, v))) @ ?kts" by (simp add: field_pieces_def)
  obtain r1 where r1: "field_step onField a r = (True, upd f (escape_plan v) a, r1)" "past ?kts r r1"
    using field_step_past [OF 0, of onField a "upd f (escape_plan v) a"] Cons.prems(2) [of f v] fv by auto
  obtain r2 where r2: "field_loop onField (upd f (escape_plan v) a) r1 =
      (True, fold (\<lambda>(f, v). upd f (escape_plan v)) fs (upd f (escape_plan v) a), r2)" "past kts r1 r2"
    using Cons.IH [of r1 "upd f (escape_plan v) a"] Cons.prems(2) r1(2) by (auto simp: past_def)
  have "field_loop onField a r = field_loop onField (upd f (escape_plan v) a) r1"
    using rd_cur(1,3) [OF h] r1(1) by (subst field_loop.simps) simp
  with r2 r1(2) show ?case by (auto simp: past_def fv)
qed

lemma fieldBlock_past:
  assumes "rd r = piece_toks (tl (tl (row_pieces name fs))) @ kts"
    and "\<And>f v sp a s. (f, v) \<in> set fs \<Longrightarrow> onField f (escape_plan v) sp (a, s) = (upd f (escape_plan v) a, s)"
  shows "\<exists>r'. pr_fieldBlock onField a r = (True, fold (\<lambda>(f, v). upd f (escape_plan v)) fs a, r') \<and> past kts r r'"
proof -
  have 0: "rd r = (TkPunct PLBrace, ''{'') # piece_toks (concat (map field_pieces fs)) @ (TkPunct PRBrace, ''}'') # kts"
    using assms(1) by (simp add: row_pieces_def)
  have 1: "rd (pr_advance r) = piece_toks (concat (map field_pieces fs)) @ (TkPunct PRBrace, ''}'') # kts"
    using rd_cur(4) [OF 0] by simp
  from field_loop_past [of "pr_advance r" fs kts onField upd a, OF 1 assms(2)] rd_expect [OF 0] show ?thesis
    by (auto simp: pr_fieldBlock_def past_def)
qed

text \<open>One round of the plan loop on a row or a value.\<close>

definition next_st :: "string \<Rightarrow> (token_kind \<times> string) list \<Rightarrow> build_plan \<times> bool \<Rightarrow> build_plan \<times> bool \<Rightarrow> bool" where
  "next_st name mid st st' \<longleftrightarrow>
     (\<forall>r kts. rd r = mid @ kts \<longrightarrow> (\<exists>r'. plan_branch_of name st r = (True, st', r') \<and> past kts r r'))"

lemma plan_loop_step:
  assumes "rd r = (TkIdentifier, name) # mid @ kts" "next_st name mid st st'"
  shows "\<exists>r'. plan_loop st r = plan_loop st' r' \<and> past kts r r'"
proof -
  have "rd (pr_advance r) = mid @ kts" using rd_cur(4) [OF assms(1)] by simp
  then obtain r' where r': "plan_branch_of name st (pr_advance r) = (True, st', r')" "past kts (pr_advance r) r'"
    using assms(2) unfolding next_st_def by blast
  then have "plan_loop st r = plan_loop st' r'"
    using rd_cur(1,2,3) [OF assms(1)] by (subst plan_loop.simps) simp
  with r' show ?thesis by (auto simp: past_def)
qed

lemma next_value:
  assumes "plan_branch_of name = scalar_row upd"
    and "k = TkStringLiteral \<and> w = plan_quote v \<and> x = escape_plan v \<or> k = TkIntLiteral \<and> x = w"
  shows "next_st name [(TkPunct PEq, ''=''), (k, w), (TkPunct PSemicolon, '';'')] st (upd x (fst st), snd st)"
  unfolding next_st_def
proof (intro allI impI)
  fix r kts assume "rd r = [(TkPunct PEq, ''=''), (k, w), (TkPunct PSemicolon, '';'')] @ kts"
  then have 0: "rd r = (TkPunct PEq, ''='') # (k, w) # (TkPunct PSemicolon, '';'') # kts" by simp
  let ?r1 = "pr_advance r" let ?r2 = "pr_advance ?r1"
  have 1: "rd ?r1 = (k, w) # (TkPunct PSemicolon, '';'') # kts" using rd_cur(4) [OF 0] by simp
  have k: "k \<noteq> TkEnd" using assms(2) by auto
  have 2: "rd ?r2 = (TkPunct PSemicolon, '';'') # kts" using rd_cur(4) [OF 1 k] .
  have "pr_scalar ?r1 = (Some x, ?r2)" using assms(2) 1 rd_string rd_number by blast
  then have "scalar_row upd st r = (True, (upd x (fst st), snd st), pr_advance ?r2)"
    using rd_expect [OF 0] rd_semi [OF 2] by (simp add: scalar_row_def)
  moreover have "past kts r (pr_advance ?r2)" using rd_cur(4) [OF 2] by (simp add: past_def)
  ultimately show "\<exists>r'. plan_branch_of name st r = (True, (upd x (fst st), snd st), r') \<and> past kts r r'"
    using assms(1) by auto
qed

definition the_entry :: "string \<Rightarrow> plan_entry_kind" where
  "the_entry s = (case entryKindOf s of Some k \<Rightarrow> k | None \<Rightarrow> EkScript)"

abbreviation row_toks :: "string \<Rightarrow> (string \<times> string) list \<Rightarrow> (token_kind \<times> string) list" where
  "row_toks name fs \<equiv> piece_toks (tl (tl (row_pieces name fs)))"

lemma branch_of_rows:
  "plan_branch_of ''entry'' = entry_row" "plan_branch_of ''src'' = src_row" "plan_branch_of ''edge'' = edge_row"
  "plan_branch_of ''asset'' = asset_row" "plan_branch_of ''out'' = scalar_row (\<lambda>v p. p\<lparr>bp_out := v\<rparr>)"
  "plan_branch_of ''mode'' = scalar_row (\<lambda>v p. p\<lparr>bp_mode := v\<rparr>)"
  "plan_branch_of ''target'' = scalar_row (\<lambda>v p. p\<lparr>bp_target := v\<rparr>)"
  "plan_branch_of ''optLevel'' = scalar_row (\<lambda>v p. p\<lparr>bp_optLevel := atoi v\<rparr>)"
  by (simp_all add: plan_branch_of_def)

definition pure_upd :: "'a on_field \<Rightarrow> string \<Rightarrow> string \<Rightarrow> 'a \<Rightarrow> 'a" where
  "pure_upd onField f v a = fst (onField f v \<lparr>sp_offset = 0, sp_length = 0\<rparr> (a, sink_empty))"

lemma next_entry:
  assumes "entryKindOf (escape_plan kind) \<noteq> None"
  shows "next_st ''entry'' (row_toks ''entry'' [(''kind'', kind), (''target'', target)]) st
    ((fst st)\<lparr>bp_entryKind := the_entry (escape_plan kind), bp_entryTarget := escape_plan target\<rparr>, True)"
  unfolding next_st_def branch_of_rows
proof (intro allI impI)
  let ?fs = "[(''kind'', kind), (''target'', target)]"
  fix r kts assume 0: "rd r = row_toks ''entry'' ?fs @ kts"
  have "entry_field f (escape_plan v) sp (a, s) = (pure_upd entry_field f (escape_plan v) a, s)"
    if "(f, v) \<in> set ?fs" for f v sp a s
    using that by (auto simp: pure_upd_def entry_field_def split: prod.splits)
  from fieldBlock_past [of r "''entry''" ?fs kts entry_field "pure_upd entry_field" "([], [])", OF 0 this]
  obtain r' where "pr_fieldBlock entry_field ([], []) r = (True, (escape_plan kind, escape_plan target), r')" "past kts r r'"
    by (auto simp: pure_upd_def entry_field_def)
  then show "\<exists>r'. entry_row st r = (True, ((fst st)\<lparr>bp_entryKind := the_entry (escape_plan kind),
      bp_entryTarget := escape_plan target\<rparr>, True), r') \<and> past kts r r'"
    using assms by (auto simp: entry_row_def the_entry_def)
qed

lemma escape_plan_Nil [simp]: "escape_plan p = [] \<longleftrightarrow> p = []"
  by (cases p) (auto simp: escape_plan_def)

lemma next_src:
  assumes "p \<noteq> []"
  shows "next_st ''src'' (row_toks ''src'' [(''path'', p), (''moduleId'', m), (''origin'', orig)]) st
    ((fst st)\<lparr>bp_sources := bp_sources (fst st) @ [\<lparr>ps_path = escape_plan p, ps_moduleId = escape_plan m, ps_origin = escape_plan orig\<rparr>]\<rparr>, snd st)"
  unfolding next_st_def branch_of_rows
proof (intro allI impI)
  let ?fs = "[(''path'', p), (''moduleId'', m), (''origin'', orig)]"
  let ?x = "\<lparr>ps_path = escape_plan p, ps_moduleId = escape_plan m, ps_origin = escape_plan orig\<rparr>" and ?i = "\<lparr>ps_path = [], ps_moduleId = [], ps_origin = []\<rparr>"
  fix r kts assume 0: "rd r = row_toks ''src'' ?fs @ kts"
  have "src_field f (escape_plan v) sp (a, s) = (pure_upd src_field f (escape_plan v) a, s)"
    if "(f, v) \<in> set ?fs" for f v sp a s
    using that by (auto simp: pure_upd_def src_field_def)
  from fieldBlock_past [of r "''src''" ?fs kts src_field "pure_upd src_field" ?i, OF 0 this]
  obtain r' where "pr_fieldBlock src_field ?i r = (True, ?x, r')" "past kts r r'"
    by (auto simp: pure_upd_def src_field_def)
  then show "\<exists>r'. src_row st r = (True, ((fst st)\<lparr>bp_sources := bp_sources (fst st) @ [?x]\<rparr>, snd st), r') \<and> past kts r r'"
    using assms by (auto simp: src_row_def)
qed

lemma next_edge:
  shows "next_st ''edge'' (row_toks ''edge'' [(''from'', x), (''to'', y)]) st
    ((fst st)\<lparr>bp_edges := bp_edges (fst st) @ [\<lparr>pe_from = escape_plan x, pe_to = escape_plan y\<rparr>]\<rparr>, snd st)"
  unfolding next_st_def branch_of_rows
proof (intro allI impI)
  let ?fs = "[(''from'', x), (''to'', y)]"
  let ?x = "\<lparr>pe_from = escape_plan x, pe_to = escape_plan y\<rparr>" and ?i = "\<lparr>pe_from = [], pe_to = []\<rparr>"
  fix r kts assume 0: "rd r = row_toks ''edge'' ?fs @ kts"
  have "edge_field f (escape_plan v) sp (a, s) = (pure_upd edge_field f (escape_plan v) a, s)"
    if "(f, v) \<in> set ?fs" for f v sp a s
    using that by (auto simp: pure_upd_def edge_field_def)
  from fieldBlock_past [of r "''edge''" ?fs kts edge_field "pure_upd edge_field" ?i, OF 0 this]
  obtain r' where "pr_fieldBlock edge_field ?i r = (True, ?x, r')" "past kts r r'"
    by (auto simp: pure_upd_def edge_field_def)
  then show "\<exists>r'. edge_row st r = (True, ((fst st)\<lparr>bp_edges := bp_edges (fst st) @ [?x]\<rparr>, snd st), r') \<and> past kts r r'"
    by (auto simp: edge_row_def)
qed

lemma next_asset:
  assumes "e \<noteq> [] \<and> p \<noteq> []"
  shows "next_st ''asset'' (row_toks ''asset'' [(''rel'', e), (''path'', p), (''moduleId'', m), (''hash'', h)]) st
    ((fst st)\<lparr>bp_assets := bp_assets (fst st) @ [\<lparr>pa_rel = escape_plan e, pa_path = escape_plan p, pa_moduleId = escape_plan m, pa_hash = escape_plan h\<rparr>]\<rparr>, snd st)"
  unfolding next_st_def branch_of_rows
proof (intro allI impI)
  let ?fs = "[(''rel'', e), (''path'', p), (''moduleId'', m), (''hash'', h)]"
  let ?x = "\<lparr>pa_rel = escape_plan e, pa_path = escape_plan p, pa_moduleId = escape_plan m, pa_hash = escape_plan h\<rparr>" and ?i = "\<lparr>pa_rel = [], pa_path = [], pa_moduleId = [], pa_hash = []\<rparr>"
  fix r kts assume 0: "rd r = row_toks ''asset'' ?fs @ kts"
  have "asset_field f (escape_plan v) sp (a, s) = (pure_upd asset_field f (escape_plan v) a, s)"
    if "(f, v) \<in> set ?fs" for f v sp a s
    using that by (auto simp: pure_upd_def asset_field_def)
  from fieldBlock_past [of r "''asset''" ?fs kts asset_field "pure_upd asset_field" ?i, OF 0 this]
  obtain r' where "pr_fieldBlock asset_field ?i r = (True, ?x, r')" "past kts r r'"
    by (auto simp: pure_upd_def asset_field_def)
  then show "\<exists>r'. asset_row st r = (True, ((fst st)\<lparr>bp_assets := bp_assets (fst st) @ [?x]\<rparr>, snd st), r') \<and> past kts r r'"
    using assms by (auto simp: asset_row_def)
qed

section \<open>The round trip\<close>

lemma plan_loop_rows:
  assumes "rd r = concat (map (\<lambda>x. (TkIdentifier, name) # row_toks name (flds x)) xs) @ kts"
    and "\<And>x st. x \<in> set xs \<Longrightarrow> next_st name (row_toks name (flds x)) st (g x st)"
  shows "\<exists>r'. plan_loop st r = plan_loop (fold g xs st) r' \<and> past kts r r'"
  using assms
proof (induction xs arbitrary: st r)
  case Nil
  then show ?case by (auto simp: past_def)
next
  case (Cons x xs)
  let ?kts = "concat (map (\<lambda>x. (TkIdentifier, name) # row_toks name (flds x)) xs) @ kts"
  obtain r1 where r1: "plan_loop st r = plan_loop (g x st) r1" "past ?kts r r1"
    using plan_loop_step [of r name "row_toks name (flds x)" ?kts st "g x st"] Cons.prems by auto
  obtain r2 where "plan_loop (g x st) r1 = plan_loop (fold g xs (g x st)) r2" "past kts r1 r2"
    using Cons.IH [of r1 "g x st"] Cons.prems r1(2) by (auto simp: past_def)
  with r1 show ?case by (auto simp: past_def)
qed

definition edges_of :: "resolved_project \<Rightarrow> (string \<times> string) list" where
  "edges_of rp = concat (map (\<lambda>(from, tos). map (Pair from) tos) (rp_moduleDeps rp))"

definition src_fields :: "resolved_source \<Rightarrow> (string \<times> string) list" where
  "src_fields x = [(''path'', rs_path x), (''moduleId'', rs_moduleId x), (''origin'', rs_origin x)]"

definition edge_fields :: "string \<times> string \<Rightarrow> (string \<times> string) list" where
  "edge_fields e = [(''from'', fst e), (''to'', snd e)]"

definition asset_fields :: "resolved_asset \<Rightarrow> (string \<times> string) list" where
  "asset_fields x =
     [(''rel'', ra_rel x), (''path'', ra_path x), (''moduleId'', ra_moduleId x), (''hash'', ra_hash x)]"

definition entry_fields :: "resolved_project \<Rightarrow> (string \<times> string) list" where
  "entry_fields rp = [(''kind'', rp_entryKind rp), (''target'', rp_entryTarget rp)]"

definition plan_pieces :: "resolved_project \<Rightarrow> write_plan_options \<Rightarrow> piece list" where
  "plan_pieces rp opts =
     [Tok TkIdentifier ''plan'', Gap '' '', Tok (TkPunct PLBrace) ''{'', Gap [NL]] @
     value_pieces ''out'' TkStringLiteral (plan_quote (wo_out opts)) @
     value_pieces ''mode'' TkStringLiteral (plan_quote (wo_mode opts)) @
     value_pieces ''target'' TkStringLiteral (plan_quote (wo_target opts)) @
     value_pieces ''optLevel'' TkIntLiteral (int_str (wo_optLevel opts)) @
     row_pieces ''entry'' (entry_fields rp) @
     concat (map (\<lambda>x. row_pieces ''src'' (src_fields x)) (rp_sources rp)) @
     concat (map (\<lambda>x. row_pieces ''edge'' (edge_fields x)) (edges_of rp)) @
     concat (map (\<lambda>x. row_pieces ''asset'' (asset_fields x)) (rp_assets rp)) @
     [Tok (TkPunct PRBrace) ''}'', Gap [NL]]"

lemma plan_lines:
  "src_line x = pieces_text (row_pieces ''src'' (src_fields x))"
  "edge_line (fst e) (snd e) = pieces_text (row_pieces ''edge'' (edge_fields e))"
  "asset_line y = pieces_text (row_pieces ''asset'' (asset_fields y))"
  by (simp_all add: src_line_def edge_line_def asset_line_def src_fields_def edge_fields_def asset_fields_def
      row_pieces_def field_pieces_def)

lemma pieces_concat: "pieces_text (concat (map f xs)) = concat (map (\<lambda>x. pieces_text (f x)) xs)"
  by (induction xs) simp_all

lemma edges_text:
  "concat (map (\<lambda>(from, tos). concat (map (edge_line from) tos)) ds) =
   concat (map (\<lambda>e. edge_line (fst e) (snd e)) (concat (map (\<lambda>(from, tos). map (Pair from) tos) ds)))"
  by (induction ds) (auto simp: comp_def)

lemma plan_text_pieces: "plan_text rp opts = pieces_text (plan_pieces rp opts)"
proof -
  have "plan_head rp opts = pieces_text ([Tok TkIdentifier ''plan'', Gap '' '', Tok (TkPunct PLBrace) ''{'', Gap [NL]] @
     value_pieces ''out'' TkStringLiteral (plan_quote (wo_out opts)) @
     value_pieces ''mode'' TkStringLiteral (plan_quote (wo_mode opts)) @
     value_pieces ''target'' TkStringLiteral (plan_quote (wo_target opts)) @
     value_pieces ''optLevel'' TkIntLiteral (int_str (wo_optLevel opts)) @
     row_pieces ''entry'' (entry_fields rp))"
    by (simp add: plan_head_def value_pieces_def row_pieces_def field_pieces_def entry_fields_def)
  moreover have "pieces_text [Tok (TkPunct PRBrace) ''}'', Gap [NL]] = ''}'' @ [NL]" by simp
  ultimately show ?thesis
    unfolding plan_text_def plan_pieces_def edges_text edges_of_def map_append concat_append pieces_concat plan_lines
    by (simp only: append_assoc)
qed

text \<open>The values of a plan, and the plan that has \<open>f v\<close> for each value \<open>v\<close>.\<close>

definition plan_values :: "resolved_project \<Rightarrow> write_plan_options \<Rightarrow> string list" where
  "plan_values rp opts =
     [wo_out opts, wo_mode opts, wo_target opts, rp_entryTarget rp] @
     concat (map (\<lambda>x. map snd (src_fields x)) (rp_sources rp)) @
     concat (map (\<lambda>e. map snd (edge_fields e)) (edges_of rp)) @
     concat (map (\<lambda>x. map snd (asset_fields x)) (rp_assets rp))"

definition plan_of :: "(string \<Rightarrow> string) \<Rightarrow> source_file \<Rightarrow> resolved_project \<Rightarrow> write_plan_options \<Rightarrow> build_plan" where
  "plan_of f file rp opts =
     \<lparr>bp_ok = True, bp_planFile = file, bp_out = f (wo_out opts), bp_mode = f (wo_mode opts),
      bp_target = f (wo_target opts), bp_optLevel = wo_optLevel opts,
      bp_entryKind = the_entry (rp_entryKind rp), bp_entryTarget = f (rp_entryTarget rp),
      bp_sources = map (\<lambda>x. \<lparr>ps_path = f (rs_path x), ps_moduleId = f (rs_moduleId x), ps_origin = f (rs_origin x)\<rparr>)
                     (rp_sources rp),
      bp_edges = map (\<lambda>e. \<lparr>pe_from = f (fst e), pe_to = f (snd e)\<rparr>) (edges_of rp),
      bp_assets = map (\<lambda>x. \<lparr>pa_rel = f (ra_rel x), pa_path = f (ra_path x), pa_moduleId = f (ra_moduleId x),
                            pa_hash = f (ra_hash x)\<rparr>) (rp_assets rp)\<rparr>"

definition plan_writable :: "resolved_project \<Rightarrow> write_plan_options \<Rightarrow> bool" where
  "plan_writable rp opts \<longleftrightarrow>
     list_all (\<lambda>v. NL \<notin> set v) (plan_values rp opts) \<and>
     0 \<le> wo_optLevel opts \<and> wo_optLevel opts < 2 ^ 31 \<and>
     entryKindOf (rp_entryKind rp) \<noteq> None \<and>
     rp_sources rp \<noteq> [] \<and> list_all (\<lambda>x. rs_path x \<noteq> []) (rp_sources rp) \<and>
     list_all (\<lambda>x. ra_rel x \<noteq> [] \<and> ra_path x \<noteq> []) (rp_assets rp)"

lemma entry_kind_plain: "entryKindOf k \<noteq> None \<Longrightarrow> escape_plan k = k \<and> NL \<notin> set k"
  by (auto simp: entryKindOf_def escape_plan_def split: if_splits)

lemma lexable_rows:
  "plan_name name \<Longrightarrow> (\<And>x. x \<in> set xs \<Longrightarrow> list_all field_ok (flds x)) \<Longrightarrow>
   lexable (concat (map (\<lambda>x. row_pieces name (flds x)) xs) @ ps) \<longleftrightarrow> lexable ps"
  by (induction xs) (auto simp: lexable_row)

lemma lexable_plan:
  assumes "plan_writable rp opts" shows "lexable (plan_pieces rp opts)"
proof -
  have nl: "NL \<notin> set v" if "v \<in> set (plan_values rp opts)" for v
    using assms that by (auto simp: plan_writable_def list_all_iff)
  have o: "NL \<notin> set (wo_out opts)" "NL \<notin> set (wo_mode opts)" "NL \<notin> set (wo_target opts)"
    by (simp_all add: nl plan_values_def)
  have e: "list_all field_ok (entry_fields rp)"
    using nl [of "rp_entryTarget rp"] assms entry_kind_plain [of "rp_entryKind rp"]
    by (simp add: entry_fields_def field_ok_def plan_name_eval plan_writable_def plan_values_def)
  have s: "list_all field_ok (src_fields x)" if "x \<in> set (rp_sources rp)" for x
  proof -
    have "set (map snd (src_fields x)) \<subseteq> set (plan_values rp opts)" using that by (auto simp: plan_values_def)
    then have "\<forall>v \<in> set (map snd (src_fields x)). NL \<notin> set v" using nl by blast
    then show ?thesis by (simp add: src_fields_def field_ok_def plan_name_eval)
  qed
  have d: "list_all field_ok (edge_fields x)" if "x \<in> set (edges_of rp)" for x
  proof -
    have "set (map snd (edge_fields x)) \<subseteq> set (plan_values rp opts)" using that by (auto simp: plan_values_def)
    then have "\<forall>v \<in> set (map snd (edge_fields x)). NL \<notin> set v" using nl by blast
    then show ?thesis by (simp add: edge_fields_def field_ok_def plan_name_eval)
  qed
  have a: "list_all field_ok (asset_fields x)" if "x \<in> set (rp_assets rp)" for x
  proof -
    have "set (map snd (asset_fields x)) \<subseteq> set (plan_values rp opts)" using that by (auto simp: plan_values_def)
    then have "\<forall>v \<in> set (map snd (asset_fields x)). NL \<notin> set v" using nl by blast
    then show ?thesis by (simp add: asset_fields_def field_ok_def plan_name_eval)
  qed
  have n: "lexes TkIntLiteral (int_str (wo_optLevel opts)) (CHR '';'' # r)" for r
    using assms by (simp add: plan_writable_def int_str_def lexes_number)
  show ?thesis
    unfolding plan_pieces_def
    by (simp add: lexes_name lexes_braces plan_name_eval is_blank_def lexable_value lexes_quoted [OF o(1)] lexes_quoted [OF o(2)]
        lexes_quoted [OF o(3)] n lexable_row e lexable_rows s d a)
qed

lemma row_toks_pieces: "piece_toks (row_pieces name fs) = (TkIdentifier, name) # row_toks name fs"
  by (simp add: row_pieces_def)

lemma rows_toks:
  "piece_toks (concat (map (\<lambda>x. row_pieces name (flds x)) xs)) =
   concat (map (\<lambda>x. (TkIdentifier, name) # row_toks name (flds x)) xs)"
  by (induction xs) (simp_all add: row_toks_pieces)

lemma value_toks:
  "piece_toks (value_pieces name k w) = (TkIdentifier, name) # [(TkPunct PEq, ''=''), (k, w), (TkPunct PSemicolon, '';'')]"
  by (simp add: value_pieces_def)

text \<open>What a list of rows adds to the plan.\<close>

definition add_src :: "resolved_source \<Rightarrow> build_plan \<times> bool \<Rightarrow> build_plan \<times> bool" where
  "add_src x st = ((fst st)\<lparr>bp_sources := bp_sources (fst st) @
     [\<lparr>ps_path = escape_plan (rs_path x), ps_moduleId = escape_plan (rs_moduleId x), ps_origin = escape_plan (rs_origin x)\<rparr>]\<rparr>,
     snd st)"

definition add_edge :: "string \<times> string \<Rightarrow> build_plan \<times> bool \<Rightarrow> build_plan \<times> bool" where
  "add_edge e st = ((fst st)\<lparr>bp_edges := bp_edges (fst st) @ [\<lparr>pe_from = escape_plan (fst e), pe_to = escape_plan (snd e)\<rparr>]\<rparr>, snd st)"

definition add_asset :: "resolved_asset \<Rightarrow> build_plan \<times> bool \<Rightarrow> build_plan \<times> bool" where
  "add_asset x st = ((fst st)\<lparr>bp_assets := bp_assets (fst st) @
     [\<lparr>pa_rel = escape_plan (ra_rel x), pa_path = escape_plan (ra_path x), pa_moduleId = escape_plan (ra_moduleId x),
       pa_hash = escape_plan (ra_hash x)\<rparr>]\<rparr>, snd st)"

lemma fold_add_src: "fold add_src xs st =
  ((fst st)\<lparr>bp_sources := bp_sources (fst st) @ map (\<lambda>x. \<lparr>ps_path = escape_plan (rs_path x),
     ps_moduleId = escape_plan (rs_moduleId x), ps_origin = escape_plan (rs_origin x)\<rparr>) xs\<rparr>, snd st)"
  by (induction xs arbitrary: st) (simp_all add: add_src_def)

lemma fold_add_edge: "fold add_edge xs st =
  ((fst st)\<lparr>bp_edges := bp_edges (fst st) @ map (\<lambda>e. \<lparr>pe_from = escape_plan (fst e), pe_to = escape_plan (snd e)\<rparr>) xs\<rparr>, snd st)"
  by (induction xs arbitrary: st) (simp_all add: add_edge_def)

lemma fold_add_asset: "fold add_asset xs st =
  ((fst st)\<lparr>bp_assets := bp_assets (fst st) @ map (\<lambda>x. \<lparr>pa_rel = escape_plan (ra_rel x), pa_path = escape_plan (ra_path x),
     pa_moduleId = escape_plan (ra_moduleId x), pa_hash = escape_plan (ra_hash x)\<rparr>) xs\<rparr>, snd st)"
  by (induction xs arbitrary: st) (simp_all add: add_asset_def)

text \<open>The four values and the entry, then the rows.\<close>

lemma plan_loop_head:
  assumes w: "plan_writable rp opts"
    and 0: "rd r = piece_toks (value_pieces ''out'' TkStringLiteral (plan_quote (wo_out opts)) @
     value_pieces ''mode'' TkStringLiteral (plan_quote (wo_mode opts)) @
     value_pieces ''target'' TkStringLiteral (plan_quote (wo_target opts)) @
     value_pieces ''optLevel'' TkIntLiteral (int_str (wo_optLevel opts)) @ row_pieces ''entry'' (entry_fields rp)) @ kts"
  shows "\<exists>r'. past kts r r' \<and> plan_loop (p, b) r = plan_loop
    (p\<lparr>bp_out := escape_plan (wo_out opts), bp_mode := escape_plan (wo_mode opts), bp_target := escape_plan (wo_target opts),
       bp_optLevel := wo_optLevel opts, bp_entryKind := the_entry (rp_entryKind rp),
       bp_entryTarget := escape_plan (rp_entryTarget rp)\<rparr>, True) r'"
proof -
  let ?v = "\<lambda>k w. [(TkPunct PEq, ''=''), (k, w), (TkPunct PSemicolon, '';'')]"
  let ?k4 = "row_toks ''entry'' (entry_fields rp) @ kts"
  let ?k3 = "(TkIdentifier, ''optLevel'') # ?v TkIntLiteral (int_str (wo_optLevel opts)) @ (TkIdentifier, ''entry'') # ?k4"
  let ?k2 = "(TkIdentifier, ''target'') # ?v TkStringLiteral (plan_quote (wo_target opts)) @ ?k3"
  let ?k1 = "(TkIdentifier, ''mode'') # ?v TkStringLiteral (plan_quote (wo_mode opts)) @ ?k2"
  let ?p1 = "p\<lparr>bp_out := escape_plan (wo_out opts)\<rparr>"
  let ?p2 = "?p1\<lparr>bp_mode := escape_plan (wo_mode opts)\<rparr>"
  let ?p3 = "?p2\<lparr>bp_target := escape_plan (wo_target opts)\<rparr>"
  let ?p4 = "?p3\<lparr>bp_optLevel := wo_optLevel opts\<rparr>"
  have at: "atoi (int_str (wo_optLevel opts)) = wo_optLevel opts"
    using w by (intro atoi_int_str) (simp add: plan_writable_def int32_def)
  have n1: "next_st ''out'' (?v TkStringLiteral (plan_quote (wo_out opts))) (p, b) (?p1, b)"
    using next_value [OF branch_of_rows(5), of TkStringLiteral "plan_quote (wo_out opts)" "wo_out opts" _ "(p, b)"] by simp
  have n2: "next_st ''mode'' (?v TkStringLiteral (plan_quote (wo_mode opts))) (?p1, b) (?p2, b)"
    using next_value [OF branch_of_rows(6), of TkStringLiteral "plan_quote (wo_mode opts)" "wo_mode opts" _ "(?p1, b)"] by simp
  have n3: "next_st ''target'' (?v TkStringLiteral (plan_quote (wo_target opts))) (?p2, b) (?p3, b)"
    using next_value [OF branch_of_rows(7), of TkStringLiteral "plan_quote (wo_target opts)" "wo_target opts" _ "(?p2, b)"] by simp
  have n4: "next_st ''optLevel'' (?v TkIntLiteral (int_str (wo_optLevel opts))) (?p3, b) (?p4, b)"
    using next_value [OF branch_of_rows(8), of TkIntLiteral "int_str (wo_optLevel opts)" _ "int_str (wo_optLevel opts)" "(?p3, b)"]
    by (simp add: at)
  have n5: "next_st ''entry'' (row_toks ''entry'' (entry_fields rp)) (?p4, b)
      (?p4\<lparr>bp_entryKind := the_entry (rp_entryKind rp), bp_entryTarget := escape_plan (rp_entryTarget rp)\<rparr>, True)"
    using next_entry [of "rp_entryKind rp" "rp_entryTarget rp" "(?p4, b)"] entry_kind_plain [of "rp_entryKind rp"] w
    by (simp add: entry_fields_def plan_writable_def)
  have "rd r = (TkIdentifier, ''out'') # ?v TkStringLiteral (plan_quote (wo_out opts)) @ ?k1"
    using 0 by (simp add: value_toks row_toks_pieces)
  from plan_loop_step [OF this n1] obtain r1 where r1: "plan_loop (p, b) r = plan_loop (?p1, b) r1" "past ?k1 r r1" by blast
  from plan_loop_step [OF _ n2, of r1 ?k2] r1(2) obtain r2 where
    r2: "plan_loop (?p1, b) r1 = plan_loop (?p2, b) r2" "past ?k2 r1 r2" by (auto simp: past_def)
  from plan_loop_step [OF _ n3, of r2 ?k3] r2(2) obtain r3 where
    r3: "plan_loop (?p2, b) r2 = plan_loop (?p3, b) r3" "past ?k3 r2 r3" by (auto simp: past_def)
  from plan_loop_step [OF _ n4, of r3 "(TkIdentifier, ''entry'') # ?k4"] r3(2) obtain r4 where
    r4: "plan_loop (?p3, b) r3 = plan_loop (?p4, b) r4" "past ((TkIdentifier, ''entry'') # ?k4) r3 r4" by (auto simp: past_def)
  from plan_loop_step [OF _ n5, of r4 kts] r4(2) obtain r5 where
    r5: "plan_loop (?p4, b) r4 = plan_loop (?p4\<lparr>bp_entryKind := the_entry (rp_entryKind rp),
      bp_entryTarget := escape_plan (rp_entryTarget rp)\<rparr>, True) r5" "past kts r4 r5" by (auto simp: past_def)
  show ?thesis
    using r1 r2 r3 r4 r5 by (intro exI [of _ r5]) (simp add: past_def)
qed

lemma plan_loop_body:
  assumes w: "plan_writable rp opts"
    and 0: "rd r = piece_toks (concat (map (\<lambda>x. row_pieces ''src'' (src_fields x)) (rp_sources rp)) @
     concat (map (\<lambda>x. row_pieces ''edge'' (edge_fields x)) (edges_of rp)) @
     concat (map (\<lambda>x. row_pieces ''asset'' (asset_fields x)) (rp_assets rp)) @
     [Tok (TkPunct PRBrace) ''}'', Gap [NL]]) @ kts"
  shows "\<exists>r'. past kts r r' \<and>
    plan_loop st r = (True, fold add_asset (rp_assets rp) (fold add_edge (edges_of rp) (fold add_src (rp_sources rp) st)), r')"
proof -
  let ?R = "\<lambda>name flds xs. concat (map (\<lambda>x. (TkIdentifier, name) # row_toks name (flds x)) xs)"
  let ?k3 = "(TkPunct PRBrace, ''}'') # kts"
  let ?k2 = "?R ''asset'' asset_fields (rp_assets rp) @ ?k3"
  let ?k1 = "?R ''edge'' edge_fields (edges_of rp) @ ?k2"
  have 1: "rd r = ?R ''src'' src_fields (rp_sources rp) @ ?k1" using 0 by (simp add: rows_toks)
  have s: "next_st ''src'' (row_toks ''src'' (src_fields x)) st (add_src x st)" if "x \<in> set (rp_sources rp)" for x st
    using next_src [of "rs_path x"] w that by (simp add: src_fields_def add_src_def plan_writable_def list_all_iff)
  have e: "next_st ''edge'' (row_toks ''edge'' (edge_fields x)) st (add_edge x st)" for x st
    using next_edge by (simp add: edge_fields_def add_edge_def)
  have a: "next_st ''asset'' (row_toks ''asset'' (asset_fields x)) st (add_asset x st)" if "x \<in> set (rp_assets rp)" for x st
    using next_asset [of "ra_rel x" "ra_path x"] w that
    by (simp add: asset_fields_def add_asset_def plan_writable_def list_all_iff)
  let ?s1 = "fold add_src (rp_sources rp) st"
  let ?s2 = "fold add_edge (edges_of rp) ?s1"
  let ?s3 = "fold add_asset (rp_assets rp) ?s2"
  obtain r1 where r1: "plan_loop st r = plan_loop ?s1 r1" "past ?k1 r r1" using plan_loop_rows [OF 1 s] by blast
  then have "rd r1 = ?k1" by (simp add: past_def)
  from plan_loop_rows [OF this e] obtain r2 where r2: "plan_loop ?s1 r1 = plan_loop ?s2 r2" "past ?k2 r1 r2" by blast
  then have "rd r2 = ?k2" by (simp add: past_def)
  from plan_loop_rows [OF this a] obtain r3 where r3: "plan_loop ?s2 r2 = plan_loop ?s3 r3" "past ?k3 r2 r3" by blast
  then have k: "rd r3 = ?k3" by (simp add: past_def)
  have "plan_loop ?s3 r3 = (True, ?s3, pr_advance r3)"
    using rd_cur(1) [OF k] rd_expect [OF k] by (subst plan_loop.simps) simp
  moreover have "past kts r (pr_advance r3)" using rd_cur(4) [OF k] r1 r2 r3 by (simp add: past_def)
  ultimately show ?thesis using r1 r2 r3 by auto
qed

lemma readBuildPlan_written:
  assumes w: "plan_writable rp opts" and s: "\<not> hasErrors s" and f: "file p = Some (plan_text rp opts)"
  shows "readBuildPlan file p s = Inr (plan_of escape_plan \<lparr>sf_name = p, sf_text = plan_text rp opts\<rparr> rp opts, s)"
proof -
  let ?t = "plan_text rp opts"
  let ?lx = "(new_lexer ?t False)\<lparr>lx_sink := s\<rparr>"
  let ?plan = "build_plan_default\<lparr>bp_planFile := \<lparr>sf_name = p, sf_text = ?t\<rparr>\<rparr>"
  have "facing ?lx (pieces_text (plan_pieces rp opts))"
    by (simp add: facing_def new_lexer_def plan_text_pieces)
  from tokenize_pieces [OF lexable_plan [OF w] this, of "[]"] obtain toks lx' where
    tk: "tokenize ?lx = Inr (toks, lx')" and kt: "map kt toks = piece_toks (plan_pieces rp opts) @ [(TkEnd, [])]"
    and sk: "lx_sink lx' = s"
    by (auto simp: tokenize_def new_lexer_def)
  define r0 where "r0 = \<lparr>pr_toks = toks, pr_sink = s\<rparr>"
  let ?head = "piece_toks (value_pieces ''out'' TkStringLiteral (plan_quote (wo_out opts)) @
     value_pieces ''mode'' TkStringLiteral (plan_quote (wo_mode opts)) @
     value_pieces ''target'' TkStringLiteral (plan_quote (wo_target opts)) @
     value_pieces ''optLevel'' TkIntLiteral (int_str (wo_optLevel opts)) @ row_pieces ''entry'' (entry_fields rp))"
  let ?body = "piece_toks (concat (map (\<lambda>x. row_pieces ''src'' (src_fields x)) (rp_sources rp)) @
     concat (map (\<lambda>x. row_pieces ''edge'' (edge_fields x)) (edges_of rp)) @
     concat (map (\<lambda>x. row_pieces ''asset'' (asset_fields x)) (rp_assets rp)) @
     [Tok (TkPunct PRBrace) ''}'', Gap [NL]])"
  let ?k1 = "?head @ ?body @ [(TkEnd, [])]"
  have 0: "rd r0 = (TkIdentifier, ''plan'') # (TkPunct PLBrace, ''{'') # ?k1"
    using kt by (simp add: rd_def r0_def plan_pieces_def)
  have 1: "rd (pr_advance r0) = (TkPunct PLBrace, ''{'') # ?k1" using rd_cur(4) [OF 0] by simp
  define r2 where "r2 = pr_advance (pr_advance r0)"
  have 2: "rd r2 = ?head @ ?body @ [(TkEnd, [])]" "pr_sink r2 = s"
    unfolding r2_def using rd_cur(4) [OF 1] by (simp_all add: r0_def)
  let ?p1 = "?plan\<lparr>bp_out := escape_plan (wo_out opts), bp_mode := escape_plan (wo_mode opts),
       bp_target := escape_plan (wo_target opts), bp_optLevel := wo_optLevel opts,
       bp_entryKind := the_entry (rp_entryKind rp), bp_entryTarget := escape_plan (rp_entryTarget rp)\<rparr>"
  from plan_loop_head [OF w 2(1), of ?plan False] obtain r3 where
    r3: "past (?body @ [(TkEnd, [])]) r2 r3" "plan_loop (?plan, False) r2 = plan_loop (?p1, True) r3" by blast
  then have "rd r3 = ?body @ [(TkEnd, [])]" by (simp add: past_def)
  from plan_loop_body [OF w this, of "(?p1, True)"] obtain r4 where
    r4: "past [(TkEnd, [])] r3 r4" "plan_loop (?p1, True) r3 = (True, fold add_asset (rp_assets rp)
       (fold add_edge (edges_of rp) (fold add_src (rp_sources rp) (?p1, True))), r4)" by blast
  have sk4: "pr_sink r4 = s" using r3(1) r4(1) 2(2) by (simp add: past_def)
  have e1: "pr_expectIdent ''plan'' r0 = (True, pr_advance r0)"
    using rd_cur(1,2) [OF 0] by (simp add: pr_expectIdent_def)
  have e2: "pr_expect (TkPunct PLBrace) (sq ''{'') (pr_advance r0) = (True, r2)"
    unfolding r2_def using rd_expect [OF 1] by simp
  have ne: "rp_sources rp \<noteq> []" using w by (simp add: plan_writable_def)
  have "readBuildPlan file p s = Inr (plan_checks (fold add_asset (rp_assets rp)
       (fold add_edge (edges_of rp) (fold add_src (rp_sources rp) (?p1, True)))) s)"
    using tk sk e1 e2 r3(2) r4(2) sk4 unfolding r0_def
    by (simp add: readBuildPlan_def f Let_def build_plan_default_def)
  also have "\<dots> = Inr (plan_of escape_plan \<lparr>sf_name = p, sf_text = ?t\<rparr> rp opts, s)"
    using ne s by (simp add: fold_add_src fold_add_edge fold_add_asset plan_checks_def plan_of_def build_plan_default_def)
  finally show ?thesis .
qed

lemma plan_of_eq_iff:
  "plan_of f file rp opts = plan_of g file rp opts \<longleftrightarrow> (\<forall>v \<in> set (plan_values rp opts). f v = g v)"
proof -
  have "f (rs_path x) = g (rs_path x) \<and> f (rs_moduleId x) = g (rs_moduleId x) \<and> f (rs_origin x) = g (rs_origin x) \<longleftrightarrow>
      (\<forall>v \<in> set (map snd (src_fields x)). f v = g v)" for x
    by (simp add: src_fields_def)
  moreover have "f (fst e) = g (fst e) \<and> f (snd e) = g (snd e) \<longleftrightarrow>
      (\<forall>v \<in> set (map snd (edge_fields e)). f v = g v)" for e
    by (simp add: edge_fields_def)
  moreover have "f (ra_rel x) = g (ra_rel x) \<and> f (ra_path x) = g (ra_path x) \<and> f (ra_moduleId x) = g (ra_moduleId x) \<and>
      f (ra_hash x) = g (ra_hash x) \<longleftrightarrow> (\<forall>v \<in> set (map snd (asset_fields x)). f v = g v)" for x
    by (simp add: asset_fields_def)
  ultimately show ?thesis
    by (simp add: plan_of_def plan_values_def ball_Un)
qed

lemma escape_plan_id: "escape_plan v = v \<longleftrightarrow> DQUOTE \<notin> set v \<and> BSLASH \<notin> set v"
proof
  have len: "length v \<le> length (escape_plan v)" for v by (induction v) (auto simp: escape_plan_def)
  show "escape_plan v = v \<Longrightarrow> DQUOTE \<notin> set v \<and> BSLASH \<notin> set v"
  proof (induction v)
    case (Cons c v)
    have "\<not> (c = DQUOTE \<or> c = BSLASH)"
    proof
      assume "c = DQUOTE \<or> c = BSLASH"
      then have "length (escape_plan (c # v)) = 2 + length (escape_plan v)" by (auto simp: escape_plan_def)
      with Cons.prems len [of v] show False by simp
    qed
    with Cons show ?case by (auto simp: escape_plan_def)
  qed simp
  show "DQUOTE \<notin> set v \<and> BSLASH \<notin> set v \<Longrightarrow> escape_plan v = v"
    by (induction v) (auto simp: escape_plan_def)
qed

text \<open>
  C8. The package manager and the compiler agree on a plan. For a resolved project whose values hold no
  newline, with a known entry kind, at least one source, no empty path and a non-negative optimisation level,
  reading the file \<open>writeBuildPlan\<close> wrote succeeds without a diagnostic and gives every source, edge and asset
  row in order. Each string comes back with the writer's escapes still in it, so the plan read is the project
  written exactly when no value holds a double quote or a backslash.
\<close>

theorem readBuildPlan_writeBuildPlan:
  assumes "plan_writable rp opts" "\<not> hasErrors s" "writeBuildPlan fate p rp opts = (True, file p, err)"
  defines "planFile \<equiv> \<lparr>sf_name = p, sf_text = plan_text rp opts\<rparr>"
  shows "readBuildPlan file p s = Inr (plan_of escape_plan planFile rp opts, s) \<and>
    (readBuildPlan file p s = Inr (plan_of (\<lambda>v. v) planFile rp opts, s) \<longleftrightarrow>
     list_all (\<lambda>v. DQUOTE \<notin> set v \<and> BSLASH \<notin> set v) (plan_values rp opts))"
proof -
  have "file p = Some (plan_text rp opts)"
    using assms(3) by (simp add: writeBuildPlan_def split: stream_fate.splits)
  with readBuildPlan_written [of rp opts s "file" p, OF assms(1,2)] show ?thesis
    by (simp add: planFile_def plan_of_eq_iff escape_plan_id list_all_iff)
qed

definition example_project :: resolved_project where
  "example_project =
     \<lparr>rp_ok = True, rp_manifest = project_manifest_default,
      rp_sources = [\<lparr>rs_path = ''/p/a.lev'', rs_moduleId = [], rs_origin = []\<rparr>,
                    \<lparr>rs_path = ''/d/b.lev'', rs_moduleId = ''lib'', rs_origin = ''h/d''\<rparr>],
      rp_moduleDeps = [([], [''lib''])],
      rp_assets = [\<lparr>ra_rel = ''v.html'', ra_path = ''/p/v.html'', ra_moduleId = [], ra_hash = ''sha256:ab''\<rparr>],
      rp_entryKind = ''file'', rp_entryTarget = ''/p/a.lev''\<rparr>"

definition example_options :: write_plan_options where
  "example_options = \<lparr>wo_out = ''C:'' @ [BSLASH] @ ''o'', wo_mode = ''build'', wo_target = [], wo_optLevel = 0\<rparr>"

theorem readBuildPlan_writeBuildPlan_witness:
  "\<exists>plan. readBuildPlan (\<lambda>_. Some (plan_text example_project example_options)) ''x.plan'' sink_empty = Inr (plan, sink_empty) \<and>
     bp_ok plan \<and> bp_out plan = ''C:'' @ [BSLASH, BSLASH] @ ''o'' \<and> map ps_path (bp_sources plan) = [''/p/a.lev'', ''/d/b.lev''] \<and>
     bp_edges plan = [\<lparr>pe_from = [], pe_to = ''lib''\<rparr>]"
proof -
  have "plan_writable example_project example_options"
    by (simp add: plan_writable_def plan_values_def example_project_def example_options_def src_fields_def edge_fields_def
        asset_fields_def edges_of_def entryKindOf_def)
  from readBuildPlan_writeBuildPlan [OF this, of sink_empty AllWritten "''x.plan''"
      "\<lambda>_. Some (plan_text example_project example_options)" "[]"]
  have "readBuildPlan (\<lambda>_. Some (plan_text example_project example_options)) ''x.plan'' sink_empty =
    Inr (plan_of escape_plan \<lparr>sf_name = ''x.plan'', sf_text = plan_text example_project example_options\<rparr>
      example_project example_options, sink_empty)"
    by (simp add: writeBuildPlan_def hasErrors_def sink_empty_def)
  then show ?thesis
    by (simp add: plan_of_def example_project_def example_options_def edges_of_def escape_plan_def)
qed

end
