(* ===== verification/Runtime_Loop.thy ===== *)
theory Runtime_Loop
  imports Runtime_Value "HOL-Library.Product_Lexorder"
begin

unbundle bit_operations_syntax

text \<open>
  \<open>src/runtime/RuntimeLoop.{hpp,cpp}\<close>: the work registry of the event loop, with one function per
  method. A time point of the steady clock is its count of nanoseconds. Identifiers, tick counts and
  time points are \<open>long long\<close> in the source and integers here; the poll timeout, the one conversion
  that narrows, is kept at 32 bits. What \<open>nextBatch\<close> observes of the outside (two readings of the clock, the
  answer of \<open>poll\<close>, the state of the TLS sessions) is a record passed to it.
\<close>

section \<open>State\<close>

record loop_callback =
  lc_callback :: rt_value
  lc_argument :: rt_value

record timer =
  tm_id :: int
  tm_due :: int
  tm_intervalMs :: int
  tm_ticks :: int
  tm_callback :: rt_value

record watch =
  wt_id :: int
  wt_fd :: int
  wt_write :: bool
  wt_callback :: rt_value

record runtime_loop =
  rl_timers :: "timer list"
  rl_watches :: "watch list"
  rl_nextId :: int

text \<open>\<open>poll\<close> takes the descriptors with their masks and the timeout, and gives its return value and the
  events of each entry.\<close>

record loop_env =
  le_now :: int
  le_poll :: "(int \<times> 16 word) list \<Rightarrow> int \<Rightarrow> int \<times> (nat \<Rightarrow> 16 word)"
  le_now2 :: int
  le_tlsWants :: "int \<Rightarrow> int"
  le_tlsPending :: "int \<Rightarrow> bool"

definition POLLIN :: "16 word" where "POLLIN = 1"
definition POLLOUT :: "16 word" where "POLLOUT = 4"
definition POLLERR :: "16 word" where "POLLERR = 8"
definition POLLHUP :: "16 word" where "POLLHUP = 16"
definition POLLNVAL :: "16 word" where "POLLNVAL = 32"

section \<open>Registering and cancelling\<close>

definition loop_reset :: "runtime_loop \<Rightarrow> runtime_loop" where
  "loop_reset lp = \<lparr>rl_timers = [], rl_watches = [], rl_nextId = 1\<rparr>"

definition milliseconds :: "int \<Rightarrow> int" where
  "milliseconds ms = ms * 1000000"

definition addTimer :: "int \<Rightarrow> int \<Rightarrow> int \<Rightarrow> rt_value \<Rightarrow> runtime_loop \<Rightarrow> int \<times> runtime_loop" where
  "addTimer now delayMs intervalMs callback lp =
     (let t = \<lparr>tm_id = rl_nextId lp, tm_due = now + milliseconds delayMs, tm_intervalMs = intervalMs,
               tm_ticks = 0, tm_callback = callback\<rparr>
      in (tm_id t, lp\<lparr>rl_timers := rl_timers lp @ [t], rl_nextId := rl_nextId lp + 1\<rparr>))"

text \<open>The erase loop of both cancel methods: the first entry with the id goes.\<close>

fun erase_id :: "('a \<Rightarrow> int) \<Rightarrow> int \<Rightarrow> 'a list \<Rightarrow> 'a list" where
  "erase_id key i [] = []"
| "erase_id key i (x # xs) = (if key x = i then xs else x # erase_id key i xs)"

definition cancelTimer :: "int \<Rightarrow> runtime_loop \<Rightarrow> runtime_loop" where
  "cancelTimer i lp = lp\<lparr>rl_timers := erase_id tm_id i (rl_timers lp)\<rparr>"

definition add_watch :: "bool \<Rightarrow> int \<Rightarrow> rt_value \<Rightarrow> runtime_loop \<Rightarrow> int \<times> runtime_loop" where
  "add_watch wr fd callback lp =
     (let w = \<lparr>wt_id = rl_nextId lp, wt_fd = fd, wt_write = wr, wt_callback = callback\<rparr>
      in (wt_id w, lp\<lparr>rl_watches := rl_watches lp @ [w], rl_nextId := rl_nextId lp + 1\<rparr>))"

definition addWatch :: "int \<Rightarrow> rt_value \<Rightarrow> runtime_loop \<Rightarrow> int \<times> runtime_loop" where
  "addWatch = add_watch False"

definition addWriteWatch :: "int \<Rightarrow> rt_value \<Rightarrow> runtime_loop \<Rightarrow> int \<times> runtime_loop" where
  "addWriteWatch = add_watch True"

definition cancelWatch :: "int \<Rightarrow> runtime_loop \<Rightarrow> runtime_loop" where
  "cancelWatch i lp = lp\<lparr>rl_watches := erase_id wt_id i (rl_watches lp)\<rparr>"

definition hasWork :: "runtime_loop \<Rightarrow> bool" where
  "hasWork lp \<longleftrightarrow> rl_timers lp \<noteq> [] \<or> rl_watches lp \<noteq> []"

section \<open>One batch\<close>

fun earliest_due :: "int \<Rightarrow> timer list \<Rightarrow> int" where
  "earliest_due e [] = e"
| "earliest_due e (t # ts) = earliest_due (if tm_due t < e then tm_due t else e) ts"

text \<open>\<open>duration_cast\<close> to milliseconds rounds towards zero; the count is narrowed to \<open>int\<close>.\<close>

definition to_ms :: "int \<Rightarrow> int" where
  "to_ms d = (if d < 0 then - ((- d) div 1000000) else d div 1000000)"

definition timer_timeout :: "int \<Rightarrow> timer list \<Rightarrow> int" where
  "timer_timeout now ts =
     (case ts of
        [] \<Rightarrow> - 1
      | t # _ \<Rightarrow> (let ms = to_ms (earliest_due (tm_due t) ts - now) in if ms < 0 then 0 else wrap32 ms))"

definition pending_ids :: "loop_env \<Rightarrow> watch list \<Rightarrow> int list" where
  "pending_ids env ws = map wt_id (filter (\<lambda>w. \<not> wt_write w \<and> le_tlsPending env (wt_fd w)) ws)"

definition poll_timeout :: "loop_env \<Rightarrow> runtime_loop \<Rightarrow> int" where
  "poll_timeout env lp =
     (if rl_watches lp \<noteq> [] \<and> pending_ids env (rl_watches lp) \<noteq> [] then 0
      else timer_timeout (le_now env) (rl_timers lp))"

definition poll_mask :: "loop_env \<Rightarrow> watch \<Rightarrow> 16 word" where
  "poll_mask env w =
     (let mask = (if wt_write w then POLLOUT else POLLIN); want = le_tlsWants env (wt_fd w)
      in if want = 1 then mask OR POLLIN else if want = 2 then mask OR POLLOUT else mask)"

definition is_ready :: "loop_env \<Rightarrow> (nat \<Rightarrow> 16 word) \<Rightarrow> nat \<times> watch \<Rightarrow> bool" where
  "is_ready env revents iw \<longleftrightarrow>
     revents (fst iw) AND (poll_mask env (snd iw) OR POLLHUP OR POLLERR OR POLLNVAL) \<noteq> 0"

definition is_dead :: "(nat \<Rightarrow> 16 word) \<Rightarrow> nat \<times> watch \<Rightarrow> bool" where
  "is_dead revents iw \<longleftrightarrow> revents (fst iw) AND POLLNVAL \<noteq> 0"

definition add_missing :: "int list \<Rightarrow> int list \<Rightarrow> int list" where
  "add_missing pending ready = fold (\<lambda>i r. if i \<in> set r then r else r @ [i]) pending ready"

definition watch_callbacks :: "watch list \<Rightarrow> int list \<Rightarrow> loop_callback list" where
  "watch_callbacks ws ids =
     concat (map (\<lambda>i. case find (\<lambda>w. wt_id w = i) ws of
                        None \<Rightarrow> []
                      | Some w \<Rightarrow> [\<lparr>lc_callback = wt_callback w, lc_argument = vint (word_of_int (wt_fd w))\<rparr>]) ids)"

definition poll_watches :: "loop_env \<Rightarrow> runtime_loop \<Rightarrow> loop_callback list \<times> runtime_loop" where
  "poll_watches env lp =
     (let ws = rl_watches lp;
          pending = pending_ids env ws;
          (n, revents) = le_poll env (map (\<lambda>w. (wt_fd w, poll_mask env w)) ws) (poll_timeout env lp)
      in if ws \<noteq> [] \<and> (n > 0 \<or> pending \<noteq> []) then
           (let readyIds = map (\<lambda>iw. wt_id (snd iw)) (filter (is_ready env revents) (enumerate 0 ws));
                deadIds = map (\<lambda>iw. wt_id (snd iw)) (filter (is_dead revents) (enumerate 0 ws))
            in (watch_callbacks ws (add_missing pending readyIds), fold cancelWatch deadIds lp))
         else ([], lp))"

definition due_timers :: "int \<Rightarrow> timer list \<Rightarrow> timer list" where
  "due_timers now ts = sort_key (\<lambda>t. (tm_due t, tm_id t)) (filter (\<lambda>t. tm_due t \<le> now) ts)"

definition fired :: "timer \<Rightarrow> timer" where
  "fired t =
     (let t1 = t\<lparr>tm_ticks := tm_ticks t + 1\<rparr>
      in if tm_intervalMs t > 0 then t1\<lparr>tm_due := tm_due t + milliseconds (tm_intervalMs t)\<rparr> else t1)"

definition timer_callback :: "timer \<Rightarrow> loop_callback" where
  "timer_callback t = \<lparr>lc_callback = tm_callback t, lc_argument = vint (word_of_int (tm_ticks t + 1))\<rparr>"

definition fire_timers :: "int \<Rightarrow> runtime_loop \<Rightarrow> loop_callback list \<times> runtime_loop" where
  "fire_timers now lp =
     (let due = due_timers now (rl_timers lp);
          expired = map tm_id (filter (\<lambda>t. \<not> tm_intervalMs t > 0) due);
          lp1 = lp\<lparr>rl_timers := map (\<lambda>t. if tm_due t \<le> now then fired t else t) (rl_timers lp)\<rparr>
      in (map timer_callback due, fold cancelTimer expired lp1))"

definition nextBatch :: "loop_env \<Rightarrow> runtime_loop \<Rightarrow> loop_callback list \<times> runtime_loop" where
  "nextBatch env lp =
     (if \<not> hasWork lp then ([], lp)
      else
        (let (batch, lp1) = poll_watches env lp;
             (batch', lp2) = fire_timers (le_now2 env) lp1
         in (batch @ batch', lp2)))"

section \<open>Identifiers\<close>

definition loop_ok :: "runtime_loop \<Rightarrow> bool" where
  "loop_ok lp \<longleftrightarrow>
     (let ids = map tm_id (rl_timers lp) @ map wt_id (rl_watches lp)
      in distinct ids \<and> list_all (\<lambda>i. 0 < i \<and> i < rl_nextId lp) ids \<and> 0 < rl_nextId lp)"

text \<open>With distinct keys, erasing keys one after the other leaves the entries with other keys.\<close>

lemma erase_id_filter:
  "distinct (map key xs) \<Longrightarrow> erase_id key i xs = filter (\<lambda>x. key x \<noteq> i) xs"
proof (induction xs)
  case (Cons x xs)
  then have "\<forall>y \<in> set xs. key y \<noteq> key x" by (simp add: image_iff) metis
  with Cons show ?case by (auto simp: filter_id_conv)
qed simp

lemma distinct_filter_key: "distinct (map key xs) \<Longrightarrow> distinct (map key (filter P xs))"
  by (simp add: distinct_map inj_on_def)

lemma fold_erase_id:
  "distinct (map key xs) \<Longrightarrow> fold (erase_id key) is xs = filter (\<lambda>x. key x \<notin> set is) xs"
proof (induction "is" arbitrary: xs)
  case (Cons i "is")
  then show ?case by (simp add: erase_id_filter distinct_filter_key)
qed simp

lemma fold_cancelTimer: "fold cancelTimer is lp = lp\<lparr>rl_timers := fold (erase_id tm_id) is (rl_timers lp)\<rparr>"
  by (induction "is" arbitrary: lp) (simp_all add: cancelTimer_def)

lemma fold_cancelWatch: "fold cancelWatch is lp = lp\<lparr>rl_watches := fold (erase_id wt_id) is (rl_watches lp)\<rparr>"
  by (induction "is" arbitrary: lp) (simp_all add: cancelWatch_def)

lemma fired_sel [simp]: "tm_id (fired t) = tm_id t" "tm_intervalMs (fired t) = tm_intervalMs t"
  "tm_callback (fired t) = tm_callback t" "tm_ticks (fired t) = tm_ticks t + 1"
  by (simp_all add: fired_def Let_def)

text \<open>The timers after a batch: one-shot timers that were due are gone, repeating ones are re-armed, in
  place, and the others are untouched.\<close>

definition after_fire :: "int \<Rightarrow> timer \<Rightarrow> timer list" where
  "after_fire now t = (if tm_due t \<le> now then (if tm_intervalMs t > 0 then [fired t] else []) else [t])"

lemma set_due_timers [simp]: "set (due_timers now ts) = {t \<in> set ts. tm_due t \<le> now}"
  by (auto simp: due_timers_def)

lemma fire_timers_eq:
  assumes "distinct (map tm_id (rl_timers lp))"
  shows "fire_timers now lp =
    (map timer_callback (due_timers now (rl_timers lp)), lp\<lparr>rl_timers := concat (map (after_fire now) (rl_timers lp))\<rparr>)"
proof -
  let ?ts = "rl_timers lp" let ?f = "\<lambda>t. if tm_due t \<le> now then fired t else t"
  let ?ex = "map tm_id (filter (\<lambda>t. \<not> tm_intervalMs t > 0) (due_timers now ?ts))"
  have k: "tm_id (?f t) = tm_id t" for t by simp
  have d: "distinct (map tm_id (map ?f ?ts))" using assms by (simp add: comp_def k)
  have gone: "tm_id t \<in> set ?ex \<longleftrightarrow> tm_due t \<le> now \<and> \<not> tm_intervalMs t > 0" if "t \<in> set ?ts" for t
    using assms that by (auto simp: distinct_map inj_on_def)
  have "filter (\<lambda>x. tm_id x \<notin> set ?ex) (map ?f ts) = concat (map (after_fire now) ts)" if "set ts \<subseteq> set ?ts" for ts
    using that
  proof (induction ts)
    case (Cons t ts)
    then show ?case using gone [of t] by (auto simp: after_fire_def)
  qed simp
  then show ?thesis
    by (simp add: fire_timers_def Let_def fold_cancelTimer fold_erase_id [OF d])
qed

lemma poll_watches_ok:
  assumes "loop_ok lp"
  shows "rl_timers (snd (poll_watches env lp)) = rl_timers lp"
    "rl_nextId (snd (poll_watches env lp)) = rl_nextId lp"
    "\<exists>P. rl_watches (snd (poll_watches env lp)) = filter P (rl_watches lp)"
proof -
  have d: "distinct (map wt_id (rl_watches lp))" using assms by (simp add: loop_ok_def Let_def)
  show "rl_timers (snd (poll_watches env lp)) = rl_timers lp" "rl_nextId (snd (poll_watches env lp)) = rl_nextId lp"
    by (auto simp: poll_watches_def Let_def fold_cancelWatch split: prod.splits)
  show "\<exists>P. rl_watches (snd (poll_watches env lp)) = filter P (rl_watches lp)"
  proof (cases "snd (poll_watches env lp) = lp")
    case True
    then show ?thesis by (intro exI [of _ "\<lambda>_. True"]) simp
  next
    case False
    then show ?thesis
      by (auto simp: poll_watches_def Let_def fold_cancelWatch fold_erase_id [OF d] split: prod.splits if_splits)
  qed
qed

lemma nextBatch_timers:
  assumes "loop_ok lp"
  shows "rl_timers (snd (nextBatch env lp)) = concat (map (after_fire (le_now2 env)) (rl_timers lp))"
    "t \<in> set (rl_timers lp) \<Longrightarrow> tm_due t \<le> le_now2 env \<Longrightarrow> timer_callback t \<in> set (fst (nextBatch env lp))"
proof -
  have d: "distinct (map tm_id (rl_timers (snd (poll_watches env lp))))"
    using assms poll_watches_ok(1) [OF assms] by (simp add: loop_ok_def Let_def)
  note f = fire_timers_eq [OF d, of "le_now2 env"]
  show "rl_timers (snd (nextBatch env lp)) = concat (map (after_fire (le_now2 env)) (rl_timers lp))"
    using f poll_watches_ok(1) [OF assms] by (auto simp: nextBatch_def hasWork_def split: prod.splits)
  assume "t \<in> set (rl_timers lp)" "tm_due t \<le> le_now2 env"
  then show "timer_callback t \<in> set (fst (nextBatch env lp))"
    using f poll_watches_ok(1) [OF assms, of env] by (auto simp: nextBatch_def hasWork_def split: prod.splits)
qed

text \<open>What a program does to the registry between two batches.\<close>

datatype loop_op =
    OpAddTimer int int int rt_value
  | OpCancelTimer int
  | OpAddWatch int rt_value
  | OpAddWriteWatch int rt_value
  | OpCancelWatch int

fun apply_op :: "loop_op \<Rightarrow> runtime_loop \<Rightarrow> runtime_loop" where
  "apply_op (OpAddTimer now delay interval cb) lp = snd (addTimer now delay interval cb lp)"
| "apply_op (OpCancelTimer i) lp = cancelTimer i lp"
| "apply_op (OpAddWatch fd cb) lp = snd (addWatch fd cb lp)"
| "apply_op (OpAddWriteWatch fd cb) lp = snd (addWriteWatch fd cb lp)"
| "apply_op (OpCancelWatch i) lp = cancelWatch i lp"

lemma erase_subset: "set (erase_id key i xs) \<subseteq> set xs"
  by (induction xs) auto

lemma after_fire_ids: "set (map tm_id (concat (map (after_fire now) ts))) \<subseteq> set (map tm_id ts)"
  by (auto simp: after_fire_def split: if_splits)

lemma after_fire_distinct:
  "distinct (map tm_id ts) \<Longrightarrow> distinct (map tm_id (concat (map (after_fire now) ts)))"
proof (induction ts)
  case (Cons t ts)
  have "tm_id t \<notin> set (map tm_id (concat (map (after_fire now) ts)))" using after_fire_ids [of now ts] Cons.prems by auto
  with Cons show ?case by (auto simp: after_fire_def)
qed simp

lemma loop_ok_subset:
  assumes "loop_ok lp" "distinct (map tm_id (rl_timers lp'))" "distinct (map wt_id (rl_watches lp'))"
    "set (map tm_id (rl_timers lp')) \<subseteq> set (map tm_id (rl_timers lp))"
    "set (map wt_id (rl_watches lp')) \<subseteq> set (map wt_id (rl_watches lp))" "rl_nextId lp' = rl_nextId lp"
  shows "loop_ok lp'"
proof -
  have "set (map tm_id (rl_timers lp')) \<inter> set (map wt_id (rl_watches lp')) = {}"
    using assms(1,4,5) by (fastforce simp: loop_ok_def Let_def)
  moreover have "list_all (\<lambda>i. 0 < i \<and> i < rl_nextId lp') (map tm_id (rl_timers lp') @ map wt_id (rl_watches lp'))"
    using assms(1,4,5,6) unfolding loop_ok_def Let_def list_all_iff by auto
  ultimately show ?thesis using assms by (simp add: loop_ok_def Let_def)
qed

lemma loop_ok_nextBatch:
  assumes "loop_ok lp" shows "loop_ok (snd (nextBatch env lp))"
proof -
  have d: "distinct (map tm_id (rl_timers lp))" "distinct (map wt_id (rl_watches lp))"
    using assms by (simp_all add: loop_ok_def Let_def)
  have d': "distinct (map tm_id (rl_timers (snd (poll_watches env lp))))" using d poll_watches_ok(1) [OF assms] by simp
  obtain P where P: "rl_watches (snd (poll_watches env lp)) = filter P (rl_watches lp)"
    using poll_watches_ok(3) [OF assms] by blast
  show ?thesis
  proof (cases "hasWork lp")
    case False
    then show ?thesis using assms by (simp add: nextBatch_def)
  next
    case True
    let ?lp = "(snd (poll_watches env lp))\<lparr>rl_timers := concat (map (after_fire (le_now2 env)) (rl_timers lp))\<rparr>"
    have "snd (nextBatch env lp) = ?lp"
      using True fire_timers_eq [OF d', of "le_now2 env"] poll_watches_ok(1) [OF assms, of env]
      by (auto simp: nextBatch_def split: prod.splits)
    moreover have "loop_ok ?lp"
      using after_fire_ids [of "le_now2 env" "rl_timers lp"] after_fire_distinct [OF d(1), of "le_now2 env"] d(2) P
        poll_watches_ok(2) [OF assms]
      by (intro loop_ok_subset [OF assms]) (auto simp: distinct_filter_key)
    ultimately show ?thesis by simp
  qed
qed

lemma loop_ok_iff:
  "loop_ok lp \<longleftrightarrow> distinct (map tm_id (rl_timers lp)) \<and> distinct (map wt_id (rl_watches lp)) \<and>
     (\<forall>t \<in> set (rl_timers lp). 0 < tm_id t \<and> tm_id t < rl_nextId lp) \<and>
     (\<forall>w \<in> set (rl_watches lp). 0 < wt_id w \<and> wt_id w < rl_nextId lp) \<and>
     (\<forall>t \<in> set (rl_timers lp). \<forall>w \<in> set (rl_watches lp). tm_id t \<noteq> wt_id w) \<and> 0 < rl_nextId lp"
  by (auto simp: loop_ok_def Let_def list_all_iff disjoint_iff)

lemma loop_ok_apply_op: "loop_ok lp \<Longrightarrow> loop_ok (apply_op op lp)"
proof (cases op)
  case (OpCancelTimer i)
  assume ok: "loop_ok lp"
  then have "distinct (map tm_id (rl_timers lp))" "distinct (map wt_id (rl_watches lp))" by (simp_all add: loop_ok_def Let_def)
  then show ?thesis unfolding OpCancelTimer
    by (intro loop_ok_subset [OF ok]) (auto simp: cancelTimer_def erase_id_filter distinct_filter_key)
next
  case (OpCancelWatch i)
  assume ok: "loop_ok lp"
  then have "distinct (map tm_id (rl_timers lp))" "distinct (map wt_id (rl_watches lp))" by (simp_all add: loop_ok_def Let_def)
  then show ?thesis unfolding OpCancelWatch
    by (intro loop_ok_subset [OF ok]) (auto simp: cancelWatch_def erase_id_filter distinct_filter_key)
qed (force simp: loop_ok_iff Let_def addTimer_def add_watch_def addWatch_def addWriteWatch_def)+

section \<open>Timers fire\<close>

text \<open>The driver's loop: a batch, then whatever its callbacks do to the registry, for ever.\<close>

definition loop_run :: "(nat \<Rightarrow> runtime_loop) \<Rightarrow> (nat \<Rightarrow> loop_env) \<Rightarrow> (nat \<Rightarrow> loop_op list) \<Rightarrow> bool" where
  "loop_run lp env ops \<longleftrightarrow>
     loop_ok (lp 0) \<and> (\<forall>i. lp (Suc i) = fold apply_op (ops i) (snd (nextBatch (env i) (lp i))))"

lemma loop_ok_fold: "loop_ok lp \<Longrightarrow> loop_ok (fold apply_op ops lp)"
  by (induction ops arbitrary: lp) (simp_all add: loop_ok_apply_op)

lemma loop_run_ok: "loop_run lp env ops \<Longrightarrow> loop_ok (lp i)"
  by (induction i) (simp_all add: loop_run_def loop_ok_fold loop_ok_nextBatch)

lemma loop_run_shift: "loop_run lp env ops \<Longrightarrow> loop_run (\<lambda>i. lp (n + i)) (\<lambda>i. env (n + i)) (\<lambda>i. ops (n + i))"
  using loop_run_ok [of lp env ops n] by (simp add: loop_run_def)

lemma erase_id_keep: "x \<in> set xs \<Longrightarrow> key x \<noteq> i \<Longrightarrow> x \<in> set (erase_id key i xs)"
  by (induction xs) auto

lemma apply_op_keeps:
  "t \<in> set (rl_timers lp) \<Longrightarrow> op \<noteq> OpCancelTimer (tm_id t) \<Longrightarrow> t \<in> set (rl_timers (apply_op op lp))"
  by (cases op)
    (auto simp: cancelTimer_def cancelWatch_def addTimer_def addWatch_def addWriteWatch_def add_watch_def Let_def erase_id_keep)

lemma fold_apply_op_keeps:
  "t \<in> set (rl_timers lp) \<Longrightarrow> OpCancelTimer (tm_id t) \<notin> set ops \<Longrightarrow> t \<in> set (rl_timers (fold apply_op ops lp))"
  by (induction ops arbitrary: lp) (auto simp: apply_op_keeps)

lemma timer_waits:
  assumes "loop_run lp env ops" "t \<in> set (rl_timers (lp 0))" "\<And>i. OpCancelTimer (tm_id t) \<notin> set (ops i)"
    "\<And>j. j < i \<Longrightarrow> le_now2 (env j) < tm_due t"
  shows "t \<in> set (rl_timers (lp i))"
  using assms(4)
proof (induction i)
  case 0
  show ?case using assms(2) .
next
  case (Suc i)
  have t: "t \<in> set (rl_timers (lp i))" and d: "le_now2 (env i) < tm_due t" using Suc by simp_all
  have "t \<in> set (rl_timers (snd (nextBatch (env i) (lp i))))"
    using nextBatch_timers(1) [OF loop_run_ok [OF assms(1)], of "env i" i] t d by (force simp: after_fire_def)
  then show ?case using assms(1,3) fold_apply_op_keeps by (simp add: loop_run_def)
qed

lemma timer_fires_once:
  assumes run: "loop_run lp env ops" and t: "t \<in> set (rl_timers (lp 0))"
    and nc: "\<And>i. OpCancelTimer (tm_id t) \<notin> set (ops i)" and clock: "\<And>T. \<exists>i. T \<le> le_now2 (env i)"
  shows "\<exists>i. (\<forall>j < i. le_now2 (env j) < tm_due t) \<and> tm_due t \<le> le_now2 (env i) \<and>
    timer_callback t \<in> set (fst (nextBatch (env i) (lp i))) \<and>
    (0 < tm_intervalMs t \<longrightarrow> fired t \<in> set (rl_timers (lp (Suc i))))"
proof -
  define i where "i = (LEAST i. tm_due t \<le> le_now2 (env i))"
  have due: "tm_due t \<le> le_now2 (env i)" unfolding i_def using clock [of "tm_due t"] by (metis LeastI)
  have before: "le_now2 (env j) < tm_due t" if "j < i" for j
    using not_less_Least [OF that [unfolded i_def]] by simp
  note ti = timer_waits [OF run t nc, of i, OF before]
  note ok = loop_run_ok [OF run, of i]
  have cb: "timer_callback t \<in> set (fst (nextBatch (env i) (lp i)))" by (rule nextBatch_timers(2) [OF ok ti due])
  have "fired t \<in> set (rl_timers (lp (Suc i)))" if "0 < tm_intervalMs t"
  proof -
    have "fired t \<in> set (rl_timers (snd (nextBatch (env i) (lp i))))"
      using nextBatch_timers(1) [OF ok, of "env i"] ti due that by (force simp: after_fire_def)
    then show ?thesis using run nc fold_apply_op_keeps [of "fired t" _ "ops i"] by (simp add: loop_run_def)
  qed
  with due before cb show ?thesis by blast
qed

lemma unbounded_later:
  fixes f :: "nat \<Rightarrow> int"
  assumes "\<And>T. \<exists>i. T \<le> f i" shows "\<exists>j. T \<le> f (Suc i + j)"
proof -
  define M where "M = Max (insert T (f ` {..i}))"
  have M: "T \<le> M" "k \<le> i \<Longrightarrow> f k \<le> M" for k unfolding M_def by (rule Max_ge; simp)+
  obtain k where k: "M + 1 \<le> f k" using assms by blast
  then have "i < k" using M(2) [of k] by (cases "i < k") auto
  then show ?thesis using k M(1) by (intro exI [of _ "k - Suc i"]) simp
qed

lemma timer_fires_again:
  assumes "loop_run lp env ops" "t \<in> set (rl_timers (lp 0))" "\<And>i. OpCancelTimer (tm_id t) \<notin> set (ops i)"
    "\<And>T. \<exists>i. T \<le> le_now2 (env i)" "0 < tm_intervalMs t"
  shows "\<exists>i. \<lparr>lc_callback = tm_callback t, lc_argument = vint (word_of_int (tm_ticks t + 1 + int n))\<rparr>
    \<in> set (fst (nextBatch (env i) (lp i)))"
  using assms
proof (induction n arbitrary: lp env ops t)
  case 0
  then show ?case using timer_fires_once [OF 0(1,2,3)] by (auto simp: timer_callback_def)
next
  case (Suc n)
  obtain i where i: "fired t \<in> set (rl_timers (lp (Suc i)))"
    using timer_fires_once [OF Suc.prems(1-4)] Suc.prems(5) by blast
  let ?lp = "\<lambda>j. lp (Suc i + j)" and ?env = "\<lambda>j. env (Suc i + j)" and ?ops = "\<lambda>j. ops (Suc i + j)"
  have "loop_run ?lp ?env ?ops" by (rule loop_run_shift [OF Suc.prems(1)])
  moreover have "fired t \<in> set (rl_timers (?lp 0))" using i by simp
  moreover have "OpCancelTimer (tm_id (fired t)) \<notin> set (?ops j)" for j using Suc.prems(3) by simp
  moreover have "\<exists>j. T \<le> le_now2 (?env j)" for T using unbounded_later [OF Suc.prems(4)] .
  moreover have "0 < tm_intervalMs (fired t)" using Suc.prems(5) by simp
  ultimately have "\<exists>j. \<lparr>lc_callback = tm_callback (fired t), lc_argument = vint (word_of_int (tm_ticks (fired t) + 1 + int n))\<rparr>
      \<in> set (fst (nextBatch (?env j) (?lp j)))"
    by (rule Suc.IH)
  then obtain j where "\<lparr>lc_callback = tm_callback t, lc_argument = vint (word_of_int (tm_ticks t + 1 + int (Suc n)))\<rparr>
      \<in> set (fst (nextBatch (env (Suc i + j)) (lp (Suc i + j))))"
    by (auto simp: algebra_simps)
  then show ?case by blast
qed


text \<open>A loop with one repeating timer, whose callbacks do nothing, polled every ten milliseconds.\<close>

definition tick_env :: "nat \<Rightarrow> loop_env" where
  "tick_env i = \<lparr>le_now = int i * 10000000, le_poll = (\<lambda>_ _. (0, \<lambda>_. 0)), le_now2 = int i * 10000000,
                 le_tlsWants = (\<lambda>_. 0), le_tlsPending = (\<lambda>_. False)\<rparr>"

definition tick_loop :: runtime_loop where
  "tick_loop = snd (addTimer 0 5 20 vvoid \<lparr>rl_timers = [], rl_watches = [], rl_nextId = 1\<rparr>)"

fun tick_run :: "nat \<Rightarrow> runtime_loop" where
  "tick_run 0 = tick_loop"
| "tick_run (Suc i) = snd (nextBatch (tick_env i) (tick_run i))"


section \<open>The contents of a batch\<close>

definition watch_cb :: "watch \<Rightarrow> loop_callback" where
  "watch_cb w = \<lparr>lc_callback = wt_callback w, lc_argument = vint (word_of_int (wt_fd w))\<rparr>"

definition buffered :: "loop_env \<Rightarrow> watch \<Rightarrow> bool" where
  "buffered env w \<longleftrightarrow> \<not> wt_write w \<and> le_tlsPending env (wt_fd w)"

text \<open>The watches that fire: the ready ones in the order of registration, then those with buffered input
  that are not among them.\<close>

definition firing_watches :: "loop_env \<Rightarrow> (nat \<Rightarrow> 16 word) \<Rightarrow> watch list \<Rightarrow> watch list" where
  "firing_watches env revents ws =
     map snd (filter (is_ready env revents) (enumerate 0 ws)) @
     map snd (filter (\<lambda>iw. buffered env (snd iw) \<and> \<not> is_ready env revents iw) (enumerate 0 ws))"

lemma find_id:
  "distinct (map wt_id ws) \<Longrightarrow> w \<in> set ws \<Longrightarrow> find (\<lambda>v. wt_id v = wt_id w) ws = Some w"
proof (induction ws)
  case (Cons v ws)
  then show ?case by (cases "v = w") (force simp: image_iff)+
qed simp

lemma watch_callbacks_map:
  "distinct (map wt_id ws) \<Longrightarrow> set vs \<subseteq> set ws \<Longrightarrow> watch_callbacks ws (map wt_id vs) = map watch_cb vs"
  by (induction vs) (simp_all add: watch_callbacks_def find_id watch_cb_def)

lemma add_missing_distinct:
  "distinct pending \<Longrightarrow> add_missing pending ready = ready @ filter (\<lambda>i. i \<notin> set ready) pending"
proof (induction pending arbitrary: ready)
  case (Cons i pending)
  have "add_missing (i # pending) ready = add_missing pending (if i \<in> set ready then ready else ready @ [i])"
    by (simp add: add_missing_def)
  with Cons show ?case by (auto intro!: filter_cong)
qed (simp add: add_missing_def)

lemma enumerate_unique:
  assumes "distinct (map key ws)" "(i, w) \<in> set (enumerate 0 ws)" "(j, v) \<in> set (enumerate 0 ws)" "key w = key v"
  shows "i = j \<and> w = v"
  using assms by (auto simp: in_set_enumerate_eq distinct_conv_nth)

lemma enumerate_key_mem:
  assumes "distinct (map key ws)" "iw \<in> set (enumerate 0 ws)"
  shows "key (snd iw) \<in> set (map (\<lambda>iw. key (snd iw)) (filter P (enumerate 0 ws))) \<longleftrightarrow> P iw"
proof
  assume "key (snd iw) \<in> set (map (\<lambda>iw. key (snd iw)) (filter P (enumerate 0 ws)))"
  then obtain jv where jv: "jv \<in> set (enumerate 0 ws)" "P jv" "key (snd iw) = key (snd jv)" by auto
  with enumerate_unique [OF assms(1), of "fst iw" "snd iw" "fst jv" "snd jv"] assms(2) have "iw = jv"
    by (simp add: prod_eq_iff)
  with jv(2) show "P iw" by simp
qed (use assms in auto)

lemma enumerate_filter_snd: "map snd (filter (\<lambda>iw. P (snd iw)) (enumerate n ws)) = filter P ws"
  by (induction ws arbitrary: n) simp_all

lemma ready_pending:
  assumes "distinct (map wt_id ws)"
  shows "add_missing (pending_ids env ws) (map (\<lambda>iw. wt_id (snd iw)) (filter (is_ready env revents) (enumerate 0 ws))) =
    map wt_id (firing_watches env revents ws)"
proof -
  let ?e = "enumerate 0 ws"
  let ?ready = "map (\<lambda>iw. wt_id (snd iw)) (filter (is_ready env revents) ?e)"
  have p: "pending_ids env ws = map (\<lambda>iw. wt_id (snd iw)) (filter (\<lambda>iw. buffered env (snd iw)) ?e)"
  proof -
    have "pending_ids env ws = map wt_id (filter (buffered env) ws)"
      by (simp add: pending_ids_def buffered_def [abs_def])
    also have "\<dots> = map wt_id (map snd (filter (\<lambda>iw. buffered env (snd iw)) ?e))"
      by (simp only: enumerate_filter_snd)
    finally show ?thesis by (simp add: comp_def)
  qed
  have d: "distinct (pending_ids env ws)" unfolding pending_ids_def by (rule distinct_filter_key [OF assms])
  have r: "wt_id (snd iw) \<in> set ?ready \<longleftrightarrow> is_ready env revents iw" if "iw \<in> set ?e" for iw
    using enumerate_key_mem [OF assms that] .
  have "filter (\<lambda>i. i \<notin> set ?ready) (pending_ids env ws) =
      map (\<lambda>iw. wt_id (snd iw)) (filter (\<lambda>iw. buffered env (snd iw) \<and> \<not> is_ready env revents iw) ?e)"
    unfolding p filter_map comp_def filter_filter using r by (intro arg_cong [of _ _ "map _"] filter_cong) auto
  then show ?thesis by (simp add: add_missing_distinct [OF d] firing_watches_def)
qed

lemma firing_watches_subset: "set (firing_watches env revents ws) \<subseteq> set ws"
proof -
  have "snd iw \<in> set ws" if "iw \<in> set (enumerate 0 ws)" for iw using that by (simp add: in_set_enumerate_eq) (metis nth_mem)
  then show ?thesis by (auto simp: firing_watches_def)
qed

lemma dead_watches:
  assumes "distinct (map wt_id ws)"
  shows "filter (\<lambda>w. wt_id w \<notin> set (map (\<lambda>iw. wt_id (snd iw)) (filter (is_dead revents) (enumerate 0 ws)))) ws =
    map snd (filter (\<lambda>iw. \<not> is_dead revents iw) (enumerate 0 ws))"
proof -
  let ?e = "enumerate 0 ws"
  have r: "wt_id (snd iw) \<in> set (map (\<lambda>iw. wt_id (snd iw)) (filter (is_dead revents) ?e)) \<longleftrightarrow> is_dead revents iw"
    if "iw \<in> set ?e" for iw
    using enumerate_key_mem [OF assms that] .
  show ?thesis
    unfolding enumerate_filter_snd [of _ 0 ws, symmetric]
    using r by (intro arg_cong [of _ _ "map snd"] filter_cong) auto
qed

definition wakes :: "loop_env \<Rightarrow> runtime_loop \<Rightarrow> bool" where
  "wakes env lp \<longleftrightarrow> rl_watches lp \<noteq> [] \<and>
     (fst (le_poll env (map (\<lambda>w. (wt_fd w, poll_mask env w)) (rl_watches lp)) (poll_timeout env lp)) > 0 \<or>
      list_ex (buffered env) (rl_watches lp))"

definition revents_of :: "loop_env \<Rightarrow> runtime_loop \<Rightarrow> nat \<Rightarrow> 16 word" where
  "revents_of env lp = snd (le_poll env (map (\<lambda>w. (wt_fd w, poll_mask env w)) (rl_watches lp)) (poll_timeout env lp))"

lemma poll_watches_eq:
  assumes "loop_ok lp"
  shows "poll_watches env lp =
    (if wakes env lp
     then (map watch_cb (firing_watches env (revents_of env lp) (rl_watches lp)),
           lp\<lparr>rl_watches := map snd (filter (\<lambda>iw. \<not> is_dead (revents_of env lp) iw) (enumerate 0 (rl_watches lp)))\<rparr>)
     else ([], lp))"
proof -
  have d: "distinct (map wt_id (rl_watches lp))" using assms by (simp add: loop_ok_iff)
  have p: "pending_ids env ws \<noteq> [] \<longleftrightarrow> list_ex (buffered env) ws" for ws
    by (auto simp: pending_ids_def buffered_def list_ex_iff filter_empty_conv)
  show ?thesis
    by (simp add: poll_watches_def wakes_def revents_of_def Let_def split_beta p ready_pending [OF d]
        watch_callbacks_map [OF d firing_watches_subset] fold_cancelWatch fold_erase_id [OF d] dead_watches [OF d, simplified])
qed

lemma due_timers_sorted:
  assumes "distinct (map tm_id ts)"
  shows "sorted_wrt (\<lambda>a b. (tm_due a, tm_id a) < (tm_due b, tm_id b)) (due_timers now ts)"
proof -
  let ?k = "\<lambda>t. (tm_due t, tm_id t)"
  have "sorted (map ?k (due_timers now ts))" by (simp add: due_timers_def)
  moreover have "distinct (map ?k (due_timers now ts))"
  proof -
    have "distinct (map tm_id (filter (\<lambda>t. tm_due t \<le> now) ts))" by (rule distinct_filter_key [OF assms])
    then have "distinct (filter (\<lambda>t. tm_due t \<le> now) ts)" "inj_on tm_id (set (filter (\<lambda>t. tm_due t \<le> now) ts))"
      by (simp_all add: distinct_map)
    then show ?thesis by (auto simp: due_timers_def distinct_map inj_on_def)
  qed
  ultimately have "sorted_wrt (<) (map ?k (due_timers now ts))" using strict_sorted_iff by blast
  then show ?thesis by (simp add: sorted_wrt_map)
qed

lemma firing_watches_distinct:
  assumes "distinct (map wt_id ws)" shows "distinct (map wt_id (firing_watches env revents ws))"
proof -
  let ?e = "enumerate 0 ws" and ?K = "\<lambda>iw. wt_id (snd iw)" and ?R = "is_ready env revents"
  let ?Q = "\<lambda>iw. buffered env (snd iw) \<and> \<not> ?R iw"
  have "map ?K ?e = map wt_id (map snd ?e)" unfolding map_map comp_def ..
  then have de: "distinct (map ?K ?e)" using assms by simp
  have "x \<notin> set (map ?K (filter ?R ?e))" if "x \<in> set (map ?K (filter ?Q ?e))" for x
  proof -
    from that obtain iw where "iw \<in> set ?e" "\<not> ?R iw" "x = wt_id (snd iw)" by auto
    with enumerate_key_mem [OF assms, of iw ?R] show ?thesis by blast
  qed
  then have "set (map ?K (filter ?R ?e)) \<inter> set (map ?K (filter ?Q ?e)) = {}" by blast
  then have "distinct (map ?K (filter ?R ?e) @ map ?K (filter ?Q ?e))"
    unfolding distinct_append using distinct_filter_key [OF de] by blast
  then show ?thesis by (simp add: firing_watches_def comp_def)
qed


text \<open>Two watches on descriptors 7 and 3 and a one-shot timer; \<open>poll\<close> reports descriptor 7 closed and 3 readable.\<close>

definition demo_loop :: runtime_loop where
  "demo_loop = snd (addTimer 0 1 0 vvoid (snd (addWatch 3 vnone (snd (addWatch 7 vvoid
     \<lparr>rl_timers = [], rl_watches = [], rl_nextId = 1\<rparr>)))))"

definition demo_env :: loop_env where
  "demo_env = \<lparr>le_now = 0, le_poll = (\<lambda>_ _. (2, \<lambda>i. if i = 0 then POLLNVAL else POLLIN)), le_now2 = 2000000,
               le_tlsWants = (\<lambda>_. 0), le_tlsPending = (\<lambda>_. False)\<rparr>"


section \<open>How long a batch may block\<close>

lemma earliest_due_Min: "earliest_due e ts = Min (insert e (tm_due ` set ts))"
proof (induction ts arbitrary: e)
  case (Cons t ts)
  then show ?case by (cases "ts = []") (auto simp: min_def)
qed simp

lemma timer_timeout_Min:
  assumes "ts \<noteq> []"
  shows "timer_timeout now ts = (let ms = to_ms (Min (tm_due ` set ts) - now) in if ms < 0 then 0 else wrap32 ms)"
proof -
  obtain t ts' where "ts = t # ts'" using assms by (cases ts) auto
  then show ?thesis by (simp add: timer_timeout_def earliest_due_Min)
qed

text \<open>
  A batch does not oversleep: while the earliest timer is less than \<open>2\<^sup>31\<close> milliseconds away, the timeout given to
  \<open>poll\<close> is not negative and ends no later than that timer. Beyond, the narrowing to \<open>int\<close> wraps: for a
  timer between \<open>2\<^sup>31\<close> and \<open>2\<^sup>32\<close> milliseconds away (25 to 50 days) and no buffered input it is negative, which \<open>poll\<close>
  takes as no timeout at all.
\<close>

lemma poll_timeout_bounds:
  fixes lp :: runtime_loop and env :: loop_env
  assumes "rl_timers lp \<noteq> []"
  defines "wait \<equiv> Min (tm_due ` set (rl_timers lp)) - le_now env"
  shows "(wait < milliseconds (2 ^ 31) \<longrightarrow> 0 \<le> poll_timeout env lp \<and> milliseconds (poll_timeout env lp) \<le> max 0 wait) \<and>
    (milliseconds (2 ^ 31) \<le> wait \<and> wait < milliseconds (2 ^ 32) \<and> \<not> list_ex (buffered env) (rl_watches lp) \<longrightarrow>
     poll_timeout env lp < 0)"
proof -
  have t: "timer_timeout (le_now env) (rl_timers lp) = (if to_ms wait < 0 then 0 else wrap32 (to_ms wait))"
    using timer_timeout_Min [OF assms(1)] by (simp add: wait_def Let_def)
  have "0 \<le> poll_timeout env lp \<and> milliseconds (poll_timeout env lp) \<le> max 0 wait" if w: "wait < milliseconds (2 ^ 31)"
  proof (cases "wait < 0")
    case True
    then have "to_ms wait \<le> 0" by (simp add: to_ms_def pos_imp_zdiv_nonneg_iff)
    then have "poll_timeout env lp = 0" unfolding poll_timeout_def t by (auto simp: wrap32_def)
    then show ?thesis by (simp add: milliseconds_def)
  next
    case False
    then have m: "to_ms wait = wait div 1000000" by (simp add: to_ms_def)
    have "0 \<le> wait div 1000000" "wait div 1000000 < 2 ^ 31" "wait div 1000000 * 1000000 \<le> wait"
      using False w by (simp_all add: milliseconds_def pos_imp_zdiv_nonneg_iff)
    then show ?thesis using False unfolding poll_timeout_def t m by (auto simp: milliseconds_def int32_def)
  qed
  moreover have "poll_timeout env lp < 0"
    if "milliseconds (2 ^ 31) \<le> wait" "wait < milliseconds (2 ^ 32)" "\<not> list_ex (buffered env) (rl_watches lp)"
  proof -
    define ms where "ms = wait div 1000000"
    have ms: "2 ^ 31 \<le> ms" "ms < 2 ^ 32" using that(1,2) unfolding ms_def milliseconds_def by simp_all
    have m: "to_ms wait = ms" using that(1) by (simp add: to_ms_def ms_def milliseconds_def)
    have "(ms + 2 ^ 31) mod 2 ^ 32 = ms - 2 ^ 31"
      using ms mod_add_self2 [of "ms - 2 ^ 31" "2 ^ 32 :: int"] mod_pos_pos_trivial [of "ms - 2 ^ 31" "2 ^ 32"] by (simp add: add.commute)
    then have "wrap32 ms < 0" using ms by (simp add: wrap32_def)
    moreover have "pending_ids env (rl_watches lp) = []"
      using that(3) by (auto simp: pending_ids_def buffered_def list_ex_iff filter_empty_conv)
    ultimately show ?thesis using ms by (simp add: poll_timeout_def t m)
  qed
  ultimately show ?thesis by blast
qed

definition far_loop :: runtime_loop where
  "far_loop = snd (addTimer 0 (2 ^ 31) 0 vvoid \<lparr>rl_timers = [], rl_watches = [], rl_nextId = 1\<rparr>)"

lemma poll_timeout_bounds_witness:
  "0 \<le> poll_timeout demo_env demo_loop \<and> poll_timeout demo_env demo_loop \<le> 1 \<and> poll_timeout demo_env far_loop < 0"
proof -
  have lp: "rl_timers demo_loop = [\<lparr>tm_id = 3, tm_due = 1000000, tm_intervalMs = 0, tm_ticks = 0, tm_callback = vvoid\<rparr>]"
    by (simp add: demo_loop_def addTimer_def addWatch_def add_watch_def milliseconds_def)
  have far: "rl_timers far_loop = [\<lparr>tm_id = 1, tm_due = 2 ^ 31 * 1000000, tm_intervalMs = 0, tm_ticks = 0, tm_callback = vvoid\<rparr>]"
    "rl_watches far_loop = []"
    by (simp_all add: far_loop_def addTimer_def milliseconds_def)
  show ?thesis
    using poll_timeout_bounds [of demo_loop demo_env] poll_timeout_bounds [of far_loop demo_env]
    by (simp add: lp far demo_env_def milliseconds_def)
qed

end
