(* ===== verification/X64_Asm.thy ===== *)
theory X64_Asm
  imports Lev_Prelude
begin

unbundle bit_operations_syntax

text \<open>
  The native backend's assembler and executable writer, \<open>src/X64.{hpp,cpp}\<close>. The assembler's state is
  its code buffer, a list of bytes, and each method is the function that appends its bytes; a jump method also
  returns the offset of the displacement to patch. Registers are their numbers. A decoder of the instruction
  subset, written from the encoding rules of the architecture (prefixes, REX, ModRM, SIB, displacement), is the
  specification the methods are proved against.
\<close>

section \<open>Bytes\<close>

type_synonym byte = "8 word"
type_synonym asm = "byte list"

definition here :: "asm \<Rightarrow> nat" where
  "here c = length c"

definition u8 :: "byte \<Rightarrow> asm \<Rightarrow> asm" where
  "u8 b c = c @ [b]"

definition le32 :: "32 word \<Rightarrow> byte list" where
  "le32 v = map (\<lambda>i. ucast (drop_bit (8 * i) v AND 0xff)) [0, 1, 2, 3]"

definition le64 :: "64 word \<Rightarrow> byte list" where
  "le64 v = map (\<lambda>i. ucast (drop_bit (8 * i) v AND 0xff)) [0, 1, 2, 3, 4, 5, 6, 7]"

definition u32 :: "32 word \<Rightarrow> asm \<Rightarrow> asm" where
  "u32 v c = c @ le32 v"

definition u64 :: "64 word \<Rightarrow> asm \<Rightarrow> asm" where
  "u64 v c = c @ le64 v"

section \<open>The methods\<close>

text \<open>\<open>r & 7\<close> and \<open>(r & 7) << 3\<close> as bytes.\<close>

definition lo :: "nat \<Rightarrow> byte" where
  "lo r = word_of_nat r AND 7"

definition mid :: "nat \<Rightarrow> byte" where
  "mid r = push_bit 3 (lo r)"

text \<open>No method passes the index register of \<open>rex\<close>, whose default adds nothing.\<close>

definition rex :: "bool \<Rightarrow> nat \<Rightarrow> nat \<Rightarrow> byte" where
  "rex w reg rm = 0x40 OR (if w then 8 else 0) OR (if reg \<ge> 8 then 4 else 0) OR (if rm \<ge> 8 then 1 else 0)"

definition RBP :: nat where "RBP = 5"

definition memRbp :: "nat \<Rightarrow> 32 word \<Rightarrow> asm \<Rightarrow> asm" where
  "memRbp reg disp c = u32 disp (u8 (0x80 OR mid reg OR 5) c)"

definition movImm :: "nat \<Rightarrow> 64 word \<Rightarrow> asm \<Rightarrow> asm" where
  "movImm r imm c = u64 imm (u8 (0xB8 OR lo r) (u8 (rex True 0 r) c))"

definition load :: "nat \<Rightarrow> 32 word \<Rightarrow> asm \<Rightarrow> asm" where
  "load r disp c = memRbp r disp (u8 0x8B (u8 (rex True r RBP) c))"

definition store :: "nat \<Rightarrow> 32 word \<Rightarrow> asm \<Rightarrow> asm" where
  "store r disp c = memRbp r disp (u8 0x89 (u8 (rex True r RBP) c))"

definition movRR :: "nat \<Rightarrow> nat \<Rightarrow> asm \<Rightarrow> asm" where
  "movRR dst src c = u8 (0xC0 OR mid src OR lo dst) (u8 0x89 (u8 (rex True src dst) c))"

definition alu :: "byte \<Rightarrow> nat \<Rightarrow> nat \<Rightarrow> asm \<Rightarrow> asm" where
  "alu op dst src c = u8 (0xC0 OR mid src OR lo dst) (u8 op (u8 (rex True src dst) c))"

definition addRR :: "nat \<Rightarrow> nat \<Rightarrow> asm \<Rightarrow> asm" where "addRR d s = alu 0x01 d s"
definition subRR :: "nat \<Rightarrow> nat \<Rightarrow> asm \<Rightarrow> asm" where "subRR d s = alu 0x29 d s"
definition cmpRR :: "nat \<Rightarrow> nat \<Rightarrow> asm \<Rightarrow> asm" where "cmpRR d s = alu 0x39 d s"
definition xorRR :: "nat \<Rightarrow> nat \<Rightarrow> asm \<Rightarrow> asm" where "xorRR d s = alu 0x31 d s"
definition andRR :: "nat \<Rightarrow> nat \<Rightarrow> asm \<Rightarrow> asm" where "andRR d s = alu 0x21 d s"
definition orRR :: "nat \<Rightarrow> nat \<Rightarrow> asm \<Rightarrow> asm" where "orRR d s = alu 0x09 d s"

definition imulRR :: "nat \<Rightarrow> nat \<Rightarrow> asm \<Rightarrow> asm" where
  "imulRR dst src c = u8 (0xC0 OR mid dst OR lo src) (u8 0xAF (u8 0x0F (u8 (rex True dst src) c)))"

definition cqo :: "asm \<Rightarrow> asm" where "cqo c = u8 0x99 (u8 0x48 c)"

definition idiv :: "nat \<Rightarrow> asm \<Rightarrow> asm" where
  "idiv r c = u8 (0xF8 OR lo r) (u8 0xF7 (u8 (rex True 0 r) c))"

definition neg :: "nat \<Rightarrow> asm \<Rightarrow> asm" where
  "neg r c = u8 (0xD8 OR lo r) (u8 0xF7 (u8 (rex True 0 r) c))"

definition incR :: "nat \<Rightarrow> asm \<Rightarrow> asm" where
  "incR r c = u8 (0xC0 OR lo r) (u8 0xFF (u8 (rex True 0 r) c))"

definition decR :: "nat \<Rightarrow> asm \<Rightarrow> asm" where
  "decR r c = u8 (0xC8 OR lo r) (u8 0xFF (u8 (rex True 0 r) c))"

definition testRR :: "nat \<Rightarrow> asm \<Rightarrow> asm" where
  "testRR r c = u8 (0xC0 OR mid r OR lo r) (u8 0x85 (u8 (rex True r r) c))"

definition setccAx :: "byte \<Rightarrow> asm \<Rightarrow> asm" where
  "setccAx cc c = u8 0xC0 (u8 0xB6 (u8 0x0F (u8 0x48 (u8 0xC0 (u8 cc (u8 0x0F c))))))"

definition addImm :: "nat \<Rightarrow> 32 word \<Rightarrow> asm \<Rightarrow> asm" where
  "addImm r imm c = u32 imm (u8 (0xC0 OR lo r) (u8 0x81 (u8 (rex True 0 r) c)))"

definition subImm :: "nat \<Rightarrow> 32 word \<Rightarrow> asm \<Rightarrow> asm" where
  "subImm r imm c = u32 imm (u8 (0xE8 OR lo r) (u8 0x81 (u8 (rex True 0 r) c)))"

definition loadInd :: "nat \<Rightarrow> nat \<Rightarrow> asm \<Rightarrow> asm" where
  "loadInd dst base c = u8 (mid dst OR lo base) (u8 0x8B (u8 (rex True dst base) c))"

definition storeInd :: "nat \<Rightarrow> nat \<Rightarrow> asm \<Rightarrow> asm" where
  "storeInd base src c = u8 (mid src OR lo base) (u8 0x89 (u8 (rex True src base) c))"

definition lea :: "nat \<Rightarrow> nat \<Rightarrow> 32 word \<Rightarrow> asm \<Rightarrow> asm" where
  "lea dst base disp c = u32 disp (u8 (0x80 OR mid dst OR lo base) (u8 0x8D (u8 (rex True dst base) c)))"

definition loadMem :: "nat \<Rightarrow> nat \<Rightarrow> 32 word \<Rightarrow> asm \<Rightarrow> asm" where
  "loadMem dst base disp c = u32 disp (u8 (0x80 OR mid dst OR lo base) (u8 0x8B (u8 (rex True dst base) c)))"

definition storeMem :: "nat \<Rightarrow> 32 word \<Rightarrow> nat \<Rightarrow> asm \<Rightarrow> asm" where
  "storeMem base disp src c = u32 disp (u8 (0x80 OR mid src OR lo base) (u8 0x89 (u8 (rex True src base) c)))"

definition cmpImm :: "nat \<Rightarrow> 32 word \<Rightarrow> asm \<Rightarrow> asm" where
  "cmpImm r imm c = u32 imm (u8 (0xF8 OR lo r) (u8 0x81 (u8 (rex True 0 r) c)))"

definition shlImm :: "nat \<Rightarrow> byte \<Rightarrow> asm \<Rightarrow> asm" where
  "shlImm r imm c = u8 imm (u8 (0xE0 OR lo r) (u8 0xC1 (u8 (rex True 0 r) c)))"

definition shlCl :: "nat \<Rightarrow> asm \<Rightarrow> asm" where
  "shlCl r c = u8 (0xE0 OR lo r) (u8 0xD3 (u8 (rex True 0 r) c))"

definition shrImm :: "nat \<Rightarrow> byte \<Rightarrow> asm \<Rightarrow> asm" where
  "shrImm r imm c = u8 imm (u8 (0xE8 OR lo r) (u8 0xC1 (u8 (rex True 0 r) c)))"

definition sarCl :: "nat \<Rightarrow> asm \<Rightarrow> asm" where
  "sarCl r c = u8 (0xF8 OR lo r) (u8 0xD3 (u8 (rex True 0 r) c))"

definition loadByte :: "nat \<Rightarrow> nat \<Rightarrow> byte \<Rightarrow> asm \<Rightarrow> asm" where
  "loadByte dst base disp c =
     u8 disp (u8 (0x40 OR mid dst OR lo base) (u8 0xB6 (u8 0x0F (u8 (rex True dst base) c))))"

definition movqXmmR :: "nat \<Rightarrow> nat \<Rightarrow> asm \<Rightarrow> asm" where
  "movqXmmR x r c = u8 (0xC0 OR mid x OR lo r) (u8 0x6E (u8 0x0F (u8 (rex True x r) (u8 0x66 c))))"

definition movqRXmm :: "nat \<Rightarrow> nat \<Rightarrow> asm \<Rightarrow> asm" where
  "movqRXmm r x c = u8 (0xC0 OR mid x OR lo r) (u8 0x7E (u8 0x0F (u8 (rex True x r) (u8 0x66 c))))"

definition sseArith :: "byte \<Rightarrow> nat \<Rightarrow> nat \<Rightarrow> asm \<Rightarrow> asm" where
  "sseArith op d s c = u8 (0xC0 OR mid d OR lo s) (u8 op (u8 0x0F (u8 0xF2 c)))"

definition addsd :: "nat \<Rightarrow> nat \<Rightarrow> asm \<Rightarrow> asm" where "addsd d s = sseArith 0x58 d s"
definition subsd :: "nat \<Rightarrow> nat \<Rightarrow> asm \<Rightarrow> asm" where "subsd d s = sseArith 0x5C d s"
definition mulsd :: "nat \<Rightarrow> nat \<Rightarrow> asm \<Rightarrow> asm" where "mulsd d s = sseArith 0x59 d s"
definition divsd :: "nat \<Rightarrow> nat \<Rightarrow> asm \<Rightarrow> asm" where "divsd d s = sseArith 0x5E d s"
definition sqrtsd :: "nat \<Rightarrow> nat \<Rightarrow> asm \<Rightarrow> asm" where "sqrtsd d s = sseArith 0x51 d s"

definition comisd :: "nat \<Rightarrow> nat \<Rightarrow> asm \<Rightarrow> asm" where
  "comisd a b c = u8 (0xC0 OR mid a OR lo b) (u8 0x2F (u8 0x0F (u8 0x66 c)))"

definition cvtsi2sd :: "nat \<Rightarrow> nat \<Rightarrow> asm \<Rightarrow> asm" where
  "cvtsi2sd x r c = u8 (0xC0 OR mid x OR lo r) (u8 0x2A (u8 0x0F (u8 (rex True x r) (u8 0xF2 c))))"

definition cvttsd2si :: "nat \<Rightarrow> nat \<Rightarrow> asm \<Rightarrow> asm" where
  "cvttsd2si r x c = u8 (0xC0 OR mid r OR lo x) (u8 0x2C (u8 0x0F (u8 (rex True r x) (u8 0xF2 c))))"

definition roundsd :: "nat \<Rightarrow> nat \<Rightarrow> byte \<Rightarrow> asm \<Rightarrow> asm" where
  "roundsd d s imm c =
     u8 imm (u8 (0xC0 OR mid d OR lo s) (u8 0x0B (u8 0x3A (u8 0x0F (u8 0x66 c)))))"

definition repMovsb :: "asm \<Rightarrow> asm" where "repMovsb c = u8 0xA4 (u8 0xF3 c)"
definition repStosb :: "asm \<Rightarrow> asm" where "repStosb c = u8 0xAA (u8 0xF3 c)"
definition repeCmpsb :: "asm \<Rightarrow> asm" where "repeCmpsb c = u8 0xA6 (u8 0xF3 c)"

definition push :: "nat \<Rightarrow> asm \<Rightarrow> asm" where
  "push r c = u8 (0x50 OR lo r) (if r \<ge> 8 then u8 0x41 c else c)"

definition pop :: "nat \<Rightarrow> asm \<Rightarrow> asm" where
  "pop r c = u8 (0x58 OR lo r) (if r \<ge> 8 then u8 0x41 c else c)"

definition ret :: "asm \<Rightarrow> asm" where "ret c = u8 0xC3 c"
definition syscall :: "asm \<Rightarrow> asm" where "syscall c = u8 0x05 (u8 0x0F c)"
definition leave :: "asm \<Rightarrow> asm" where "leave c = u8 0xC9 c"

definition jmp :: "asm \<Rightarrow> nat \<times> asm" where
  "jmp c = (let c1 = u8 0xE9 c in (here c1, u32 0 c1))"

definition jcc :: "byte \<Rightarrow> asm \<Rightarrow> nat \<times> asm" where
  "jcc cc c = (let c1 = u8 (0x80 OR cc) (u8 0x0F c) in (here c1, u32 0 c1))"

definition je :: "asm \<Rightarrow> nat \<times> asm" where "je = jcc 4"
definition jne :: "asm \<Rightarrow> nat \<times> asm" where "jne = jcc 5"
definition jl :: "asm \<Rightarrow> nat \<times> asm" where "jl = jcc 0xC"
definition jge :: "asm \<Rightarrow> nat \<times> asm" where "jge = jcc 0xD"
definition jle :: "asm \<Rightarrow> nat \<times> asm" where "jle = jcc 0xE"
definition jg :: "asm \<Rightarrow> nat \<times> asm" where "jg = jcc 0xF"

definition call :: "asm \<Rightarrow> nat \<times> asm" where
  "call c = (let c1 = u8 0xE8 c in (here c1, u32 0 c1))"

text \<open>\<open>code[at + i]\<close> beyond the buffer is undefined in the source; the update then changes nothing here.\<close>

definition patchRel :: "nat \<Rightarrow> nat \<Rightarrow> asm \<Rightarrow> asm" where
  "patchRel at target c =
     (let rel = word_of_int (int target - int (at + 4)) :: 32 word
      in fold (\<lambda>i c. c[at + i := ucast (signed_drop_bit (8 * i) rel AND 0xff)]) [0, 1, 2, 3] c)"

end
