(* ===== verification/X64_Decode.thy ===== *)
theory X64_Decode
  imports X64_Asm
begin

unbundle bit_operations_syntax

text \<open>
  The decoder of the instruction subset, and that every method of the assembler emits the instruction it is named
  for: a sequence of calls decodes to the sequence of instructions, and a patched jump goes to its target.
\<close>

section \<open>Instructions\<close>

datatype rm = Direct nat | Indirect nat "32 word"

datatype alu_op = Add | Or | Adc | Sbb | And | Sub | Xor | Cmp

datatype sd_op = AddSd | SubSd | MulSd | DivSd | SqrtSd

datatype (plugins only: code size) instr =
    IMovImm nat "64 word"
  | IMovLoad nat rm
  | IMovStore rm nat
  | IAlu alu_op rm nat
  | IAluImm alu_op rm "32 word"
  | IImul nat rm
  | ICqo
  | IIdiv rm
  | INeg rm
  | IInc rm
  | IDec rm
  | ITest rm nat
  | ISetcc nat rm
  | IMovzxB nat rm
  | ILea nat rm
  | IShl rm byte
  | IShr rm byte
  | IShlCl rm
  | ISarCl rm
  | IMovqTo nat rm
  | IMovqFrom rm nat
  | ISd sd_op nat rm
  | IComisd nat rm
  | ICvtsi2sd nat rm
  | ICvttsd2si nat rm
  | IRoundsd nat rm byte
  | IRepMovsb
  | IRepStosb
  | IRepeCmpsb
  | IPush nat
  | IPop nat
  | IRet
  | ISyscall
  | ILeave
  | IJmp "32 word"
  | IJcc nat "32 word"
  | ICall "32 word"

section \<open>Decoding\<close>

fun rd32 :: "byte list \<Rightarrow> (32 word \<times> byte list) option" where
  "rd32 (a # b # c # d # r) =
     Some (word_of_nat (unat a + 256 * (unat b + 256 * (unat c + 256 * unat d))), r)"
| "rd32 _ = None"

definition rd64 :: "byte list \<Rightarrow> (64 word \<times> byte list) option" where
  "rd64 bs =
     (case rd32 bs of
        None \<Rightarrow> None
      | Some (x, r) \<Rightarrow>
          (case rd32 r of None \<Rightarrow> None | Some (y, r') \<Rightarrow> Some (word_of_nat (unat x + 2 ^ 32 * unat y), r')))"

text \<open>The three fields of a ModRM byte. Without displacement the base 5 means RIP, and the base 4 always
  announces a SIB byte; neither is in the subset.\<close>

definition md :: "byte \<Rightarrow> nat" where "md b = unat b div 64"
definition rg :: "byte \<Rightarrow> nat" where "rg b = unat b div 8 mod 8"
definition rmf :: "byte \<Rightarrow> nat" where "rmf b = unat b mod 8"

definition ext :: "bool \<Rightarrow> nat \<Rightarrow> nat" where
  "ext x n = n + (if x then 8 else 0)"

fun rd_modrm :: "bool \<Rightarrow> bool \<Rightarrow> byte list \<Rightarrow> (nat \<times> rm \<times> byte list) option" where
  "rd_modrm xr xb [] = None"
| "rd_modrm xr xb (m # r) =
     (let reg = ext xr (rg m); base = ext xb (rmf m)
      in if md m = 3 then Some (reg, Direct base, r)
         else if rmf m = 4 then None
         else if md m = 0 then (if rmf m = 5 then None else Some (reg, Indirect base 0, r))
         else if md m = 1 then (case r of [] \<Rightarrow> None | d # r' \<Rightarrow> Some (reg, Indirect base (scast d), r'))
         else (case rd32 r of None \<Rightarrow> None | Some (d, r') \<Rightarrow> Some (reg, Indirect base d, r')))"

definition with_rm ::
  "bool \<Rightarrow> bool \<Rightarrow> byte list \<Rightarrow> (nat \<Rightarrow> rm \<Rightarrow> instr option) \<Rightarrow> (instr \<times> byte list) option" where
  "with_rm xr xb bs f =
     (case rd_modrm xr xb bs of
        None \<Rightarrow> None
      | Some (reg, x, r) \<Rightarrow> (case f reg x of None \<Rightarrow> None | Some i \<Rightarrow> Some (i, r)))"

definition with_rm8 ::
  "bool \<Rightarrow> bool \<Rightarrow> byte list \<Rightarrow> (nat \<Rightarrow> rm \<Rightarrow> byte \<Rightarrow> instr option) \<Rightarrow> (instr \<times> byte list) option" where
  "with_rm8 xr xb bs f =
     (case rd_modrm xr xb bs of
        Some (reg, x, d # r) \<Rightarrow> (case f reg x d of None \<Rightarrow> None | Some i \<Rightarrow> Some (i, r))
      | _ \<Rightarrow> None)"

definition with_rm32 ::
  "bool \<Rightarrow> bool \<Rightarrow> byte list \<Rightarrow> (nat \<Rightarrow> rm \<Rightarrow> 32 word \<Rightarrow> instr option) \<Rightarrow> (instr \<times> byte list) option" where
  "with_rm32 xr xb bs f =
     (case rd_modrm xr xb bs of
        None \<Rightarrow> None
      | Some (reg, x, r) \<Rightarrow>
          (case rd32 r of
             None \<Rightarrow> None
           | Some (v, r') \<Rightarrow> (case f reg x v of None \<Rightarrow> None | Some i \<Rightarrow> Some (i, r'))))"

definition with_rel :: "byte list \<Rightarrow> (32 word \<Rightarrow> instr) \<Rightarrow> (instr \<times> byte list) option" where
  "with_rel bs f = (case rd32 bs of None \<Rightarrow> None | Some (v, r) \<Rightarrow> Some (f v, r))"

definition alu_of :: "nat \<Rightarrow> alu_op" where
  "alu_of k = [Add, Or, Adc, Sbb, And, Sub, Xor, Cmp] ! (k mod 8)"

definition sd_of :: "byte \<Rightarrow> sd_op option" where
  "sd_of op = map_of [(0x58, AddSd), (0x5C, SubSd), (0x59, MulSd), (0x5E, DivSd), (0x51, SqrtSd)] op"

text \<open>The opcodes with a 64-bit operand size (REX.W) and no mandatory prefix.\<close>

definition decode_w :: "bool \<Rightarrow> bool \<Rightarrow> byte \<Rightarrow> byte list \<Rightarrow> (instr \<times> byte list) option" where
  "decode_w xr xb op r =
     (if unat op div 8 = 23 then
        (case rd64 r of None \<Rightarrow> None | Some (v, r') \<Rightarrow> Some (IMovImm (ext xb (rmf op)) v, r'))
      else if op = 0x8B then with_rm xr xb r (\<lambda>reg x. Some (IMovLoad reg x))
      else if op = 0x89 then with_rm xr xb r (\<lambda>reg x. Some (IMovStore x reg))
      else if op = 0x8D then
        with_rm xr xb r (\<lambda>reg x. case x of Direct _ \<Rightarrow> None | Indirect _ _ \<Rightarrow> Some (ILea reg x))
      else if op = 0x85 then with_rm xr xb r (\<lambda>reg x. Some (ITest x reg))
      else if unat op < 64 \<and> unat op mod 8 = 1 then
        with_rm xr xb r (\<lambda>reg x. Some (IAlu (alu_of (unat op div 8)) x reg))
      else if op = 0x81 then with_rm32 xr xb r (\<lambda>reg x v. Some (IAluImm (alu_of reg) x v))
      else if op = 0x99 then Some (ICqo, r)
      else if op = 0xF7 then
        with_rm xr xb r (\<lambda>reg x. if reg mod 8 = 7 then Some (IIdiv x) else if reg mod 8 = 3 then Some (INeg x) else None)
      else if op = 0xFF then
        with_rm xr xb r (\<lambda>reg x. if reg mod 8 = 0 then Some (IInc x) else if reg mod 8 = 1 then Some (IDec x) else None)
      else if op = 0xC1 then
        with_rm8 xr xb r (\<lambda>reg x d. if reg mod 8 = 4 then Some (IShl x d) else if reg mod 8 = 5 then Some (IShr x d) else None)
      else if op = 0xD3 then
        with_rm xr xb r (\<lambda>reg x. if reg mod 8 = 4 then Some (IShlCl x) else if reg mod 8 = 7 then Some (ISarCl x) else None)
      else if op = 0x0F then
        (case r of
           [] \<Rightarrow> None
         | op2 # r' \<Rightarrow>
             if op2 = 0xAF then with_rm xr xb r' (\<lambda>reg x. Some (IImul reg x))
             else if op2 = 0xB6 then with_rm xr xb r' (\<lambda>reg x. Some (IMovzxB reg x))
             else None)
      else None)"

text \<open>The opcodes without operand size: the stack, control flow, \<open>setcc\<close>.\<close>

definition decode_plain :: "bool \<Rightarrow> bool \<Rightarrow> byte \<Rightarrow> byte list \<Rightarrow> (instr \<times> byte list) option" where
  "decode_plain xr xb op r =
     (if unat op div 8 = 10 then Some (IPush (ext xb (rmf op)), r)
      else if unat op div 8 = 11 then Some (IPop (ext xb (rmf op)), r)
      else if op = 0xC3 then Some (IRet, r)
      else if op = 0xC9 then Some (ILeave, r)
      else if op = 0xE9 then with_rel r IJmp
      else if op = 0xE8 then with_rel r ICall
      else if op = 0x0F then
        (case r of
           [] \<Rightarrow> None
         | op2 # r' \<Rightarrow>
             if op2 = 0x05 then Some (ISyscall, r')
             else if unat op2 div 16 = 8 then with_rel r' (IJcc (unat op2 mod 16))
             else if unat op2 div 16 = 9 then with_rm xr xb r' (\<lambda>_ x. Some (ISetcc (unat op2 mod 16) x))
             else None)
      else None)"

definition decode_66 :: "bool \<Rightarrow> bool \<Rightarrow> bool \<Rightarrow> byte list \<Rightarrow> (instr \<times> byte list) option" where
  "decode_66 xw xr xb bs =
     (case bs of
        esc # op # r \<Rightarrow>
          if esc \<noteq> 0x0F then None
          else if op = 0x3A then
            (case r of
               [] \<Rightarrow> None
             | op3 # r' \<Rightarrow> if op3 = 0x0B then with_rm8 xr xb r' (\<lambda>reg x d. Some (IRoundsd reg x d)) else None)
          else if op = 0x6E \<and> xw then with_rm xr xb r (\<lambda>reg x. Some (IMovqTo reg x))
          else if op = 0x7E \<and> xw then with_rm xr xb r (\<lambda>reg x. Some (IMovqFrom x reg))
          else if op = 0x2F then with_rm xr xb r (\<lambda>reg x. Some (IComisd reg x))
          else None
      | _ \<Rightarrow> None)"

definition decode_F2 :: "bool \<Rightarrow> bool \<Rightarrow> bool \<Rightarrow> byte list \<Rightarrow> (instr \<times> byte list) option" where
  "decode_F2 xw xr xb bs =
     (case bs of
        esc # op # r \<Rightarrow>
          if esc \<noteq> 0x0F then None
          else if op = 0x2A \<and> xw then with_rm xr xb r (\<lambda>reg x. Some (ICvtsi2sd reg x))
          else if op = 0x2C \<and> xw then with_rm xr xb r (\<lambda>reg x. Some (ICvttsd2si reg x))
          else with_rm xr xb r (\<lambda>reg x. map_option (\<lambda>sd. ISd sd reg x) (sd_of op))
      | _ \<Rightarrow> None)"

definition decode_F3 :: "byte list \<Rightarrow> (instr \<times> byte list) option" where
  "decode_F3 bs =
     (case bs of
        [] \<Rightarrow> None
      | op # r \<Rightarrow>
          if op = 0xA4 then Some (IRepMovsb, r)
          else if op = 0xAA then Some (IRepStosb, r)
          else if op = 0xA6 then Some (IRepeCmpsb, r)
          else None)"

text \<open>A REX byte, if there is one, is the last before the opcode: its bits W, R and B, and the rest.\<close>

definition split_rex :: "byte list \<Rightarrow> bool \<times> bool \<times> bool \<times> byte list" where
  "split_rex bs =
     (case bs of
        b # r \<Rightarrow> if unat b div 16 = 4 then (bit b 3, bit b 2, bit b 0, r) else (False, False, False, bs)
      | [] \<Rightarrow> (False, False, False, []))"

definition decode :: "byte list \<Rightarrow> (instr \<times> byte list) option" where
  "decode bs =
     (case bs of
        [] \<Rightarrow> None
      | p # r \<Rightarrow>
          if p = 0x66 then (let (xw, xr, xb, r') = split_rex r in decode_66 xw xr xb r')
          else if p = 0xF2 then (let (xw, xr, xb, r') = split_rex r in decode_F2 xw xr xb r')
          else if p = 0xF3 then decode_F3 r
          else
            (let (xw, xr, xb, r') = split_rex bs
             in case r' of
                  [] \<Rightarrow> None
                | op # r'' \<Rightarrow> if xw then decode_w xr xb op r'' else decode_plain xr xb op r''))"

function decode_all :: "byte list \<Rightarrow> instr list option" where
  "decode_all bs =
     (if bs = [] then Some []
      else case decode bs of
             Some (i, r) \<Rightarrow> if length r < length bs then map_option (Cons i) (decode_all r) else None
           | None \<Rightarrow> None)"
  by pat_completeness auto
termination by (relation "measure length") auto

declare decode_all.simps [simp del]

section \<open>Fields of the bytes the assembler builds\<close>

lemma unat_byte_of:
  fixes v :: "'a::len word"
  assumes "8 \<le> LENGTH('a)"
  shows "unat (ucast (drop_bit n v AND 0xff) :: byte) = unat v div 2 ^ n mod 256"
proof -
  have "(0xff :: 'a word) = mask 8" by (simp add: mask_eq_exp_minus_1)
  then have "drop_bit n v AND 0xff = take_bit 8 (drop_bit n v)" by (simp add: take_bit_eq_mask)
  then have "unat (drop_bit n v AND 0xff) = take_bit 8 (drop_bit n (unat v))"
    by (simp only: unsigned_take_bit_eq unat_drop_bit_eq)
  then show ?thesis by (simp add: unsigned_ucast_eq take_bit_eq_mod drop_bit_eq_div)
qed

lemma digits256:
  assumes "(n :: nat) < 2 ^ 32"
  shows "n div 2 ^ (8 * 0) mod 256 + 256 * (n div 2 ^ (8 * 1) mod 256 +
     256 * (n div 2 ^ (8 * 2) mod 256 + 256 * (n div 2 ^ (8 * 3) mod 256))) = n"
proof -
  have d: "n div 2 ^ (8 * 2) = n div 2 ^ (8 * 1) div 256" "n div 2 ^ (8 * 3) = n div 2 ^ (8 * 1) div 256 div 256"
    by (simp_all add: div_mult2_eq [symmetric])
  have "n div 2 ^ (8 * 3) < 256" using assms by (simp add: less_mult_imp_div_less)
  then have "n div 2 ^ (8 * 3) mod 256 = n div 2 ^ (8 * 3)" by simp
  then show ?thesis unfolding d using mod_mult_div_eq [of n 256] by (simp add: add.commute mult.commute)
qed

lemma word_of_unat: "word_of_nat (unat w) = (w :: 'a::len word)"
  by simp

lemma rd32_le32 [simp]: "rd32 (le32 v @ r) = Some (v, r)"
proof -
  let ?b = "\<lambda>i. ucast (drop_bit (8 * i) v AND 0xff) :: byte"
  have b: "unat (?b i) = unat v div 2 ^ (8 * i) mod 256" for i by (rule unat_byte_of) simp
  have "unat v < 2 ^ 32" using unsigned_less [of v] by simp
  then have n: "unat (?b 0) + 256 * (unat (?b 1) + 256 * (unat (?b 2) + 256 * unat (?b 3))) = unat v"
    unfolding b by (rule digits256)
  have "le32 v @ r = ?b 0 # ?b 1 # ?b 2 # ?b 3 # r" by (simp only: le32_def list.map append.simps)
  then show ?thesis by (simp only: rd32.simps n word_of_unat)
qed

lemma le64_le32: "le64 v = le32 (ucast v) @ le32 (ucast (drop_bit 32 v))"
proof -
  have "(ucast (drop_bit (8 * i) v AND 0xff) :: byte) = ucast (drop_bit (8 * i) (ucast v :: 32 word) AND 0xff)" if "i < 4" for i
    using that by (intro bit_word_eqI) (auto simp: bit_simps)
  moreover have "(ucast (drop_bit (32 + 8 * i) v AND 0xff) :: byte) =
      ucast (drop_bit (8 * i) (ucast (drop_bit 32 v) :: 32 word) AND 0xff)" if "i < 4" for i
    using that by (intro bit_word_eqI) (auto simp: bit_simps add.assoc)
  from this [of 0] this [of 1] this [of 2] this [of 3] calculation [of 0] calculation [of 1] calculation [of 2] calculation [of 3]
  show ?thesis by (simp add: le64_def le32_def)
qed

lemma rd64_le64 [simp]: "rd64 (le64 v @ r) = Some (v, r)"
proof -
  have u: "unat v < 2 ^ 64" using unsigned_less [of v] by simp
  have lo: "unat (ucast v :: 32 word) = unat v mod 2 ^ 32" by (simp add: unsigned_ucast_eq take_bit_eq_mod)
  have "unat (ucast (drop_bit 32 v) :: 32 word) = unat v div 2 ^ 32 mod 2 ^ 32"
    by (simp only: unsigned_ucast_eq unat_drop_bit_eq) (simp add: take_bit_eq_mod drop_bit_eq_div)
  also have "\<dots> = unat v div 2 ^ 32" using u by (simp add: less_mult_imp_div_less)
  finally have "unat (ucast v :: 32 word) + 2 ^ 32 * unat (ucast (drop_bit 32 v) :: 32 word) = unat v"
    unfolding lo by simp
  then show ?thesis by (simp only: rd64_def le64_le32 append_assoc rd32_le32 option.case prod.case word_of_unat)
qed

lemma mod8_cases: "(r :: nat) mod 8 \<in> {0, 1, 2, 3, 4, 5, 6, 7}"
  using mod_less_divisor [of 8 r] by auto

lemma lo_mod: "lo r = word_of_nat (r mod 8)"
proof -
  have "(w :: byte) AND 7 = w mod 8" for w
    using take_bit_eq_mask [of 3 w] by (simp add: take_bit_eq_mod mask_eq_exp_minus_1)
  moreover have "unat (word_of_nat r :: byte) = r mod 256" by (simp add: unsigned_of_nat take_bit_eq_mod)
  ultimately have "unat (lo r) = r mod 8" by (simp add: lo_def unat_mod_distrib mod_mod_cancel)
  then show ?thesis by (metis word_of_unat)
qed

lemma rr_fields:
  "md (0xC0 OR mid a OR lo b) = 3" "rg (0xC0 OR mid a OR lo b) = a mod 8" "rmf (0xC0 OR mid a OR lo b) = b mod 8"
  "md (0x80 OR mid a OR lo b) = 2" "rg (0x80 OR mid a OR lo b) = a mod 8" "rmf (0x80 OR mid a OR lo b) = b mod 8"
  "md (0x40 OR mid a OR lo b) = 1" "rg (0x40 OR mid a OR lo b) = a mod 8" "rmf (0x40 OR mid a OR lo b) = b mod 8"
  "md (mid a OR lo b) = 0" "rg (mid a OR lo b) = a mod 8" "rmf (mid a OR lo b) = b mod 8"
  using mod8_cases [of a] mod8_cases [of b]
  unfolding mid_def lo_mod md_def rg_def rmf_def by (elim insertE; simp)+

lemma rbp_fields:
  "md (0x80 OR mid a OR 5) = 2" "rg (0x80 OR mid a OR 5) = a mod 8" "rmf (0x80 OR mid a OR 5) = 5"
  using mod8_cases [of a] unfolding mid_def lo_mod md_def rg_def rmf_def by (elim insertE; simp)+

lemma digit_fields:
  "md (0xC0 OR lo b) = 3" "rg (0xC0 OR lo b) = 0" "rmf (0xC0 OR lo b) = b mod 8"
  "md (0xC8 OR lo b) = 3" "rg (0xC8 OR lo b) = 1" "rmf (0xC8 OR lo b) = b mod 8"
  "md (0xD8 OR lo b) = 3" "rg (0xD8 OR lo b) = 3" "rmf (0xD8 OR lo b) = b mod 8"
  "md (0xE0 OR lo b) = 3" "rg (0xE0 OR lo b) = 4" "rmf (0xE0 OR lo b) = b mod 8"
  "md (0xE8 OR lo b) = 3" "rg (0xE8 OR lo b) = 5" "rmf (0xE8 OR lo b) = b mod 8"
  "md (0xF8 OR lo b) = 3" "rg (0xF8 OR lo b) = 7" "rmf (0xF8 OR lo b) = b mod 8"
  using mod8_cases [of b] unfolding lo_mod md_def rg_def rmf_def by (elim insertE; simp)+

section \<open>The calls of the assembler\<close>

text \<open>One constructor per method, with its arguments; the comparison jumps are \<open>jcc\<close> with their code.\<close>

datatype (plugins only: code size) asm_call =
    MMovImm nat "64 word"
  | MLoad nat "32 word"
  | MStore nat "32 word"
  | MMovRR nat nat
  | MAddRR nat nat
  | MSubRR nat nat
  | MCmpRR nat nat
  | MXorRR nat nat
  | MAndRR nat nat
  | MOrRR nat nat
  | MImulRR nat nat
  | MCqo
  | MIdiv nat
  | MNeg nat
  | MIncR nat
  | MDecR nat
  | MTestRR nat
  | MSetccAx byte
  | MAddImm nat "32 word"
  | MSubImm nat "32 word"
  | MLoadInd nat nat
  | MStoreInd nat nat
  | MLea nat nat "32 word"
  | MLoadMem nat nat "32 word"
  | MStoreMem nat "32 word" nat
  | MCmpImm nat "32 word"
  | MShlImm nat byte
  | MShlCl nat
  | MShrImm nat byte
  | MSarCl nat
  | MLoadByte nat nat byte
  | MMovqXmmR nat nat
  | MMovqRXmm nat nat
  | MAddsd nat nat
  | MSubsd nat nat
  | MMulsd nat nat
  | MDivsd nat nat
  | MSqrtsd nat nat
  | MComisd nat nat
  | MCvtsi2sd nat nat
  | MCvttsd2si nat nat
  | MRoundsd nat nat byte
  | MRepMovsb
  | MRepStosb
  | MRepeCmpsb
  | MPush nat
  | MPop nat
  | MRet
  | MSyscall
  | MLeave
  | MJmp
  | MJcc byte
  | MCall

fun emit_call :: "asm_call \<Rightarrow> asm \<Rightarrow> asm" where
  "emit_call (MMovImm r s) = movImm r s"
| "emit_call (MLoad r s) = load r s"
| "emit_call (MStore r s) = store r s"
| "emit_call (MMovRR r s) = movRR r s"
| "emit_call (MAddRR r s) = addRR r s"
| "emit_call (MSubRR r s) = subRR r s"
| "emit_call (MCmpRR r s) = cmpRR r s"
| "emit_call (MXorRR r s) = xorRR r s"
| "emit_call (MAndRR r s) = andRR r s"
| "emit_call (MOrRR r s) = orRR r s"
| "emit_call (MImulRR r s) = imulRR r s"
| "emit_call MCqo = cqo"
| "emit_call (MIdiv r) = idiv r"
| "emit_call (MNeg r) = neg r"
| "emit_call (MIncR r) = incR r"
| "emit_call (MDecR r) = decR r"
| "emit_call (MTestRR r) = testRR r"
| "emit_call (MSetccAx r) = setccAx r"
| "emit_call (MAddImm r s) = addImm r s"
| "emit_call (MSubImm r s) = subImm r s"
| "emit_call (MLoadInd r s) = loadInd r s"
| "emit_call (MStoreInd r s) = storeInd r s"
| "emit_call (MLea r s q) = lea r s q"
| "emit_call (MLoadMem r s q) = loadMem r s q"
| "emit_call (MStoreMem r s q) = storeMem r s q"
| "emit_call (MCmpImm r s) = cmpImm r s"
| "emit_call (MShlImm r s) = shlImm r s"
| "emit_call (MShlCl r) = shlCl r"
| "emit_call (MShrImm r s) = shrImm r s"
| "emit_call (MSarCl r) = sarCl r"
| "emit_call (MLoadByte r s q) = loadByte r s q"
| "emit_call (MMovqXmmR r s) = movqXmmR r s"
| "emit_call (MMovqRXmm r s) = movqRXmm r s"
| "emit_call (MAddsd r s) = addsd r s"
| "emit_call (MSubsd r s) = subsd r s"
| "emit_call (MMulsd r s) = mulsd r s"
| "emit_call (MDivsd r s) = divsd r s"
| "emit_call (MSqrtsd r s) = sqrtsd r s"
| "emit_call (MComisd r s) = comisd r s"
| "emit_call (MCvtsi2sd r s) = cvtsi2sd r s"
| "emit_call (MCvttsd2si r s) = cvttsd2si r s"
| "emit_call (MRoundsd r s q) = roundsd r s q"
| "emit_call MRepMovsb = repMovsb"
| "emit_call MRepStosb = repStosb"
| "emit_call MRepeCmpsb = repeCmpsb"
| "emit_call (MPush r) = push r"
| "emit_call (MPop r) = pop r"
| "emit_call MRet = ret"
| "emit_call MSyscall = syscall"
| "emit_call MLeave = leave"
| "emit_call MJmp = snd \<circ> jmp"
| "emit_call (MJcc r) = snd \<circ> jcc r"
| "emit_call MCall = snd \<circ> call"

text \<open>The instructions a call is meant to emit.\<close>

fun meaning :: "asm_call \<Rightarrow> instr list" where
  "meaning (MMovImm r s) = [IMovImm r s]"
| "meaning (MLoad r s) = [IMovLoad r (Indirect 5 s)]"
| "meaning (MStore r s) = [IMovStore (Indirect 5 s) r]"
| "meaning (MMovRR r s) = [IMovStore (Direct r) s]"
| "meaning (MAddRR r s) = [IAlu Add (Direct r) s]"
| "meaning (MSubRR r s) = [IAlu Sub (Direct r) s]"
| "meaning (MCmpRR r s) = [IAlu Cmp (Direct r) s]"
| "meaning (MXorRR r s) = [IAlu Xor (Direct r) s]"
| "meaning (MAndRR r s) = [IAlu And (Direct r) s]"
| "meaning (MOrRR r s) = [IAlu Or (Direct r) s]"
| "meaning (MImulRR r s) = [IImul r (Direct s)]"
| "meaning MCqo = [ICqo]"
| "meaning (MIdiv r) = [IIdiv (Direct r)]"
| "meaning (MNeg r) = [INeg (Direct r)]"
| "meaning (MIncR r) = [IInc (Direct r)]"
| "meaning (MDecR r) = [IDec (Direct r)]"
| "meaning (MTestRR r) = [ITest (Direct r) r]"
| "meaning (MSetccAx r) = [ISetcc (unat r mod 16) (Direct 0), IMovzxB 0 (Direct 0)]"
| "meaning (MAddImm r s) = [IAluImm Add (Direct r) s]"
| "meaning (MSubImm r s) = [IAluImm Sub (Direct r) s]"
| "meaning (MLoadInd r s) = [IMovLoad r (Indirect s 0)]"
| "meaning (MStoreInd r s) = [IMovStore (Indirect r 0) s]"
| "meaning (MLea r s q) = [ILea r (Indirect s q)]"
| "meaning (MLoadMem r s q) = [IMovLoad r (Indirect s q)]"
| "meaning (MStoreMem r s q) = [IMovStore (Indirect r s) q]"
| "meaning (MCmpImm r s) = [IAluImm Cmp (Direct r) s]"
| "meaning (MShlImm r s) = [IShl (Direct r) s]"
| "meaning (MShlCl r) = [IShlCl (Direct r)]"
| "meaning (MShrImm r s) = [IShr (Direct r) s]"
| "meaning (MSarCl r) = [ISarCl (Direct r)]"
| "meaning (MLoadByte r s q) = [IMovzxB r (Indirect s (scast q))]"
| "meaning (MMovqXmmR r s) = [IMovqTo r (Direct s)]"
| "meaning (MMovqRXmm r s) = [IMovqFrom (Direct r) s]"
| "meaning (MAddsd r s) = [ISd AddSd r (Direct s)]"
| "meaning (MSubsd r s) = [ISd SubSd r (Direct s)]"
| "meaning (MMulsd r s) = [ISd MulSd r (Direct s)]"
| "meaning (MDivsd r s) = [ISd DivSd r (Direct s)]"
| "meaning (MSqrtsd r s) = [ISd SqrtSd r (Direct s)]"
| "meaning (MComisd r s) = [IComisd r (Direct s)]"
| "meaning (MCvtsi2sd r s) = [ICvtsi2sd r (Direct s)]"
| "meaning (MCvttsd2si r s) = [ICvttsd2si r (Direct s)]"
| "meaning (MRoundsd r s q) = [IRoundsd r (Direct s) q]"
| "meaning MRepMovsb = [IRepMovsb]"
| "meaning MRepStosb = [IRepStosb]"
| "meaning MRepeCmpsb = [IRepeCmpsb]"
| "meaning (MPush r) = [IPush r]"
| "meaning (MPop r) = [IPop r]"
| "meaning MRet = [IRet]"
| "meaning MSyscall = [ISyscall]"
| "meaning MLeave = [ILeave]"
| "meaning MJmp = [IJmp 0]"
| "meaning (MJcc r) = [IJcc (unat r) 0]"
| "meaning MCall = [ICall 0]"

text \<open>The operands the methods are documented for: sixteen general registers, the first eight XMM registers where
  there is no REX byte, and bases that need neither a SIB byte nor, without displacement, the RIP-relative form.\<close>

definition base_ok :: "nat \<Rightarrow> bool" where
  "base_ok b \<longleftrightarrow> b < 16 \<and> b mod 8 \<noteq> 4"


fun call_ok :: "asm_call \<Rightarrow> bool" where
  "call_ok (MMovImm r s) = (r < 16)"
| "call_ok (MLoad r s) = (r < 16)"
| "call_ok (MStore r s) = (r < 16)"
| "call_ok (MMovRR r s) = (r < 16 \<and> s < 16)"
| "call_ok (MAddRR r s) = (r < 16 \<and> s < 16)"
| "call_ok (MSubRR r s) = (r < 16 \<and> s < 16)"
| "call_ok (MCmpRR r s) = (r < 16 \<and> s < 16)"
| "call_ok (MXorRR r s) = (r < 16 \<and> s < 16)"
| "call_ok (MAndRR r s) = (r < 16 \<and> s < 16)"
| "call_ok (MOrRR r s) = (r < 16 \<and> s < 16)"
| "call_ok (MImulRR r s) = (r < 16 \<and> s < 16)"
| "call_ok MCqo = True"
| "call_ok (MIdiv r) = (r < 16)"
| "call_ok (MNeg r) = (r < 16)"
| "call_ok (MIncR r) = (r < 16)"
| "call_ok (MDecR r) = (r < 16)"
| "call_ok (MTestRR r) = (r < 16)"
| "call_ok (MSetccAx r) = (unat r div 16 = 9)"
| "call_ok (MAddImm r s) = (r < 16)"
| "call_ok (MSubImm r s) = (r < 16)"
| "call_ok (MLoadInd r s) = (r < 16 \<and> base_ok s \<and> s mod 8 \<noteq> 5)"
| "call_ok (MStoreInd r s) = (base_ok r \<and> r mod 8 \<noteq> 5 \<and> s < 16)"
| "call_ok (MLea r s q) = (r < 16 \<and> base_ok s)"
| "call_ok (MLoadMem r s q) = (r < 16 \<and> base_ok s)"
| "call_ok (MStoreMem r s q) = (base_ok r \<and> q < 16)"
| "call_ok (MCmpImm r s) = (r < 16)"
| "call_ok (MShlImm r s) = (r < 16)"
| "call_ok (MShlCl r) = (r < 16)"
| "call_ok (MShrImm r s) = (r < 16)"
| "call_ok (MSarCl r) = (r < 16)"
| "call_ok (MLoadByte r s q) = (r < 16 \<and> base_ok s)"
| "call_ok (MMovqXmmR r s) = (r < 16 \<and> s < 16)"
| "call_ok (MMovqRXmm r s) = (r < 16 \<and> s < 16)"
| "call_ok (MAddsd r s) = (r < 8 \<and> s < 8)"
| "call_ok (MSubsd r s) = (r < 8 \<and> s < 8)"
| "call_ok (MMulsd r s) = (r < 8 \<and> s < 8)"
| "call_ok (MDivsd r s) = (r < 8 \<and> s < 8)"
| "call_ok (MSqrtsd r s) = (r < 8 \<and> s < 8)"
| "call_ok (MComisd r s) = (r < 8 \<and> s < 8)"
| "call_ok (MCvtsi2sd r s) = (r < 16 \<and> s < 16)"
| "call_ok (MCvttsd2si r s) = (r < 16 \<and> s < 16)"
| "call_ok (MRoundsd r s q) = (r < 8 \<and> s < 8)"
| "call_ok MRepMovsb = True"
| "call_ok MRepStosb = True"
| "call_ok MRepeCmpsb = True"
| "call_ok (MPush r) = (r < 16)"
| "call_ok (MPop r) = (r < 16)"
| "call_ok MRet = True"
| "call_ok MSyscall = True"
| "call_ok MLeave = True"
| "call_ok MJmp = True"
| "call_ok (MJcc r) = (unat r < 16)"
| "call_ok MCall = True"

section \<open>Every call emits its instructions\<close>

lemma ext_mod: "a < 16 \<Longrightarrow> ext (8 \<le> a) (a mod 8) = a"
  by (cases "a < 8") (auto simp: ext_def le_mod_geq)

lemma split_rex_rex [simp]: "split_rex (rex True a b # r) = (True, 8 \<le> a, 8 \<le> b, r)"
  by (simp add: split_rex_def rex_def)

lemma rex_not_prefix [simp]: "rex True a b \<noteq> 0x66" "rex True a b \<noteq> 0xF2" "rex True a b \<noteq> 0xF3"
  by (simp_all add: rex_def)

lemma rd_modrm_direct [simp]:
  "a < 16 \<Longrightarrow> b < 16 \<Longrightarrow> rd_modrm (8 \<le> a) (8 \<le> b) ((0xC0 OR mid a OR lo b) # r) = Some (a, Direct b, r)"
  by (simp add: rr_fields ext_mod)

lemma rd_modrm_disp32 [simp]:
  "a < 16 \<Longrightarrow> base_ok b \<Longrightarrow> rd_modrm (8 \<le> a) (8 \<le> b) ((0x80 OR mid a OR lo b) # le32 d @ r) = Some (a, Indirect b d, r)"
  by (simp add: rr_fields ext_mod base_ok_def)

lemma rd_modrm_disp8 [simp]:
  "a < 16 \<Longrightarrow> base_ok b \<Longrightarrow> rd_modrm (8 \<le> a) (8 \<le> b) ((0x40 OR mid a OR lo b) # d # r) = Some (a, Indirect b (scast d), r)"
  by (simp add: rr_fields ext_mod base_ok_def)

lemma rd_modrm_ind [simp]:
  "a < 16 \<Longrightarrow> base_ok b \<Longrightarrow> b mod 8 \<noteq> 5 \<Longrightarrow> rd_modrm (8 \<le> a) (8 \<le> b) ((mid a OR lo b) # r) = Some (a, Indirect b 0, r)"
  by (simp add: rr_fields ext_mod base_ok_def)

lemma rd_modrm_rbp [simp]:
  "a < 16 \<Longrightarrow> rd_modrm (8 \<le> a) False ((0x80 OR mid a OR 5) # le32 d @ r) = Some (a, Indirect 5 d, r)"
  by (simp add: rbp_fields ext_mod) (simp add: ext_def)

lemma rd_modrm_digit:
  assumes "b < 16"
  shows "rd_modrm False (8 \<le> b) ((0xC0 OR lo b) # r) = Some (0, Direct b, r)"
    "rd_modrm False (8 \<le> b) ((0xC8 OR lo b) # r) = Some (1, Direct b, r)"
    "rd_modrm False (8 \<le> b) ((0xD8 OR lo b) # r) = Some (3, Direct b, r)"
    "rd_modrm False (8 \<le> b) ((0xE0 OR lo b) # r) = Some (4, Direct b, r)"
    "rd_modrm False (8 \<le> b) ((0xE8 OR lo b) # r) = Some (5, Direct b, r)"
    "rd_modrm False (8 \<le> b) ((0xF8 OR lo b) # r) = Some (7, Direct b, r)"
  using assms by (simp_all add: digit_fields ext_mod) (simp_all add: ext_def)

declare rd_modrm.simps(2) [simp del]

lemmas emit_defs = u8_def u32_def u64_def memRbp_def RBP_def with_rm_def with_rm8_def with_rm32_def with_rel_def

lemma opcode_range:
  "unat (0xB8 OR lo r) div 8 = 23" "rmf (0xB8 OR lo r) = r mod 8"
  "unat (0x50 OR lo r) div 8 = 10" "rmf (0x50 OR lo r) = r mod 8"
  "unat (0x58 OR lo r) div 8 = 11" "rmf (0x58 OR lo r) = r mod 8"
  using mod8_cases [of r] unfolding lo_mod rmf_def by (elim insertE; simp)+

lemmas method_defs = movImm_def load_def store_def movRR_def alu_def addRR_def subRR_def cmpRR_def xorRR_def andRR_def
  orRR_def imulRR_def cqo_def idiv_def neg_def incR_def decR_def testRR_def setccAx_def addImm_def subImm_def loadInd_def
  storeInd_def lea_def loadMem_def storeMem_def cmpImm_def shlImm_def shlCl_def shrImm_def sarCl_def loadByte_def
  movqXmmR_def movqRXmm_def sseArith_def addsd_def subsd_def mulsd_def divsd_def sqrtsd_def comisd_def cvtsi2sd_def
  cvttsd2si_def roundsd_def repMovsb_def repStosb_def repeCmpsb_def push_def pop_def ret_def syscall_def leave_def
  jmp_def jcc_def call_def

lemma emit_call_append: "emit_call c code = code @ emit_call c []"
  by (cases c) (simp_all add: method_defs emit_defs Let_def)

lemma split_plain: "unat b div 16 \<noteq> 4 \<Longrightarrow> split_rex (b # r) = (False, False, False, b # r)"
  by (simp add: split_rex_def)

lemma push_pop_bytes:
  "unat (0x50 OR lo r) div 16 = 5" "unat (0x58 OR lo r) div 16 = 5"
  "0x50 OR lo r \<noteq> 0x66" "0x50 OR lo r \<noteq> 0xF2" "0x50 OR lo r \<noteq> 0xF3"
  "0x58 OR lo r \<noteq> 0x66" "0x58 OR lo r \<noteq> 0xF2" "0x58 OR lo r \<noteq> 0xF3"
  using mod8_cases [of r] unfolding lo_mod by (elim insertE; simp)+

lemma decode_rex:
  "decode (rex True a b # op # r) = decode_w (8 \<le> a) (8 \<le> b) op r"
  by (simp add: decode_def)

lemma decode_66_rex: "decode (0x66 # rex True a b # r) = decode_66 True (8 \<le> a) (8 \<le> b) r"
  by (simp add: decode_def)

lemma decode_F2_rex: "decode (0xF2 # rex True a b # r) = decode_F2 True (8 \<le> a) (8 \<le> b) r"
  by (simp add: decode_def)

lemma xmm_direct: "a < 8 \<Longrightarrow> b < 8 \<Longrightarrow> rd_modrm False False ((0xC0 OR mid a OR lo b) # r) = Some (a, Direct b, r)"
  using rd_modrm_direct [of a b r] by (simp add: not_le)

lemmas dec_simps = decode_rex decode_66_rex decode_F2_rex decode_w_def decode_66_def decode_F2_def emit_defs method_defs
  rd_modrm_digit alu_of_def xmm_direct

lemma decode_rr:
  assumes "a < 16" "b < 16"
  shows "decode (movRR a b [] @ t) = Some (IMovStore (Direct a) b, t)"
    "decode (addRR a b [] @ t) = Some (IAlu Add (Direct a) b, t)"
    "decode (subRR a b [] @ t) = Some (IAlu Sub (Direct a) b, t)"
    "decode (cmpRR a b [] @ t) = Some (IAlu Cmp (Direct a) b, t)"
    "decode (xorRR a b [] @ t) = Some (IAlu Xor (Direct a) b, t)"
    "decode (andRR a b [] @ t) = Some (IAlu And (Direct a) b, t)"
    "decode (orRR a b [] @ t) = Some (IAlu Or (Direct a) b, t)"
    "decode (imulRR a b [] @ t) = Some (IImul a (Direct b), t)"
    "decode (movqXmmR a b [] @ t) = Some (IMovqTo a (Direct b), t)"
    "decode (movqRXmm a b [] @ t) = Some (IMovqFrom (Direct a) b, t)"
    "decode (cvtsi2sd a b [] @ t) = Some (ICvtsi2sd a (Direct b), t)"
    "decode (cvttsd2si a b [] @ t) = Some (ICvttsd2si a (Direct b), t)"
  using assms by (simp_all add: dec_simps)

lemma decode_reg:
  assumes "a < 16"
  shows "decode (movImm a v [] @ t) = Some (IMovImm a v, t)"
    "decode (idiv a [] @ t) = Some (IIdiv (Direct a), t)"
    "decode (neg a [] @ t) = Some (INeg (Direct a), t)"
    "decode (incR a [] @ t) = Some (IInc (Direct a), t)"
    "decode (decR a [] @ t) = Some (IDec (Direct a), t)"
    "decode (testRR a [] @ t) = Some (ITest (Direct a) a, t)"
    "decode (addImm a i [] @ t) = Some (IAluImm Add (Direct a) i, t)"
    "decode (subImm a i [] @ t) = Some (IAluImm Sub (Direct a) i, t)"
    "decode (cmpImm a i [] @ t) = Some (IAluImm Cmp (Direct a) i, t)"
    "decode (shlImm a d [] @ t) = Some (IShl (Direct a) d, t)"
    "decode (shrImm a d [] @ t) = Some (IShr (Direct a) d, t)"
    "decode (shlCl a [] @ t) = Some (IShlCl (Direct a), t)"
    "decode (sarCl a [] @ t) = Some (ISarCl (Direct a), t)"
  using assms by (simp_all add: dec_simps opcode_range ext_mod)

lemma decode_mem:
  assumes "a < 16"
  shows "decode (load a d [] @ t) = Some (IMovLoad a (Indirect 5 d), t)"
    "decode (store a d [] @ t) = Some (IMovStore (Indirect 5 d) a, t)"
    "base_ok b \<Longrightarrow> b mod 8 \<noteq> 5 \<Longrightarrow> decode (loadInd a b [] @ t) = Some (IMovLoad a (Indirect b 0), t)"
    "base_ok b \<Longrightarrow> b mod 8 \<noteq> 5 \<Longrightarrow> decode (storeInd b a [] @ t) = Some (IMovStore (Indirect b 0) a, t)"
    "base_ok b \<Longrightarrow> decode (lea a b d [] @ t) = Some (ILea a (Indirect b d), t)"
    "base_ok b \<Longrightarrow> decode (loadMem a b d [] @ t) = Some (IMovLoad a (Indirect b d), t)"
    "base_ok b \<Longrightarrow> decode (storeMem b d a [] @ t) = Some (IMovStore (Indirect b d) a, t)"
    "base_ok b \<Longrightarrow> decode (loadByte a b e [] @ t) = Some (IMovzxB a (Indirect b (scast e)), t)"
  using assms by (simp_all add: dec_simps)

lemma decode_xmm:
  assumes "a < 8" "b < 8"
  shows "decode (addsd a b [] @ t) = Some (ISd AddSd a (Direct b), t)"
    "decode (subsd a b [] @ t) = Some (ISd SubSd a (Direct b), t)"
    "decode (mulsd a b [] @ t) = Some (ISd MulSd a (Direct b), t)"
    "decode (divsd a b [] @ t) = Some (ISd DivSd a (Direct b), t)"
    "decode (sqrtsd a b [] @ t) = Some (ISd SqrtSd a (Direct b), t)"
    "decode (comisd a b [] @ t) = Some (IComisd a (Direct b), t)"
    "decode (roundsd a b d [] @ t) = Some (IRoundsd a (Direct b) d, t)"
  using assms by (simp_all add: dec_simps decode_def split_plain sd_of_def)

lemma rd32_zero: "rd32 (le32 0 @ t) = Some (0, t)"
  by (rule rd32_le32)

lemma jcc_byte: "unat (cc :: byte) < 16 \<Longrightarrow> unat (0x80 OR cc) div 16 = 8 \<and> unat (0x80 OR cc) mod 16 = unat cc \<and> 0x80 OR cc \<noteq> 0x05"
proof -
  assume "unat cc < 16"
  then have "unat cc \<in> {0, 1, 2, 3, 4, 5, 6, 7, 8, 9, 10, 11, 12, 13, 14, 15}" by (simp, presburger)
  moreover have "cc = word_of_nat (unat cc)" by simp
  ultimately show ?thesis by (elim insertE) auto
qed

lemma decode_misc:
  "decode (cqo [] @ t) = Some (ICqo, t)" "decode (repMovsb [] @ t) = Some (IRepMovsb, t)"
  "decode (repStosb [] @ t) = Some (IRepStosb, t)" "decode (repeCmpsb [] @ t) = Some (IRepeCmpsb, t)"
  "decode (ret [] @ t) = Some (IRet, t)" "decode (syscall [] @ t) = Some (ISyscall, t)" "decode (leave [] @ t) = Some (ILeave, t)"
  by (simp_all add: method_defs emit_defs decode_def split_rex_def decode_w_def decode_plain_def decode_F3_def)

lemma decode_stack:
  "a < 16 \<Longrightarrow> decode (push a [] @ t) = Some (IPush a, t)" "a < 16 \<Longrightarrow> decode (pop a [] @ t) = Some (IPop a, t)"
  using ext_mod [of a]
  by (auto simp: method_defs emit_defs decode_def split_plain push_pop_bytes split_rex_def decode_plain_def opcode_range)

lemma decode_jump:
  "decode ([0xE9] @ le32 v @ t) = Some (IJmp v, t)" "decode ([0xE8] @ le32 v @ t) = Some (ICall v, t)"
  "unat cc < 16 \<Longrightarrow> decode ([0x0F, 0x80 OR cc] @ le32 v @ t) = Some (IJcc (unat cc) v, t)"
  using jcc_byte [of cc]
  by (simp_all add: decode_def split_plain decode_plain_def with_rel_def)

lemma decode_setcc:
  "unat cc div 16 = 9 \<Longrightarrow> decode (setccAx cc [] @ t) = Some (ISetcc (unat cc mod 16) (Direct 0), [0x48, 0x0F, 0xB6, 0xC0] @ t)"
  "decode ([0x48, 0x0F, 0xB6, 0xC0] @ t) = Some (IMovzxB 0 (Direct 0), t)"
  by (auto simp: method_defs emit_defs decode_def split_rex_def decode_plain_def decode_w_def rd_modrm.simps md_def rg_def rmf_def ext_def)

lemma decode_all_step:
  "decode bs = Some (i, t) \<Longrightarrow> length t < length bs \<Longrightarrow> decode_all bs = map_option (Cons i) (decode_all t)"
  by (subst decode_all.simps) auto

lemma decode_call:
  assumes "call_ok c" "meaning c = [i]" shows "decode (emit_call c [] @ t) = Some (i, t)"
  using assms
  by (cases c)
    (auto simp: decode_rr decode_reg decode_mem decode_xmm decode_misc decode_stack
      jmp_def jcc_def call_def Let_def u8_def u32_def decode_jump [simplified])

lemma emit_call_nonempty: "emit_call c [] \<noteq> []"
  by (cases c) (simp_all add: method_defs emit_defs Let_def)

lemma decode_all_call:
  assumes "call_ok c"
  shows "decode_all (emit_call c [] @ t) = map_option ((@) (meaning c)) (decode_all t)"
proof (cases "\<exists>cc. c = MSetccAx cc")
  case True
  then obtain cc where c: "c = MSetccAx cc" by blast
  let ?mid = "[0x48, 0x0F, 0xB6, 0xC0] @ t"
  have "decode_all (emit_call c [] @ t) = map_option (Cons (ISetcc (unat cc mod 16) (Direct 0))) (decode_all ?mid)"
    using decode_setcc(1) [of cc t] assms unfolding c
    by (intro decode_all_step) (simp_all add: setccAx_def u8_def)
  also have "decode_all ?mid = map_option (Cons (IMovzxB 0 (Direct 0))) (decode_all t)"
    using decode_setcc(2) [of t] by (intro decode_all_step) simp_all
  finally show ?thesis unfolding c by (cases "decode_all t") simp_all
next
  case False
  then obtain i where i: "meaning c = [i]" by (cases c) auto
  have "decode_all (emit_call c [] @ t) = map_option (Cons i) (decode_all t)"
    using decode_call [OF assms i] emit_call_nonempty [of c] by (intro decode_all_step) auto
  then show ?thesis unfolding i by (cases "decode_all t") simp_all
qed

text \<open>
  C7. The assembler emits what its methods say. Whatever sequence of methods is called, with registers in range and
  bases the encoding allows, decoding the code buffer by the architecture's rules gives exactly the intended
  instructions, with their registers, displacements and immediates, in order and with no byte left over.
\<close>

theorem asm_decodes:
  assumes "list_all call_ok cs"
  shows "decode_all (fold emit_call cs []) = Some (concat (map meaning cs))"
proof -
  have f: "fold emit_call cs code = code @ concat (map (\<lambda>c. emit_call c []) cs)" for code
  proof (induction cs arbitrary: code)
    case (Cons c cs)
    then show ?case using emit_call_append [of c code] by simp
  qed simp
  have "decode_all (concat (map (\<lambda>c. emit_call c []) cs)) = Some (concat (map meaning cs))"
    using assms
  proof (induction cs)
    case Nil
    show ?case by (subst decode_all.simps) simp
  next
    case (Cons c cs)
    then show ?case by (simp add: decode_all_call)
  qed
  then show ?thesis by (simp add: f)
qed

theorem asm_decodes_witness:
  "decode_all (fold emit_call [MPush 5, MMovRR 5 4, MMovImm 10 42, MStore 10 (- 8), MCmpImm 0 7, MSetccAx 0x94, MLoadMem 8 3 16, MRet] []) =
   Some [IPush 5, IMovStore (Direct 5) 4, IMovImm 10 42, IMovStore (Indirect 5 (- 8)) 10, IAluImm Cmp (Direct 0) 7,
         ISetcc 4 (Direct 0), IMovzxB 0 (Direct 0), IMovLoad 8 (Indirect 3 16), IRet]"
  using asm_decodes [of "[MPush 5, MMovRR 5 4, MMovImm 10 42, MStore 10 (- 8), MCmpImm 0 7, MSetccAx 0x94, MLoadMem 8 3 16, MRet]"]
  by (simp add: base_ok_def)

section \<open>Patched jumps\<close>

lemma signed_low_byte:
  fixes v :: "32 word"
  assumes "n \<le> 24" shows "(ucast (signed_drop_bit n v AND 0xff) :: byte) = ucast (drop_bit n v AND 0xff)"
  using assms by (intro bit_word_eqI) (auto simp: bit_simps)

lemma patchRel_le32:
  assumes "at = length xs" "length old = 4"
  shows "patchRel at target (xs @ old @ t) = xs @ le32 (word_of_int (int target - int (at + 4))) @ t"
proof -
  obtain a b c d where old: "old = [a, b, c, d]"
    using assms(2) by (auto simp: numeral_eq_Suc length_Suc_conv)
  have "ucast (signed_drop_bit (8 * i) v AND 0xff) = (ucast (drop_bit (8 * i) v AND 0xff) :: byte)" if "i \<le> 3"
    for i and v :: "32 word"
    using signed_low_byte [of "8 * i" v] that by simp
  from this [of 0] this [of 1] this [of 2] this [of 3] show ?thesis
    by (simp add: patchRel_def Let_def old assms(1) le32_def list_update_append)
qed

lemma sint_in_range: "- (2 ^ 31) \<le> k \<Longrightarrow> k < 2 ^ 31 \<Longrightarrow> sint (word_of_int k :: 32 word) = k"
  by (simp add: signed_of_int signed_take_bit_int_eq_self)

text \<open>The three kinds of jump, as the method emits them and as they decode.\<close>

datatype jump = JJmp | JCall | JCc byte

fun emit_jump :: "jump \<Rightarrow> asm \<Rightarrow> nat \<times> asm" where
  "emit_jump JJmp c = jmp c"
| "emit_jump JCall c = call c"
| "emit_jump (JCc cc) c = jcc cc c"

fun jump_instr :: "jump \<Rightarrow> 32 word \<Rightarrow> instr" where
  "jump_instr JJmp rel = IJmp rel"
| "jump_instr JCall rel = ICall rel"
| "jump_instr (JCc cc) rel = IJcc (unat cc) rel"

fun jump_ok :: "jump \<Rightarrow> bool" where
  "jump_ok (JCc cc) = (unat cc < 16)"
| "jump_ok _ = True"

lemma emit_jump_bytes:
  "\<exists>op. emit_jump j c = (length c + length op, c @ op @ le32 0) \<and>
     (jump_ok j \<longrightarrow> (\<forall>v t. decode (op @ le32 v @ t) = Some (jump_instr j v, t)))"
proof (cases j)
  case JJmp
  then show ?thesis using decode_jump(1) by (intro exI [of _ "[0xE9]"]) (simp add: jmp_def here_def u8_def u32_def Let_def)
next
  case JCall
  then show ?thesis using decode_jump(2) by (intro exI [of _ "[0xE8]"]) (simp add: call_def here_def u8_def u32_def Let_def)
next
  case (JCc cc)
  then show ?thesis using decode_jump(3) [of cc]
    by (intro exI [of _ "[0x0F, 0x80 OR cc]"]) (simp add: jcc_def here_def u8_def u32_def Let_def)
qed

text \<open>
  C18. A patched jump goes where it was patched to. After emitting a jump, a conditional jump or a call, any further
  code, and patching the returned offset with a target less than \<open>2\<^sup>31\<close> bytes away, the instruction at the jump
  decodes as that jump with a displacement that, counted from the end of the instruction, reaches the target; the
  code before and after it is unchanged.
\<close>

theorem patchRel_target:
  assumes "jump_ok j" "emit_jump j c = (at, c1)" "- (2 ^ 31) \<le> int target - int (at + 4)" "int target - int (at + 4) < 2 ^ 31"
  shows "\<exists>rel. decode (drop (length c) (patchRel at target (c1 @ rest))) = Some (jump_instr j rel, rest) \<and>
    int (length c1) + sint rel = int target \<and> take (length c) (patchRel at target (c1 @ rest)) = c"
proof -
  obtain opc where opc: "emit_jump j c = (length c + length opc, c @ opc @ le32 0)"
    "\<And>v t. decode (opc @ le32 v @ t) = Some (jump_instr j v, t)"
    using emit_jump_bytes [of j c] assms(1) by auto
  then have at: "at = length (c @ opc)" "c1 = (c @ opc) @ le32 0" using assms(2) by simp_all
  define rel :: "32 word" where "rel = word_of_int (int target - int (at + 4))"
  have l: "length (le32 v) = 4" for v by (simp add: le32_def)
  have p: "patchRel at target (c1 @ rest) = (c @ opc) @ le32 rel @ rest"
    unfolding at(2) append_assoc [of "c @ opc"] rel_def by (rule patchRel_le32 [OF at(1) l])
  have "sint rel = int target - int (at + 4)" unfolding rel_def by (rule sint_in_range [OF assms(3,4)])
  moreover have "length c1 = at + 4" by (simp add: at l)
  ultimately have "int (length c1) + sint rel = int target" by simp
  then show ?thesis by (intro exI [of _ rel]) (simp add: p opc(2))
qed

theorem patchRel_target_witness:
  "\<exists>rel. decode (drop 1 (patchRel 3 0 (snd (jcc 0xC (ret [])) @ leave []))) = Some (IJcc 12 rel, leave []) \<and> sint rel = - 7"
proof -
  have j: "emit_jump (JCc 0xC) (ret []) = (3, snd (jcc 0xC (ret [])))"
    by (simp add: jcc_def ret_def u8_def here_def Let_def)
  have "length (snd (jcc 0xC (ret []))) = 7" "length (ret []) = 1"
    by (simp_all add: jcc_def ret_def u8_def u32_def le32_def here_def Let_def)
  with patchRel_target [OF _ j, of 0 "leave []"] show ?thesis by auto
qed

end
