(* ===== verification/X64_Elf.thy ===== *)
theory X64_Elf
  imports X64_Decode
begin

unbundle bit_operations_syntax

text \<open>
  \<open>makeElf\<close> of \<open>src/X64.cpp\<close>, which wraps code and data into a static executable, against a model of the
  loader: the fields of the ELF and program headers at the offsets of the format, and the segment they map.
\<close>

section \<open>Writing the file\<close>

definition le16 :: "16 word \<Rightarrow> byte list" where
  "le16 v = [ucast (v AND 0xff), ucast (drop_bit 8 v AND 0xff)]"

text \<open>\<open>memcpy\<close> into the buffer.\<close>

definition put :: "nat \<Rightarrow> byte list \<Rightarrow> byte list \<Rightarrow> byte list" where
  "put off bs out = take off out @ bs @ drop (off + length bs) out"

definition BASE :: nat where "BASE = 0x400000"
definition EHSIZE :: nat where "EHSIZE = 64"
definition PHSIZE :: nat where "PHSIZE = 56"

text \<open>The writes to the two headers, in the order of the source.\<close>

definition elf_fields :: "64 word \<Rightarrow> (nat \<times> byte list) list" where
  "elf_fields entry =
     [(0, [0x7f]), (1, [0x45]), (2, [0x4c]), (3, [0x46]), (4, [2]), (5, [1]), (6, [1]),
      (16, le16 2), (18, le16 0x3e), (20, le32 1), (24, le64 entry), (32, le64 (word_of_nat EHSIZE)), (40, le64 0),
      (48, le32 0), (52, le16 (word_of_nat EHSIZE)), (54, le16 (word_of_nat PHSIZE)), (56, le16 1), (58, le16 0),
      (60, le16 0), (62, le16 0)]"

definition program_fields :: "64 word \<Rightarrow> (nat \<times> byte list) list" where
  "program_fields fileSize =
     [(EHSIZE + 0, le32 1), (EHSIZE + 4, le32 7), (EHSIZE + 8, le64 0), (EHSIZE + 16, le64 (word_of_nat BASE)),
      (EHSIZE + 24, le64 (word_of_nat BASE)), (EHSIZE + 32, le64 fileSize), (EHSIZE + 40, le64 fileSize),
      (EHSIZE + 48, le64 0x1000)]"

definition put_all :: "(nat \<times> byte list) list \<Rightarrow> byte list \<Rightarrow> byte list" where
  "put_all ps = fold (\<lambda>(off, bs). put off bs) ps"

definition makeElf :: "byte list \<Rightarrow> nat \<Rightarrow> byte list \<Rightarrow> byte list \<times> nat" where
  "makeElf code entryOffset data =
     (let codeOff = EHSIZE + PHSIZE;
          dataOff = codeOff + length code;
          fileSize = dataOff + length data;
          entry = BASE + codeOff + entryOffset;
          out = put_all (program_fields (word_of_nat fileSize)) (put_all (elf_fields (word_of_nat entry)) (replicate fileSize 0));
          out1 = (if code \<noteq> [] then put codeOff code out else out);
          out2 = (if data \<noteq> [] then put dataOff data out1 else out1)
      in (out2, BASE + dataOff))"

section \<open>Reading it as a loader does\<close>

definition slice_at :: "nat \<Rightarrow> nat \<Rightarrow> byte list \<Rightarrow> byte list" where
  "slice_at off n bs = take n (drop off bs)"

definition le_val :: "byte list \<Rightarrow> nat" where
  "le_val bs = foldr (\<lambda>b v. unat b + 256 * v) bs 0"

abbreviation field :: "nat \<Rightarrow> nat \<Rightarrow> byte list \<Rightarrow> nat" where
  "field off n bs \<equiv> le_val (slice_at off n bs)"

text \<open>A 64-bit little-endian x86-64 executable with one loadable segment: its entry point and the bytes at
  each virtual address. The file must hold both headers and the segment, and the segment's address must agree with its
  offset modulo the alignment.\<close>

definition elf_load :: "byte list \<Rightarrow> (nat \<times> (nat \<Rightarrow> byte option)) option" where
  "elf_load f =
     (let phoff = field 32 8 f; off = field (phoff + 8) 8 f; vaddr = field (phoff + 16) 8 f;
          filesz = field (phoff + 32) 8 f; align = field (phoff + 48) 8 f
      in if 64 \<le> length f \<and> slice_at 0 7 f = [0x7f, 0x45, 0x4c, 0x46, 2, 1, 1] \<and>
            field 16 2 f = 2 \<and> field 18 2 f = 0x3e \<and> field 54 2 f = 56 \<and> field 56 2 f = 1 \<and>
            phoff + 56 \<le> length f \<and> field phoff 4 f = 1 \<and> field (phoff + 4) 4 f = 7 \<and>
            filesz = field (phoff + 40) 8 f \<and> off + filesz \<le> length f \<and> 0 < align \<and> vaddr mod align = off mod align
         then Some (field 24 8 f, \<lambda>a. if vaddr \<le> a \<and> a < vaddr + filesz then Some (f ! (off + (a - vaddr))) else None)
         else None)"

section \<open>The executable loads\<close>

lemma length_le [simp]: "length (le16 v) = 2" "length (le32 w) = 4" "length (le64 x) = 8"
  by (simp_all add: le16_def le32_def le64_def)

lemma length_put [simp]: "off + length bs \<le> length out \<Longrightarrow> length (put off bs out) = length out"
  by (simp add: put_def)

lemma slice_put_same: "off + length bs \<le> length out \<Longrightarrow> n = length bs \<Longrightarrow> slice_at off n (put off bs out) = bs"
  by (simp add: slice_at_def put_def)

lemma slice_put_other:
  assumes "off + length bs \<le> length out" "o' + n \<le> off \<or> off + length bs \<le> o'"
  shows "slice_at o' n (put off bs out) = slice_at o' n out"
proof (cases "o' + n \<le> off")
  case True
  then show ?thesis using assms(1) by (simp add: slice_at_def put_def drop_take min_absorb1)
next
  case False
  then have "off + length bs \<le> o'" using assms(2) by simp
  then have "drop o' (put off bs out) = drop o' out" using assms(1) by (simp add: put_def)
  then show ?thesis by (simp add: slice_at_def)
qed

lemma nth_put:
  assumes "off + length bs \<le> length out" "i < length out"
  shows "put off bs out ! i = (if off \<le> i \<and> i < off + length bs then bs ! (i - off) else out ! i)"
  using assms by (auto simp: put_def nth_append min_absorb2)

lemma le_val_le32: "le_val (le32 v) = unat v"
proof -
  let ?b = "\<lambda>i. ucast (drop_bit (8 * i) v AND 0xff) :: byte"
  have b: "unat (?b i) = unat v div 2 ^ (8 * i) mod 256" for i by (rule unat_byte_of) simp
  have "unat v < 2 ^ 32" using unsigned_less [of v] by simp
  then have n: "unat (?b 0) + 256 * (unat (?b 1) + 256 * (unat (?b 2) + 256 * unat (?b 3))) = unat v"
    unfolding b by (rule digits256)
  then show ?thesis by (simp add: le_val_def le32_def)
qed

lemma le_val_append: "le_val (a @ b) = le_val a + 256 ^ length a * le_val b"
  by (induction a) (simp_all add: le_val_def algebra_simps)

lemma le_val_le64: "le_val (le64 v) = unat v"
proof -
  have u: "unat v < 2 ^ 64" using unsigned_less [of v] by simp
  have lo: "unat (ucast v :: 32 word) = unat v mod 2 ^ 32" by (simp add: unsigned_ucast_eq take_bit_eq_mod)
  have "unat (ucast (drop_bit 32 v) :: 32 word) = unat v div 2 ^ 32 mod 2 ^ 32"
    by (simp only: unsigned_ucast_eq unat_drop_bit_eq) (simp add: take_bit_eq_mod drop_bit_eq_div)
  also have "\<dots> = unat v div 2 ^ 32" using u by (simp add: less_mult_imp_div_less)
  finally show ?thesis unfolding le64_le32 le_val_append le_val_le32 lo by simp
qed

lemma le_val_le16: "v \<in> {0, 1, 2, 0x3e, 56, 64} \<Longrightarrow> le_val (le16 v) = unat v"
  by (auto simp: le_val_def le16_def)

lemma le_val_byte: "le_val [b] = unat b"
  by (simp add: le_val_def)

text \<open>Writes in increasing, disjoint ranges: every field reads back what was written to it.\<close>

definition in_order :: "nat \<Rightarrow> (nat \<times> byte list) list \<Rightarrow> bool" where
  "in_order n ps \<longleftrightarrow>
     sorted_wrt (\<lambda>a b. fst a + length (snd a) \<le> fst b) ps \<and> list_all (\<lambda>a. fst a + length (snd a) \<le> n) ps"

lemma put_all_Cons: "put_all (a # ps) out = put_all ps (put (fst a) (snd a) out)"
  by (simp add: put_all_def split_beta)

lemma length_put_all: "in_order (length out) ps \<Longrightarrow> length (put_all ps out) = length out"
  by (induction ps arbitrary: out) (auto simp: put_all_Cons in_order_def put_all_def [of "[]"])

lemma slice_put_all_other:
  "in_order (length out) ps \<Longrightarrow> list_all (\<lambda>a. i + n \<le> fst a \<or> fst a + length (snd a) \<le> i) ps \<Longrightarrow>
   slice_at i n (put_all ps out) = slice_at i n out"
  by (induction ps arbitrary: out) (auto simp: put_all_Cons in_order_def slice_put_other put_all_def [of "[]"])

lemma slice_put_all:
  "in_order (length out) ps \<Longrightarrow> (i, bs) \<in> set ps \<Longrightarrow> slice_at i (length bs) (put_all ps out) = bs"
proof (induction ps arbitrary: out)
  case (Cons a ps)
  have io: "in_order (length (put (fst a) (snd a) out)) ps" using Cons.prems(1) by (simp add: in_order_def)
  show ?case
  proof (cases "a = (i, bs)")
    case True
    have "list_all (\<lambda>b. i + length bs \<le> fst b \<or> fst b + length (snd b) \<le> i) ps"
      using Cons.prems(1) True by (auto simp: in_order_def list_all_iff)
    with slice_put_all_other [OF io this] Cons.prems(1) True show ?thesis
      by (simp add: put_all_Cons slice_put_same in_order_def)
  next
    case False
    then show ?thesis using Cons.IH [OF io] Cons.prems(2) by (simp add: put_all_Cons)
  qed
qed simp

lemma in_order_fields: "120 \<le> n \<Longrightarrow> in_order n (elf_fields e)" "120 \<le> n \<Longrightarrow> in_order n (program_fields w)"
  by (simp_all add: in_order_def elf_fields_def program_fields_def EHSIZE_def)

text \<open>Both headers written, then code and data after them.\<close>

definition headers :: "64 word \<Rightarrow> 64 word \<Rightarrow> byte list \<Rightarrow> byte list" where
  "headers entry fileSize out = put_all (program_fields fileSize) (put_all (elf_fields entry) out)"

lemma length_headers: "120 \<le> length out \<Longrightarrow> length (headers e w out) = length out"
  by (simp add: headers_def length_put_all in_order_fields)

lemma headers_elf:
  assumes "120 \<le> length out" "(i, bs) \<in> set (elf_fields e)" "n = length bs"
  shows "slice_at i n (headers e w out) = bs"
proof -
  have "list_all (\<lambda>a. i + length bs \<le> fst a \<or> fst a + length (snd a) \<le> i) (program_fields w)"
    using assms(2) by (auto simp: elf_fields_def program_fields_def EHSIZE_def)
  then show ?thesis
    using assms by (simp add: headers_def slice_put_all_other slice_put_all in_order_fields length_put_all)
qed

lemma headers_program:
  assumes "120 \<le> length out" "(i, bs) \<in> set (program_fields w)" "n = length bs"
  shows "slice_at i n (headers e w out) = bs"
  using assms by (simp add: headers_def slice_put_all in_order_fields length_put_all)

definition elf_file :: "byte list \<Rightarrow> nat \<Rightarrow> byte list \<Rightarrow> byte list" where
  "elf_file code entryOffset data = fst (makeElf code entryOffset data)"

lemma elf_file_eq:
  "elf_file code e data =
   (let n = 120 + length code + length data; h = headers (word_of_nat (0x400078 + e)) (word_of_nat n) (replicate n 0)
    in put (120 + length code) data (put 120 code h))"
proof -
  have "put off [] xs = xs" for off xs by (simp add: put_def)
  then show ?thesis
    by (auto simp: elf_file_def makeElf_def headers_def Let_def EHSIZE_def PHSIZE_def BASE_def)
qed

lemma elf_file_length: "length (elf_file code e data) = 120 + length code + length data"
  by (simp add: elf_file_eq Let_def length_headers)

lemma elf_file_header:
  assumes "i + n \<le> 120"
  shows "slice_at i n (elf_file code e data) =
    slice_at i n (headers (word_of_nat (0x400078 + e)) (word_of_nat (120 + length code + length data))
      (replicate (120 + length code + length data) 0))"
  using assms by (simp add: elf_file_eq Let_def slice_put_other length_headers)

lemma elf_file_nth:
  "i < length code \<Longrightarrow> elf_file code e data ! (120 + i) = code ! i"
  "i < length data \<Longrightarrow> elf_file code e data ! (120 + length code + i) = data ! i"
  by (simp_all add: elf_file_eq Let_def nth_put length_headers)

lemma unat_of_small: "n < 2 ^ 64 \<Longrightarrow> unat (word_of_nat n :: 64 word) = n"
  by (simp add: unsigned_of_nat take_bit_nat_eq_self)

lemma elf_field_values:
  assumes "e < 2 ^ 32" "length code + length data < 2 ^ 32"
  defines "f \<equiv> elf_file code e data"
  shows "field 24 8 f = 0x400078 + e" "field 32 8 f = 64" "field 16 2 f = 2" "field 18 2 f = 0x3e"
    "field 54 2 f = 56" "field 56 2 f = 1" "field 64 4 f = 1" "field 68 4 f = 7" "field 72 8 f = 0"
    "field 80 8 f = 0x400000" "field 96 8 f = length f" "field 104 8 f = length f" "field 112 8 f = 0x1000"
proof -
  let ?n = "120 + length code + length data"
  have u: "unat (word_of_nat (0x400078 + e) :: 64 word) = 0x400078 + e" "unat (word_of_nat ?n :: 64 word) = ?n"
    using assms(1,2) by (intro unat_of_small; simp)+
  have E: "slice_at i n f = bs" if "(i, bs) \<in> set (elf_fields (word_of_nat (0x400078 + e)))" "n = length bs" "i + n \<le> 120" for i n bs
    unfolding f_def elf_file_header [OF that(3)] by (rule headers_elf [OF _ that(1,2)]) simp
  have P: "slice_at i n f = bs" if "(i, bs) \<in> set (program_fields (word_of_nat ?n))" "n = length bs" "i + n \<le> 120" for i n bs
    unfolding f_def elf_file_header [OF that(3)] by (rule headers_program [OF _ that(1,2)]) simp
  have "slice_at 24 8 f = le64 (word_of_nat (0x400078 + e))" "slice_at 32 8 f = le64 64" "slice_at 16 2 f = le16 2"
    "slice_at 18 2 f = le16 0x3e" "slice_at 54 2 f = le16 56" "slice_at 56 2 f = le16 1"
    by (rule E; simp add: elf_fields_def EHSIZE_def PHSIZE_def)+
  then show "field 24 8 f = 0x400078 + e" "field 32 8 f = 64" "field 16 2 f = 2" "field 18 2 f = 0x3e"
    "field 54 2 f = 56" "field 56 2 f = 1"
    by (simp_all only: u(1) le_val_le64 le_val_le16 insert_iff simp_thms) simp_all
  have "slice_at 64 4 f = le32 1" "slice_at 68 4 f = le32 7" "slice_at 72 8 f = le64 0"
    "slice_at 80 8 f = le64 (word_of_nat BASE)" "slice_at 96 8 f = le64 (word_of_nat ?n)"
    "slice_at 104 8 f = le64 (word_of_nat ?n)" "slice_at 112 8 f = le64 0x1000"
    by (rule P; simp add: program_fields_def EHSIZE_def)+
  then show "field 64 4 f = 1" "field 68 4 f = 7" "field 72 8 f = 0"
    "field 80 8 f = 0x400000" "field 96 8 f = length f" "field 104 8 f = length f" "field 112 8 f = 0x1000"
    unfolding f_def elf_file_length by (simp_all only: u(2) le_val_le64 le_val_le32) (simp_all add: BASE_def)
qed

lemma elf_magic: "slice_at 0 7 (elf_file code e data) = [0x7f, 0x45, 0x4c, 0x46, 2, 1, 1]"
proof -
  let ?f = "elf_file code e data" let ?n = "120 + length code + length data"
  have E: "slice_at i 1 ?f = bs" if "(i, bs) \<in> set (elf_fields (word_of_nat (0x400078 + e)))" "length bs = 1" "i < 120" for i bs
    using elf_file_header [of i 1 code e data] headers_elf [OF _ that(1), of "replicate ?n 0" 1] that(2,3) by simp
  have "slice_at 0 1 ?f = [0x7f]" "slice_at 1 1 ?f = [0x45]" "slice_at 2 1 ?f = [0x4c]" "slice_at 3 1 ?f = [0x46]"
    "slice_at 4 1 ?f = [2]" "slice_at 5 1 ?f = [1]" "slice_at 6 1 ?f = [1]"
    by (rule E; simp add: elf_fields_def)+
  moreover have "slice_at i (Suc n) ?f = slice_at i 1 ?f @ slice_at (Suc i) n ?f" if "i < 120" for i n
    using that elf_file_length [of code e data]
    by (simp add: slice_at_def Cons_nth_drop_Suc [symmetric])
  from this [of 0 6] this [of 1 5] this [of 2 4] this [of 3 3] this [of 4 2] this [of 5 1]
  have "slice_at 0 7 ?f = slice_at 0 1 ?f @ slice_at 1 1 ?f @ slice_at 2 1 ?f @ slice_at 3 1 ?f @ slice_at 4 1 ?f @
      slice_at 5 1 ?f @ slice_at 6 1 ?f"
    by (simp add: numeral_2_eq_2 numeral_3_eq_3 numeral_eq_Suc)
  ultimately show ?thesis by simp
qed

text \<open>
  C17. The executable runs the generated code. For an entry offset and sizes below \<open>2\<^sup>32\<close>, a loader accepts the file
  \<open>makeElf\<close> returns: it starts at the address of the entry offset in the code, every byte of the code and of the data is
  mapped at the address the code generator was told, and nothing is mapped outside the file.
\<close>

theorem makeElf_loads:
  assumes "entryOffset < 2 ^ 32" "length code + length data < 2 ^ 32" "makeElf code entryOffset data = (f, dataVAddr)"
  shows "\<exists>img. elf_load f = Some (0x400078 + entryOffset, img) \<and>
    (\<forall>i < length code. img (0x400078 + i) = Some (code ! i)) \<and>
    (\<forall>i < length data. img (dataVAddr + i) = Some (data ! i)) \<and>
    (\<forall>a. img a \<noteq> None \<longleftrightarrow> 0x400000 \<le> a \<and> a < 0x400078 + length code + length data)"
proof -
  have f: "f = elf_file code entryOffset data" "dataVAddr = 0x400078 + length code"
    using assms(3) by (simp_all add: elf_file_def makeElf_def Let_def EHSIZE_def PHSIZE_def BASE_def)
  note v = elf_field_values [OF assms(1,2), folded f(1)] and l = elf_file_length [of code entryOffset data, folded f(1)]
  let ?img = "\<lambda>a. if 0x400000 \<le> a \<and> a < 0x400000 + length f then Some (f ! (0 + (a - 0x400000))) else None"
  have "elf_load f = Some (0x400078 + entryOffset, ?img)"
    using elf_magic [of code entryOffset data, folded f(1)] by (simp add: elf_load_def Let_def v l cong: if_cong)
  moreover have "?img (0x400078 + i) = Some (code ! i)" if "i < length code" for i
    using elf_file_nth(1) [OF that, of entryOffset data, folded f(1)] that l by (simp add: add.commute)
  moreover have "?img (dataVAddr + i) = Some (data ! i)" if "i < length data" for i
    using elf_file_nth(2) [OF that, of code entryOffset, folded f(1)] that l by (simp add: f(2) ac_simps)
  moreover have "?img a \<noteq> None \<longleftrightarrow> 0x400000 \<le> a \<and> a < 0x400078 + length code + length data" for a
    using l by auto
  ultimately show ?thesis by (intro exI [of _ ?img]) blast
qed

theorem makeElf_loads_witness:
  "\<exists>img. elf_load (fst (makeElf (ret []) 0 [7])) = Some (0x400078, img) \<and> img 0x400078 = Some 0xC3 \<and> img 0x400079 = Some 7"
proof -
  have "makeElf (ret []) 0 [7] = (fst (makeElf (ret []) 0 [7]), snd (makeElf (ret []) 0 [7]))" by simp
  from makeElf_loads [OF _ _ this] obtain img where
    "elf_load (fst (makeElf (ret []) 0 [7])) = Some (0x400078, img)" "img 0x400078 = Some 0xC3"
    "img (snd (makeElf (ret []) 0 [7])) = Some 7"
    by (auto simp: ret_def u8_def)
  moreover have "snd (makeElf (ret []) 0 [7]) = 0x400079"
    by (simp add: makeElf_def Let_def ret_def u8_def EHSIZE_def PHSIZE_def BASE_def)
  ultimately show ?thesis by auto
qed

end
