(* ===== verification/Mem_Verify.thy ===== *)
theory Mem_Verify
  imports Ir Ordered_Map "HOL-Library.AList" "HOL-Library.Multiset" "HOL-Library.Product_Lexorder"
begin

text \<open>
  The memory verifier of \<open>src/ir/MemVerify.hpp\<close> and \<open>MemVerify.cpp\<close>, and the call the IR interpreter makes to it
  after every instruction. A \<open>shared_ptr\<close> of a value names a cell (its control block); \<open>loc c\<close> is the pointer
  of the cell, which another cell may have once \<open>c\<close> is released, and \<open>ex c\<close> says that no \<open>shared_ptr\<close> to \<open>c\<close> is
  left, that is, that a \<open>weak_ptr\<close> to it has expired. The verifier is given both and changes neither.

  The bookkeeping invariant holds on every run; the main theorem is that on a run on which no address is
  reused before the sweep that follows its release the census and the free schedule are those of the cells themselves.
\<close>

section \<open>State\<close>

record tracked =
  t_id :: int
  t_fn :: nat
  t_pc :: nat
  t_kind :: char
  t_weak :: "addr option"
  t_shadowRc :: int
  t_shadowFreed :: bool
  t_gone :: bool
  t_deadAtOp :: int

text \<open>\<open>objs\<close> is an association list; its order stands for the iteration order of the \<open>unordered_map\<close>.\<close>

record mem_verifier =
  mv_objs :: "(nat \<times> tracked) list"
  mv_live :: "nat list"
  mv_nextId :: int
  mv_opClock :: int
  mv_liveNow :: int
  mv_peakLive :: int
  mv_totalAllocs :: int
  mv_shadow :: bool
  mv_errors :: "string list"

definition new_verifier :: "bool \<Rightarrow> mem_verifier" where
  "new_verifier shadow = \<lparr>mv_objs = [], mv_live = [], mv_nextId = 1, mv_opClock = 0, mv_liveNow = 0, mv_peakLive = 0,
     mv_totalAllocs = 0, mv_shadow = shadow, mv_errors = []\<rparr>"

definition spOf :: "rt_value \<Rightarrow> addr option" where
  "spOf v = (case v_kind v of KObject \<Rightarrow> v_obj v | KArray \<Rightarrow> v_arr v | KMap \<Rightarrow> v_map v | KClosure \<Rightarrow> v_closure v | _ \<Rightarrow> None)"

definition keyOf :: "(addr \<Rightarrow> nat) \<Rightarrow> rt_value \<Rightarrow> nat option" where
  "keyOf loc v =
     (case v_kind v of KObject \<Rightarrow> map_option loc (v_obj v) | KArray \<Rightarrow> map_option loc (v_arr v)
      | KMap \<Rightarrow> map_option loc (v_map v) | KClosure \<Rightarrow> map_option loc (v_closure v) | _ \<Rightarrow> None)"

definition kindOf :: "rt_value \<Rightarrow> char" where
  "kindOf v = (case v_kind v of KObject \<Rightarrow> CHR ''o'' | KArray \<Rightarrow> CHR ''a'' | KMap \<Rightarrow> CHR ''m'' | KClosure \<Rightarrow> CHR ''c'' | _ \<Rightarrow> CHR ''?'')"

section \<open>Operations\<close>

definition new_tracked :: "int \<Rightarrow> nat \<Rightarrow> nat \<Rightarrow> char \<Rightarrow> addr \<Rightarrow> tracked" where
  "new_tracked i fn pc kind c = \<lparr>t_id = i, t_fn = fn, t_pc = pc, t_kind = kind, t_weak = Some c, t_shadowRc = 1,
     t_shadowFreed = False, t_gone = False, t_deadAtOp = - 1\<rparr>"

definition onAlloc :: "(addr \<Rightarrow> nat) \<Rightarrow> rt_value \<Rightarrow> nat \<Rightarrow> nat \<Rightarrow> mem_verifier \<Rightarrow> mem_verifier" where
  "onAlloc loc v fn pc mv =
     (case spOf v of
        None \<Rightarrow> mv
      | Some c \<Rightarrow>
          if (case map_of (mv_objs mv) (loc c) of Some t \<Rightarrow> \<not> t_gone t | None \<Rightarrow> False) then mv
          else
            let n = mv_liveNow mv + 1
            in mv\<lparr>mv_objs := AList.update (loc c) (new_tracked (mv_nextId mv) fn pc (kindOf v) c) (mv_objs mv),
                  mv_live := mv_live mv @ [loc c], mv_nextId := mv_nextId mv + 1,
                  mv_totalAllocs := mv_totalAllocs mv + 1, mv_liveNow := n,
                  mv_peakLive := (if n > mv_peakLive mv then n else mv_peakLive mv)\<rparr>)"

definition expired :: "(addr \<Rightarrow> bool) \<Rightarrow> tracked \<Rightarrow> bool" where
  "expired ex t = (case t_weak t of None \<Rightarrow> True | Some c \<Rightarrow> ex c)"

definition siteStr :: "tracked \<Rightarrow> string" where
  "siteStr t = ''#'' @ int_str (t_id t) @ '' '' @ [t_kind t] @ '' @fn'' @ nat_str (t_fn t) @ '':'' @ nat_str (t_pc t)"

text \<open>What a sweep does with a cell it sees expire for the first time.\<close>

definition leak_msg :: "mem_verifier \<Rightarrow> tracked \<Rightarrow> string" where
  "leak_msg mv t = siteStr t @ '' unreachable at op '' @ int_str (mv_opClock mv) @
     '' but the shadow ARC still holds it (refcount '' @ int_str (t_shadowRc t) @ '') -> LEAK''"

definition mark_dead :: "nat \<Rightarrow> tracked \<Rightarrow> mem_verifier \<Rightarrow> mem_verifier" where
  "mark_dead k t mv =
     mv\<lparr>mv_objs := AList.update k (t\<lparr>t_gone := True, t_deadAtOp := mv_opClock mv\<rparr>) (mv_objs mv),
        mv_liveNow := mv_liveNow mv - 1,
        mv_errors := (if mv_shadow mv \<and> \<not> t_shadowFreed t then mv_errors mv @ [leak_msg mv t] else mv_errors mv)\<rparr>"

definition swap_pop :: "nat \<Rightarrow> 'a list \<Rightarrow> 'a list" where
  "swap_pop i xs = butlast (xs[i := last xs])"

definition drop_live :: "nat \<Rightarrow> mem_verifier \<Rightarrow> mem_verifier" where
  "drop_live i mv = mv\<lparr>mv_live := swap_pop i (mv_live mv)\<rparr>"

lemma mv_live_steps [simp]: "mv_live (mark_dead k t mv) = mv_live mv" "mv_live (drop_live i mv) = swap_pop i (mv_live mv)"
  by (simp_all add: mark_dead_def drop_live_def)

lemma length_swap_pop [simp]: "length (swap_pop i xs) = length xs - 1"
  by (simp add: swap_pop_def)

function sweep_loop :: "(addr \<Rightarrow> bool) \<Rightarrow> nat \<Rightarrow> mem_verifier \<Rightarrow> mem_verifier" where
  "sweep_loop ex i mv =
     (if i < length (mv_live mv) then
        case map_of (mv_objs mv) (mv_live mv ! i) of
          None \<Rightarrow> sweep_loop ex i (drop_live i mv)
        | Some t \<Rightarrow>
            if t_gone t \<or> expired ex t then
              sweep_loop ex i (drop_live i (if t_gone t then mv else mark_dead (mv_live mv ! i) t mv))
            else sweep_loop ex (Suc i) mv
      else mv)"
  by pat_completeness auto
termination
  by (relation "measure (\<lambda>(ex, i, mv). length (mv_live mv) - i)") auto

declare sweep_loop.simps [simp del]

definition sweep :: "(addr \<Rightarrow> bool) \<Rightarrow> mem_verifier \<Rightarrow> mem_verifier" where
  "sweep ex mv = sweep_loop ex 0 mv"

text \<open>The interpreter after each instruction; \<open>v\<close> is the value in its destination register.\<close>

definition memTracks :: "op \<Rightarrow> bool" where
  "memTracks o1 \<longleftrightarrow> o1 \<in> {OpNewObject, OpNewArray, OpNewArraySized, OpNewMap, OpMakeRange, OpMakeClosure}"

definition mem_after_op :: "(addr \<Rightarrow> nat) \<Rightarrow> (addr \<Rightarrow> bool) \<Rightarrow> op \<Rightarrow> rt_value \<Rightarrow> nat \<Rightarrow> nat \<Rightarrow> mem_verifier \<Rightarrow> mem_verifier" where
  "mem_after_op loc ex o1 v fn pc mv =
     (let mv1 = (if memTracks o1 then onAlloc loc v fn pc mv else mv)
      in sweep ex (mv1\<lparr>mv_opClock := mv_opClock mv1 + 1\<rparr>))"

section \<open>The report\<close>

record site_stat =
  ss_allocated :: int
  ss_aliveAtExit :: int
  ss_kind :: char

definition add_site :: "(addr \<Rightarrow> bool) \<Rightarrow> tracked \<Rightarrow> (nat \<times> nat, site_stat) omap \<Rightarrow> (nat \<times> nat, site_stat) omap" where
  "add_site ex t sites =
     (let s = (case map_of sites (t_fn t, t_pc t) of Some s \<Rightarrow> s
               | None \<Rightarrow> \<lparr>ss_allocated = 0, ss_aliveAtExit = 0, ss_kind = CHR ''?''\<rparr>)
      in om_update (t_fn t, t_pc t)
           \<lparr>ss_allocated = ss_allocated s + 1,
            ss_aliveAtExit = (if expired ex t then ss_aliveAtExit s else ss_aliveAtExit s + 1), ss_kind = t_kind t\<rparr> sites)"

definition site_stats :: "(addr \<Rightarrow> bool) \<Rightarrow> (nat \<times> tracked) list \<Rightarrow> (nat \<times> nat, site_stat) omap" where
  "site_stats ex objs = fold (\<lambda>(k, t). add_site ex t) objs []"

definition alive_at_exit :: "(addr \<Rightarrow> bool) \<Rightarrow> (nat \<times> tracked) list \<Rightarrow> int" where
  "alive_at_exit ex objs = int (length (filter (\<lambda>(k, t). \<not> expired ex t) objs))"

definition site_line :: "(nat \<times> nat) \<times> site_stat \<Rightarrow> string" where
  "site_line = (\<lambda>((fn, pc), s).
     ''[mem]   fn'' @ nat_str fn @ '':'' @ nat_str pc @ '' ('' @ [ss_kind s] @ '') x'' @ int_str (ss_allocated s) @
     (if ss_aliveAtExit s \<noteq> 0 then ''  ['' @ int_str (ss_aliveAtExit s) @ '' reachable at exit]'' else []) @ [NL])"

definition report :: "(addr \<Rightarrow> bool) \<Rightarrow> mem_verifier \<Rightarrow> string" where
  "report ex mv =
     (let alive = alive_at_exit ex (mv_objs mv); transient = mv_totalAllocs mv - alive
      in ''[mem] '' @ int_str (mv_totalAllocs mv) @ '' heap allocation(s), peak '' @ int_str (mv_peakLive mv) @
         '' live concurrently, '' @ int_str alive @ '' reachable at exit (the root set).'' @ [NL] @
         ''[mem] '' @ int_str transient @ '' allocation(s) become unreachable mid-run (the ARC'' @ [SQUOTE] @
         ''s free obligation); '' @ int_str alive @ '' persist to exit.'' @ [NL] @
         concat (map site_line (site_stats ex (mv_objs mv))) @
         (if mv_shadow mv then
            (if mv_errors mv = [] then
               ''[mem] shadow ARC: OK (refcount tracked true reachability at every op; no leak, no premature free)'' @ [NL]
             else ''[mem] shadow ARC: '' @ nat_str (length (mv_errors mv)) @ '' violation(s):'' @ [NL] @
                  concat (map (\<lambda>e. ''[mem]   '' @ e @ [NL]) (mv_errors mv)))
          else []))"


section \<open>The bookkeeping invariant\<close>

definition live_keys :: "mem_verifier \<Rightarrow> nat set" where
  "live_keys mv = {k. \<exists>t. map_of (mv_objs mv) k = Some t \<and> \<not> t_gone t}"

definition mv_inv :: "mem_verifier \<Rightarrow> bool" where
  "mv_inv mv \<longleftrightarrow> distinct (map fst (mv_objs mv)) \<and> distinct (mv_live mv) \<and> set (mv_live mv) = live_keys mv \<and>
     mv_liveNow mv = int (length (mv_live mv)) \<and> mv_liveNow mv \<le> mv_peakLive mv \<and> mv_peakLive mv \<le> mv_totalAllocs mv \<and>
     mv_nextId mv = mv_totalAllocs mv + 1"

lemma keyOf_spOf: "keyOf loc v = map_option loc (spOf v)"
  by (simp add: keyOf_def spOf_def split: vkind.split)

lemma mv_inv_new: "mv_inv (new_verifier shadow)"
  by (simp add: mv_inv_def new_verifier_def live_keys_def)

lemma mset_swap_pop:
  assumes "i < length xs"
  shows "mset (swap_pop i xs) = mset xs - {#xs ! i#}"
proof -
  have ne: "xs[i := last xs] \<noteq> []" using assms by auto
  have l: "last (xs[i := last xs]) = last xs"
    using assms by (subst last_list_update) auto
  have "mset (butlast (xs[i := last xs])) = mset (xs[i := last xs]) - {#last xs#}"
    using append_butlast_last_id [OF ne] l by (metis add_diff_cancel_right' mset.simps(2) mset_append mset.simps(1) add_mset_add_single)
  also have "\<dots> = mset xs - {#xs ! i#}" using assms by (simp add: mset_update)
  finally show ?thesis by (simp add: swap_pop_def)
qed

lemma swap_pop_distinct:
  assumes "i < length xs" and "distinct xs"
  shows "distinct (swap_pop i xs)" "set (swap_pop i xs) = set xs - {xs ! i}"
proof -
  have c: "count (mset xs) a = (if a \<in> set xs then 1 else 0)" for a
    using assms(2) by (simp add: distinct_count_atmost_1)
  have m: "count (mset (swap_pop i xs)) a = (if a \<in> set xs - {xs ! i} then 1 else 0)" for a
    using assms(1) by (simp add: mset_swap_pop c)
  have "a \<in> set (swap_pop i xs) \<longleftrightarrow> a \<in> set xs - {xs ! i}" for a
    using m [of a] count_greater_zero_iff [of "mset (swap_pop i xs)" a] by (auto split: if_splits)
  then show set: "set (swap_pop i xs) = set xs - {xs ! i}" by blast
  show "distinct (swap_pop i xs)" unfolding distinct_count_atmost_1 set m by simp
qed

lemma take_swap_pop: "i < length xs \<Longrightarrow> take i (swap_pop i xs) = take i xs"
  by (simp add: swap_pop_def take_butlast)

definition tracking :: "mem_verifier \<Rightarrow> nat \<Rightarrow> bool" where
  "tracking mv k = (case map_of (mv_objs mv) k of Some t \<Rightarrow> \<not> t_gone t | None \<Rightarrow> False)"

lemma tracking_iff: "tracking mv k \<longleftrightarrow> k \<in> live_keys mv"
  by (simp add: tracking_def live_keys_def split: option.split)

lemma map_of_update_eq: "map_of (AList.update k v m) k' = (if k' = k then Some v else map_of m k')"
  by (simp add: update_conv)

lemma onAlloc_cases:
  obtains (ignored) "spOf v = None" "onAlloc loc v fn pc mv = mv"
  | (live) c where "spOf v = Some c" "loc c \<in> live_keys mv" "onAlloc loc v fn pc mv = mv"
  | (fresh) c t p where "spOf v = Some c" "loc c \<notin> live_keys mv" "t_weak t = Some c" "\<not> t_gone t"
      "p = max (mv_liveNow mv + 1) (mv_peakLive mv)"
      "onAlloc loc v fn pc mv = mv\<lparr>mv_objs := AList.update (loc c) t (mv_objs mv),
                  mv_live := mv_live mv @ [loc c], mv_nextId := mv_nextId mv + 1,
                  mv_totalAllocs := mv_totalAllocs mv + 1, mv_liveNow := mv_liveNow mv + 1, mv_peakLive := p\<rparr>"
proof (cases "spOf v")
  case None
  then show thesis by (intro ignored) (simp_all add: onAlloc_def)
next
  case (Some c)
  show thesis
  proof (cases "tracking mv (loc c)")
    case True
    with Some show thesis by (intro live) (simp_all add: onAlloc_def tracking_iff tracking_def [symmetric])
  next
    case False
    with Some show thesis
      by (intro fresh [of c "new_tracked (mv_nextId mv) fn pc (kindOf v) c" "max (mv_liveNow mv + 1) (mv_peakLive mv)"])
        (simp_all add: onAlloc_def tracking_iff tracking_def [symmetric] Let_def new_tracked_def max_def)
  qed
qed

lemma onAlloc_inv:
  assumes "mv_inv mv"
  shows "mv_inv (onAlloc loc v fn pc mv)"
proof (cases rule: onAlloc_cases [where loc = loc and v = v and fn = fn and pc = pc and mv = mv])
  case (fresh c t p)
  have "live_keys (onAlloc loc v fn pc mv) = insert (loc c) (live_keys mv)"
    unfolding live_keys_def fresh(6) using fresh(4) by (auto simp: map_of_update_eq split: if_splits)
  moreover have "distinct (map fst (mv_objs (onAlloc loc v fn pc mv)))"
    using assms by (simp add: mv_inv_def fresh(6) distinct_update)
  ultimately show ?thesis using assms fresh(2,5) unfolding mv_inv_def by (simp add: fresh(6))
qed (use assms in simp_all)

text \<open>A sweep on a state with the invariant: it drops exactly the live cells that expired, and dates each.\<close>

definition swept :: "(addr \<Rightarrow> bool) \<Rightarrow> mem_verifier \<Rightarrow> nat \<Rightarrow> tracked option" where
  "swept ex mv k = map_option (\<lambda>t. if \<not> t_gone t \<and> expired ex t then t\<lparr>t_gone := True, t_deadAtOp := mv_opClock mv\<rparr> else t)
     (map_of (mv_objs mv) k)"

lemma mark_dead_sels:
  "mv_objs (drop_live i (mark_dead k t mv)) = AList.update k (t\<lparr>t_gone := True, t_deadAtOp := mv_opClock mv\<rparr>) (mv_objs mv)"
  "mv_opClock (drop_live i (mark_dead k t mv)) = mv_opClock mv"
  by (simp_all add: drop_live_def mark_dead_def)

lemma mark_dead_inv:
  assumes "mv_inv mv" and "i < length (mv_live mv)" and "map_of (mv_objs mv) (mv_live mv ! i) = Some t" and "\<not> t_gone t"
  shows "mv_inv (drop_live i (mark_dead (mv_live mv ! i) t mv))" (is "mv_inv ?mv")
proof -
  have "live_keys ?mv = live_keys mv - {mv_live mv ! i}"
    by (auto simp: live_keys_def mark_dead_sels map_of_update_eq split: if_splits)
  moreover have "set (mv_live ?mv) = set (mv_live mv) - {mv_live mv ! i}" "distinct (mv_live ?mv)"
    using swap_pop_distinct [OF assms(2)] assms(1) by (simp_all add: mv_inv_def)
  moreover have "int (length (mv_live mv) - 1) = int (length (mv_live mv)) - 1" using assms(2) by simp
  ultimately show ?thesis using assms(1)
    by (simp add: mv_inv_def drop_live_def mark_dead_def distinct_update)
qed

definition frame_eq :: "mem_verifier \<Rightarrow> mem_verifier \<Rightarrow> bool" where
  "frame_eq mv mv' \<longleftrightarrow> mv_nextId mv' = mv_nextId mv \<and> mv_opClock mv' = mv_opClock mv \<and> mv_peakLive mv' = mv_peakLive mv \<and>
     mv_totalAllocs mv' = mv_totalAllocs mv \<and> mv_shadow mv' = mv_shadow mv"

lemma swept_mark_dead:
  assumes "map_of (mv_objs mv) k = Some t" and "\<not> t_gone t" and "expired ex t"
  shows "swept ex (drop_live i (mark_dead k t mv)) = swept ex mv"
  unfolding swept_def mark_dead_sels using assms by (auto simp: map_of_update_eq fun_eq_iff expired_def)

lemma sweep_loop_spec:
  assumes "mv_inv mv" and "i \<le> length (mv_live mv)"
    and "\<forall>k \<in> set (take i (mv_live mv)). \<not> expired ex (the (map_of (mv_objs mv) k))"
  shows "mv_inv (sweep_loop ex i mv) \<and> frame_eq mv (sweep_loop ex i mv) \<and>
    map_of (mv_objs (sweep_loop ex i mv)) = swept ex mv"
  using assms
proof (induction ex i mv rule: sweep_loop.induct)
  case (1 ex i mv)
  show ?case
  proof (cases "i < length (mv_live mv)")
    case False
    with "1.prems" have all: "\<forall>k \<in> live_keys mv. \<not> expired ex (the (map_of (mv_objs mv) k))" by (simp add: mv_inv_def)
    have "map_of (mv_objs mv) k = swept ex mv k" for k
      using all by (cases "map_of (mv_objs mv) k") (auto simp: swept_def live_keys_def)
    with False "1.prems"(1) show ?thesis by (simp add: sweep_loop.simps [of ex i mv] frame_eq_def fun_eq_iff)
  next
    case True
    let ?k = "mv_live mv ! i"
    have "?k \<in> live_keys mv" using True "1.prems"(1) nth_mem by (auto simp: mv_inv_def)
    then obtain t where t: "map_of (mv_objs mv) ?k = Some t" "\<not> t_gone t" by (auto simp: live_keys_def)
    show ?thesis
    proof (cases "expired ex t")
      case exp: True
      let ?mv = "drop_live i (mark_dead ?k t mv)"
      have step: "sweep_loop ex i mv = sweep_loop ex i ?mv" by (simp add: sweep_loop.simps [of ex i mv] True t exp)
      have nin: "?k \<notin> set (take i (mv_live mv))"
        using "1.prems"(1) True by (auto simp: mv_inv_def in_set_conv_nth nth_eq_iff_index_eq)
      have "\<forall>k \<in> set (take i (mv_live ?mv)). \<not> expired ex (the (map_of (mv_objs ?mv) k))"
        using "1.prems"(3) True nin by (auto simp: take_swap_pop drop_live_def mark_dead_def map_of_update_eq)
      moreover have "mv_inv ?mv" using mark_dead_inv [OF "1.prems"(1) True t] .
      moreover have "i \<le> length (mv_live ?mv)" using True by simp
      moreover have "frame_eq mv ?mv" by (simp add: frame_eq_def drop_live_def mark_dead_def)
      ultimately show ?thesis
        using "1.IH"(2) [OF True t(1)] t(2) exp swept_mark_dead [OF t exp, of i] by (simp add: step frame_eq_def)
    next
      case nexp: False
      have "sweep_loop ex i mv = sweep_loop ex (Suc i) mv" by (simp add: sweep_loop.simps [of ex i mv] True t nexp)
      moreover have "\<forall>k \<in> set (take (Suc i) (mv_live mv)). \<not> expired ex (the (map_of (mv_objs mv) k))"
        using "1.prems"(3) True t nexp by (simp add: take_Suc_conv_app_nth)
      ultimately show ?thesis using "1.IH"(3) [OF True t(1)] t(2) nexp "1.prems"(1) True by simp
    qed
  qed
qed

lemma sweep_spec:
  assumes "mv_inv mv"
  shows "mv_inv (sweep ex mv)" "frame_eq mv (sweep ex mv)" "map_of (mv_objs (sweep ex mv)) = swept ex mv"
  using sweep_loop_spec [OF assms, of 0 ex] by (simp_all add: sweep_def)
section \<open>Runs\<close>

text \<open>An instruction as the verifier sees it: its operation, the value in its destination, its place, and the cells that
  have no reference left when it is done.\<close>

record mem_event =
  ev_op :: op
  ev_val :: rt_value
  ev_fn :: nat
  ev_pc :: nat
  ev_ex :: "addr \<Rightarrow> bool"

definition mem_run :: "(addr \<Rightarrow> nat) \<Rightarrow> mem_event list \<Rightarrow> mem_verifier \<Rightarrow> mem_verifier" where
  "mem_run loc = fold (\<lambda>e. mem_after_op loc (ev_ex e) (ev_op e) (ev_val e) (ev_fn e) (ev_pc e))"

definition allocates :: "mem_event \<Rightarrow> addr \<Rightarrow> bool" where
  "allocates e c \<longleftrightarrow> memTracks (ev_op e) \<and> spOf (ev_val e) = Some c"

definition allocated :: "mem_event list \<Rightarrow> addr set" where
  "allocated es = {c. \<exists>e \<in> set es. allocates e c}"

text \<open>Whether \<open>c\<close> is released when the run has made \<open>n\<close> steps.\<close>

definition released :: "mem_event list \<Rightarrow> nat \<Rightarrow> addr \<Rightarrow> bool" where
  "released es n c \<longleftrightarrow> 0 < n \<and> n \<le> length es \<and> ev_ex (es ! (n - 1)) c"

text \<open>What the machine guarantees: a released cell stays released, and the destination register holds the cell just
  allocated.\<close>

definition cells_sane :: "mem_event list \<Rightarrow> bool" where
  "cells_sane es \<longleftrightarrow> (\<forall>m n c. m \<le> n \<longrightarrow> n \<le> length es \<longrightarrow> released es m c \<longrightarrow> released es n c) \<and>
     (\<forall>n < length es. \<forall>c. allocates (es ! n) c \<longrightarrow> \<not> released es (Suc n) c)"

text \<open>A new cell takes the address of another one only when a sweep has seen that one released.\<close>

definition swept_before_reuse :: "(addr \<Rightarrow> nat) \<Rightarrow> mem_event list \<Rightarrow> bool" where
  "swept_before_reuse loc es \<longleftrightarrow>
     (\<forall>n < length es. \<forall>c c'. allocates (es ! n) c \<longrightarrow> c' \<in> allocated (take n es) \<longrightarrow> c' \<noteq> c \<longrightarrow> loc c' = loc c \<longrightarrow>
        released es n c')"

lemma mem_after_op_inv: "mv_inv mv \<Longrightarrow> mv_inv (mem_after_op loc ex o1 v fn pc mv)"
proof -
  assume "mv_inv mv"
  then have "mv_inv (if memTracks o1 then onAlloc loc v fn pc mv else mv)" by (simp add: onAlloc_inv)
  then have "mv_inv ((if memTracks o1 then onAlloc loc v fn pc mv else mv)
      \<lparr>mv_opClock := mv_opClock (if memTracks o1 then onAlloc loc v fn pc mv else mv) + 1\<rparr>)"
    by (simp add: mv_inv_def live_keys_def)
  then show ?thesis unfolding mem_after_op_def Let_def by (rule sweep_spec)
qed

text \<open>
  The bookkeeping of the memory verifier holds on every run, whatever cells are released or reuse an address: the index
  the sweep walks lists each tracked cell not yet seen dead exactly once, its length is the live count, and the live count,
  its peak and the total are in order.
\<close>

lemma mem_run_inv: "mv_inv (mem_run loc es (new_verifier shadow))"
proof (induction es rule: rev_induct)
  case Nil
  show ?case by (simp add: mem_run_def mv_inv_new)
next
  case (snoc e es)
  then show ?case by (simp add: mem_run_def mem_after_op_inv)
qed

section \<open>The census and the free schedule\<close>

text \<open>What the verifier holds of a cell after \<open>n\<close> steps, and that its state agrees with the cells \<open>A\<close> allocated so far.\<close>

definition schedules :: "mem_event list \<Rightarrow> nat \<Rightarrow> addr \<Rightarrow> tracked \<Rightarrow> bool" where
  "schedules es n c t \<longleftrightarrow> t_weak t = Some c \<and> (t_gone t \<longleftrightarrow> released es n c) \<and>
     (t_gone t \<longrightarrow> (\<exists>d. t_deadAtOp t = int d \<and> released es d c \<and> (\<forall>m < d. \<not> released es m c)))"

definition agrees :: "(addr \<Rightarrow> nat) \<Rightarrow> mem_event list \<Rightarrow> nat \<Rightarrow> addr set \<Rightarrow> mem_verifier \<Rightarrow> bool" where
  "agrees loc es n A mv \<longleftrightarrow> mv_inv mv \<and> finite A \<and> mv_totalAllocs mv = int (card A) \<and>
     (\<forall>k t. map_of (mv_objs mv) k = Some t \<longrightarrow> (\<exists>c \<in> A. loc c = k \<and> schedules es n c t)) \<and>
     (\<forall>c \<in> A. \<not> released es n c \<longrightarrow> (\<exists>t. map_of (mv_objs mv) (loc c) = Some t \<and> t_weak t = Some c))"

lemma agreesE:
  assumes "agrees loc es n A mv" and "map_of (mv_objs mv) k = Some t"
  obtains c where "c \<in> A" "loc c = k" "schedules es n c t"
  using assms unfolding agrees_def by blast

lemma agrees_schedules: "agrees loc es n A mv \<Longrightarrow> map_of (mv_objs mv) k = Some t \<Longrightarrow> t_weak t = Some c \<Longrightarrow> schedules es n c t"
  by (erule agreesE) (auto simp: schedules_def)

lemma alloc_agrees:
  assumes ag: "agrees loc es n A mv" and v: "spOf v = Some c" and c: "\<not> released es n c"
    and reuse: "\<forall>c' \<in> A. c' \<noteq> c \<longrightarrow> loc c' = loc c \<longrightarrow> released es n c'"
  shows "agrees loc es n (insert c A) (onAlloc loc v fn pc mv)"
proof (cases rule: onAlloc_cases [where loc = loc and v = v and fn = fn and pc = pc and mv = mv])
  case (live c')
  from live(2) obtain t where t: "map_of (mv_objs mv) (loc c) = Some t" "\<not> t_gone t"
    using live(1) v by (auto simp: live_keys_def)
  with ag obtain a where "a \<in> A" "loc a = loc c" "\<not> released es n a"
    by (elim agreesE) (auto simp: schedules_def)
  with reuse have "c \<in> A" by metis
  then show ?thesis using ag live(3) by (simp add: insert_absorb)
next
  case (fresh c' t p)
  have c': "c' = c" using fresh(1) v by simp
  have new: "c \<notin> A"
  proof
    assume "c \<in> A"
    with ag c obtain t where "map_of (mv_objs mv) (loc c) = Some t" "t_weak t = Some c" by (auto simp: agrees_def)
    with ag c have "loc c \<in> live_keys mv" using agrees_schedules by (auto simp: schedules_def live_keys_def)
    with fresh(2) c' show False by simp
  qed
  have objs: "map_of (mv_objs (onAlloc loc v fn pc mv)) k = (if k = loc c then Some t else map_of (mv_objs mv) k)" for k
    by (simp add: fresh(6) map_of_update_eq c')
  have "schedules es n c t" using fresh(3,4) c c' by (simp add: schedules_def)
  moreover have "mv_totalAllocs (onAlloc loc v fn pc mv) = int (card (insert c A))"
    using ag new by (simp add: agrees_def fresh(6))
  moreover have "mv_inv (onAlloc loc v fn pc mv)" using ag onAlloc_inv by (auto simp: agrees_def)
  ultimately show ?thesis using ag reuse fresh(3) c' unfolding agrees_def objs by (auto split: if_splits)
qed (use v in simp)

lemma sweep_agrees:
  assumes ag: "agrees loc es n A mv" and clock: "mv_opClock mv = int (Suc n)"
    and mono: "\<And>m m' c. m \<le> m' \<Longrightarrow> m' \<le> Suc n \<Longrightarrow> released es m c \<Longrightarrow> released es m' c"
    and ex: "\<And>c. ex c \<longleftrightarrow> released es (Suc n) c"
  shows "agrees loc es (Suc n) A (sweep ex mv)"
proof -
  have inv: "mv_inv mv" using ag by (simp add: agrees_def)
  have "\<exists>c \<in> A. loc c = k \<and> schedules es (Suc n) c t" if t: "swept ex mv k = Some t" for k t
  proof -
    from t obtain t0 where t0: "map_of (mv_objs mv) k = Some t0"
      "t = (if \<not> t_gone t0 \<and> expired ex t0 then t0\<lparr>t_gone := True, t_deadAtOp := mv_opClock mv\<rparr> else t0)"
      by (auto simp: swept_def)
    with ag obtain c where c: "c \<in> A" "loc c = k" "schedules es n c t0" by (elim agreesE)
    have "schedules es (Suc n) c t"
    proof (cases "t_gone t0")
      case True
      then show ?thesis using c(3) t0(2) mono [of n "Suc n" c] by (auto simp: schedules_def)
    next
      case False
      then have "\<forall>m < Suc n. \<not> released es m c" using c(3) mono [of _ n c] by (auto simp: schedules_def less_Suc_eq_le)
      then show ?thesis using False c(3) t0(2) ex [of c] clock by (auto simp: schedules_def expired_def intro!: exI [of _ "Suc n"])
    qed
    with c show ?thesis by blast
  qed
  moreover have "\<exists>t. swept ex mv (loc c) = Some t \<and> t_weak t = Some c" if c: "c \<in> A" "\<not> released es (Suc n) c" for c
  proof -
    have "\<not> released es n c" using c(2) mono [of n "Suc n" c] by auto
    with ag c(1) obtain t where "map_of (mv_objs mv) (loc c) = Some t" "t_weak t = Some c" by (auto simp: agrees_def)
    then show ?thesis by (simp add: swept_def)
  qed
  ultimately show ?thesis using ag sweep_spec [OF inv, of ex] by (simp add: agrees_def frame_eq_def)
qed

lemma mem_run_take: "n < length es \<Longrightarrow> mem_run loc (take (Suc n) es) mv =
    mem_after_op loc (ev_ex (es ! n)) (ev_op (es ! n)) (ev_val (es ! n)) (ev_fn (es ! n)) (ev_pc (es ! n)) (mem_run loc (take n es) mv)"
  by (simp add: mem_run_def take_Suc_conv_app_nth)

lemma onAlloc_opClock [simp]: "mv_opClock (onAlloc loc v fn pc mv) = mv_opClock mv"
  by (simp add: onAlloc_def Let_def split: option.split)

lemma agrees_clock [simp]: "agrees loc es n A (mv\<lparr>mv_opClock := k\<rparr>) = agrees loc es n A mv"
  by (simp add: agrees_def mv_inv_def live_keys_def)

lemma mem_run_agrees:
  fixes shadow :: bool
  assumes sane: "cells_sane es" and reuse: "swept_before_reuse loc es" and "n \<le> length es"
  defines "mv \<equiv> \<lambda>n. mem_run loc (take n es) (new_verifier shadow)"
  shows "agrees loc es n (allocated (take n es)) (mv n) \<and> mv_opClock (mv n) = int n"
  using assms(3)
proof (induction n)
  case 0
  show ?case using mv_inv_new [of shadow]
    by (simp add: mv_def mem_run_def agrees_def allocated_def) (simp add: new_verifier_def)
next
  case (Suc n)
  let ?e = "es ! n" and ?A = "allocated (take n es)"
  define mv1 where "mv1 = (if memTracks (ev_op ?e) then onAlloc loc (ev_val ?e) (ev_fn ?e) (ev_pc ?e) (mv n) else mv n)"
  let ?mv = "mv1\<lparr>mv_opClock := mv_opClock mv1 + 1\<rparr>"
  have n: "n < length es" using Suc.prems by simp
  have IH: "agrees loc es n ?A (mv n)" "mv_opClock (mv n) = int n" using Suc by simp_all
  have mono: "released es m c \<Longrightarrow> released es m' c" if "m \<le> m'" "m' \<le> Suc n" for m m' c
    using sane that n by (force simp: cells_sane_def)
  have A: "allocated (take (Suc n) es) = ?A \<union> {c. allocates ?e c}"
    using n by (auto simp: allocated_def take_Suc_conv_app_nth)
  have "agrees loc es n (allocated (take (Suc n) es)) mv1"
  proof (cases "\<exists>c. allocates ?e c")
    case True
    then obtain c where c: "memTracks (ev_op ?e)" "spOf (ev_val ?e) = Some c" by (auto simp: allocates_def)
    then have al: "allocates ?e c" by (simp add: allocates_def)
    then have "\<not> released es n c" using sane n mono [of n "Suc n" c] by (auto simp: cells_sane_def)
    moreover have "\<forall>c' \<in> ?A. c' \<noteq> c \<longrightarrow> loc c' = loc c \<longrightarrow> released es n c'"
      using reuse n al by (auto simp: swept_before_reuse_def)
    moreover have "{c. allocates ?e c} = {c}" using c by (auto simp: allocates_def)
    ultimately show ?thesis using alloc_agrees [OF IH(1) c(2)] c(1) A by (simp add: mv1_def)
  next
    case False
    then have "mv1 = mv n" by (auto simp: mv1_def allocates_def onAlloc_def split: option.split)
    with False A IH show ?thesis by simp
  qed
  moreover have "mv_opClock mv1 = int n" using IH(2) by (simp add: mv1_def)
  moreover have "mv (Suc n) = sweep (ev_ex ?e) (mv1\<lparr>mv_opClock := mv_opClock mv1 + 1\<rparr>)"
    using n by (simp add: mv_def mem_run_take mem_after_op_def mv1_def Let_def)
  moreover have "ev_ex ?e c \<longleftrightarrow> released es (Suc n) c" for c using n by (simp add: released_def)
  ultimately have ag: "agrees loc es n (allocated (take (Suc n) es)) ?mv" and clock: "mv_opClock ?mv = int (Suc n)"
    and mv: "mv (Suc n) = sweep (ev_ex ?e) ?mv" and ex: "ev_ex ?e c \<longleftrightarrow> released es (Suc n) c" for c
    by simp_all
  have "agrees loc es (Suc n) (allocated (take (Suc n) es)) (mv (Suc n))"
    unfolding mv by (rule sweep_agrees [OF ag clock _ ex]) (rule mono)
  moreover have "mv_opClock (mv (Suc n)) = int (Suc n)"
    using ag clock sweep_spec(2) [of ?mv "ev_ex ?e"] unfolding mv by (simp add: frame_eq_def agrees_def del: agrees_clock)
  ultimately show ?case by simp
qed

lemma agrees_liveNow:
  assumes "agrees loc es n A mv"
  shows "mv_liveNow mv = int (card {c \<in> A. \<not> released es n c})"
proof -
  let ?L = "{c \<in> A. \<not> released es n c}"
  have tr: "\<exists>t. map_of (mv_objs mv) (loc c) = Some t \<and> t_weak t = Some c" if "c \<in> ?L" for c
    using assms that by (simp add: agrees_def)
  have "inj_on loc ?L" by (rule inj_onI) (metis tr option.inject)
  moreover have "live_keys mv = loc ` ?L"
  proof (intro equalityI subsetI)
    fix k assume "k \<in> live_keys mv"
    then obtain t where t: "map_of (mv_objs mv) k = Some t" "\<not> t_gone t" by (auto simp: live_keys_def)
    with assms obtain c where "c \<in> A" "loc c = k" "schedules es n c t" by (elim agreesE)
    with t show "k \<in> loc ` ?L" by (auto simp: schedules_def)
  next
    fix k assume "k \<in> loc ` ?L"
    then obtain c where c: "c \<in> ?L" "k = loc c" by blast
    with tr obtain t where t: "map_of (mv_objs mv) k = Some t" "t_weak t = Some c" by auto
    with assms have "schedules es n c t" using agrees_schedules by blast
    with c t show "k \<in> live_keys mv" by (auto simp: live_keys_def schedules_def)
  qed
  moreover have "mv_liveNow mv = int (card (live_keys mv))"
    using assms distinct_card [of "mv_live mv"] by (simp add: agrees_def mv_inv_def)
  ultimately show ?thesis by (simp add: card_image)
qed

text \<open>
  C35. The memory verifier is an exact oracle of cell lifetimes, when no address is reused before a sweep has seen its
  release: every allocated cell is counted once, the live count is the number of allocated cells not yet
  released, every such cell is tracked, and the operation recorded for a dead cell is the first one after which it had no
  reference.
\<close>

theorem mem_run_exact:
  fixes shadow :: bool
  assumes "cells_sane es" and "swept_before_reuse loc es"
  defines "mv \<equiv> mem_run loc es (new_verifier shadow)" and "n \<equiv> length es"
  shows "mv_totalAllocs mv = int (card (allocated es)) \<and>
    mv_liveNow mv = int (card {c \<in> allocated es. \<not> released es n c}) \<and>
    (\<forall>c \<in> allocated es. \<not> released es n c \<longrightarrow> (\<exists>t. map_of (mv_objs mv) (loc c) = Some t \<and> t_weak t = Some c \<and> \<not> t_gone t)) \<and>
    (\<forall>k t c. map_of (mv_objs mv) k = Some t \<longrightarrow> t_weak t = Some c \<longrightarrow>
       (t_gone t \<longleftrightarrow> released es n c) \<and>
       (t_gone t \<longrightarrow> (\<exists>d. t_deadAtOp t = int d \<and> released es d c \<and> (\<forall>m < d. \<not> released es m c))))"
proof -
  have ag: "agrees loc es n (allocated es) mv"
    using mem_run_agrees [OF assms(1,2), of n shadow] by (simp add: mv_def n_def)
  have sch: "schedules es n c t" if "map_of (mv_objs mv) k = Some t" "t_weak t = Some c" for k t c
    using ag that by (rule agrees_schedules)
  have "mv_totalAllocs mv = int (card (allocated es))" using ag by (simp add: agrees_def)
  moreover have "\<exists>t. map_of (mv_objs mv) (loc c) = Some t \<and> t_weak t = Some c \<and> \<not> t_gone t"
    if "c \<in> allocated es" "\<not> released es n c" for c
    using ag that sch by (fastforce simp: agrees_def schedules_def)
  ultimately show ?thesis using agrees_liveNow [OF ag] sch unfolding schedules_def by blast
qed

definition arr_event :: "op \<Rightarrow> addr \<Rightarrow> (addr \<Rightarrow> bool) \<Rightarrow> mem_event" where
  "arr_event o1 c ex = \<lparr>ev_op = o1, ev_val = vvoid\<lparr>v_kind := KArray, v_arr := Some c\<rparr>, ev_fn = 2, ev_pc = 7, ev_ex = ex\<rparr>"

definition churn :: "mem_event list" where
  "churn = [arr_event OpNewArray 5 (\<lambda>c. False), arr_event OpMove 5 (\<lambda>c. c = 5), arr_event OpNewArray 6 (\<lambda>c. c = 5)]"

theorem mem_run_exact_witness:
  "cells_sane churn \<and> swept_before_reuse (\<lambda>c. 0) churn \<and>
   (let mv = mem_run (\<lambda>c. 0) churn (new_verifier False)
    in mv_totalAllocs mv = 2 \<and> mv_liveNow mv = 1 \<and> (\<exists>t. map_of (mv_objs mv) 0 = Some t \<and> t_weak t = Some 6 \<and> \<not> t_gone t))"
proof -
  have al: "allocates (arr_event o1 c ex) c' \<longleftrightarrow> memTracks o1 \<and> c' = c" for o1 c ex c'
    by (auto simp: allocates_def arr_event_def spOf_def vvoid_def)
  have A: "allocated churn = {5, 6}" by (auto simp: allocated_def churn_def al memTracks_def)
  have len: "length churn = 3" by (simp add: churn_def)
  have rel: "released churn n c \<longleftrightarrow> n \<in> {2, 3} \<and> c = 5" for n c
    unfolding released_def len by (auto simp: churn_def arr_event_def nth_Cons' split: if_splits)
  have sane: "cells_sane churn"
    unfolding cells_sane_def rel len by (auto simp: churn_def al nth_Cons' memTracks_def split: if_splits)
  have reuse: "swept_before_reuse (\<lambda>c. 0) churn"
    unfolding swept_before_reuse_def rel len
    by (auto simp: churn_def al allocated_def nth_Cons' memTracks_def less_Suc_eq numeral_3_eq_3 take_Suc split: if_splits)
  have "{c \<in> {5, 6}. \<not> released churn 3 c} = {6}" by (auto simp: rel)
  then show ?thesis using sane reuse mem_run_exact [OF sane reuse, of False] unfolding A len Let_def by (auto simp: rel)
qed

text \<open>What the report says of each allocation site: the tracked cells of the site and those still reachable.\<close>

lemma site_stats_inv: "om_inv sites \<Longrightarrow> om_inv (fold (\<lambda>(k, t). add_site ex t) objs sites)"
  by (induction objs arbitrary: sites) (auto simp: add_site_def Let_def om_update_inv)

definition at_site :: "nat \<times> nat \<Rightarrow> (nat \<times> tracked) list \<Rightarrow> (nat \<times> tracked) list" where
  "at_site s objs = filter (\<lambda>(k, t). (t_fn t, t_pc t) = s) objs"

lemma at_site_simps [simp]:
  "at_site s [] = []" "at_site s (objs @ [(k, t)]) = at_site s objs @ (if (t_fn t, t_pc t) = s then [(k, t)] else [])"
  by (simp_all add: at_site_def)

lemma alive_at_exit_simps [simp]:
  "alive_at_exit ex [] = 0" "alive_at_exit ex (objs @ [(k, t)]) = alive_at_exit ex objs + (if expired ex t then 0 else 1)"
  by (simp_all add: alive_at_exit_def)

lemma site_stats_count:
  "map_of (site_stats ex objs) s =
     (if at_site s objs = [] then None
      else Some \<lparr>ss_allocated = int (length (at_site s objs)), ss_aliveAtExit = alive_at_exit ex (at_site s objs),
                 ss_kind = t_kind (snd (last (at_site s objs)))\<rparr>)"
proof (induction objs rule: rev_induct)
  case Nil
  show ?case by (simp add: site_stats_def)
next
  case (snoc x objs)
  obtain k t where x: "x = (k, t)" by force
  have inv: "om_inv (site_stats ex objs)" unfolding site_stats_def by (rule site_stats_inv) (simp add: om_inv_def)
  have step: "site_stats ex (objs @ [x]) = add_site ex t (site_stats ex objs)" by (simp add: site_stats_def x)
  show ?case
  proof (cases "(t_fn t, t_pc t) = s")
    case True
    with snoc show ?thesis unfolding step by (auto simp: add_site_def Let_def om_update_lookup [OF inv] x)
  next
    case False
    with snoc show ?thesis unfolding step by (simp add: add_site_def Let_def om_update_lookup [OF inv] x)
  qed
qed

text \<open>Cells that reuse an address, in two runs: in \<open>churn\<close> the report counts one cell for the site that allocated two; when no
  sweep lies between release and reuse the second cell is not counted at all and is recorded as dead.\<close>

lemma churn_site_undercounted:
  "(let mv = mem_run (\<lambda>c. 0) churn (new_verifier False)
    in mv_totalAllocs mv = 2 \<and> map_of (site_stats (\<lambda>c. c = 5) (mv_objs mv)) (2, 7) =
         Some \<lparr>ss_allocated = 1, ss_aliveAtExit = 1, ss_kind = CHR ''a''\<rparr>)"
  by code_simp

lemma hidden_reuse_missed:
  "(let mv = mem_run (\<lambda>c. 0) [arr_event OpNewArray 5 (\<lambda>c. False), arr_event OpNewArray 6 (\<lambda>c. c = 5)] (new_verifier False)
    in mv_totalAllocs mv = 1 \<and> mv_liveNow mv = 0 \<and> mv_live mv = [])"
  by code_simp

end
