(* ===== verification/Ownership_Report.thy ===== *)
theory Ownership_Report
  imports Ownership_Solution "HOL-Library.AList" "HOL-Library.Multiset"
begin

text \<open>
  \<open>ownershipReport\<close> of \<open>src/ir/Ownership.cpp\<close>: the text printed for the result of the analysis. The reasons are counted in an
  \<open>unordered_map\<close>, an association list here, whose iteration order is the parameter \<open>iter\<close>. The percentage is computed in \<open>int\<close> in
  the source; a module would need over 21 million allocation sites to overflow it.
\<close>

definition oi_total :: "ownership_info \<Rightarrow> nat" where "oi_total info = length (oi_sites info)"

definition oi_owned :: "ownership_info \<Rightarrow> nat" where "oi_owned info = card (oi_scopeOwned info)"

definition opStr :: "op \<Rightarrow> string" where
  "opStr o1 =
     (if o1 = OpNewObject then ''NewObject'' else if o1 = OpNewArray then ''NewArray''
      else if o1 = OpNewArraySized then ''NewArraySized'' else if o1 = OpNewMap then ''NewMap''
      else if o1 = OpMakeRange then ''MakeRange'' else if o1 = OpMakeClosure then ''MakeClosure'' else ''?'')"

text \<open>The lines of the sites; a function's name precedes its first site.\<close>

definition site_text :: "alloc_site \<Rightarrow> string" where
  "site_text s = ''  @'' @ nat_str (as_pc s) @ '' '' @ opStr (as_op s) @ '' -> '' @
     (if as_escapes s then ''ESCAPES ('' @ as_reason s @ '')'' else ''scope-owned'') @ [NL]"

fun sites_text :: "ir_module \<Rightarrow> int \<Rightarrow> alloc_site list \<Rightarrow> string" where
  "sites_text m lastFn [] = []"
| "sites_text m lastFn (s # ss) =
     (if int (as_fn s) \<noteq> lastFn then fn_name (md_functions m ! as_fn s) @ '':'' @ [NL] else []) @
     site_text s @ sites_text m (int (as_fn s)) ss"

definition transferred :: "alloc_site list \<Rightarrow> nat" where
  "transferred ss = length (filter (\<lambda>s. as_escapes s \<and> as_reason s = ''returned to caller'') ss)"

fun count_reasons :: "alloc_site list \<Rightarrow> (string \<times> nat) list \<Rightarrow> (string \<times> nat) list" where
  "count_reasons [] cs = cs"
| "count_reasons (s # ss) cs =
     count_reasons ss
       (if as_escapes s
        then AList.update (as_reason s) (Suc (case map_of cs (as_reason s) of None \<Rightarrow> 0 | Some n \<Rightarrow> n)) cs else cs)"

definition refcount :: "ownership_info \<Rightarrow> int" where
  "refcount info = int (oi_total info) - int (oi_owned info) - int (transferred (oi_sites info))"

definition share :: "ownership_info \<Rightarrow> nat" where
  "share info = (oi_owned info + transferred (oi_sites info)) * 100 div oi_total info"

definition ownershipReport :: "((string \<times> nat) list \<Rightarrow> (string \<times> nat) list) \<Rightarrow> ir_module \<Rightarrow> ownership_info \<Rightarrow> string" where
  "ownershipReport iter m info =
     sites_text m (- 1) (oi_sites info) @ ''----'' @ [NL] @
     nat_str (oi_total info) @ '' allocation site(s): '' @ nat_str (oi_owned info) @
     '' scope-owned (free at scope exit), '' @ nat_str (transferred (oi_sites info)) @
     '' ownership-transferred by return (freed by the receiving scope, '' @ [CHR 0xC2, CHR 0xA7] @ ''15), '' @
     int_str (refcount info) @ '' refcount tier'' @ [NL] @
     (if oi_total info > 0 then ''deterministic (no-refcount) share: '' @ nat_str (share info) @ ''%'' @ [NL] else []) @
     concat (map (\<lambda>(reason, n). ''  '' @ nat_str n @ '' x '' @ reason @ [NL]) (iter (count_reasons (oi_sites info) [])))"

section \<open>The numbers of the report\<close>

definition site_key :: "alloc_site \<Rightarrow> nat \<times> nat" where "site_key s = (as_fn s, as_pc s)"

lemma site_of_None: "site_of f esc (pc, i) = None \<longleftrightarrow> \<not> (isAlloc (in_op i) \<or> cvAlloc i)"
  by (simp add: site_of_def Let_def)

lemma site_of_key: "site_of f esc (pc, i) = Some s \<Longrightarrow> (isAlloc (in_op i) \<or> cvAlloc i) \<and> site_key s = (f, pc)"
  by (simp add: site_of_Some site_key_def)

lemma fn_sites_keys: "distinct (map site_key (fn_sites m a f)) \<and> fst ` site_key ` set (fn_sites m a f) \<subseteq> {f}"
proof -
  have keys: "map site_key (List.map_filter (site_of f esc) xs) = map (\<lambda>(pc, i). (f, pc)) (filter (\<lambda>(pc, i). isAlloc (in_op i) \<or> cvAlloc i) xs)"
    for esc xs
    by (induction xs) (auto simp: map_filter_simps site_of_None dest: site_of_key split: option.split)
  have d: "distinct (map (\<lambda>(pc, i). (f, pc)) xs)" if "distinct (map fst xs)" for xs :: "(nat \<times> inst) list"
    using that by (induction xs) (auto simp: image_iff)
  have "distinct (map fst (filter P (enumerate 0 xs)))" for P and xs :: "inst list"
    by (intro distinct_map_filter) simp
  then have "distinct (map site_key (fn_sites m a f))" unfolding fn_sites_def keys by (rule d)
  moreover have "fst ` set (map site_key (fn_sites m a f)) \<subseteq> {f}" unfolding fn_sites_def keys by auto
  ultimately show ?thesis by simp
qed

lemma collect_sites_distinct: "distinct (map site_key (oi_sites (collect_sites m a)))"
proof -
  have "distinct (map site_key (concat (map (fn_sites m a) fs)))" if "distinct fs" for fs
    using that
  proof (induction fs)
    case (Cons f fs)
    have "fst ` site_key ` set (concat (map (fn_sites m a) fs)) \<subseteq> set fs" using fn_sites_keys by fastforce
    then have "site_key ` set (fn_sites m a f) \<inter> site_key ` set (concat (map (fn_sites m a) fs)) = {}"
      using fn_sites_keys [of m a f] Cons.prems by fastforce
    with Cons fn_sites_keys [of m a f] show ?case by simp
  qed simp
  then show ?thesis by (simp add: collect_sites_def Let_def)
qed

lemma collect_sites_owned: "oi_owned (collect_sites m a) = length (filter (\<lambda>s. \<not> as_escapes s) (oi_sites (collect_sites m a)))"
proof -
  let ?ss = "filter (\<lambda>s. \<not> as_escapes s) (oi_sites (collect_sites m a))"
  have "oi_scopeOwned (collect_sites m a) = set (map site_key ?ss)"
    by (simp add: collect_sites_def Let_def site_key_def comp_def)
  moreover have "distinct (map site_key ?ss)" using collect_sites_distinct by (rule distinct_map_filter)
  ultimately show ?thesis unfolding oi_owned_def using distinct_card by fastforce
qed

text \<open>How often a reason occurs among the escaping sites.\<close>

definition reason_count :: "alloc_site list \<Rightarrow> string \<Rightarrow> nat" where
  "reason_count ss why = length (filter (\<lambda>s. as_escapes s \<and> as_reason s = why) ss)"

lemma count_reasons_spec:
  assumes "distinct (map fst cs)" and "\<forall>(why, n) \<in> set cs. 0 < n"
  shows "distinct (map fst (count_reasons ss cs)) \<and> (\<forall>(why, n) \<in> set (count_reasons ss cs). 0 < n) \<and>
    (case map_of (count_reasons ss cs) why of None \<Rightarrow> 0 | Some n \<Rightarrow> n) =
      reason_count ss why + (case map_of cs why of None \<Rightarrow> 0 | Some n \<Rightarrow> n)"
  using assms
proof (induction ss arbitrary: cs)
  case (Cons s ss)
  let ?cs = "if as_escapes s
        then AList.update (as_reason s) (Suc (case map_of cs (as_reason s) of None \<Rightarrow> 0 | Some n \<Rightarrow> n)) cs else cs"
  have d: "distinct (map fst ?cs)" using Cons.prems(1) by (simp add: distinct_update)
  have "0 < n" if "(w, n) \<in> set ?cs" for w n
  proof -
    have "map_of ?cs w = Some n" using that d by simp
    then show ?thesis using Cons.prems by (auto simp: update_conv' split: if_splits dest: map_of_SomeD)
  qed
  then have "\<forall>(w, n) \<in> set ?cs. 0 < n" by blast
  from Cons.IH [OF d this] show ?case by (auto simp: reason_count_def update_conv split: option.splits)
qed (simp add: reason_count_def)

lemma length_partition: "length xs = length (filter P xs) + length (filter (\<lambda>x. \<not> P x) xs)"
  by (induction xs) auto

lemma sites_partition:
  "length ss = length (filter (\<lambda>s. \<not> as_escapes s) ss) + transferred ss +
     length (filter (\<lambda>s. as_escapes s \<and> as_reason s \<noteq> ''returned to caller'') ss)"
  unfolding transferred_def by (induction ss) auto

text \<open>
  The report of the ownership analysis counts every allocation site in one tier: for the result of the analysis of a
  module the refcount tier is the number of sites that escape by another way than by return, the share of the
  others is at most 100 percent, and the lines by reason count the escaping sites of each reason.
\<close>

lemma ownershipReport_counts:
  assumes "analyzeOwnership m = Some info"
  shows "refcount info = int (length (filter (\<lambda>s. as_escapes s \<and> as_reason s \<noteq> ''returned to caller'') (oi_sites info))) \<and>
    oi_owned info = length (filter (\<lambda>s. \<not> as_escapes s) (oi_sites info)) \<and>
    share info \<le> 100 \<and>
    (\<forall>why n. (why, n) \<in> set (count_reasons (oi_sites info) []) \<longleftrightarrow> 0 < n \<and> n = reason_count (oi_sites info) why)"
proof -
  obtain a where "info = collect_sites m a" using assms by (auto simp: analyzeOwnership_def)
  then have owned: "oi_owned info = length (filter (\<lambda>s. \<not> as_escapes s) (oi_sites info))"
    using collect_sites_owned by simp
  note p = sites_partition [of "oi_sites info"]
  have "(oi_owned info + transferred (oi_sites info)) * 100 \<le> oi_total info * 100"
    using p owned by (simp add: oi_total_def)
  then have "share info \<le> oi_total info * 100 div oi_total info" unfolding share_def by (rule div_le_mono)
  then have "share info \<le> 100" by (cases "oi_total info = 0") simp_all
  moreover have "(why, n) \<in> set (count_reasons (oi_sites info) []) \<longleftrightarrow> 0 < n \<and> n = reason_count (oi_sites info) why" for why n
  proof -
    let ?cs = "count_reasons (oi_sites info) []"
    have "distinct (map fst ?cs)" "\<forall>(why, n) \<in> set ?cs. 0 < n"
      "(case map_of ?cs why of None \<Rightarrow> 0 | Some n \<Rightarrow> n) = reason_count (oi_sites info) why"
      using count_reasons_spec [of "[]" "oi_sites info" why] by simp_all
    then have d: "distinct (map fst ?cs)" and pos: "\<And>n. (why, n) \<in> set ?cs \<Longrightarrow> 0 < n"
      and cnt: "(case map_of ?cs why of None \<Rightarrow> 0 | Some n \<Rightarrow> n) = reason_count (oi_sites info) why"
      by blast+
    have mem: "(why, n) \<in> set ?cs \<longleftrightarrow> map_of ?cs why = Some n" using d by simp
    show ?thesis
    proof (cases "map_of ?cs why")
      case None
      then show ?thesis unfolding mem using cnt by auto
    next
      case (Some k)
      then have "0 < k" using d pos [of k] by simp
      then show ?thesis unfolding mem using cnt Some by auto
    qed
  qed
  ultimately show ?thesis using p owned by (simp add: refcount_def oi_total_def)
qed

lemma ownershipReport_counts_witness:
  "\<exists>info. analyzeOwnership (mk_module [mk_fn 0 1 [inst0 OpNewMap, inst0 OpRet]]) = Some info \<and> refcount info = 0 \<and>
     oi_owned info = 0 \<and> reason_count (oi_sites info) ''returned to caller'' = 1"
proof -
  let ?m = "mk_module [mk_fn 0 1 [inst0 OpNewMap, inst0 OpRet]]"
  have e: "map_option oi_sites (analyzeOwnership ?m) =
      Some [\<lparr>as_fn = 0, as_pc = 0, as_op = OpNewMap, as_escapes = True, as_reason = ''returned to caller''\<rparr>]"
    by code_simp
  then obtain info where i: "analyzeOwnership ?m = Some info" by auto
  with e ownershipReport_counts [OF i] show ?thesis by (simp add: reason_count_def)
qed
end
