(* ===== verification/Runtime_Core.thy ===== *)
theory Runtime_Core
  imports Ir Runtime_Loop "HOL-Library.AList"
begin

text \<open>
  \<open>src/runtime/RuntimeCore.cpp\<close>, the semantics the tree evaluator and the IR interpreter share: lookup of methods in the slots
  of a class, operators on objects, storage keys and raw field access with weak fields, and the transitions of promises and
  tasks; with \<open>copyValue\<close> of \<open>RuntimeValue.hpp\<close>. The engine-specific steps the source takes as callbacks are functions here too.

  An operation that C++ leaves undefined is \<open>Stuck\<close>: \<open>BadAccess\<close> for a null pointer or an index out of range, \<open>Overflow\<close> for
  signed arithmetic. \<open>TooDeep\<close> and \<open>NoFuel\<close> are the bounds of the model: nesting of values, and steps.
\<close>

section \<open>Outcomes\<close>

datatype stuck = BadAccess | Overflow | TooDeep | NoFuel

datatype 'a res = Val 'a | Stuck stuck

definition bind_res :: "'a res \<Rightarrow> ('a \<Rightarrow> 'b res) \<Rightarrow> 'b res" where
  "bind_res m f = (case m of Val x \<Rightarrow> f x | Stuck s \<Rightarrow> Stuck s)"

lemma bind_res_simps [simp]: "bind_res (Val x) f = f x" "bind_res (Stuck s) f = Stuck s"
  by (simp_all add: bind_res_def)

text \<open>An option that stands for a bound of the model.\<close>

definition deep :: "'a option \<Rightarrow> 'a res" where
  "deep x = (case x of None \<Rightarrow> Stuck TooDeep | Some y \<Rightarrow> Val y)"

section \<open>The semantic model\<close>

text \<open>What the runtime reads of classes: the slots of the shape, and of the declaration the accessors and the bases (a base
  that was not resolved is \<open>None\<close>). A declaration of a method is an identifier with its number of parameters and its name.\<close>

record slot =
  sl_name :: string
  sl_source :: "class_sym option"
  sl_decl :: "decl option"
  sl_isMethod :: bool
  sl_distinct :: bool
  sl_isWeak :: bool

record accessor =
  ac_name :: string
  ac_isGet :: bool
  ac_isSet :: bool
  ac_decl :: decl

record class_decl =
  cd_body :: "accessor list"
  cd_bases :: "class_sym option list"

record sema =
  sm_slots :: "nat \<Rightarrow> slot list"
  sm_decl :: "nat \<Rightarrow> class_decl option"
  sm_params :: "decl \<Rightarrow> nat"
  sm_declName :: "decl \<Rightarrow> string"
  sm_global :: "string \<Rightarrow> class_sym option"
  sm_depth :: nat

section \<open>Methods\<close>

fun find_method :: "sema \<Rightarrow> string \<Rightarrow> int \<Rightarrow> decl option \<Rightarrow> decl option \<Rightarrow> nat \<Rightarrow> slot list \<Rightarrow> decl option" where
  "find_method sm name argc frst hit hits [] = (if hits = 1 then hit else frst)"
| "find_method sm name argc frst hit hits (s # ss) =
     (if \<not> sl_isMethod s \<or> sl_name s \<noteq> name then find_method sm name argc frst hit hits ss
      else
        let frst' = (if frst = None then sl_decl s else frst);
            matches = (argc \<ge> 0 \<and> (case sl_decl s of None \<Rightarrow> False | Some d \<Rightarrow> int (sm_params sm d) = argc))
        in find_method sm name argc frst' (if matches then sl_decl s else hit) (if matches then hits + 1 else hits) ss)"

definition rtFindMethod :: "sema \<Rightarrow> class_sym option \<Rightarrow> string \<Rightarrow> int \<Rightarrow> decl option" where
  "rtFindMethod sm cls name argc =
     (case cls of None \<Rightarrow> None | Some c \<Rightarrow> find_method sm name argc None None 0 (sm_slots sm (cls_id c)))"

section \<open>Operators on objects\<close>

definition rtOpSymbol :: "token_kind \<Rightarrow> string" where
  "rtOpSymbol op =
     (case op of
        TkPunct p \<Rightarrow>
          (case p of
             PPlus \<Rightarrow> ''+'' | PMinus \<Rightarrow> ''-'' | PStar \<Rightarrow> ''*'' | PSlash \<Rightarrow> ''/'' | PPercent \<Rightarrow> ''%''
           | PEqEq \<Rightarrow> ''=='' | PBangEq \<Rightarrow> ''!='' | PLt \<Rightarrow> ''<'' | PGt \<Rightarrow> ''>'' | PLe \<Rightarrow> ''<='' | PGe \<Rightarrow> ''>=''
           | PLtLt \<Rightarrow> ''<<'' | PGtGt \<Rightarrow> ''>>'' | PPipe \<Rightarrow> ''|'' | PAmp \<Rightarrow> ''&'' | _ \<Rightarrow> ''?'')
      | _ \<Rightarrow> ''?'')"

definition rtObjectArith :: "sema \<Rightarrow> token_kind \<Rightarrow> class_sym option \<Rightarrow> decl option \<Rightarrow> rt_value \<Rightarrow> rt_value \<Rightarrow>
    (decl \<Rightarrow> rt_value \<Rightarrow> rt_value \<Rightarrow> 's \<Rightarrow> (rt_value \<times> 's) res) \<Rightarrow> (string \<Rightarrow> 's \<Rightarrow> (rt_value \<times> 's) res) \<Rightarrow> 's \<Rightarrow> (rt_value \<times> 's) res" where
  "rtObjectArith sm op cls resolved l r invoke raiseNoOp st =
     (let sym = rtOpSymbol op;
          m = (case resolved of Some d \<Rightarrow> Some d | None \<Rightarrow> rtFindMethod sm cls sym (- 1));
          identity =
            (if (op = TkPunct PEqEq \<or> op = TkPunct PBangEq) \<and> (case cls of None \<Rightarrow> False | Some c \<Rightarrow> \<not> cls_isValue c) then
               (let same = (v_kind r = KObject \<and> v_obj l = v_obj r)
                in Val (vbool (if op = TkPunct PEqEq then same else \<not> same), st))
             else raiseNoOp sym st)
      in case m of
           Some d \<Rightarrow> invoke d l r st
         | None \<Rightarrow>
             if op = TkPunct PBangEq then
               (case rtFindMethod sm cls ''=='' (- 1) of
                  Some eq \<Rightarrow> bind_res (invoke eq l r st) (\<lambda>(v, st'). Val (vbool (\<not> v_b v), st'))
                | None \<Rightarrow> identity)
             else identity)"

section \<open>Heap\<close>

text \<open>Beside the objects, arrays and maps: the weak fields of an object, the environments of a closure, the store and the offset of
  a block, and the bytes of a store.\<close>

record ir_heap =
  ih_base :: rt_heap
  ih_weak :: "addr \<Rightarrow> (string \<times> addr) list"
  ih_env :: "addr \<Rightarrow> (string \<times> rt_value) list list"
  ih_view :: "addr \<Rightarrow> addr \<times> nat"
  ih_bytes :: "addr \<Rightarrow> string"

definition new_object :: "class_sym option \<Rightarrow> (string \<times> rt_value) list \<Rightarrow> ir_heap \<Rightarrow> addr \<times> ir_heap" where
  "new_object cls fs h =
     (let a = hp_next (ih_base h)
      in (a, h\<lparr>ih_base := (ih_base h)\<lparr>hp_obj := (hp_obj (ih_base h))(a := \<lparr>ob_cls = cls, ob_fields = fs\<rparr>), hp_next := a + 1\<rparr>,
                ih_weak := (ih_weak h)(a := [])\<rparr>))"

definition weakObjectRead :: "(addr \<Rightarrow> bool) \<Rightarrow> ir_heap \<Rightarrow> addr \<Rightarrow> string \<Rightarrow> rt_value" where
  "weakObjectRead alive h a key =
     (case map_of (ih_weak h a) key of
        None \<Rightarrow> vnone
      | Some t \<Rightarrow> if alive t then vobj t else vnone)"

definition weakObjectWrite :: "addr \<Rightarrow> string \<Rightarrow> rt_value \<Rightarrow> ir_heap \<Rightarrow> ir_heap" where
  "weakObjectWrite a key v h =
     h\<lparr>ih_weak := (ih_weak h)
        (a := (case (v_kind v, v_obj v) of
                 (KObject, Some t) \<Rightarrow> AList.update key t (ih_weak h a)
               | _ \<Rightarrow> AList.delete key (ih_weak h a)))\<rparr>"

definition set_field :: "addr \<Rightarrow> string \<Rightarrow> rt_value \<Rightarrow> ir_heap \<Rightarrow> ir_heap" where
  "set_field a key v h =
     (let ob = hp_obj (ih_base h) a
      in h\<lparr>ih_base := (ih_base h)\<lparr>hp_obj := (hp_obj (ih_base h))(a := ob\<lparr>ob_fields := AList.update key v (ob_fields ob)\<rparr>)\<rparr>\<rparr>)"

definition field_or :: "rt_value \<Rightarrow> ir_heap \<Rightarrow> addr \<Rightarrow> string \<Rightarrow> rt_value" where
  "field_or d h a key = (case map_of (ob_fields (hp_obj (ih_base h) a)) key of None \<Rightarrow> d | Some v \<Rightarrow> v)"

subsection \<open>Copies of value structs\<close>

fun copy_fields :: "(ir_heap \<Rightarrow> rt_value \<Rightarrow> (rt_value \<times> ir_heap) res) \<Rightarrow> (string \<times> rt_value) list \<Rightarrow> ir_heap \<Rightarrow>
    ((string \<times> rt_value) list \<times> ir_heap) res" where
  "copy_fields cp [] h = Val ([], h)"
| "copy_fields cp ((k, v) # fs) h =
     bind_res (cp h v) (\<lambda>(v', h1). bind_res (copy_fields cp fs h1) (\<lambda>(fs', h2). Val ((k, v') # fs', h2)))"

definition struct_cell :: "ir_heap \<Rightarrow> rt_value \<Rightarrow> (addr \<times> class_sym) option" where
  "struct_cell h v =
     (case (v_kind v, v_obj v) of
        (KObject, Some a) \<Rightarrow>
          (case ob_cls (hp_obj (ih_base h) a) of None \<Rightarrow> None | Some c \<Rightarrow> if cls_isValue c then Some (a, c) else None)
      | _ \<Rightarrow> None)"

text \<open>\<open>n\<close> bounds the nesting of structs.\<close>

fun copyValue :: "nat \<Rightarrow> ir_heap \<Rightarrow> rt_value \<Rightarrow> (rt_value \<times> ir_heap) res" where
  "copyValue n h v =
     (case struct_cell h v of
        None \<Rightarrow> Val (v, h)
      | Some (a, c) \<Rightarrow>
          (case n of
             0 \<Rightarrow> Stuck TooDeep
           | Suc m \<Rightarrow>
               bind_res (copy_fields (copyValue m) (ob_fields (hp_obj (ih_base h) a)) h)
                 (\<lambda>(fs, h1). let (b, h2) = new_object (Some c) fs h1 in Val (v\<lparr>v_obj := Some b\<rparr>, h2))))"

declare copyValue.simps [simp del]

section \<open>Raw member access\<close>

fun key_for :: "string \<Rightarrow> string \<Rightarrow> slot list \<Rightarrow> string option" where
  "key_for name source [] = None"
| "key_for name source (s # ss) =
     (if sl_isMethod s \<or> sl_name s \<noteq> name then key_for name source ss
      else if source \<noteq> [] \<and> (case sl_source s of None \<Rightarrow> True | Some c \<Rightarrow> cls_name c \<noteq> source) then key_for name source ss
      else case sl_source s of
             Some c \<Rightarrow> Some (if sl_distinct s then cls_name c @ ''::'' @ name else name)
           | None \<Rightarrow> Some name)"

definition rtKeyFor :: "sema \<Rightarrow> class_sym option \<Rightarrow> string \<Rightarrow> string \<Rightarrow> string" where
  "rtKeyFor sm cls name source =
     (case (case cls of None \<Rightarrow> None | Some c \<Rightarrow> key_for name source (sm_slots sm (cls_id c))) of
        Some k \<Rightarrow> k
      | None \<Rightarrow> if source \<noteq> [] then source @ ''::'' @ name else name)"

definition weak_slot :: "string \<Rightarrow> slot \<Rightarrow> bool" where
  "weak_slot key s \<longleftrightarrow> \<not> sl_isMethod s \<and> sl_isWeak s \<and>
     (key = sl_name s \<or> (case sl_source s of None \<Rightarrow> False | Some c \<Rightarrow> key = cls_name c @ ''::'' @ sl_name s))"

definition rtRawFieldGet :: "sema \<Rightarrow> (addr \<Rightarrow> bool) \<Rightarrow> ir_heap \<Rightarrow> addr \<Rightarrow> string \<Rightarrow> rt_value res" where
  "rtRawFieldGet sm alive h a key =
     (case ob_cls (hp_obj (ih_base h) a) of
        None \<Rightarrow> Stuck BadAccess
      | Some c \<Rightarrow>
          Val (if list_ex (weak_slot key) (sm_slots sm (cls_id c)) then weakObjectRead alive h a key
               else field_or vvoid h a key))"

definition rtRawFieldSet :: "sema \<Rightarrow> addr \<Rightarrow> string \<Rightarrow> rt_value \<Rightarrow> ir_heap \<Rightarrow> ir_heap res" where
  "rtRawFieldSet sm a key v h =
     (case ob_cls (hp_obj (ih_base h) a) of
        None \<Rightarrow> Stuck BadAccess
      | Some c \<Rightarrow>
          Val (if list_ex (weak_slot key) (sm_slots sm (cls_id c)) then weakObjectWrite a key v h else set_field a key v h))"

section \<open>Promises and tasks\<close>

definition rtPollPromise :: "ir_heap \<Rightarrow> addr \<Rightarrow> int" where
  "rtPollPromise h a = (if v_b (field_or vvoid h a ''ready'') then 1 else 0) + (if v_b (field_or vvoid h a ''failed'') then 2 else 0)"

text \<open>The jobs of a batch that become tasks, in the order of their spawning.\<close>

definition rtTaskLoopStep :: "loop_env \<Rightarrow> bool \<Rightarrow> runtime_loop \<Rightarrow> int \<times> loop_callback list \<times> runtime_loop" where
  "rtTaskLoopStep env termStashed lp =
     (if termStashed \<or> \<not> hasWork lp then (0, [], lp)
      else
        let (batch, lp') = nextBatch env lp
        in (1, filter (\<lambda>j. v_kind (lc_callback j) = KClosure \<and> v_closure (lc_callback j) \<noteq> None) batch, lp'))"

record term_state =
  ts_throwing :: bool
  ts_exiting :: bool
  ts_thrown :: rt_value
  ts_stashed :: bool
  ts_termThrown :: rt_value
  ts_termExiting :: bool

definition rtCaptureTermination :: "term_state \<Rightarrow> term_state" where
  "rtCaptureTermination s =
     (if \<not> ts_throwing s then s
      else
        let s1 = (if ts_stashed s then s
                  else s\<lparr>ts_stashed := True, ts_termThrown := ts_thrown s, ts_termExiting := ts_exiting s\<rparr>)
        in s1\<lparr>ts_throwing := False, ts_exiting := False\<rparr>)"

end
