(* ===== verification/Native_Methods.thy ===== *)
theory Native_Methods
  imports Runtime_Core
begin

unbundle bit_operations_syntax

text \<open>
  The native method table of \<open>src/runtime/RuntimeNatives.cpp\<close> (\<open>nativeCall\<close>): the methods of strings, characters, byte blocks, arrays,
  maps and numbers that are not written in the language. A method gives its result and its error text (empty when it succeeds), or nothing
  when the class has no native of that name. A block is a view, an offset and a length into a store of bytes that its slices share;
  the C++ operator \<open>[]\<close> and \<open>memcpy\<close> outside a store are \<open>BadAccess\<close>, signed overflow is \<open>Overflow\<close>.
\<close>

section \<open>Cells\<close>

fun upsert :: "(rt_value \<Rightarrow> bool option) \<Rightarrow> rt_value \<Rightarrow> rt_value \<Rightarrow> (rt_value \<times> rt_value) list \<Rightarrow> (rt_value \<times> rt_value) list option" where
  "upsert eq idx v [] = Some [(idx, v)]"
| "upsert eq idx v ((k, x) # m) =
     (case eq k of
        None \<Rightarrow> None
      | Some True \<Rightarrow> Some ((k, v) # m)
      | Some False \<Rightarrow> map_option (Cons (k, x)) (upsert eq idx v m))"

definition write_arr :: "addr \<Rightarrow> rt_value list \<Rightarrow> ir_heap \<Rightarrow> ir_heap" where
  "write_arr a xs h = h\<lparr>ih_base := (ih_base h)\<lparr>hp_arr := (hp_arr (ih_base h))(a := xs)\<rparr>\<rparr>"

definition write_map :: "addr \<Rightarrow> (rt_value \<times> rt_value) list \<Rightarrow> ir_heap \<Rightarrow> ir_heap" where
  "write_map a m h = h\<lparr>ih_base := (ih_base h)\<lparr>hp_map := (hp_map (ih_base h))(a := m)\<rparr>\<rparr>"

definition fresh :: "ir_heap \<Rightarrow> addr \<times> ir_heap" where
  "fresh h = (hp_next (ih_base h), h\<lparr>ih_base := (ih_base h)\<lparr>hp_next := hp_next (ih_base h) + 1\<rparr>\<rparr>)"

definition alloc_arr :: "rt_value list \<Rightarrow> ir_heap \<Rightarrow> rt_value \<times> ir_heap" where
  "alloc_arr xs h = (let (a, h1) = fresh h in (vvoid\<lparr>v_kind := KArray, v_arr := Some a\<rparr>, write_arr a xs h1))"

definition alloc_map :: "(rt_value \<times> rt_value) list \<Rightarrow> ir_heap \<Rightarrow> rt_value \<times> ir_heap" where
  "alloc_map m h = (let (a, h1) = fresh h in (vvoid\<lparr>v_kind := KMap, v_map := Some a\<rparr>, write_map a m h1))"

text \<open>A new view; a view of the whole of a new store has the address of its store.\<close>

definition write_view :: "addr \<Rightarrow> addr \<times> nat \<Rightarrow> nat \<Rightarrow> ir_heap \<Rightarrow> ir_heap" where
  "write_view a w n h =
     h\<lparr>ih_base := (ih_base h)\<lparr>hp_block_len := (hp_block_len (ih_base h))(a := n)\<rparr>, ih_view := (ih_view h)(a := w)\<rparr>"

definition alloc_block :: "string \<Rightarrow> ir_heap \<Rightarrow> rt_value \<times> ir_heap" where
  "alloc_block bytes h =
     (let (a, h1) = fresh h
      in (vvoid\<lparr>v_kind := KBlock, v_block := Some a\<rparr>,
          (write_view a (a, 0) (length bytes) h1)\<lparr>ih_bytes := (ih_bytes h1)(a := bytes)\<rparr>))"

definition alloc_view :: "addr \<times> nat \<Rightarrow> nat \<Rightarrow> ir_heap \<Rightarrow> rt_value \<times> ir_heap" where
  "alloc_view w n h = (let (a, h1) = fresh h in (vvoid\<lparr>v_kind := KBlock, v_block := Some a\<rparr>, write_view a w n h1))"

section \<open>Results and arguments\<close>

type_synonym native_result = "((rt_value \<times> string) option \<times> ir_heap) res"

definition gives :: "rt_value \<Rightarrow> ir_heap \<Rightarrow> native_result" where
  "gives v h = Val (Some (v, []), h)"

definition fails :: "string \<Rightarrow> ir_heap \<Rightarrow> native_result" where
  "fails msg h = Val (Some (vvoid, msg), h)"

definition no_native :: "ir_heap \<Rightarrow> native_result" where
  "no_native h = Val (None, h)"

definition gives_new :: "rt_value \<times> ir_heap \<Rightarrow> native_result" where
  "gives_new r = (case r of (v, h) \<Rightarrow> gives v h)"

definition argS :: "rt_value list \<Rightarrow> nat \<Rightarrow> string" where
  "argS args i = (if i < length args then v_s (args ! i) else [])"

definition argI :: "rt_value list \<Rightarrow> nat \<Rightarrow> 64 word" where
  "argI args i = (if i < length args then v_i (args ! i) else 0)"

definition oob_text :: "int \<Rightarrow> nat \<Rightarrow> string" where
  "oob_text i n = ''index '' @ int_str i @ '' out of bounds (length '' @ nat_str n @ '')''"

definition vsize :: "nat \<Rightarrow> rt_value" where
  "vsize n = vint (word_of_nat n)"

section \<open>Numbers\<close>

text \<open>The digits are checked, so \<open>strtoll\<close> reads the whole string and only the range can fail.\<close>

definition strictParseInt :: "string \<Rightarrow> 64 word option" where
  "strictParseInt s =
     (case s of
        [] \<Rightarrow> None
      | c # r \<Rightarrow>
          (let ds = (if c = CHR ''-'' then r else s); v = (if c = CHR ''-'' then - int (digits_val ds) else int (digits_val ds))
           in if ds = [] \<or> \<not> list_all isdigit ds then None
              else if v < - (2 ^ 63) \<or> v \<ge> 2 ^ 63 then None else Some (word_of_int v)))"

definition f64_finite :: "64 word \<Rightarrow> bool" where
  "f64_finite b \<longleftrightarrow> b AND 0x7FF0000000000000 \<noteq> 0x7FF0000000000000"

text \<open>\<open>strtod\<close> gives the double and the number of bytes read, and reads no further than a zero byte.\<close>

definition strictParseFloat :: "fp_ops \<Rightarrow> string \<Rightarrow> 64 word option" where
  "strictParseFloat fp s =
     (if s = [] \<or> isspace (hd s) \<or> isspace (last s) then None
      else let (v, n) = fp_strtod fp (takeWhile (\<lambda>c. c \<noteq> NUL) s)
           in if n \<noteq> length s \<or> \<not> f64_finite v then None else Some v)"

text \<open>The value of a double is \<open>f64_mant b\<close> times 2 to the power \<open>f64_exp b\<close>.\<close>

definition f64_mant :: "64 word \<Rightarrow> int" where
  "f64_mant b =
     (let e = drop_bit 52 b AND 0x7FF; f = uint (b AND 0x000FFFFFFFFFFFFF)
      in (if bit b 63 then - 1 else 1) * (if e = 0 then f else 2 ^ 52 + f))"

definition f64_exp :: "64 word \<Rightarrow> int" where
  "f64_exp b = (let e = uint (drop_bit 52 b AND 0x7FF) in if e = 0 then - 1074 else e - 1075)"

definition f64_lt_int :: "64 word \<Rightarrow> int \<Rightarrow> bool" where
  "f64_lt_int b k =
     (if f64_exp b \<ge> 0 then f64_mant b * 2 ^ nat (f64_exp b) < k else f64_mant b < k * 2 ^ nat (- f64_exp b))"

definition f64_trunc :: "64 word \<Rightarrow> int" where
  "f64_trunc b =
     (if f64_exp b \<ge> 0 then f64_mant b * 2 ^ nat (f64_exp b)
      else sgn (f64_mant b) * (\<bar>f64_mant b\<bar> div 2 ^ nat (- f64_exp b)))"

definition float_native :: "fp_ops \<Rightarrow> string \<Rightarrow> rt_value \<Rightarrow> rt_value list \<Rightarrow> ir_heap \<Rightarrow> native_result" where
  "float_native fp m self args h =
     (let f = v_f self; arg = (case args of [] \<Rightarrow> 0 | x # _ \<Rightarrow> v_f x)
      in if m = ''toString'' then gives (vstr (fp_str fp f)) h
         else if m = ''floor'' then gives (vfloat (fp_floor fp f)) h
         else if m = ''ceil'' then gives (vfloat (fp_ceil fp f)) h
         else if m = ''round'' then gives (vfloat (fp_round fp f)) h
         else if m = ''trunc'' then gives (vfloat (fp_trunc fp f)) h
         else if m = ''sqrt'' then gives (vfloat (fp_sqrt fp f)) h
         else if m = ''pow'' then gives (vfloat (fp_pow fp f arg)) h
         else if m = ''bits'' then gives (vint f) h
         else if m = ''canonEq'' then gives (vbool (lv_canon f = lv_canon arg)) h
         else if m = ''toInt'' then
           (if \<not> f64_finite f \<or> f64_lt_int f (- (2 ^ 63)) \<or> \<not> f64_lt_int f (2 ^ 63)
            then fails ''float is not finite or out of int64 range for toInt()'' h
            else gives (vint (word_of_int (f64_trunc f))) h)
         else no_native h)"

section \<open>Strings\<close>

definition toupper :: "char \<Rightarrow> char" where
  "toupper c = (if CHR ''a'' \<le> c \<and> c \<le> CHR ''z'' then char_of (of_char c - 32 :: nat) else c)"

definition tolower :: "char \<Rightarrow> char" where
  "tolower c = (if CHR ''A'' \<le> c \<and> c \<le> CHR ''Z'' then char_of (of_char c + 32 :: nat) else c)"

text \<open>\<open>std::string::find\<close>\<close>

fun str_find :: "string \<Rightarrow> string \<Rightarrow> nat option" where
  "str_find p s =
     (if take (length p) s = p then Some 0
      else case s of [] \<Rightarrow> None | _ # r \<Rightarrow> map_option Suc (str_find p r))"

declare str_find.simps [simp del]

definition trim_char :: "char \<Rightarrow> bool" where
  "trim_char c \<longleftrightarrow> c \<in> {CHR '' '', TAB, NL, CR}"

definition str_trim :: "string \<Rightarrow> string" where
  "str_trim s = rev (dropWhile trim_char (rev (dropWhile trim_char s)))"

function chars_from :: "string \<Rightarrow> nat \<Rightarrow> rt_value list" where
  "chars_from s i =
     (if i < length s then (let (cp, len, boundary) = utf8DecodeAt s i in vchar (word_of_nat cp) # chars_from s (i + len)) else [])"
  by auto
termination
proof (relation "measure (\<lambda>(s, i). length s - i)")
  fix s i cp len boundary x y
  assume "i < length s" "x = utf8DecodeAt s i" "(cp, y) = x" "(len, boundary) = y"
  then show "((s, i + len), s, i) \<in> measure (\<lambda>(s, i). length s - i)" using decode_len [of i s cp len boundary] by auto
qed simp

declare chars_from.simps [simp del]

definition string_at :: "string \<Rightarrow> int \<Rightarrow> ir_heap \<Rightarrow> native_result" where
  "string_at s i h =
     (if i < 0 \<or> i \<ge> int (length s) then fails (oob_text i (length s)) h
      else let (cp, len, boundary) = utf8DecodeAt s (nat i)
           in if \<not> boundary then fails (''byte offset '' @ int_str i @ '' is not a scalar boundary'') h
              else gives (vchar (word_of_nat cp)) h)"

definition string_native :: "fp_ops \<Rightarrow> string \<Rightarrow> rt_value \<Rightarrow> rt_value list \<Rightarrow> ir_heap \<Rightarrow> native_result" where
  "string_native fp m self args h =
     (let s = v_s self; p = argS args 0; i = sint (argI args 0); n = argI args 1
      in if m = ''length'' then gives (vsize (length s)) h
         else if m = ''isEmpty'' then gives (vbool (s = [])) h
         else if m = ''toUpper'' then gives (vstr (map toupper s)) h
         else if m = ''toLower'' then gives (vstr (map tolower s)) h
         else if m = ''charAt'' then gives (vstr (if 0 \<le> i \<and> i < int (length s) then [s ! nat i] else [])) h
         else if m = ''subStr'' then gives (vstr (if 0 \<le> i \<and> i \<le> int (length s) then take (unat n) (drop (nat i) s) else [])) h
         else if m = ''contains'' then gives (vbool (str_find p s \<noteq> None)) h
         else if m = ''indexOf'' then gives (case str_find p s of None \<Rightarrow> vint (- 1) | Some k \<Rightarrow> vsize k) h
         else if m = ''startsWith'' then gives (vbool (take (length p) s = p)) h
         else if m = ''endsWith'' then gives (vbool (length p \<le> length s \<and> drop (length s - length p) s = p)) h
         else if m = ''trim'' then gives (vstr (str_trim s)) h
         else if m = ''toInt'' then gives (case strictParseInt s of Some v \<Rightarrow> vint v | None \<Rightarrow> vnone) h
         else if m = ''toFloat'' then gives (case strictParseFloat fp s of Some v \<Rightarrow> vfloat v | None \<Rightarrow> vnone) h
         else if m = ''byteAt'' then
           (if i < 0 \<or> i \<ge> int (length s) then fails (oob_text i (length s)) h else gives (vsize (of_char (s ! nat i))) h)
         else if m = ''at'' then string_at s i h
         else if m = ''chars'' then gives_new (alloc_arr (chars_from s 0) h)
         else no_native h)"

definition char_native :: "string \<Rightarrow> rt_value \<Rightarrow> ir_heap \<Rightarrow> native_result" where
  "char_native m self h =
     (if m = ''code'' then gives (vint (v_i self)) h
      else if m = ''toString'' then gives (vstr (utf8Encode (unat (v_i self)))) h
      else no_native h)"

definition int_native :: "fp_ops \<Rightarrow> string \<Rightarrow> rt_value \<Rightarrow> ir_heap \<Rightarrow> native_result" where
  "int_native fp m self h =
     (if m = ''toString'' then gives (vstr (int64_str (v_i self))) h
      else if m = ''toFloat'' then gives (vfloat (fp_of_int fp (v_i self))) h
      else no_native h)"

definition bool_native :: "string \<Rightarrow> rt_value \<Rightarrow> ir_heap \<Rightarrow> native_result" where
  "bool_native m self h =
     (if m = ''toString'' then gives (vstr (if v_b self then ''true'' else ''false'')) h else no_native h)"

section \<open>Byte blocks\<close>

text \<open>The bytes a read touches, and a write into a store.\<close>

definition region :: "nat \<Rightarrow> nat \<Rightarrow> string \<Rightarrow> string res" where
  "region k n bytes = (if k + n \<le> length bytes then Val (take n (drop k bytes)) else Stuck BadAccess)"

definition put_region :: "nat \<Rightarrow> string \<Rightarrow> string \<Rightarrow> string res" where
  "put_region k bs bytes =
     (if k + length bs \<le> length bytes then Val (take k bytes @ bs @ drop (k + length bs) bytes) else Stuck BadAccess)"

definition read_view :: "ir_heap \<Rightarrow> addr \<Rightarrow> nat \<Rightarrow> nat \<Rightarrow> string res" where
  "read_view h a i n = (case ih_view h a of (s, k) \<Rightarrow> region (k + i) n (ih_bytes h s))"

definition write_bytes :: "addr \<Rightarrow> nat \<Rightarrow> string \<Rightarrow> ir_heap \<Rightarrow> ir_heap res" where
  "write_bytes a i bs h =
     (case ih_view h a of (s, k) \<Rightarrow>
        bind_res (put_region (k + i) bs (ih_bytes h s)) (\<lambda>bytes. Val (h\<lparr>ih_bytes := (ih_bytes h)(s := bytes)\<rparr>)))"

definition in64 :: "int \<Rightarrow> bool" where
  "in64 x \<longleftrightarrow> - (2 ^ 63) \<le> x \<and> x < 2 ^ 63"

text \<open>The bound tests with a sum, which may overflow.\<close>

definition checked_add :: "int \<Rightarrow> int \<Rightarrow> int res" where
  "checked_add x y = (if in64 (x + y) then Val (x + y) else Stuck Overflow)"

text \<open>Little-endian words.\<close>

fun le_value :: "nat list \<Rightarrow> nat" where
  "le_value [] = 0"
| "le_value (b # bs) = b OR push_bit 8 (le_value bs)"

definition le_bytes :: "nat \<Rightarrow> 64 word \<Rightarrow> string" where
  "le_bytes n u = map (\<lambda>k. char_of (unat (drop_bit (8 * k) u AND 0xFF))) [0..<n]"

definition byte_range_text :: "int \<Rightarrow> string" where
  "byte_range_text v = ''byte value '' @ int_str v @ '' out of range 0..255''"

text \<open>The access of \<open>n\<close> bytes at an index: a bound test by a sum, then the access.\<close>

definition at_offset :: "int \<Rightarrow> int \<Rightarrow> nat \<Rightarrow> ir_heap \<Rightarrow> native_result \<Rightarrow> native_result" where
  "at_offset o1 l len h act =
     (if o1 < 0 \<or> l < 0 then fails (oob_text o1 len) h
      else bind_res (checked_add o1 l) (\<lambda>e. if e > int len then fails (oob_text o1 len) h else act))"

definition done_with :: "ir_heap res \<Rightarrow> native_result" where
  "done_with m = bind_res m (gives vvoid)"

definition block_access :: "string \<Rightarrow> addr \<Rightarrow> rt_value list \<Rightarrow> ir_heap \<Rightarrow> native_result option" where
  "block_access m a args h =
     (let len = hp_block_len (ih_base h) a; i = sint (argI args 0); v = argI args 1; l = sint v
      in if m = ''length'' then Some (gives (vsize len) h)
         else if m = ''byteAt'' then
           Some (if i < 0 \<or> i \<ge> int len then fails (oob_text i len) h
                 else bind_res (read_view h a (nat i) 1) (\<lambda>bs. gives (vsize (of_char (hd bs))) h))
         else if m = ''setByte'' then
           Some (if i < 0 \<or> i \<ge> int len then fails (oob_text i len) h
                 else if l < 0 \<or> l > 255 then fails (byte_range_text l) h
                 else done_with (write_bytes a (nat i) [char_of (nat l)] h))
         else if m = ''slice'' then
           Some (at_offset i l len h (case ih_view h a of (s, k) \<Rightarrow> gives_new (alloc_view (s, k + nat i) (nat l) h)))
         else if m = ''toString'' then
           Some (at_offset i l len h (bind_res (read_view h a (nat i) (nat l)) (\<lambda>bs. gives (vstr bs) h)))
         else if m = ''int32At'' then
           Some (at_offset i 4 len h (bind_res (read_view h a (nat i) 4)
             (\<lambda>bs. gives (vint (word_of_int (sint (word_of_nat (le_value (map of_char bs)) :: 32 word)))) h)))
         else if m = ''setInt32'' then Some (at_offset i 4 len h (done_with (write_bytes a (nat i) (le_bytes 4 v) h)))
         else if m = ''int64At'' then
           Some (at_offset i 8 len h (bind_res (read_view h a (nat i) 8)
             (\<lambda>bs. gives (vint (word_of_nat (le_value (map of_char bs)))) h)))
         else if m = ''setInt64'' then Some (at_offset i 8 len h (done_with (write_bytes a (nat i) (le_bytes 8 v) h)))
         else None)"

text \<open>The bound test of \<open>fill\<close> and \<open>blit\<close>, by a difference.\<close>

definition in_window :: "int \<Rightarrow> int \<Rightarrow> nat \<Rightarrow> bool" where
  "in_window k l len \<longleftrightarrow> 0 \<le> k \<and> 0 \<le> l \<and> k \<le> int len \<and> l \<le> int len - k"

definition block_fill :: "addr \<Rightarrow> rt_value list \<Rightarrow> ir_heap \<Rightarrow> native_result" where
  "block_fill a args h =
     (let len = hp_block_len (ih_base h) a; k = sint (argI args 0); l = sint (argI args 1); v = sint (argI args 2)
      in if \<not> in_window k l len then fails (oob_text k len) h
         else if v < 0 \<or> v > 255 then fails (byte_range_text v) h
         else if l = 0 then gives vvoid h
         else done_with (write_bytes a (nat k) (replicate (nat l) (char_of (nat v))) h))"

definition block_blit :: "addr \<Rightarrow> rt_value list \<Rightarrow> ir_heap \<Rightarrow> native_result" where
  "block_blit a args h =
     (let len = hp_block_len (ih_base h) a; d = sint (argI args 0); s = sint (argI args 2); l = sint (argI args 3)
      in if \<not> in_window d l len then fails (oob_text d len) h
         else case (if length args < 2 then None else v_block (args ! 1)) of
                None \<Rightarrow> fails ''null block'' h
              | Some b \<Rightarrow>
                  (let blen = hp_block_len (ih_base h) b
                   in if s < 0 \<or> s > int blen \<or> l > int blen - s then fails (oob_text s blen) h
                      else if l = 0 then gives vvoid h
                      else bind_res (read_view h b (nat s) (nat l)) (\<lambda>bs. done_with (write_bytes a (nat d) bs h))))"

definition block_equals :: "addr \<Rightarrow> addr \<Rightarrow> ir_heap \<Rightarrow> native_result" where
  "block_equals a b h =
     (let len = hp_block_len (ih_base h) a
      in if len \<noteq> hp_block_len (ih_base h) b then gives (vbool False) h
         else if len = 0 then gives (vbool True) h
         else bind_res (read_view h a 0 len) (\<lambda>x. bind_res (read_view h b 0 len) (\<lambda>y. gives (vbool (x = y)) h)))"

text \<open>The two loops of \<open>mismatch\<close>: 64 bytes at a time, then byte by byte.\<close>

function skip_equal :: "nat \<Rightarrow> ir_heap \<Rightarrow> addr \<Rightarrow> addr \<Rightarrow> nat \<Rightarrow> nat \<Rightarrow> nat res" where
  "skip_equal n h a b len i =
     (if n > 0 \<and> i + n \<le> len then
        bind_res (read_view h a i n) (\<lambda>x. bind_res (read_view h b i n) (\<lambda>y. if x = y then skip_equal n h a b len (i + n) else Val i))
      else Val i)"
  by auto
termination by (relation "measure (\<lambda>(n, h, a, b, len, i). len - i)") auto

declare skip_equal.simps [simp del]

definition block_mismatch :: "addr \<Rightarrow> addr \<Rightarrow> rt_value list \<Rightarrow> ir_heap \<Rightarrow> native_result" where
  "block_mismatch a b args h =
     (let len = hp_block_len (ih_base h) a; k = sint (argI args 1)
      in if len \<noteq> hp_block_len (ih_base h) b then fails ''Block.mismatch requires equal lengths'' h
         else if k < 0 \<or> k > int len then fails (oob_text k len) h
         else bind_res (skip_equal 64 h a b len (nat k)) (\<lambda>i. bind_res (skip_equal 1 h a b len i)
                (\<lambda>j. gives (if j = len then vint (- 1) else vsize j) h)))"

definition block_native :: "string \<Rightarrow> rt_value \<Rightarrow> rt_value list \<Rightarrow> ir_heap \<Rightarrow> native_result" where
  "block_native m self args h =
     (case v_block self of
        None \<Rightarrow> fails ''null block'' h
      | Some a \<Rightarrow>
          (case block_access m a args h of
             Some r \<Rightarrow> r
           | None \<Rightarrow>
               if m = ''fill'' then block_fill a args h
               else if m = ''blit'' then block_blit a args h
               else if m = ''equals'' \<or> m = ''mismatch'' then
                 (case (if args = [] then None else v_block (hd args)) of
                    None \<Rightarrow> fails ''null block'' h
                  | Some b \<Rightarrow> if m = ''equals'' then block_equals a b h else block_mismatch a b args h)
               else no_native h))"

section \<open>Arrays and maps\<close>

definition array_native :: "string \<Rightarrow> rt_value \<Rightarrow> rt_value list \<Rightarrow> bool \<Rightarrow> ir_heap \<Rightarrow> native_result" where
  "array_native m self args cowReceiver h =
     (let xs = (case v_arr self of None \<Rightarrow> [] | Some a \<Rightarrow> hp_arr (ih_base h) a); i = sint (argI args 0); ys = xs @ take 1 args
      in if m = ''length'' then gives (vsize (length xs)) h
         else if m = ''at'' then
           (if i < 0 \<or> i \<ge> int (length xs) then fails (oob_text i (length xs)) h else gives (xs ! nat i) h)
         else if m = ''add'' then
           (case (if cowReceiver then v_arr self else None) of
              Some a \<Rightarrow> gives self (write_arr a ys h)
            | None \<Rightarrow> gives_new (alloc_arr ys h))
         else if m = ''concatAll'' then gives (vstr (concat (map v_s xs))) h
         else no_native h)"

text \<open>The loops over the entries, with the comparison of the first argument.\<close>

fun find_entry :: "(rt_value \<Rightarrow> bool option) \<Rightarrow> (rt_value \<times> rt_value) list \<Rightarrow> rt_value option option" where
  "find_entry eq [] = Some None"
| "find_entry eq ((k, v) # m) = (case eq k of None \<Rightarrow> None | Some True \<Rightarrow> Some (Some v) | Some False \<Rightarrow> find_entry eq m)"

fun drop_entries :: "(rt_value \<Rightarrow> bool option) \<Rightarrow> (rt_value \<times> rt_value) list \<Rightarrow> (rt_value \<times> rt_value) list option" where
  "drop_entries eq [] = Some []"
| "drop_entries eq ((k, v) # m) =
     (case eq k of None \<Rightarrow> None | Some True \<Rightarrow> drop_entries eq m | Some False \<Rightarrow> map_option (Cons (k, v)) (drop_entries eq m))"

definition map_native :: "nat \<Rightarrow> fp_ops \<Rightarrow> string \<Rightarrow> rt_value \<Rightarrow> rt_value list \<Rightarrow> ir_heap \<Rightarrow> native_result" where
  "map_native n fp m self args h =
     (let es = (case v_map self of None \<Rightarrow> [] | Some a \<Rightarrow> hp_map (ih_base h) a);
          eq = (\<lambda>k. case args of [] \<Rightarrow> Some False | x # _ \<Rightarrow> keyEquals n (ih_base h) k x)
      in if m = ''length'' then gives (vsize (length es)) h
         else if m = ''at'' then
           bind_res (deep (find_entry eq es)) (\<lambda>r. case r of
              Some v \<Rightarrow> gives v h
            | None \<Rightarrow>
                bind_res (case args of [] \<Rightarrow> Val ''<none>'' | x # _ \<Rightarrow> deep (valueToString n fp (ih_base h) x))
                  (\<lambda>s. fails (''key not found: '' @ s) h))
         else if m = ''has'' then bind_res (deep (find_entry eq es)) (\<lambda>r. gives (vbool (r \<noteq> None)) h)
         else if m = ''with'' then
           (if length args = 2 then bind_res (deep (upsert eq (args ! 0) (args ! 1) es)) (\<lambda>es1. gives_new (alloc_map es1 h))
            else gives_new (alloc_map es h))
         else if m = ''without'' then bind_res (deep (drop_entries eq es)) (\<lambda>es1. gives_new (alloc_map es1 h))
         else if m = ''keys'' then gives_new (alloc_arr (map fst es) h)
         else if m = ''values'' then gives_new (alloc_arr (map snd es) h)
         else no_native h)"

section \<open>The table\<close>

definition nativeCall :: "nat \<Rightarrow> fp_ops \<Rightarrow> string \<Rightarrow> string \<Rightarrow> rt_value \<Rightarrow> rt_value list \<Rightarrow> bool \<Rightarrow> ir_heap \<Rightarrow> native_result" where
  "nativeCall n fp cls m self args cowReceiver h =
     (if cls = ''string'' then string_native fp m self args h
      else if cls = ''char'' then char_native m self h
      else if cls = ''Block'' then block_native m self args h
      else if cls = ''Array'' then array_native m self args cowReceiver h
      else if cls = ''Map'' then map_native n fp m self args h
      else if cls = ''int'' then int_native fp m self h
      else if cls = ''bool'' then bool_native m self h
      else if cls = ''float'' then float_native fp m self args h
      else no_native h)"

end
