(* ===== verification/Ir_Interp.thy ===== *)
theory Ir_Interp
  imports Native_Methods Mem_Verify
begin

unbundle bit_operations_syntax

text \<open>
  The IR interpreter, \<open>src/backend/IrInterp.cpp\<close>: its members as the record \<open>interp\<close>, the helpers over the semantic model, member
  access, indexing with copy on write, iteration, the task natives, one instruction (\<open>exec_inst\<close>, one definition per
  group of cases of the dispatch switch), exception dispatch, frames and calls, and the run of a program with its exit code.

  Outside the model, as fields of \<open>ienv\<close>: the free native functions (\<open>nativeFreeCall\<close> of \<open>RuntimeNatives.cpp\<close>, apart from the exit natives), the task
  scheduler of the C runtime, the clock and \<open>poll\<close> of the event loop, and what the reference counts of \<open>shared_ptr\<close> are.
  A helper that calls back into the interpreter takes the call as its argument \<open>callf\<close>; \<open>frameExec\<close> ties the knot, with one
  unit of fuel per instruction.
\<close>

section \<open>State\<close>

record 'w interp =
  ip_heap :: ir_heap
  ip_loop :: runtime_loop
  ip_globals :: "rt_value list"
  ip_out :: string
  ip_raw :: bool
  ip_written :: string
  ip_throwing :: bool
  ip_thrown :: rt_value
  ip_exiting :: bool
  ip_exitReq :: bool
  ip_exitVal :: int
  ip_exitCode :: int
  ip_stashed :: bool
  ip_termThrown :: rt_value
  ip_termExiting :: bool
  ip_tracked :: nat
  ip_violations :: "string list"
  ip_mem :: mem_verifier
  ip_refs :: "int list list option"
  ip_world :: 'w

datatype park = ParkOn addr | ParkJoin "64 word list" | ParkAny2 addr addr

definition PARK_SETTLED :: int where "PARK_SETTLED = 1"
definition PARK_DRAINED :: int where "PARK_DRAINED = 2"
definition PARK_CANCELLED :: int where "PARK_CANCELLED = 3"

text \<open>\<open>en_useCount\<close> and \<open>en_released\<close> give the reference counts when the members are \<open>st\<close> and the registers of the running frame
  are as given. A native returns its result and its error text, or nothing when it does not know the name.\<close>

record 'w ienv =
  en_mod :: ir_module
  en_sema :: sema
  en_fp :: fp_ops
  en_deep :: nat
  en_own :: "(nat \<times> nat) set option"
  en_memOn :: bool
  en_tasks :: bool
  en_useCount :: "'w interp \<Rightarrow> rt_value list \<Rightarrow> addr \<Rightarrow> nat"
  en_released :: "'w interp \<Rightarrow> rt_value list \<Rightarrow> addr \<Rightarrow> bool"
  en_loc :: "addr \<Rightarrow> nat"
  en_nativeFree :: "string \<Rightarrow> rt_value list \<Rightarrow> 'w interp \<Rightarrow> (rt_value \<times> string) option \<times> 'w interp"
  en_spawn :: "rt_value \<Rightarrow> 'w interp \<Rightarrow> 64 word \<times> 'w interp"
  en_park :: "park \<Rightarrow> 'w interp \<Rightarrow> int \<times> int \<times> 'w interp"
  en_clock :: "'w interp \<Rightarrow> loop_env \<times> 'w interp"
  en_sched :: "('w interp \<Rightarrow> 'w interp res) \<Rightarrow> 'w interp \<Rightarrow> 'w interp res"

type_synonym 'w callf = "int \<Rightarrow> rt_value list \<Rightarrow> 'w interp \<Rightarrow> (rt_value \<times> 'w interp) res"

section \<open>Helpers over the semantic model\<close>

definition classOfValue :: "'w ienv \<Rightarrow> 'w interp \<Rightarrow> rt_value \<Rightarrow> class_sym option" where
  "classOfValue E st v =
     (let g = sm_global (en_sema E)
      in case v_kind v of
           KObject \<Rightarrow> (case v_obj v of None \<Rightarrow> None | Some a \<Rightarrow> ob_cls (hp_obj (ih_base (ip_heap st)) a))
         | KArray \<Rightarrow> g ''Array'' | KMap \<Rightarrow> g ''Map'' | KBlock \<Rightarrow> g ''Block'' | KInt \<Rightarrow> g ''int'' | KChar \<Rightarrow> g ''char''
         | KString \<Rightarrow> g ''string'' | KBool \<Rightarrow> g ''bool'' | KFloat \<Rightarrow> g ''float'' | _ \<Rightarrow> None)"

definition findMethodByName :: "'w ienv \<Rightarrow> class_sym option \<Rightarrow> string \<Rightarrow> int \<Rightarrow> decl option" where
  "findMethodByName E cls name argc = rtFindMethod (en_sema E) cls name argc"

text \<open>The recursions over the bases of a class take the depth of the hierarchy.\<close>

fun first_some :: "('a \<Rightarrow> 'b option) \<Rightarrow> 'a list \<Rightarrow> 'b option" where
  "first_some f [] = None"
| "first_some f (x # xs) = (case f x of Some y \<Rightarrow> Some y | None \<Rightarrow> first_some f xs)"

fun findAccessor :: "nat \<Rightarrow> sema \<Rightarrow> class_sym option \<Rightarrow> string \<Rightarrow> bool \<Rightarrow> decl option" where
  "findAccessor 0 sm cls name wantGet = None"
| "findAccessor (Suc n) sm cls name wantGet =
     (case cls of
        None \<Rightarrow> None
      | Some c \<Rightarrow>
          (case sm_decl sm (cls_id c) of
             None \<Rightarrow> None
           | Some d \<Rightarrow>
               (case find (\<lambda>m. (if wantGet then ac_isGet m else ac_isSet m) \<and> ac_name m = name) (cd_body d) of
                  Some m \<Rightarrow> Some (ac_decl m)
                | None \<Rightarrow> first_some (\<lambda>b. findAccessor n sm b name wantGet) (cd_bases d))))"

fun isSubclassOrSelf :: "nat \<Rightarrow> sema \<Rightarrow> class_sym option \<Rightarrow> class_sym option \<Rightarrow> bool" where
  "isSubclassOrSelf 0 sm a b = False"
| "isSubclassOrSelf (Suc n) sm a b =
     (case (a, b) of
        (Some x, Some y) \<Rightarrow>
          cls_id x = cls_id y \<or>
          (case sm_decl sm (cls_id x) of None \<Rightarrow> False | Some d \<Rightarrow> list_ex (\<lambda>c. isSubclassOrSelf n sm c b) (cd_bases d))
      | _ \<Rightarrow> False)"

definition accessor_of :: "'w ienv \<Rightarrow> class_sym option \<Rightarrow> string \<Rightarrow> bool \<Rightarrow> decl option" where
  "accessor_of E cls name wantGet = findAccessor (sm_depth (en_sema E)) (en_sema E) cls name wantGet"

definition subclass_of :: "'w ienv \<Rightarrow> class_sym option \<Rightarrow> class_sym option \<Rightarrow> bool" where
  "subclass_of E a b = isSubclassOrSelf (sm_depth (en_sema E)) (en_sema E) a b"

text \<open>The parts around the first \<open>::\<close> of a name.\<close>

fun split_colons :: "string \<Rightarrow> (string \<times> string) option" where
  "split_colons (c # d # r) =
     (if c = CHR '':'' \<and> d = CHR '':'' then Some ([], r)
      else case split_colons (d # r) of None \<Rightarrow> None | Some (a, b) \<Rightarrow> Some (c # a, b))"
| "split_colons _ = None"

definition keyFor :: "'w ienv \<Rightarrow> class_sym option \<Rightarrow> string \<Rightarrow> string" where
  "keyFor E cls nq =
     (case split_colons nq of
        Some (source, name) \<Rightarrow> rtKeyFor (en_sema E) cls name source
      | None \<Rightarrow> rtKeyFor (en_sema E) cls nq [])"

definition plain_name :: "string \<Rightarrow> string" where
  "plain_name key = (case split_colons key of Some (_, name) \<Rightarrow> name | None \<Rightarrow> key)"

definition raiseClass :: "'w ienv \<Rightarrow> string \<Rightarrow> string \<Rightarrow> 'w interp \<Rightarrow> 'w interp" where
  "raiseClass E clsName msg st =
     (let cls = (case sm_global (en_sema E) clsName of Some c \<Rightarrow> Some c | None \<Rightarrow> sm_global (en_sema E) ''RuntimeException'')
      in case cls of
           Some c \<Rightarrow>
             (let (a, h) = new_object (Some c) [(''message'', vstr msg)] (ip_heap st)
              in st\<lparr>ip_heap := h, ip_thrown := vobj a, ip_throwing := True\<rparr>)
         | None \<Rightarrow> st\<lparr>ip_thrown := vstr msg, ip_throwing := True\<rparr>)"

definition raise :: "'w ienv \<Rightarrow> string \<Rightarrow> 'w interp \<Rightarrow> 'w interp" where
  "raise E msg st = raiseClass E ''RuntimeException'' msg st"

section \<open>Registers and calls\<close>

definition get_reg :: "'a list \<Rightarrow> int \<Rightarrow> 'a res" where
  "get_reg regs i = (if 0 \<le> i \<and> nat i < length regs then Val (regs ! nat i) else Stuck BadAccess)"

definition set_reg :: "'a list \<Rightarrow> int \<Rightarrow> 'a \<Rightarrow> 'a list res" where
  "set_reg regs i v = (if 0 \<le> i \<and> nat i < length regs then Val (regs[nat i := v]) else Stuck BadAccess)"

definition reg_window :: "'a list \<Rightarrow> int \<Rightarrow> int \<Rightarrow> 'a list res" where
  "reg_window regs c d =
     (if 0 \<le> c \<and> 0 \<le> d \<and> nat c + nat d \<le> length regs then Val (take (nat d) (drop (nat c) regs)) else Stuck BadAccess)"

definition callDecl :: "'w ienv \<Rightarrow> 'w callf \<Rightarrow> decl \<Rightarrow> rt_value list \<Rightarrow> bool \<Rightarrow> 'w interp \<Rightarrow> (rt_value \<times> 'w interp) res" where
  "callDecl E callf d args cowReceiver st =
     (case md_byDecl (en_mod E) d of
        Some fi \<Rightarrow> callf fi args st
      | None \<Rightarrow>
          (case args of
             [] \<Rightarrow> Val (vvoid, st)
           | self # rest \<Rightarrow>
               (case classOfValue E st self of
                  None \<Rightarrow> Val (vvoid, st)
                | Some rc \<Rightarrow>
                    bind_res (nativeCall (en_deep E) (en_fp E) (cls_name rc) (sm_declName (en_sema E) d) self rest cowReceiver (ip_heap st))
                      (\<lambda>(r, h).
                         let st1 = st\<lparr>ip_heap := h\<rparr>
                         in case r of
                              None \<Rightarrow> Val (vvoid, st1)
                            | Some (out, err) \<Rightarrow> if err \<noteq> [] then Val (vvoid, raise E err st1) else Val (out, st1)))))"

section \<open>Members, elements and operators\<close>

definition getMember :: "'w ienv \<Rightarrow> 'w callf \<Rightarrow> rt_value list \<Rightarrow> rt_value \<Rightarrow> string \<Rightarrow> 'w interp \<Rightarrow> (rt_value \<times> 'w interp) res" where
  "getMember E callf regs base key st =
     (case (v_kind base, v_obj base) of
        (KObject, Some a) \<Rightarrow>
          (let cls = ob_cls (hp_obj (ih_base (ip_heap st)) a)
           in case accessor_of E cls (plain_name key) True of
                Some g \<Rightarrow> callDecl E callf g [base] False st
              | None \<Rightarrow>
                  bind_res (rtRawFieldGet (en_sema E) (\<lambda>c. \<not> en_released E st regs c) (ip_heap st) a (keyFor E cls key))
                    (\<lambda>v. Val (v, st)))
      | _ \<Rightarrow> Val (vvoid, st))"

definition setMember :: "'w ienv \<Rightarrow> 'w callf \<Rightarrow> rt_value \<Rightarrow> string \<Rightarrow> rt_value \<Rightarrow> 'w interp \<Rightarrow> 'w interp res" where
  "setMember E callf base key v st =
     (case (v_kind base, v_obj base) of
        (KObject, Some a) \<Rightarrow>
          (let cls = ob_cls (hp_obj (ih_base (ip_heap st)) a)
           in case accessor_of E cls (plain_name key) False of
                Some s \<Rightarrow> bind_res (callDecl E callf s [base, v] False st) (\<lambda>(_, st1). Val st1)
              | None \<Rightarrow> bind_res (rtRawFieldSet (en_sema E) a (keyFor E cls key) v (ip_heap st)) (\<lambda>h. Val (st\<lparr>ip_heap := h\<rparr>)))
      | _ \<Rightarrow> Val st)"

definition getIndex :: "'w ienv \<Rightarrow> 'w callf \<Rightarrow> rt_value \<Rightarrow> rt_value \<Rightarrow> 'w interp \<Rightarrow> (rt_value \<times> 'w interp) res" where
  "getIndex E callf base idx st =
     (case accessor_of E (classOfValue E st base) ''[]'' True of
        Some g \<Rightarrow> callDecl E callf g [base, idx] False st
      | None \<Rightarrow>
          (case (v_kind base, v_arr base) of
             (KArray, Some a) \<Rightarrow>
               (let i = sint (v_i idx); xs = hp_arr (ih_base (ip_heap st)) a
                in if i < 0 \<or> i \<ge> int (length xs) then
                     Val (vvoid, raise E (''index '' @ int_str i @ '' out of bounds (length '' @ nat_str (length xs) @ '')'') st)
                   else Val (xs ! nat i, st))
           | _ \<Rightarrow> Val (vvoid, st)))"

text \<open>A store at an index, ignored outside the array.\<close>

definition store_at :: "int \<Rightarrow> 'a \<Rightarrow> 'a list \<Rightarrow> 'a list" where
  "store_at i v xs = (if 0 \<le> i \<and> i < int (length xs) then xs[nat i := v] else xs)"

definition store_arr :: "'w ienv \<Rightarrow> rt_value list \<Rightarrow> rt_value \<Rightarrow> rt_value \<Rightarrow> rt_value \<Rightarrow> 'w interp \<Rightarrow> (rt_value \<times> 'w interp) res" where
  "store_arr E regs base idx v st =
     (let h = ip_heap st; i = sint (v_i idx);
          copy = (\<lambda>xs. let (r, h1) = alloc_arr (store_at i v xs) h in Val (r, st\<lparr>ip_heap := h1\<rparr>))
      in case v_arr base of
           None \<Rightarrow> copy []
         | Some a \<Rightarrow>
             (let xs = hp_arr (ih_base h) a
              in if en_useCount E st regs a = 1 then Val (base, st\<lparr>ip_heap := write_arr a (store_at i v xs) h\<rparr>) else copy xs))"

definition store_map :: "'w ienv \<Rightarrow> rt_value list \<Rightarrow> rt_value \<Rightarrow> rt_value \<Rightarrow> rt_value \<Rightarrow> 'w interp \<Rightarrow> (rt_value \<times> 'w interp) res" where
  "store_map E regs base idx v st =
     (let h = ip_heap st;
          put = (\<lambda>m. deep (upsert (\<lambda>k. keyEquals (en_deep E) (ih_base h) k idx) idx v m));
          copy = (\<lambda>m. bind_res (put m) (\<lambda>m'. let (r, h1) = alloc_map m' h in Val (r, st\<lparr>ip_heap := h1\<rparr>)))
      in case v_map base of
           None \<Rightarrow> copy []
         | Some a \<Rightarrow>
             (let m = hp_map (ih_base h) a
              in if en_useCount E st regs a = 1
                 then bind_res (put m) (\<lambda>m'. Val (base, st\<lparr>ip_heap := write_map a m' h\<rparr>)) else copy m))"

definition indexStore :: "'w ienv \<Rightarrow> 'w callf \<Rightarrow> rt_value list \<Rightarrow> rt_value \<Rightarrow> rt_value \<Rightarrow> rt_value \<Rightarrow> 'w interp \<Rightarrow>
    (rt_value \<times> 'w interp) res" where
  "indexStore E callf regs base idx v st =
     (case v_kind base of
        KObject \<Rightarrow>
          (case v_obj base of
             None \<Rightarrow> Val (base, st)
           | Some a \<Rightarrow>
               (case accessor_of E (ob_cls (hp_obj (ih_base (ip_heap st)) a)) ''[]'' False of
                  None \<Rightarrow> Val (base, st)
                | Some s \<Rightarrow> bind_res (callDecl E callf s [base, idx, v] False st) (\<lambda>(_, st1). Val (base, st1))))
      | KArray \<Rightarrow> store_arr E regs base idx v st
      | KMap \<Rightarrow> store_map E regs base idx v st
      | _ \<Rightarrow> Val (base, st))"

definition objectArith :: "'w ienv \<Rightarrow> 'w callf \<Rightarrow> inst \<Rightarrow> class_sym \<Rightarrow> rt_value \<Rightarrow> rt_value \<Rightarrow> 'w interp \<Rightarrow> (rt_value \<times> 'w interp) res" where
  "objectArith E callf i cls l r st =
     rtObjectArith (en_sema E) (in_tk i) (Some cls) (in_decl i) l r
       (\<lambda>m l r. callDecl E callf m [l, r] False)
       (\<lambda>sym st. Val (vvoid, raise E (''no operator '' @ [SQUOTE] @ sym @ [SQUOTE] @ '' on '' @ [SQUOTE] @ cls_name cls @ [SQUOTE]) st)) st"

text \<open>The address of a range object, and its field read with \<open>operator[]\<close>, which adds a missing one.\<close>

definition range_cell :: "'w interp \<Rightarrow> rt_value \<Rightarrow> addr option" where
  "range_cell st v =
     (case (v_kind v, v_obj v) of
        (KObject, Some a) \<Rightarrow>
          (case ob_cls (hp_obj (ih_base (ip_heap st)) a) of
             Some c \<Rightarrow> if cls_name c = ''Range'' then Some a else None
           | None \<Rightarrow> None)
      | _ \<Rightarrow> None)"

definition touch_field :: "addr \<Rightarrow> string \<Rightarrow> 'w interp \<Rightarrow> rt_value \<times> 'w interp" where
  "touch_field a key st =
     (case map_of (ob_fields (hp_obj (ih_base (ip_heap st)) a)) key of
        Some v \<Rightarrow> (v, st)
      | None \<Rightarrow> (vvoid, st\<lparr>ip_heap := set_field a key vvoid (ip_heap st)\<rparr>))"

definition iterLen :: "rt_value \<Rightarrow> 'w interp \<Rightarrow> (rt_value \<times> 'w interp) res" where
  "iterLen it st =
     (case v_kind it of
        KArray \<Rightarrow> Val (vint (case v_arr it of None \<Rightarrow> 0 | Some a \<Rightarrow> of_nat (length (hp_arr (ih_base (ip_heap st)) a))), st)
      | KMap \<Rightarrow> Val (vint (case v_map it of None \<Rightarrow> 0 | Some a \<Rightarrow> of_nat (length (hp_map (ih_base (ip_heap st)) a))), st)
      | _ \<Rightarrow>
          (case range_cell st it of
             None \<Rightarrow> Val (vint 0, st)
           | Some a \<Rightarrow>
               (let (lo, st1) = touch_field a ''start'' st; (hi, st2) = touch_field a ''end'' st1;
                    n = sint (v_i hi) - sint (v_i lo)
                in if n < 0 then Val (vint 0, st2)
                   else if in64 n \<and> in64 (n + 1) then Val (vint (word_of_int (n + 1)), st2)
                   else Stuck Overflow)))"

definition iterAt :: "'w ienv \<Rightarrow> rt_value \<Rightarrow> 64 word \<Rightarrow> 'w interp \<Rightarrow> (rt_value \<times> 'w interp) res" where
  "iterAt E it idx st =
     (let i = sint idx; h = ip_heap st
      in case (v_kind it, v_arr it, v_map it) of
           (KArray, Some a, _) \<Rightarrow>
             (let xs = hp_arr (ih_base h) a in Val (if 0 \<le> i \<and> i < int (length xs) then xs ! nat i else vvoid, st))
         | (KMap, _, Some a) \<Rightarrow>
             (let m = hp_map (ih_base h) a
              in if i < 0 \<or> i \<ge> int (length m) then Val (vvoid, st)
                 else
                   (let (k, v) = m ! nat i;
                        (b, h1) = new_object (sm_global (en_sema E) ''Pair'') [(''first'', k), (''second'', v)] h
                    in Val (vobj b, st\<lparr>ip_heap := h1\<rparr>)))
         | _ \<Rightarrow>
             (case range_cell st it of
                None \<Rightarrow> Val (vvoid, st)
              | Some a \<Rightarrow>
                  (let (lo, st1) = touch_field a ''start'' st
                   in if in64 (sint (v_i lo) + i) then Val (vint (v_i lo + idx), st1) else Stuck Overflow)))"


section \<open>Closures\<close>

text \<open>The function index in a closure's environment: nothing when there is no environment or no entry.\<close>

definition closure_fn :: "'w interp \<Rightarrow> rt_value \<Rightarrow> 64 word option" where
  "closure_fn st cb =
     (case (v_kind cb, v_closure cb) of
        (KClosure, Some a) \<Rightarrow>
          (case ih_env (ip_heap st) a of [] \<Rightarrow> None | env # _ \<Rightarrow> map_option v_i (map_of env ''@fn''))
      | _ \<Rightarrow> None)"

definition to_int :: "64 word \<Rightarrow> int" where
  "to_int w = wrap32 (sint w)"

definition invokeClosure :: "'w callf \<Rightarrow> rt_value \<Rightarrow> rt_value \<Rightarrow> 'w interp \<Rightarrow> 'w interp res" where
  "invokeClosure callf cb arg st =
     (case closure_fn st cb of
        None \<Rightarrow> Val st
      | Some f \<Rightarrow> bind_res (callf (to_int f) [cb, arg] st) (\<lambda>(_, st1). Val st1))"

text \<open>The callbacks of a batch, until one throws.\<close>

fun run_jobs :: "'w callf \<Rightarrow> loop_callback list \<Rightarrow> 'w interp \<Rightarrow> 'w interp res" where
  "run_jobs callf [] st = Val st"
| "run_jobs callf (j # js) st =
     bind_res (invokeClosure callf (lc_callback j) (lc_argument j) st)
       (\<lambda>st1. if ip_throwing st1 then Val st1 else run_jobs callf js st1)"

definition next_jobs :: "'w ienv \<Rightarrow> 'w interp \<Rightarrow> loop_callback list \<times> 'w interp" where
  "next_jobs E st =
     (let (env, st1) = en_clock E st; (batch, lp) = nextBatch env (ip_loop st1) in (batch, st1\<lparr>ip_loop := lp\<rparr>))"

text \<open>The loop pump of \<open>await\<close> (until the promise is ready) and of the end of a run (\<open>stop\<close> never holds).\<close>

fun pump :: "nat \<Rightarrow> 'w ienv \<Rightarrow> 'w callf \<Rightarrow> ('w interp \<Rightarrow> bool) \<Rightarrow> 'w interp \<Rightarrow> 'w interp res" where
  "pump 0 E callf stop st = Stuck NoFuel"
| "pump (Suc n) E callf stop st =
     (if ip_throwing st \<or> stop st \<or> \<not> hasWork (ip_loop st) then Val st
      else let (jobs, st1) = next_jobs E st in bind_res (run_jobs callf jobs st1) (pump n E callf stop))"

section \<open>Promises across threads\<close>

fun derives_named :: "nat \<Rightarrow> sema \<Rightarrow> string \<Rightarrow> class_sym option \<Rightarrow> bool" where
  "derives_named 0 sm name cls = False"
| "derives_named (Suc n) sm name cls =
     (case cls of
        None \<Rightarrow> False
      | Some c \<Rightarrow>
          cls_name c = name \<or>
          (case sm_decl sm (cls_id c) of None \<Rightarrow> False | Some d \<Rightarrow> list_ex (derives_named n sm name) (cd_bases d)))"

definition lvThreadIsPortal :: "sema \<Rightarrow> class_sym \<Rightarrow> bool" where
  "lvThreadIsPortal sm c = derives_named (sm_depth sm) sm ''Channel'' (Some c)"

definition lvThreadIsPromiseDerived :: "sema \<Rightarrow> class_sym \<Rightarrow> bool" where
  "lvThreadIsPromiseDerived sm c = derives_named (sm_depth sm) sm ''Promise'' (Some c)"

text \<open>The walk over the cells a value reaches; \<open>seen\<close> holds the visited ones. The result is the error text, if a promise was found.\<close>

fun scan_values :: "(rt_value \<Rightarrow> addr list \<Rightarrow> (string option \<times> addr list) res) \<Rightarrow> rt_value list \<Rightarrow> addr list \<Rightarrow>
    (string option \<times> addr list) res" where
  "scan_values f [] seen = Val (None, seen)"
| "scan_values f (v # vs) seen =
     bind_res (f v seen) (\<lambda>(e, seen1). if e \<noteq> None then Val (e, seen1) else scan_values f vs seen1)"

fun lvThreadValueHasPromiseRec :: "nat \<Rightarrow> sema \<Rightarrow> rt_heap \<Rightarrow> rt_value \<Rightarrow> addr list \<Rightarrow> (string option \<times> addr list) res" where
  "lvThreadValueHasPromiseRec n sm h v seen =
     (let into = (\<lambda>a vs. if a \<in> set seen then Val (None, seen)
                          else case n of
                                 0 \<Rightarrow> Stuck TooDeep
                               | Suc m \<Rightarrow> scan_values (lvThreadValueHasPromiseRec m sm h) vs (a # seen))
      in case v_kind v of
           KObject \<Rightarrow>
             (case v_obj v of
                None \<Rightarrow> Val (None, seen)
              | Some a \<Rightarrow>
                  (case ob_cls (hp_obj h a) of
                     None \<Rightarrow> into a (map snd (ob_fields (hp_obj h a)))
                   | Some c \<Rightarrow>
                       if lvThreadIsPortal sm c then Val (None, seen)
                       else if lvThreadIsPromiseDerived sm c then
                         Val (Some (''value of type '' @ cls_name c @ '' cannot cross a thread boundary (v1); pass a Channel''), seen)
                       else into a (map snd (ob_fields (hp_obj h a)))))
         | KArray \<Rightarrow> (case v_arr v of None \<Rightarrow> Val (None, seen) | Some a \<Rightarrow> into a (hp_arr h a))
         | KMap \<Rightarrow>
             (case v_map v of
                None \<Rightarrow> Val (None, seen)
              | Some a \<Rightarrow> into a (concat (map (\<lambda>(k, x). [k, x]) (hp_map h a))))
         | _ \<Rightarrow> Val (None, seen))"

declare lvThreadValueHasPromiseRec.simps [simp del]

definition lvThreadValueHasPromise :: "'w ienv \<Rightarrow> 'w interp \<Rightarrow> rt_value \<Rightarrow> string option res" where
  "lvThreadValueHasPromise E st v =
     bind_res (lvThreadValueHasPromiseRec (en_deep E) (en_sema E) (ih_base (ip_heap st)) v []) (\<lambda>(e, _). Val e)"

fun scan_slots :: "(rt_value \<Rightarrow> string option res) \<Rightarrow> rt_value list \<Rightarrow> int list \<Rightarrow> string option res" where
  "scan_slots f globals [] = Val None"
| "scan_slots f globals (s # ss) =
     (if s < 0 \<or> s \<ge> int (length globals) then scan_slots f globals ss
      else bind_res (f (globals ! nat s)) (\<lambda>e. if e \<noteq> None then Val e else scan_slots f globals ss))"

text \<open>The table of global references is computed once and kept.\<close>

definition spawnBodyGlobalPromise :: "'w ienv \<Rightarrow> rt_value \<Rightarrow> 'w interp \<Rightarrow> (string option \<times> 'w interp) res" where
  "spawnBodyGlobalPromise E body st =
     (case closure_fn st body of
        None \<Rightarrow> Val (None, st)
      | Some f \<Rightarrow>
          if sint f < 0 then Val (None, st)
          else
            bind_res (case ip_refs st of Some r \<Rightarrow> Val r | None \<Rightarrow> deep (computeFnGlobalRefs (en_mod E)))
              (\<lambda>refs. let st1 = st\<lparr>ip_refs := Some refs\<rparr>
                      in if sint f \<ge> int (length refs) then Val (None, st1)
                         else bind_res (scan_slots (lvThreadValueHasPromise E st1) (ip_globals st1) (refs ! nat (sint f)))
                                (\<lambda>e. Val (e, st1))))"

section \<open>Tasks\<close>

text \<open>A park runs other tasks; the thrown value is set aside meanwhile.\<close>

definition do_park :: "'w ienv \<Rightarrow> park \<Rightarrow> 'w interp \<Rightarrow> int \<times> int \<times> 'w interp" where
  "do_park E p st =
     (let (r, which, st1) = en_park E p (st\<lparr>ip_thrown := vvoid\<rparr>) in (r, which, st1\<lparr>ip_thrown := ip_thrown st\<rparr>))"

definition exit_stashed :: "'w interp \<Rightarrow> bool" where
  "exit_stashed st \<longleftrightarrow> ip_stashed st \<and> ip_termExiting st"

definition ride_exit :: "'w interp \<Rightarrow> 'w interp" where
  "ride_exit st = st\<lparr>ip_exiting := True, ip_throwing := True\<rparr>"

text \<open>After a park that did not settle, or with the given result.\<close>

definition after_park :: "'w ienv \<Rightarrow> string \<Rightarrow> (int \<Rightarrow> rt_value) \<Rightarrow> int \<times> int \<times> 'w interp \<Rightarrow> rt_value \<times> 'w interp" where
  "after_park E drained result = (\<lambda>(r, which, st).
     if exit_stashed st then (vvoid, ride_exit st)
     else if r = PARK_DRAINED then (vvoid, raise E drained st)
     else if r = PARK_CANCELLED then (vvoid, raiseClass E ''CancelledException'' ''task cancelled'' st)
     else (result which, st))"

definition object_cell :: "rt_value \<Rightarrow> addr option" where
  "object_cell v = (if v_kind v = KObject then v_obj v else None)"

definition taskNative :: "'w ienv \<Rightarrow> string \<Rightarrow> rt_value list \<Rightarrow> 'w interp \<Rightarrow> (rt_value \<times> 'w interp) option" where
  "taskNative E name args st =
     (if name \<notin> {''sysTaskRun'', ''sysTaskJoinAll'', ''sysAwaitAny2''} then None
      else if \<not> en_tasks E then Some (vvoid, raise E ''TaskGroup requires tasks (running under LANG_PUMP=1)'' st)
      else if name = ''sysTaskRun'' then
        (if (case args of [] \<Rightarrow> True | a # _ \<Rightarrow> v_kind a \<noteq> KClosure \<or> v_closure a = None)
         then Some (vvoid, raise E ''sysTaskRun: body must be a closure'' st)
         else let (i, st1) = en_spawn E (hd args) st in Some (vint i, st1))
      else if name = ''sysTaskJoinAll'' then
        (let ids = (case args of
                      a # _ \<Rightarrow> (case (v_kind a, v_arr a) of
                                  (KArray, Some x) \<Rightarrow> map v_i (hp_arr (ih_base (ip_heap st)) x) | _ \<Rightarrow> [])
                    | [] \<Rightarrow> [])
         in Some (after_park E ''TaskGroup.close: event loop drained with tasks unjoined'' (\<lambda>_. vint (of_nat (length ids)))
                    (do_park E (ParkJoin ids) st)))
      else
        (case args of
           p # q # _ \<Rightarrow>
             (case (object_cell p, object_cell q) of
                (Some a, Some b) \<Rightarrow>
                  if rtPollPromise (ip_heap st) a \<noteq> 0 then Some (vint 0, st)
                  else if rtPollPromise (ip_heap st) b \<noteq> 0 then Some (vint 1, st)
                  else Some (after_park E ''await: event loop drained with promise unresolved'' (\<lambda>w. vint (word_of_int w))
                               (do_park E (ParkAny2 a b) st))
              | _ \<Rightarrow> Some (vvoid, raise E ''sysAwaitAny2: both arguments must be promises'' st))
         | _ \<Rightarrow> Some (vvoid, raise E ''sysAwaitAny2: both arguments must be promises'' st)))"

section \<open>Native functions\<close>

text \<open>The exit natives record a code and, for \<open>sysExit\<close>, the request; every other name is outside the model.\<close>

definition exit_code :: "rt_value list \<Rightarrow> int" where
  "exit_code args = sint ((case args of [] \<Rightarrow> 0 | a # _ \<Rightarrow> v_i a) AND 0xFF)"

definition nativeFreeCall :: "'w ienv \<Rightarrow> string \<Rightarrow> rt_value list \<Rightarrow> 'w interp \<Rightarrow> (rt_value \<times> string) option \<times> 'w interp" where
  "nativeFreeCall E name args st =
     (if name = ''sysSetExitCode'' then (Some (vint 0, []), st\<lparr>ip_exitVal := exit_code args\<rparr>)
      else if name = ''sysExit'' then (Some (vint 0, []), st\<lparr>ip_exitVal := exit_code args, ip_exitReq := True\<rparr>)
      else en_nativeFree E name args st)"

definition interpEmitStdout :: "string \<Rightarrow> 'w interp \<Rightarrow> 'w interp" where
  "interpEmitStdout data st =
     (if \<not> ip_raw st then st\<lparr>ip_out := ip_out st @ data\<rparr>
      else st\<lparr>ip_written := ip_written st @ ip_out st @ data, ip_out := []\<rparr>)"

section \<open>One instruction\<close>

text \<open>What follows an instruction: the next one (by way of the memory verifier), another program counter, or the return. The
  frame's weak references to its scope-owned allocations go along.\<close>

type_synonym weaks = "(nat \<times> addr) list"

datatype 'w after =
    Next "rt_value list" weaks "'w interp"
  | Goto nat "rt_value list" weaks "'w interp"
  | Return rt_value weaks "'w interp"

type_synonym 'w exec = "rt_value list \<Rightarrow> weaks \<Rightarrow> 'w interp \<Rightarrow> 'w after res"

text \<open>The value goes to the destination register.\<close>

definition into :: "inst \<Rightarrow> rt_value list \<Rightarrow> weaks \<Rightarrow> (rt_value \<times> 'w interp) res \<Rightarrow> 'w after res" where
  "into i regs wk m = bind_res m (\<lambda>(v, st). bind_res (set_reg regs (in_a i) v) (\<lambda>regs'. Val (Next regs' wk st)))"

definition with_reg :: "rt_value list \<Rightarrow> int \<Rightarrow> (rt_value \<Rightarrow> 'b res) \<Rightarrow> 'b res" where
  "with_reg regs k f = bind_res (get_reg regs k) f"

subsection \<open>Moves, constants, globals and output\<close>

definition negated :: "rt_value \<Rightarrow> rt_value res" where
  "negated v =
     (if v_kind v = KFloat then Val (vfloat (v_f v XOR push_bit 63 1))
      else if in64 (- sint (v_i v)) then Val (vint (- v_i v)) else Stuck Overflow)"

definition exec_data :: "'w ienv \<Rightarrow> ir_function \<Rightarrow> inst \<Rightarrow> 'w exec" where
  "exec_data E fn i regs wk st =
     (if in_op i = OpLoadConst then bind_res (get_reg (fn_consts fn) (in_b i)) (\<lambda>v. into i regs wk (Val (v, st)))
      else if in_op i = OpDefault then
        (let (v, h) = defaultForCanonical (in_sname i) (ih_base (ip_heap st))
         in into i regs wk (Val (v, st\<lparr>ip_heap := (ip_heap st)\<lparr>ih_base := h\<rparr>\<rparr>)))
      else if in_op i = OpMove then with_reg regs (in_b i) (\<lambda>v. into i regs wk (Val (v, st)))
      else if in_op i = OpMoveClear then
        with_reg regs (in_b i) (\<lambda>v. bind_res (set_reg regs (in_a i) v) (\<lambda>regs1.
          bind_res (set_reg regs1 (in_b i) vvoid) (\<lambda>regs2. Val (Next regs2 wk st))))
      else if in_op i = OpCopyVal then
        with_reg regs (in_b i) (\<lambda>v. into i regs wk
          (bind_res (copyValue (en_deep E) (ip_heap st) v) (\<lambda>(v', h). Val (v', st\<lparr>ip_heap := h\<rparr>))))
      else if in_op i = OpNot then with_reg regs (in_b i) (\<lambda>v. into i regs wk (Val (vbool (\<not> v_b v), st)))
      else if in_op i = OpNeg then with_reg regs (in_b i) (\<lambda>v. into i regs wk (bind_res (negated v) (\<lambda>w. Val (w, st))))
      else if in_op i = OpLoadGlobal then bind_res (get_reg (ip_globals st) (in_b i)) (\<lambda>v. into i regs wk (Val (v, st)))
      else if in_op i = OpStoreGlobal then
        with_reg regs (in_a i) (\<lambda>v. bind_res (set_reg (ip_globals st) (in_b i) v) (\<lambda>gs. Val (Next regs wk (st\<lparr>ip_globals := gs\<rparr>))))
      else if in_op i = OpPrint then
        with_reg regs (in_a i) (\<lambda>v. bind_res (deep (valueToString (en_deep E) (en_fp E) (ih_base (ip_heap st)) v))
          (\<lambda>s. Val (Next regs wk (interpEmitStdout s st))))
      else if in_op i = OpPrintNl then Val (Next regs wk (interpEmitStdout [NL] st))
      else Val (Next regs wk st))"

subsection \<open>Operators\<close>

definition arith_value :: "'w ienv \<Rightarrow> token_kind \<Rightarrow> rt_value \<Rightarrow> rt_value \<Rightarrow> 'w interp \<Rightarrow> (rt_value \<times> 'w interp) res" where
  "arith_value E tk l r st =
     (case arithPrim (en_deep E) (en_fp E) (ih_base (ip_heap st)) tk l r of
        RVal v \<Rightarrow> Val (v, st)
      | RErr msg \<Rightarrow> Val (vvoid, raise E msg st)
      | RUndef \<Rightarrow> Stuck Overflow
      | RDeep \<Rightarrow> Stuck TooDeep)"

text \<open>The class of an object operand that has operators of its own.\<close>

definition operator_class :: "'w interp \<Rightarrow> rt_value \<Rightarrow> class_sym option" where
  "operator_class st l =
     (case (v_kind l, v_obj l) of
        (KObject, Some a) \<Rightarrow>
          (case ob_cls (hp_obj (ih_base (ip_heap st)) a) of
             Some c \<Rightarrow> if cls_name c \<noteq> ''Range'' then Some c else None
           | None \<Rightarrow> None)
      | _ \<Rightarrow> None)"

definition exec_arith :: "'w ienv \<Rightarrow> 'w callf \<Rightarrow> inst \<Rightarrow> 'w exec" where
  "exec_arith E callf i regs wk st =
     with_reg regs (in_b i) (\<lambda>l. with_reg regs (in_c i) (\<lambda>r.
       into i regs wk
         (if (in_tk i = TkPunct PEqEq \<or> in_tk i = TkPunct PBangEq) \<and> (v_kind l = KNone \<or> v_kind r = KNone)
          then arith_value E (in_tk i) l r st
          else case operator_class st l of
                 Some c \<Rightarrow> objectArith E callf i c l r st
               | None \<Rightarrow> arith_value E (in_tk i) l r st)))"

subsection \<open>Jumps, return and throw\<close>

text \<open>A target is converted to \<open>size_t\<close>.\<close>

definition to_pc :: "int \<Rightarrow> nat" where
  "to_pc a = nat (a mod 2 ^ 64)"

definition exec_jump :: "inst \<Rightarrow> nat \<Rightarrow> 'w exec" where
  "exec_jump i pc regs wk st =
     (if in_op i = OpJump then Val (Goto (to_pc (in_a i)) regs wk st)
      else if in_op i = OpJumpIfFalse then
        with_reg regs (in_a i) (\<lambda>v. Val (Goto (if v_b v then pc + 1 else to_pc (in_b i)) regs wk st))
      else if in_op i = OpJumpIfTrue then
        with_reg regs (in_a i) (\<lambda>v. Val (Goto (if v_b v then to_pc (in_b i) else pc + 1) regs wk st))
      else if in_op i = OpRet then with_reg regs (in_a i) (\<lambda>v. Val (Return v wk st))
      else if in_op i = OpRetVoid then Val (Return vvoid wk st)
      else with_reg regs (in_a i) (\<lambda>v. Val (Next regs wk (st\<lparr>ip_thrown := v, ip_throwing := True\<rparr>))))"

subsection \<open>Calls\<close>

definition unresolved :: "string \<Rightarrow> string" where
  "unresolved name = ''cannot resolve call target '' @ [SQUOTE] @ name @ [SQUOTE]"

definition exec_callDyn :: "'w ienv \<Rightarrow> 'w callf \<Rightarrow> inst \<Rightarrow> 'w exec" where
  "exec_callDyn E callf i regs wk st =
     bind_res (reg_window regs (in_c i) (in_d i)) (\<lambda>win.
       case win of
         [] \<Rightarrow> Stuck BadAccess
       | recv # rest \<Rightarrow>
           (let cow = (in_b i \<noteq> 0 \<and> v_kind recv = KArray \<and> (case v_arr recv of None \<Rightarrow> False | Some a \<Rightarrow> en_useCount E st regs a = 1));
                rc = classOfValue E st recv;
                d = (case in_decl i of Some d \<Rightarrow> Some d | None \<Rightarrow> findMethodByName E rc (in_sname i) (int (length rest)))
            in case d of
                 Some m \<Rightarrow> into i regs wk (callDecl E callf m win cow st)
               | None \<Rightarrow>
                   bind_res (getMember E callf regs recv (in_sname i) st) (\<lambda>(fv, st1).
                     case closure_fn st1 fv of
                       None \<Rightarrow> Val (Next regs wk (raise E (unresolved (in_sname i)) st1))
                     | Some f \<Rightarrow>
                         if sint f \<ge> 0 then into i regs wk (callf (to_int f) (fv # rest) st1)
                         else Val (Next regs wk (raise E (unresolved (in_sname i)) st1)))))"

definition exec_callNativeFn :: "'w ienv \<Rightarrow> inst \<Rightarrow> 'w exec" where
  "exec_callNativeFn E i regs wk st =
     bind_res (reg_window regs (in_c i) (in_d i)) (\<lambda>args.
       bind_res (if in_sname i = ''sysThreadStart'' \<and> args \<noteq> [] then spawnBodyGlobalPromise E (hd args) st else Val (None, st)) (\<lambda>(gerr, st1).
         case gerr of
           Some e \<Rightarrow> Val (Next regs wk (raise E e st1))
         | None \<Rightarrow>
             (case taskNative E (in_sname i) args st1 of
                Some r \<Rightarrow> into i regs wk (Val r)
              | None \<Rightarrow>
                  (case nativeFreeCall E (in_sname i) args st1 of
                     (None, st2) \<Rightarrow> Val (Next regs wk (raise E (''unknown native '' @ [SQUOTE] @ in_sname i @ [SQUOTE]) st2))
                   | (Some (out, err), st2) \<Rightarrow>
                       if err \<noteq> [] then Val (Next regs wk (raise E err st2))
                       else into i regs wk (Val (out, if ip_exitReq st2 \<and> \<not> ip_exiting st2 then ride_exit st2 else st2))))))"

definition exec_callValue :: "'w ienv \<Rightarrow> 'w callf \<Rightarrow> inst \<Rightarrow> 'w exec" where
  "exec_callValue E callf i regs wk st =
     bind_res (reg_window regs (in_c i) (in_d i)) (\<lambda>win.
       case win of
         [] \<Rightarrow> Stuck BadAccess
       | fnv # _ \<Rightarrow>
           (case closure_fn st fnv of
              None \<Rightarrow> Val (Next regs wk (raise E ''cannot resolve call target'' st))
            | Some f \<Rightarrow>
                if sint f \<ge> 0 then into i regs wk (callf (to_int f) win st)
                else Val (Next regs wk (raise E ''cannot resolve call target'' st))))"

definition exec_call :: "'w ienv \<Rightarrow> 'w callf \<Rightarrow> inst \<Rightarrow> 'w exec" where
  "exec_call E callf i regs wk st =
     (if in_op i = OpCall then bind_res (reg_window regs (in_c i) (in_d i)) (\<lambda>args. into i regs wk (callf (in_b i) args st))
      else if in_op i = OpCallDyn then exec_callDyn E callf i regs wk st
      else if in_op i = OpCallNativeFn then exec_callNativeFn E i regs wk st
      else exec_callValue E callf i regs wk st)"

subsection \<open>Members and fields\<close>

definition exec_member :: "'w ienv \<Rightarrow> 'w callf \<Rightarrow> inst \<Rightarrow> 'w exec" where
  "exec_member E callf i regs wk st =
     with_reg regs (in_b i) (\<lambda>o1.
       let a = object_cell o1;
           key = (\<lambda>c. keyFor E (ob_cls (hp_obj (ih_base (ip_heap st)) c)) (in_sname i))
       in if in_op i = OpGetMember then into i regs wk (getMember E callf regs o1 (in_sname i) st)
          else if in_op i = OpSetMember then
            with_reg regs (in_a i) (\<lambda>v. bind_res (setMember E callf o1 (in_sname i) v st) (\<lambda>st1. Val (Next regs wk st1)))
          else if in_op i = OpRawGet then
            into i regs wk (Val (case a of None \<Rightarrow> vvoid | Some c \<Rightarrow> field_or vvoid (ip_heap st) c (key c), st))
          else if in_op i = OpRawGetWeak then
            into i regs wk (Val (case a of None \<Rightarrow> vnone
              | Some c \<Rightarrow> weakObjectRead (\<lambda>t. \<not> en_released E st regs t) (ip_heap st) c (key c), st))
          else
            (case a of
               None \<Rightarrow> Val (Next regs wk st)
             | Some c \<Rightarrow>
                 with_reg regs (in_a i) (\<lambda>v.
                   Val (Next regs wk
                     (st\<lparr>ip_heap := (if in_op i = OpRawSet then set_field c (key c) v (ip_heap st)
                                     else weakObjectWrite c (key c) v (ip_heap st))\<rparr>)))))"

subsection \<open>Allocations\<close>

text \<open>The cell of the allocated value, in the order the source tests the pointers.\<close>

definition tracked_cell :: "rt_value \<Rightarrow> addr option" where
  "tracked_cell v =
     (case v_obj v of Some a \<Rightarrow> Some a
      | None \<Rightarrow> (case v_arr v of Some a \<Rightarrow> Some a
                 | None \<Rightarrow> (case v_map v of Some a \<Rightarrow> Some a | None \<Rightarrow> v_closure v)))"

definition track :: "'w ienv \<Rightarrow> nat \<Rightarrow> nat \<Rightarrow> rt_value \<Rightarrow> weaks \<Rightarrow> 'w interp \<Rightarrow> weaks \<times> 'w interp" where
  "track E fi pc v wk st =
     (case en_own E of
        None \<Rightarrow> (wk, st)
      | Some own \<Rightarrow>
          if (fi, pc) \<notin> own then (wk, st)
          else ((case tracked_cell v of None \<Rightarrow> wk | Some a \<Rightarrow> wk @ [(pc, a)]), st\<lparr>ip_tracked := ip_tracked st + 1\<rparr>))"

text \<open>The elements of an array literal; a range stands for its members. A range up to the largest integer overflows the loop
  variable.\<close>

fun array_elems :: "rt_value list \<Rightarrow> 'w interp \<Rightarrow> (rt_value list \<times> 'w interp) res" where
  "array_elems [] st = Val ([], st)"
| "array_elems (v # vs) st =
     (case range_cell st v of
        None \<Rightarrow> bind_res (array_elems vs st) (\<lambda>(xs, st1). Val (v # xs, st1))
      | Some a \<Rightarrow>
          (let (lo, st1) = touch_field a ''start'' st; (hi, st2) = touch_field a ''end'' st1;
               l = sint (v_i lo); u = sint (v_i hi)
           in if l \<le> u \<and> u = 2 ^ 63 - 1 then Stuck Overflow
              else bind_res (array_elems vs st2) (\<lambda>(xs, st3). Val (map (\<lambda>x. vint (word_of_int x)) [l..u] @ xs, st3))))"

definition vblockNew :: "64 word \<Rightarrow> ir_heap \<Rightarrow> rt_value \<times> ir_heap" where
  "vblockNew n h = alloc_block (replicate (nat (sint n)) NUL) h"

definition alloc_closure :: "int \<Rightarrow> ir_heap \<Rightarrow> rt_value \<times> ir_heap" where
  "alloc_closure fi h =
     (let (a, h1) = fresh h
      in (vvoid\<lparr>v_kind := KClosure, v_closure := Some a\<rparr>,
          h1\<lparr>ih_env := (ih_env h1)(a := [[(''@fn'', vint (word_of_int fi))]])\<rparr>))"

definition new_value :: "inst \<Rightarrow> rt_value list \<Rightarrow> 'w interp \<Rightarrow> (rt_value \<times> 'w interp) res" where
  "new_value i regs st =
     (let in_heap = (\<lambda>f st. let (v, h) = f (ip_heap st) in Val (v, st\<lparr>ip_heap := h\<rparr>));
          obj = (\<lambda>fs h. let (a, h1) = new_object (in_sym i) fs h in (vobj a, h1))
      in if in_op i = OpNewObject then in_heap (obj []) st
         else if in_op i = OpNewArray then
           (if in_d i \<le> 0 then in_heap (alloc_arr []) st
            else bind_res (reg_window regs (in_c i) (in_d i)) (\<lambda>vs. bind_res (array_elems vs st) (\<lambda>(xs, st1). in_heap (alloc_arr xs) st1)))
         else if in_op i = OpNewArraySized then
           (if in_d i = 2 then
              with_reg regs (in_c i) (\<lambda>n.
                if sint (v_i n) > 0 then with_reg regs (in_c i + 1) (\<lambda>v. in_heap (alloc_arr (replicate (nat (sint (v_i n))) v)) st)
                else in_heap (alloc_arr []) st)
            else in_heap (alloc_arr []) st)
         else if in_op i = OpNewBlock then with_reg regs (in_c i) (\<lambda>n. in_heap (vblockNew (v_i n)) st)
         else if in_op i = OpNewBlockStr then with_reg regs (in_c i) (\<lambda>s. in_heap (alloc_block (v_s s)) st)
         else if in_op i = OpNewMap then in_heap (alloc_map []) st
         else if in_op i = OpMakeRange then
           with_reg regs (in_b i) (\<lambda>lo. with_reg regs (in_c i) (\<lambda>hi. in_heap (obj [(''start'', lo), (''end'', hi)]) st))
         else in_heap (alloc_closure (in_b i)) st)"

definition exec_new :: "'w ienv \<Rightarrow> 'w callf \<Rightarrow> nat \<Rightarrow> nat \<Rightarrow> inst \<Rightarrow> 'w exec" where
  "exec_new E callf fi pc i regs wk st =
     bind_res (new_value i regs st) (\<lambda>(v, st1). bind_res (set_reg regs (in_a i) v) (\<lambda>regs1.
       let (wk1, st2) = track E fi pc v wk st1
       in if in_op i = OpNewObject \<and> in_b i \<ge> 0
          then bind_res (callf (in_b i) [v] st2) (\<lambda>(_, st3). Val (Next regs1 wk1 st3))
          else Val (Next regs1 wk1 st2)))"

subsection \<open>Indexing and iteration\<close>

text \<open>Before a store the destination is cleared, and the temporary that the rebinding after it would overwrite.\<close>

definition rebind_temp :: "ir_function \<Rightarrow> nat \<Rightarrow> inst \<Rightarrow> int option" where
  "rebind_temp fn pc i =
     (if pc + 2 < length (fn_code fn) then
        (let n1 = fn_code fn ! (pc + 1); n2 = fn_code fn ! (pc + 2)
         in if in_op n1 = OpCopyVal \<and> in_b n1 = in_a i \<and> in_op n2 = OpMove \<and> in_b n2 = in_a n1 \<and>
               in_a n1 \<noteq> in_b i \<and> in_a n1 \<noteq> in_c i \<and> in_a n1 \<noteq> in_d i
            then Some (in_a n1) else None)
      else None)"

definition exec_indexStore :: "'w ienv \<Rightarrow> 'w callf \<Rightarrow> ir_function \<Rightarrow> nat \<Rightarrow> inst \<Rightarrow> 'w exec" where
  "exec_indexStore E callf fn pc i regs wk st =
     bind_res (set_reg regs (in_a i) vvoid) (\<lambda>regs1.
       bind_res (case rebind_temp fn pc i of None \<Rightarrow> Val regs1 | Some t \<Rightarrow> set_reg regs1 t vvoid) (\<lambda>regs2.
         with_reg regs2 (in_b i) (\<lambda>base. with_reg regs2 (in_c i) (\<lambda>idx. with_reg regs2 (in_d i) (\<lambda>v.
           into i regs2 wk (indexStore E callf regs2 base idx v st))))))"

definition exec_index :: "'w ienv \<Rightarrow> 'w callf \<Rightarrow> ir_function \<Rightarrow> nat \<Rightarrow> inst \<Rightarrow> 'w exec" where
  "exec_index E callf fn pc i regs wk st =
     (if in_op i = OpIndexStore then exec_indexStore E callf fn pc i regs wk st
      else
        with_reg regs (in_b i) (\<lambda>base.
          if in_op i = OpIterLen then into i regs wk (iterLen base st)
          else
            with_reg regs (in_c i) (\<lambda>idx.
              if in_op i = OpGetIndex then into i regs wk (getIndex E callf base idx st)
              else if in_op i = OpColGet then
                into i regs wk (bind_res (getIndex E callf base idx st) (\<lambda>(v, st1). getMember E callf regs v (in_sname i) st1))
              else into i regs wk (iterAt E base (v_i idx) st))))"

subsection \<open>Await\<close>

text \<open>The wait: whether the awaiting goes on to read the promise.\<close>

definition await_park :: "'w ienv \<Rightarrow> addr \<Rightarrow> 'w interp \<Rightarrow> bool \<times> 'w interp" where
  "await_park E a st =
     (if odd (rtPollPromise (ip_heap st) a) then (True, st)
      else
        (let (r, which, st1) = do_park E (ParkOn a) st
         in if exit_stashed st1 then (False, ride_exit st1)
            else if r = PARK_DRAINED then (False, raise E ''await: event loop drained with promise unresolved'' st1)
            else if r = PARK_CANCELLED then (False, raiseClass E ''CancelledException'' ''task cancelled'' st1)
            else (True, st1)))"

definition promise_ready :: "addr \<Rightarrow> 'w interp \<Rightarrow> bool" where
  "promise_ready a st = v_b (field_or vvoid (ip_heap st) a ''ready'')"

definition fail_text :: "'w interp \<Rightarrow> addr \<Rightarrow> string" where
  "fail_text st a = (let m = field_or vvoid (ip_heap st) a ''failMessage'' in if v_kind m = KString then v_s m else ''worker failed'')"

definition exec_await :: "nat \<Rightarrow> 'w ienv \<Rightarrow> 'w callf \<Rightarrow> inst \<Rightarrow> 'w exec" where
  "exec_await n E callf i regs wk st =
     with_reg regs (in_b i) (\<lambda>p.
       case object_cell p of
         None \<Rightarrow> into i regs wk (Val (p, st))
       | Some a \<Rightarrow>
           bind_res (if en_tasks E then Val (await_park E a st)
                     else bind_res (pump n E callf (promise_ready a) st) (\<lambda>st1. Val (True, st1)))
             (\<lambda>(goon, st1).
                if \<not> goon then Val (Next regs wk st1)
                else if \<not> ip_throwing st1 \<and> v_b (field_or vvoid (ip_heap st1) a ''failed'')
                then Val (Next regs wk (raise E (fail_text st1 a) st1))
                else into i regs wk (Val (field_or vvoid (ip_heap st1) a ''value'', st1))))"

subsection \<open>Type tests and captures\<close>

definition match1 :: "'w ienv \<Rightarrow> inst \<Rightarrow> rt_value \<Rightarrow> 'w interp \<Rightarrow> string \<Rightarrow> bool" where
  "match1 E i v st n =
     (if n = ''None'' then v_kind v = KNone
      else if n = ''int'' then v_kind v = KInt
      else if n = ''char'' then v_kind v = KChar
      else if n = ''string'' then v_kind v = KString
      else if n = ''bool'' then v_kind v = KBool
      else if n = ''float'' then v_kind v = KFloat
      else if take 5 n = ''Array'' then v_kind v = KArray
      else if take 3 n = ''Map'' then v_kind v = KMap
      else if n = ''Block'' then v_kind v = KBlock
      else case (in_sym i, object_cell v) of
             (Some c, Some a) \<Rightarrow> subclass_of E (ob_cls (hp_obj (ih_base (ip_heap st)) a)) (Some c)
           | _ \<Rightarrow> False)"

definition has_bar :: "string \<Rightarrow> bool" where
  "has_bar s \<longleftrightarrow> list_ex (\<lambda>k. take 3 (drop k s) = '' | '') [0..<length s]"

definition exec_isType :: "'w ienv \<Rightarrow> inst \<Rightarrow> 'w exec" where
  "exec_isType E i regs wk st =
     with_reg regs (in_b i) (\<lambda>v.
       into i regs wk (Val (vbool (if has_bar (in_sname i) then list_ex (match1 E i v st) (unionMembersOf (in_sname i))
                                   else match1 E i v st (in_sname i)), st)))"

definition set_capture :: "addr \<Rightarrow> string \<Rightarrow> rt_value \<Rightarrow> ir_heap \<Rightarrow> ir_heap res" where
  "set_capture a name v h =
     (case ih_env h a of
        [] \<Rightarrow> Stuck BadAccess
      | env # r \<Rightarrow> Val (h\<lparr>ih_env := (ih_env h)(a := AList.update name v env # r)\<rparr>))"

definition exec_capture :: "inst \<Rightarrow> 'w exec" where
  "exec_capture i regs wk st =
     (if in_op i = OpCaptureVar then
        with_reg regs (in_a i) (\<lambda>cl.
          case (v_kind cl, v_closure cl) of
            (KClosure, Some a) \<Rightarrow>
              with_reg regs (in_b i) (\<lambda>v. bind_res (set_capture a (in_sname i) v (ip_heap st))
                (\<lambda>h. Val (Next regs wk (st\<lparr>ip_heap := h\<rparr>))))
          | _ \<Rightarrow> Val (Next regs wk st))
      else
        bind_res (set_reg regs (in_a i) vvoid) (\<lambda>regs1.
          with_reg regs1 0 (\<lambda>self.
            into i regs1 wk (Val
              (case (v_kind self, v_closure self) of
                 (KClosure, Some a) \<Rightarrow>
                   (case ih_env (ip_heap st) a of
                      [] \<Rightarrow> vvoid
                    | env # _ \<Rightarrow> (case map_of env (in_sname i) of Some v \<Rightarrow> v | None \<Rightarrow> vvoid))
               | _ \<Rightarrow> vvoid, st)))))"

section \<open>The dispatch loop\<close>

definition exec_inst :: "nat \<Rightarrow> 'w ienv \<Rightarrow> 'w callf \<Rightarrow> nat \<Rightarrow> nat \<Rightarrow> inst \<Rightarrow> 'w exec" where
  "exec_inst n E callf fi pc i regs wk st =
     (let o1 = in_op i; fn = md_functions (en_mod E) ! fi
      in if o1 \<in> {OpJump, OpJumpIfFalse, OpJumpIfTrue, OpRet, OpRetVoid, OpThrow} then exec_jump i pc regs wk st
         else if o1 = OpArith then exec_arith E callf i regs wk st
         else if o1 \<in> {OpCall, OpCallDyn, OpCallValue, OpCallNativeFn} then exec_call E callf i regs wk st
         else if o1 \<in> {OpGetMember, OpSetMember, OpRawGet, OpRawSet, OpRawGetWeak, OpRawSetWeak} then exec_member E callf i regs wk st
         else if o1 \<in> {OpNewObject, OpNewArray, OpNewArraySized, OpNewMap, OpNewBlock, OpNewBlockStr, OpMakeRange, OpMakeClosure}
         then exec_new E callf fi pc i regs wk st
         else if o1 \<in> {OpGetIndex, OpIndexStore, OpIterLen, OpIterAt, OpColGet} then exec_index E callf fn pc i regs wk st
         else if o1 = OpAwait then exec_await n E callf i regs wk st
         else if o1 = OpIsType then exec_isType E i regs wk st
         else if o1 \<in> {OpCaptureVar, OpLoadCapture} then exec_capture i regs wk st
         else exec_data E fn i regs wk st)"

text \<open>The memory verifier after an instruction that falls through.\<close>

definition mem_hook :: "'w ienv \<Rightarrow> nat \<Rightarrow> nat \<Rightarrow> inst \<Rightarrow> rt_value list \<Rightarrow> 'w interp \<Rightarrow> 'w interp res" where
  "mem_hook E fi pc i regs st =
     (if \<not> en_memOn E then Val st
      else
        let hook = (\<lambda>v. Val (st\<lparr>ip_mem := mem_after_op (en_loc E) (en_released E st regs) (in_op i) v fi pc (ip_mem st)\<rparr>))
        in if memTracks (in_op i) then with_reg regs (in_a i) hook else hook vvoid)"

definition thrown_class :: "'w interp \<Rightarrow> class_sym option" where
  "thrown_class st =
     (case object_cell (ip_thrown st) of None \<Rightarrow> None | Some a \<Rightarrow> ob_cls (hp_obj (ih_base (ip_heap st)) a))"

definition handles :: "'w ienv \<Rightarrow> 'w interp \<Rightarrow> nat \<Rightarrow> handler \<Rightarrow> bool" where
  "handles E st at h \<longleftrightarrow>
     hd_start h \<le> int at \<and> int at < hd_end h \<and> thrown_class st \<noteq> None \<and> hd_type h \<noteq> None \<and>
     subclass_of E (thrown_class st) (hd_type h)"

text \<open>The check after every instruction: go on, go to a handler, or leave the frame.\<close>

definition dispatch :: "'w ienv \<Rightarrow> ir_function \<Rightarrow> nat \<Rightarrow> 'w exec" where
  "dispatch E fn pc regs wk st =
     (if \<not> ip_throwing st then Val (Goto pc regs wk st)
      else
        (let at = (if pc > 0 then pc - 1 else 0)
         in case find (handles E st at) (fn_handlers fn) of
              Some h \<Rightarrow>
                bind_res (set_reg regs (hd_bindReg h) (ip_thrown st))
                  (\<lambda>regs1. Val (Goto (to_pc (hd_handlerPc h)) regs1 wk (st\<lparr>ip_throwing := False\<rparr>)))
            | None \<Rightarrow> Val (Return vvoid wk st)))"

text \<open>One turn of the loop.\<close>

definition frame_step :: "nat \<Rightarrow> 'w ienv \<Rightarrow> 'w callf \<Rightarrow> nat \<Rightarrow> nat \<Rightarrow> 'w exec" where
  "frame_step n E callf fi pc regs wk st =
     (let fn = md_functions (en_mod E) ! fi; i = fn_code fn ! pc
      in bind_res (exec_inst n E callf fi pc i regs wk st) (\<lambda>aft.
           case aft of
             Next regs1 wk1 st1 \<Rightarrow> bind_res (mem_hook E fi pc i regs1 st1) (dispatch E fn (pc + 1) regs1 wk1)
           | Goto pc1 regs1 wk1 st1 \<Rightarrow> dispatch E fn pc1 regs1 wk1 st1
           | Return v wk1 st1 \<Rightarrow> Val (Return v wk1 st1)))"

definition new_regs :: "ir_function \<Rightarrow> rt_value list \<Rightarrow> rt_value list" where
  "new_regs fn args = take (fn_nregs fn) args @ replicate (fn_nregs fn - length args) vvoid"

text \<open>At the end of a frame the scope-owned allocations that still have a reference are violations.\<close>

definition end_frame :: "'w ienv \<Rightarrow> ir_function \<Rightarrow> weaks \<Rightarrow> 'w interp \<Rightarrow> 'w interp" where
  "end_frame E fn wk st =
     (if en_own E = None then st
      else st\<lparr>ip_violations := ip_violations st @
             map (\<lambda>(pc, a). fn_name fn @ '' @'' @ nat_str pc @ '': scope-owned allocation survived its frame'')
               (filter (\<lambda>(pc, a). \<not> en_released E st [] a) wk)\<rparr>)"

text \<open>\<open>call\<close> with the execution of frames as an argument.\<close>

definition call_with :: "'w ienv \<Rightarrow> (nat \<Rightarrow> nat \<Rightarrow> rt_value list \<Rightarrow> weaks \<Rightarrow> 'w interp \<Rightarrow> (rt_value \<times> weaks \<times> 'w interp) res) \<Rightarrow> 'w callf" where
  "call_with E exec fnIndex args st =
     (if 0 \<le> fnIndex \<and> nat fnIndex < length (md_functions (en_mod E)) then
        (let fn = md_functions (en_mod E) ! nat fnIndex
         in bind_res (exec (nat fnIndex) 0 (new_regs fn args) [] st) (\<lambda>(v, wk, st1). Val (v, end_frame E fn wk st1)))
      else Stuck BadAccess)"

primrec frameExec :: "nat \<Rightarrow> 'w ienv \<Rightarrow> nat \<Rightarrow> nat \<Rightarrow> rt_value list \<Rightarrow> weaks \<Rightarrow> 'w interp \<Rightarrow> (rt_value \<times> weaks \<times> 'w interp) res" where
  "frameExec 0 E = (\<lambda>fi pc regs wk st. Stuck NoFuel)"
| "frameExec (Suc n) E = (\<lambda>fi pc regs wk st.
     if pc < length (fn_code (md_functions (en_mod E) ! fi)) then
       bind_res (frame_step n E (call_with E (frameExec n E)) fi pc regs wk st) (\<lambda>aft.
         case aft of
           Return v wk1 st1 \<Rightarrow> Val (v, wk1, st1)
         | Goto pc1 regs1 wk1 st1 \<Rightarrow> frameExec n E fi pc1 regs1 wk1 st1
         | Next regs1 wk1 st1 \<Rightarrow> frameExec n E fi (pc + 1) regs1 wk1 st1)
     else Val (vvoid, wk, st))"

definition callFn :: "nat \<Rightarrow> 'w ienv \<Rightarrow> 'w callf" where
  "callFn n E = call_with E (frameExec n E)"

section \<open>Running a program\<close>

definition call_if :: "nat \<Rightarrow> 'w ienv \<Rightarrow> int \<Rightarrow> 'w interp \<Rightarrow> 'w interp res" where
  "call_if n E fi st = (if fi \<ge> 0 then bind_res (callFn n E fi [] st) (\<lambda>(_, st1). Val st1) else Val st)"

definition term_of :: "'w interp \<Rightarrow> term_state" where
  "term_of st = \<lparr>ts_throwing = ip_throwing st, ts_exiting = ip_exiting st, ts_thrown = ip_thrown st, ts_stashed = ip_stashed st,
     ts_termThrown = ip_termThrown st, ts_termExiting = ip_termExiting st\<rparr>"

definition taskCaptureTermination :: "'w interp \<Rightarrow> 'w interp" where
  "taskCaptureTermination st =
     (let t = rtCaptureTermination (term_of st)
      in st\<lparr>ip_throwing := ts_throwing t, ip_exiting := ts_exiting t, ip_stashed := ts_stashed t,
            ip_termThrown := ts_termThrown t, ip_termExiting := ts_termExiting t\<rparr>)"

definition run_program :: "nat \<Rightarrow> 'w ienv \<Rightarrow> 'w interp \<Rightarrow> 'w interp res" where
  "run_program n E st = bind_res (call_if n E (md_ginit (en_mod E)) st) (call_if n E (md_entry (en_mod E)))"

definition taskRunProgram :: "nat \<Rightarrow> 'w ienv \<Rightarrow> 'w interp \<Rightarrow> 'w interp res" where
  "taskRunProgram n E st = bind_res (run_program n E st) (\<lambda>st1. Val (taskCaptureTermination st1))"

text \<open>The bodies of the tasks the scheduler runs: a callback of the loop with its argument, and a child of a task group.\<close>

definition taskRunJob :: "nat \<Rightarrow> 'w ienv \<Rightarrow> loop_callback \<Rightarrow> 'w interp \<Rightarrow> 'w interp res" where
  "taskRunJob n E job st =
     (if ip_stashed st then Val st
      else bind_res (invokeClosure (callFn n E) (lc_callback job) (lc_argument job) st) (\<lambda>st1. Val (taskCaptureTermination st1)))"

definition taskRunGroupBody :: "nat \<Rightarrow> 'w ienv \<Rightarrow> rt_value \<Rightarrow> 'w interp \<Rightarrow> 'w interp res" where
  "taskRunGroupBody n E cb st =
     (if ip_stashed st then Val st
      else
        bind_res (case closure_fn st cb of
                    None \<Rightarrow> Val st
                  | Some f \<Rightarrow> bind_res (callFn n E (to_int f) [cb] st) (\<lambda>(_, st1). Val st1))
          (\<lambda>st1. Val (taskCaptureTermination st1)))"

definition taskPollPromise :: "'w interp \<Rightarrow> addr \<Rightarrow> int" where
  "taskPollPromise st a = rtPollPromise (ip_heap st) a"

definition taskLoopStep :: "'w ienv \<Rightarrow> 'w interp \<Rightarrow> int \<times> loop_callback list \<times> 'w interp" where
  "taskLoopStep E st =
     (let (env, st1) = en_clock E st; (r, jobs, lp) = rtTaskLoopStep env (ip_stashed st1) (ip_loop st1)
      in (r, jobs, st1\<lparr>ip_loop := lp\<rparr>))"

definition taskThrowProbe :: "'w interp \<Rightarrow> int" where
  "taskThrowProbe st = (if ip_throwing st then 1 else 0)"

definition uncaught_text :: "'w interp \<Rightarrow> string" where
  "uncaught_text st =
     (let cls = (case thrown_class st of Some c \<Rightarrow> cls_name c | None \<Rightarrow> ''value'');
          msg = (case object_cell (ip_thrown st) of None \<Rightarrow> [] | Some a \<Rightarrow> v_s (field_or vvoid (ip_heap st) a ''message''))
      in ''Uncaught '' @ cls @ (if msg = [] then [] else '': '' @ msg) @ [NL])"

definition reset_run :: "'w ienv \<Rightarrow> 'w interp \<Rightarrow> 'w interp" where
  "reset_run E st =
     st\<lparr>ip_loop := loop_reset (ip_loop st), ip_exitReq := False, ip_exitVal := 0, ip_exiting := False, ip_exitCode := 0,
        ip_globals := replicate (nat (md_nglobals (en_mod E))) vvoid\<rparr>"

definition run_body :: "nat \<Rightarrow> 'w ienv \<Rightarrow> 'w interp \<Rightarrow> 'w interp res" where
  "run_body n E st =
     (if en_tasks E then
        bind_res (en_sched E (taskRunProgram n E) (st\<lparr>ip_stashed := False, ip_termExiting := False, ip_termThrown := vvoid\<rparr>))
          (\<lambda>st1. Val (if ip_stashed st1
                      then st1\<lparr>ip_throwing := True, ip_thrown := ip_termThrown st1, ip_exiting := ip_termExiting st1\<rparr> else st1))
      else bind_res (run_program n E st) (pump n E (callFn n E) (\<lambda>_. False)))"

definition finish_run :: "'w interp \<Rightarrow> 'w interp" where
  "finish_run st =
     (let uncaught = (ip_throwing st \<and> \<not> ip_exiting st)
      in st\<lparr>ip_out := (if uncaught then ip_out st @ uncaught_text st else ip_out st),
            ip_exitCode := (if uncaught then 1 else ip_exitVal st)\<rparr>)"

definition run :: "nat \<Rightarrow> 'w ienv \<Rightarrow> 'w interp \<Rightarrow> (string \<times> 'w interp) res" where
  "run n E st = bind_res (run_body n E (reset_run E st)) (\<lambda>st1. let st2 = finish_run st1 in Val (ip_out st2, st2))"

end
