(* ===== verification/Ir_Programs.thy ===== *)
theory Ir_Programs
  imports Ir_Interp
begin

text \<open>
  Concrete environments and programs of the IR interpreter, on which the properties of the other theories are evaluated, and two runs
  that show what the interpreter does with an exit inside a handler and with an exception in the initialisation of the globals.
\<close>

section \<open>Concrete programs\<close>

text \<open>A world without natives, tasks or other references than registers, with the exception classes of the prelude.\<close>

definition exc_class :: class_sym where "exc_class = \<lparr>cls_id = 7, cls_name = ''RuntimeException'', cls_isValue = False\<rparr>"

definition demo_sema :: sema where
  "demo_sema = \<lparr>sm_slots = (\<lambda>_. []), sm_decl = (\<lambda>_. Some \<lparr>cd_body = [], cd_bases = []\<rparr>), sm_params = (\<lambda>_. 0), sm_declName = (\<lambda>_. []),
     sm_global = (\<lambda>n. if n = ''RuntimeException'' then Some exc_class else None), sm_depth = 4\<rparr>"

definition demo_fp :: fp_ops where
  "demo_fp = \<lparr>fp_add = (\<lambda>_ _. 0), fp_sub = (\<lambda>_ _. 0), fp_mul = (\<lambda>_ _. 0), fp_div = (\<lambda>_ _. 0), fp_eq = (\<lambda>_ _. False),
     fp_lt = (\<lambda>_ _. False), fp_le = (\<lambda>_ _. False), fp_of_int = (\<lambda>_. 0), fp_str = (\<lambda>_. []), fp_floor = (\<lambda>x. x), fp_ceil = (\<lambda>x. x),
     fp_round = (\<lambda>x. x), fp_trunc = (\<lambda>x. x), fp_sqrt = (\<lambda>x. x), fp_pow = (\<lambda>x y. x), fp_strtod = (\<lambda>s. (0, 0))\<rparr>"

definition count_refs :: "rt_value list \<Rightarrow> addr \<Rightarrow> nat" where
  "count_refs regs a = length (filter (\<lambda>v. v_arr v = Some a \<or> v_map v = Some a) regs)"

definition ir_demo_env :: "ir_module \<Rightarrow> unit ienv" where
  "ir_demo_env m = \<lparr>en_mod = m, en_sema = demo_sema, en_fp = demo_fp, en_deep = 8, en_own = None, en_memOn = False, en_tasks = False,
     en_useCount = (\<lambda>st regs a. count_refs regs a), en_released = (\<lambda>st regs a. False), en_loc = (\<lambda>a. a),
     en_nativeFree = (\<lambda>n args st. (None, st)),
     en_spawn = (\<lambda>v st. (0, st)), en_park = (\<lambda>p st. (PARK_SETTLED, 0, st)),
     en_clock = (\<lambda>st. (\<lparr>le_now = 0, le_poll = (\<lambda>_ _. (0, \<lambda>_. 0)), le_now2 = 0, le_tlsWants = (\<lambda>_. 0), le_tlsPending = (\<lambda>_. False)\<rparr>, st)),
     en_sched = (\<lambda>body st. body st)\<rparr>"

definition demo_heap :: ir_heap where
  "demo_heap = \<lparr>ih_base = \<lparr>hp_obj = (\<lambda>_. \<lparr>ob_cls = Some exc_class, ob_fields = []\<rparr>), hp_arr = (\<lambda>_. []), hp_map = (\<lambda>_. []),
     hp_block_len = (\<lambda>_. 0), hp_next = 0\<rparr>, ih_weak = (\<lambda>_. []), ih_env = (\<lambda>_. []), ih_view = (\<lambda>a. (a, 0)), ih_bytes = (\<lambda>_. [])\<rparr>"

definition demo_state :: "unit interp" where
  "demo_state = \<lparr>ip_heap = demo_heap, ip_loop = \<lparr>rl_timers = [], rl_watches = [], rl_nextId = 1\<rparr>, ip_globals = [], ip_out = [],
     ip_raw = False, ip_written = [], ip_throwing = False, ip_thrown = vvoid, ip_exiting = False, ip_exitReq = False, ip_exitVal = 0,
     ip_exitCode = 0, ip_stashed = False, ip_termThrown = vvoid, ip_termExiting = False, ip_tracked = 0, ip_violations = [],
     ip_mem = new_verifier False, ip_refs = None, ip_world = ()\<rparr>"

text \<open>A division by zero in a \<open>try\<close>, its handler, then \<open>sysExit\<close> in a second \<open>try\<close>, whose handler prints.\<close>

definition exit_in_try :: ir_module where
  "exit_in_try = mk_module
     [(mk_fn 0 4
        [(inst0 OpArith)\<lparr>in_a := 0, in_b := 1, in_c := 1, in_tk := TkPunct PSlash\<rparr>,
         (inst0 OpCallNativeFn)\<lparr>in_a := 0, in_c := 1, in_d := 1, in_sname := ''sysExit''\<rparr>,
         (inst0 OpRetVoid),
         (inst0 OpLoadConst)\<lparr>in_a := 3, in_b := 0\<rparr>,
         (inst0 OpPrint)\<lparr>in_a := 3\<rparr>])
      \<lparr>fn_consts := [vstr ''still running''],
        fn_handlers := [\<lparr>hd_start = 0, hd_end = 1, hd_handlerPc = 1, hd_bindReg = 2, hd_type = Some exc_class\<rparr>,
                        \<lparr>hd_start = 1, hd_end = 2, hd_handlerPc = 3, hd_bindReg = 2, hd_type = Some exc_class\<rparr>]\<rparr>]"


text \<open>The first instruction of the entry function runs even when the initialisation of the globals threw.\<close>

definition throwing_ginit :: ir_module where
  "throwing_ginit = (mk_module
     [mk_fn 0 1 [(inst0 OpPrintNl), (inst0 OpPrintNl)],
      mk_fn 0 1 [(inst0 OpArith)\<lparr>in_a := 0, in_b := 0, in_c := 0, in_tk := TkPunct PSlash\<rparr>]])\<lparr>md_ginit := 1\<rparr>"

lemma entry_after_failed_ginit:
  "(case run 20 (ir_demo_env throwing_ginit) demo_state of
      Val (s, st) \<Rightarrow> s = [NL] @ ''Uncaught RuntimeException: division by zero'' @ [NL] \<and> ip_exitCode st = 1 | Stuck s \<Rightarrow> False)"
  by code_simp

end
