(* ===== verification/Ir_Semantics.thy ===== *)
theory Ir_Semantics
  imports Ir_Programs
begin

text \<open>
  What the parts of the interpreter compute: subclass tests and accessor lookup are reachability in the class hierarchy; an array
  store has value semantics whatever the reference counts; and copying a value struct gives a fresh one.
\<close>

section \<open>The class hierarchy\<close>

definition base_rel :: "sema \<Rightarrow> (nat \<times> nat) set" where
  "base_rel sm = {(x, y). \<exists>d c. sm_decl sm x = Some d \<and> Some c \<in> set (cd_bases d) \<and> cls_id c = y}"

text \<open>The hierarchy has no cycle and the depth of the model bounds it: \<open>rank\<close> decreases towards the bases.\<close>

definition hierarchy_ok :: "sema \<Rightarrow> (nat \<Rightarrow> nat) \<Rightarrow> bool" where
  "hierarchy_ok sm rank \<longleftrightarrow> (\<forall>x y. (x, y) \<in> base_rel sm \<longrightarrow> rank y < rank x) \<and> (\<forall>x. rank x < sm_depth sm)"

lemma isSubclassOrSelf_reach:
  assumes "\<forall>x y. (x, y) \<in> base_rel sm \<longrightarrow> rank y < rank x" and "rank (cls_id a) < n"
  shows "isSubclassOrSelf n sm (Some a) (Some b) \<longleftrightarrow> (cls_id a, cls_id b) \<in> (base_rel sm)\<^sup>*"
  using assms(2)
proof (induction n arbitrary: a)
  case (Suc n)
  have sub: "isSubclassOrSelf n sm c (Some b) \<longleftrightarrow> (\<exists>x. c = Some x \<and> (cls_id x, cls_id b) \<in> (base_rel sm)\<^sup>*)"
    if "sm_decl sm (cls_id a) = Some d" "c \<in> set (cd_bases d)" for c d
  proof (cases c)
    case None
    then show ?thesis by (cases n) simp_all
  next
    case (Some x)
    then have "(cls_id a, cls_id x) \<in> base_rel sm" using that by (auto simp: base_rel_def)
    then have "rank (cls_id x) < n" using assms(1) Suc.prems by fastforce
    with Some show ?thesis using Suc.IH by simp
  qed
  have "isSubclassOrSelf (Suc n) sm (Some a) (Some b) \<longleftrightarrow> cls_id a = cls_id b \<or>
      (\<exists>d x. sm_decl sm (cls_id a) = Some d \<and> Some x \<in> set (cd_bases d) \<and> (cls_id x, cls_id b) \<in> (base_rel sm)\<^sup>*)"
    using sub by (force simp: list_ex_iff split: option.splits)
  also have "\<dots> \<longleftrightarrow> cls_id a = cls_id b \<or> (\<exists>y. (cls_id a, y) \<in> base_rel sm \<and> (y, cls_id b) \<in> (base_rel sm)\<^sup>*)"
    unfolding base_rel_def by blast
  also have "\<dots> \<longleftrightarrow> (cls_id a, cls_id b) \<in> (base_rel sm)\<^sup>*"
    by (metis converse_rtranclE converse_rtrancl_into_rtrancl rtrancl.rtrancl_refl)
  finally show ?case .
qed simp

text \<open>A class that declares the accessor.\<close>

definition declares :: "sema \<Rightarrow> string \<Rightarrow> bool \<Rightarrow> nat \<Rightarrow> decl \<Rightarrow> bool" where
  "declares sm name wantGet x g \<longleftrightarrow>
     (\<exists>d m. sm_decl sm x = Some d \<and> m \<in> set (cd_body d) \<and> (if wantGet then ac_isGet m else ac_isSet m) \<and> ac_name m = name \<and> ac_decl m = g)"

lemma first_some_Some: "first_some f xs = Some y \<Longrightarrow> \<exists>x \<in> set xs. f x = Some y"
  by (induction xs) (auto split: option.splits)

lemma first_some_None [simp]: "first_some f xs = None \<longleftrightarrow> (\<forall>x \<in> set xs. f x = None)"
  by (induction xs) (auto split: option.splits)

lemma findAccessor_no_class [simp]: "findAccessor n sm None name w = None"
  by (cases n) auto

lemma findAccessor_Some:
  "findAccessor n sm (Some a) name w = Some g \<Longrightarrow> \<exists>x. (cls_id a, x) \<in> (base_rel sm)\<^sup>* \<and> declares sm name w x g"
proof (induction n arbitrary: a)
  case (Suc n)
  then obtain d where d: "sm_decl sm (cls_id a) = Some d" by (auto split: option.splits)
  let ?P = "\<lambda>m. (if w then ac_isGet m else ac_isSet m) \<and> ac_name m = name"
  show ?case
  proof (cases "find ?P (cd_body d)")
    case (Some m)
    then have "m \<in> set (cd_body d)" "?P m" by (auto simp: find_Some_iff in_set_conv_nth)
    moreover have "g = ac_decl m" using Suc.prems d Some by simp
    ultimately have "declares sm name w (cls_id a) g" using d unfolding declares_def by blast
    then show ?thesis by blast
  next
    case None
    then have "first_some (\<lambda>b. findAccessor n sm b name w) (cd_bases d) = Some g" using Suc.prems d by simp
    then obtain b where b: "b \<in> set (cd_bases d)" "findAccessor n sm b name w = Some g" using first_some_Some by fast
    obtain c where c: "b = Some c" using b(2) by (cases b) auto
    with b d have "(cls_id a, cls_id c) \<in> base_rel sm" by (auto simp: base_rel_def)
    moreover obtain x where "(cls_id c, x) \<in> (base_rel sm)\<^sup>*" "declares sm name w x g" using Suc.IH b c by blast
    ultimately show ?thesis by (meson converse_rtrancl_into_rtrancl)
  qed
qed simp

lemma findAccessor_None:
  assumes "\<forall>x y. (x, y) \<in> base_rel sm \<longrightarrow> rank y < rank x" and "rank (cls_id a) < n"
    and "findAccessor n sm (Some a) name w = None" and "(cls_id a, x) \<in> (base_rel sm)\<^sup>*"
  shows "\<not> declares sm name w x g"
  using assms(2-)
proof (induction n arbitrary: a)
  case (Suc n)
  show ?case
  proof (cases "cls_id a = x")
    case True
    with Suc.prems(2) show ?thesis
      by (fastforce simp: declares_def find_None_iff split: option.splits)
  next
    case False
    with Suc.prems(3) obtain y where y: "(cls_id a, y) \<in> base_rel sm" "(y, x) \<in> (base_rel sm)\<^sup>*"
      by (meson converse_rtranclE)
    then obtain d c where c: "sm_decl sm (cls_id a) = Some d" "Some c \<in> set (cd_bases d)" "cls_id c = y"
      by (auto simp: base_rel_def)
    then have "findAccessor n sm (Some c) name w = None" using Suc.prems(2) by (auto split: option.splits)
    moreover have "rank (cls_id c) < n" using assms(1) y(1) c(3) Suc.prems(1) by fastforce
    ultimately show ?thesis using Suc.IH [of c] y(2) c(3) by blast
  qed
qed simp

text \<open>
  C33. The subclass test that decides which handler catches an exception and what a type test gives is reachability in the class
  hierarchy, and accessor lookup finds an accessor exactly when the class or one of its ancestors declares one, for every
  hierarchy without cycles within the depth of the model.
\<close>

theorem hierarchy_queries:
  assumes "hierarchy_ok sm rank"
  shows "(isSubclassOrSelf (sm_depth sm) sm (Some a) (Some b) \<longleftrightarrow> (cls_id a, cls_id b) \<in> (base_rel sm)\<^sup>*) \<and>
    (findAccessor (sm_depth sm) sm (Some a) name w = None \<longleftrightarrow>
       (\<forall>x g. (cls_id a, x) \<in> (base_rel sm)\<^sup>* \<longrightarrow> \<not> declares sm name w x g)) \<and>
    (\<forall>g. findAccessor (sm_depth sm) sm (Some a) name w = Some g \<longrightarrow>
       (\<exists>x. (cls_id a, x) \<in> (base_rel sm)\<^sup>* \<and> declares sm name w x g))"
proof -
  have rank: "\<forall>x y. (x, y) \<in> base_rel sm \<longrightarrow> rank y < rank x" "rank (cls_id a) < sm_depth sm"
    using assms by (auto simp: hierarchy_ok_def)
  note some = findAccessor_Some [of "sm_depth sm" sm a name w]
  have "findAccessor (sm_depth sm) sm (Some a) name w = None \<longleftrightarrow>
      (\<forall>x g. (cls_id a, x) \<in> (base_rel sm)\<^sup>* \<longrightarrow> \<not> declares sm name w x g)"
  proof
    assume "\<forall>x g. (cls_id a, x) \<in> (base_rel sm)\<^sup>* \<longrightarrow> \<not> declares sm name w x g"
    then show "findAccessor (sm_depth sm) sm (Some a) name w = None"
      using some by (cases "findAccessor (sm_depth sm) sm (Some a) name w") blast+
  qed (use findAccessor_None [OF rank] in blast)
  with some isSubclassOrSelf_reach [OF rank] show ?thesis by blast
qed

theorem hierarchy_queries_witness:
  "hierarchy_ok (demo_sema\<lparr>sm_decl := (\<lambda>x. Some \<lparr>cd_body = [\<lparr>ac_name = ''size'', ac_isGet = True, ac_isSet = False, ac_decl = 3\<rparr>],
       cd_bases = (if x = 1 then [Some exc_class] else [])\<rparr>)\<rparr>) (\<lambda>x. if x = 1 then 1 else 0) \<and>
   (1, 7) \<in> (base_rel (demo_sema\<lparr>sm_decl := (\<lambda>x. Some \<lparr>cd_body = [\<lparr>ac_name = ''size'', ac_isGet = True, ac_isSet = False, ac_decl = 3\<rparr>],
       cd_bases = (if x = 1 then [Some exc_class] else [])\<rparr>)\<rparr>))\<^sup>*"
proof -
  let ?sm = "demo_sema\<lparr>sm_decl := (\<lambda>x. Some \<lparr>cd_body = [\<lparr>ac_name = ''size'', ac_isGet = True, ac_isSet = False, ac_decl = 3\<rparr>],
       cd_bases = (if x = 1 then [Some exc_class] else [])\<rparr>)\<rparr>"
  let ?a = "\<lparr>cls_id = 1, cls_name = ''Sub'', cls_isValue = False\<rparr>"
  have ok: "hierarchy_ok ?sm (\<lambda>x. if x = 1 then 1 else 0)"
    by (auto simp: hierarchy_ok_def base_rel_def demo_sema_def exc_class_def split: if_splits)
  have "isSubclassOrSelf (sm_depth ?sm) ?sm (Some ?a) (Some exc_class)" by code_simp
  with hierarchy_queries [OF ok, of ?a exc_class "[]" True] ok show ?thesis by (simp add: exc_class_def)
qed

section \<open>Array stores\<close>

definition arr_of :: "'w interp \<Rightarrow> rt_value \<Rightarrow> rt_value list" where
  "arr_of st v = (case v_arr v of None \<Rightarrow> [] | Some a \<Rightarrow> hp_arr (ih_base (ip_heap st)) a)"

lemma store_arr_cases:
  obtains (in_place) a where "v_arr base = Some a" "en_useCount E st regs a = 1"
    "store_arr E regs base idx v st =
       Val (base, st\<lparr>ip_heap := write_arr a (store_at (sint (v_i idx)) v (arr_of st base)) (ip_heap st)\<rparr>)"
  | (copied) r st' where "store_arr E regs base idx v st = Val (r, st')" "arr_of st' r = store_at (sint (v_i idx)) v (arr_of st base)"
      "\<And>c. c < hp_next (ih_base (ip_heap st)) \<Longrightarrow> hp_arr (ih_base (ip_heap st')) c = hp_arr (ih_base (ip_heap st)) c"
proof (cases "\<exists>a. v_arr base = Some a \<and> en_useCount E st regs a = 1")
  case True
  then show thesis by (auto intro!: in_place simp: store_arr_def Let_def arr_of_def)
next
  case False
  let ?h = "ip_heap st" and ?xs = "store_at (sint (v_i idx)) v (arr_of st base)"
  have "store_arr E regs base idx v st = (let (r, h1) = alloc_arr ?xs ?h in Val (r, st\<lparr>ip_heap := h1\<rparr>))"
    using False by (auto simp: store_arr_def Let_def arr_of_def split: option.split)
  then show thesis
    by (intro copied [of "fst (alloc_arr ?xs ?h)" "st\<lparr>ip_heap := snd (alloc_arr ?xs ?h)\<rparr>"])
      (simp_all add: alloc_arr_def fresh_def write_arr_def arr_of_def Let_def)
qed

lemma get_reg_Val: "0 \<le> k \<Longrightarrow> k < int (length regs) \<Longrightarrow> get_reg regs k = Val (regs ! nat k)"
  by (simp add: get_reg_def nat_less_iff)

lemma set_reg_Val: "0 \<le> k \<Longrightarrow> k < int (length regs) \<Longrightarrow> set_reg regs k v = Val (regs[nat k := v])"
  by (simp add: set_reg_def nat_less_iff)

lemma unique_reg:
  assumes "card {k. k < length regs \<and> v_arr (regs ! k) = Some c} \<le> 1" and "j < length regs" "v_arr (regs ! j) = Some c"
    and "k < length regs" "v_arr (regs ! k) = Some c"
  shows "k = j"
proof (rule ccontr)
  assume "k \<noteq> j"
  have "card {j, k} \<le> card {k. k < length regs \<and> v_arr (regs ! k) = Some c}" using assms(2-) by (intro card_mono) auto
  with \<open>k \<noteq> j\<close> assms(1) show False by simp
qed

text \<open>The registers the instruction clears before it stores.\<close>

definition cleared :: "ir_function \<Rightarrow> nat \<Rightarrow> inst \<Rightarrow> rt_value list \<Rightarrow> rt_value list" where
  "cleared fn pc i regs =
     (let regs1 = regs[nat (in_a i) := vvoid] in case rebind_temp fn pc i of None \<Rightarrow> regs1 | Some t \<Rightarrow> regs1[nat t := vvoid])"

definition store_operands :: "ir_function \<Rightarrow> nat \<Rightarrow> inst \<Rightarrow> rt_value list \<Rightarrow> bool" where
  "store_operands fn pc i regs \<longleftrightarrow>
     (\<forall>k \<in> {in_a i, in_b i, in_c i, in_d i} \<union> set_option (rebind_temp fn pc i). 0 \<le> k \<and> k < int (length regs)) \<and>
     in_a i \<notin> {in_b i, in_c i, in_d i}"

lemma rebind_temp_other: "rebind_temp fn pc i = Some t \<Longrightarrow> t \<notin> {in_b i, in_c i, in_d i}"
  by (auto simp: rebind_temp_def Let_def split: if_splits)

lemma cleared_nth:
  assumes "k < length regs" and "int k \<noteq> in_a i" and "rebind_temp fn pc i \<noteq> Some (int k)" and "store_operands fn pc i regs"
  shows "cleared fn pc i regs ! k = regs ! k"
  using assms by (auto simp: cleared_def Let_def store_operands_def nth_list_update split: option.splits)

lemma length_cleared [simp]: "length (cleared fn pc i regs) = length regs"
  by (simp add: cleared_def Let_def split: option.split)

lemma exec_indexStore_eq:
  assumes "store_operands fn pc i regs"
  shows "exec_indexStore E callf fn pc i regs wk st =
    into i (cleared fn pc i regs) wk (indexStore E callf (cleared fn pc i regs)
      (regs ! nat (in_b i)) (regs ! nat (in_c i)) (regs ! nat (in_d i)) st)"
proof -
  have c: "(case rebind_temp fn pc i of None \<Rightarrow> Val (regs[nat (in_a i) := vvoid]) | Some t \<Rightarrow> set_reg (regs[nat (in_a i) := vvoid]) t vvoid) =
      Val (cleared fn pc i regs)"
    using assms by (auto simp: cleared_def Let_def store_operands_def set_reg_Val split: option.split)
  have r: "get_reg (cleared fn pc i regs) k = Val (regs ! nat k)" if "k \<in> {in_b i, in_c i, in_d i}" for k
  proof -
    have "0 \<le> k" "k < int (length regs)" "k \<noteq> in_a i" "rebind_temp fn pc i \<noteq> Some k"
      using that assms rebind_temp_other [of fn pc i k] by (auto simp: store_operands_def)
    then show ?thesis using cleared_nth [of "nat k" regs i fn pc] assms by (simp add: get_reg_Val nat_less_iff)
  qed
  have "set_reg regs (in_a i) vvoid = Val (regs[nat (in_a i) := vvoid])" using assms by (simp add: store_operands_def set_reg_Val)
  with c r show ?thesis by (simp add: exec_indexStore_def with_reg_def)
qed


lemma count_refs_card: "card {k. k < length regs \<and> v_arr (regs ! k) = Some c} \<le> count_refs regs c"
  unfolding count_refs_def by (subst length_filter_conv_card) (intro card_mono; auto)

definition store_regs :: "rt_value list" where
  "store_regs = (let arr = vvoid\<lparr>v_kind := KArray, v_arr := Some 0\<rparr> in [vvoid, arr, arr, vint 0, vint 5])"

definition store_inst :: inst where
  "store_inst = (inst0 OpIndexStore)\<lparr>in_a := 0, in_b := 1, in_c := 3, in_d := 4\<rparr>"

definition store_state :: "unit interp" where
  "store_state = demo_state\<lparr>ip_heap := demo_heap\<lparr>ih_base := (ih_base demo_heap)\<lparr>hp_arr := (\<lambda>_. [vint 9]), hp_next := 1\<rparr>\<rparr>\<rparr>"


section \<open>Copies of value structs\<close>

abbreviation obj_at :: "ir_heap \<Rightarrow> addr \<Rightarrow> rt_object" where "obj_at h a \<equiv> hp_obj (ih_base h) a"
abbreviation next_cell :: "ir_heap \<Rightarrow> addr" where "next_cell h \<equiv> hp_next (ih_base h)"

text \<open>\<open>v'\<close> is a copy of \<open>v\<close>: a struct is a new cell, from \<open>lo\<close> on, of the same class with copies in its fields; any other value is
  shared.\<close>

inductive copied :: "addr \<Rightarrow> ir_heap \<Rightarrow> rt_value \<Rightarrow> rt_value \<Rightarrow> bool" for lo h where
  shared: "struct_cell h v = None \<Longrightarrow> copied lo h v v"
| struct: "\<lbrakk>struct_cell h v = Some (a, c); lo \<le> b; ob_cls (obj_at h b) = Some c; ih_weak h b = [];
     map fst (ob_fields (obj_at h b)) = map fst (ob_fields (obj_at h a));
     list_all2 (copied lo h) (map snd (ob_fields (obj_at h a))) (map snd (ob_fields (obj_at h b)))\<rbrakk> \<Longrightarrow>
   copied lo h v (v\<lparr>v_obj := Some b\<rparr>)"

definition below :: "ir_heap \<Rightarrow> rt_value \<Rightarrow> bool" where
  "below h v \<longleftrightarrow> (\<forall>a. v_obj v = Some a \<longrightarrow> a < next_cell h)"

definition heap_closed :: "ir_heap \<Rightarrow> bool" where
  "heap_closed h \<longleftrightarrow> (\<forall>a < next_cell h. \<forall>x \<in> set (map snd (ob_fields (obj_at h a))). below h x)"

definition extends :: "ir_heap \<Rightarrow> ir_heap \<Rightarrow> bool" where
  "extends h h' \<longleftrightarrow> next_cell h \<le> next_cell h' \<and> (\<forall>a < next_cell h. obj_at h' a = obj_at h a \<and> ih_weak h' a = ih_weak h a) \<and>
     hp_arr (ih_base h') = hp_arr (ih_base h) \<and> hp_map (ih_base h') = hp_map (ih_base h) \<and> ih_env h' = ih_env h"

lemma extends_refl [simp]: "extends h h"
  by (simp add: extends_def)

lemma extends_trans: "extends h h1 \<Longrightarrow> extends h1 h2 \<Longrightarrow> extends h h2"
  by (auto simp: extends_def)

lemma below_extends: "below h v \<Longrightarrow> extends h h' \<Longrightarrow> below h' v"
  by (auto simp: below_def extends_def)

lemma struct_cell_extends: "below h v \<Longrightarrow> extends h h' \<Longrightarrow> struct_cell h' v = struct_cell h v"
  by (auto simp: struct_cell_def below_def extends_def split: vkind.splits option.splits)

lemma struct_cell_obj: "struct_cell h v = Some (a, c) \<Longrightarrow> v_kind v = KObject \<and> v_obj v = Some a \<and> ob_cls (obj_at h a) = Some c \<and> cls_isValue c"
  by (auto simp: struct_cell_def split: vkind.splits option.splits if_splits)

lemma copied_extends:
  assumes "copied lo h v v'" and "extends h h'" and "heap_closed h" and "below h v" "below h v'" and "lo' \<le> lo"
  shows "copied lo' h' v v'"
  using assms
proof (induction)
  case (shared v)
  then show ?case using struct_cell_extends [of h v h'] by (simp add: copied.shared)
next
  case (struct v a c b)
  have ab: "a < next_cell h" "b < next_cell h"
    using struct.prems struct_cell_obj [OF struct.hyps(1)] by (auto simp: below_def)
  then have same: "obj_at h' a = obj_at h a" "obj_at h' b = obj_at h b" "ih_weak h' b = ih_weak h b"
    using struct.prems by (auto simp: extends_def)
  have "list_all2 (copied lo' h') (map snd (ob_fields (obj_at h a))) (map snd (ob_fields (obj_at h b)))"
    using struct.IH
  proof (rule list.rel_mono_strong)
    fix x x'
    assume "x \<in> set (map snd (ob_fields (obj_at h a)))" "x' \<in> set (map snd (ob_fields (obj_at h b)))"
    then have "below h x" "below h x'" using struct.prems(2) ab unfolding heap_closed_def by blast+
    then show "copied lo h x x' \<and> (extends h h' \<longrightarrow> heap_closed h \<longrightarrow> below h x \<longrightarrow> below h x' \<longrightarrow> lo' \<le> lo \<longrightarrow> copied lo' h' x x') \<Longrightarrow> copied lo' h' x x'"
      using struct.prems by blast
  qed
  then show ?case using struct.hyps struct.prems same struct_cell_extends [of h v h']
    by (intro copied.struct [where a = a and c = c]) simp_all
qed

lemma new_object_extends:
  assumes "heap_closed h" and "\<forall>x \<in> set (map snd fs). below h x" and "new_object cls fs h = (b, h')"
  shows "extends h h' \<and> heap_closed h' \<and> b = next_cell h \<and> next_cell h' = Suc b \<and> obj_at h' b = \<lparr>ob_cls = cls, ob_fields = fs\<rparr> \<and> ih_weak h' b = []"
proof -
  have e: "extends h h'" "b = next_cell h" "next_cell h' = Suc b" "obj_at h' b = \<lparr>ob_cls = cls, ob_fields = fs\<rparr>" "ih_weak h' b = []"
    using assms(3) by (auto simp: new_object_def Let_def extends_def)
  have "below h' x" if "a < next_cell h'" "x \<in> set (map snd (ob_fields (obj_at h' a)))" for a x
  proof (cases "a = b")
    case True
    then show ?thesis using that assms(2) e below_extends by auto
  next
    case False
    then have "a < next_cell h" "obj_at h' a = obj_at h a" using that(1) e by (auto simp: extends_def)
    then show ?thesis using that(2) assms(1) e(1) below_extends unfolding heap_closed_def by metis
  qed
  with e show ?thesis by (simp add: heap_closed_def)
qed

definition copy_ok :: "ir_heap \<Rightarrow> rt_value \<Rightarrow> rt_value \<Rightarrow> ir_heap \<Rightarrow> bool" where
  "copy_ok h v v' h' \<longleftrightarrow> extends h h' \<and> heap_closed h' \<and> below h' v' \<and> copied (next_cell h) h' v v'"

lemma copy_fields_ok:
  assumes "\<And>h v v' h'. heap_closed h \<Longrightarrow> below h v \<Longrightarrow> cp h v = Val (v', h') \<Longrightarrow> copy_ok h v v' h'"
    and "heap_closed h" and "\<forall>x \<in> set (map snd fs). below h x" and "copy_fields cp fs h = Val (fs', h')"
  shows "extends h h' \<and> heap_closed h' \<and> map fst fs' = map fst fs \<and> (\<forall>x \<in> set (map snd fs'). below h' x) \<and>
    list_all2 (copied (next_cell h) h') (map snd fs) (map snd fs')"
  using assms(2-)
proof (induction fs arbitrary: h fs')
  case (Cons p fs)
  obtain k v where p: "p = (k, v)" by force
  from Cons.prems(3) obtain v1 h1 fs1 where s: "cp h v = Val (v1, h1)" "copy_fields cp fs h1 = Val (fs1, h')" "fs' = (k, v1) # fs1"
    by (auto simp: p bind_res_def split: res.splits)
  have v: "copy_ok h v v1 h1" using assms(1) [OF Cons.prems(1) _ s(1)] Cons.prems(2) p by simp
  then have "heap_closed h1" "\<forall>x \<in> set (map snd fs). below h1 x"
    using Cons.prems(2) below_extends by (auto simp: copy_ok_def)
  note IH = Cons.IH [OF this s(2)]
  have le: "next_cell h \<le> next_cell h1" using v by (simp add: copy_ok_def extends_def)
  have "copied (next_cell h) h' v v1"
    using v IH copied_extends [of "next_cell h" h1 v v1 h' "next_cell h"] below_extends [of h v h1] Cons.prems(2) p by (simp add: copy_ok_def)
  moreover have "list_all2 (copied (next_cell h) h') (map snd fs) (map snd fs1)"
    using IH
  proof (elim conjE, elim list.rel_mono_strong)
    fix x x'
    assume "x \<in> set (map snd fs)" "x' \<in> set (map snd fs1)" "copied (next_cell h1) h' x x'"
    moreover from this have "below h' x" "below h' x'" using IH \<open>\<forall>x \<in> set (map snd fs). below h1 x\<close> below_extends by blast+
    ultimately show "copied (next_cell h) h' x x'" using copied_extends [of _ h' x x' h' "next_cell h"] IH le by simp
  qed
  moreover have "extends h h'" using v IH extends_trans by (auto simp: copy_ok_def)
  moreover have "below h' v1" using v IH below_extends by (auto simp: copy_ok_def)
  ultimately show ?case using IH by (simp add: s(3) p)
qed simp

lemma copyValue_ok:
  "heap_closed h \<Longrightarrow> below h v \<Longrightarrow> copyValue n h v = Val (v', h') \<Longrightarrow> copy_ok h v v' h'"
proof (induction n arbitrary: h v v' h')
  case 0
  then show ?case by (auto simp: copyValue.simps copy_ok_def copied.shared split: option.splits)
next
  case (Suc n)
  show ?case
  proof (cases "struct_cell h v")
    case None
    with Suc.prems show ?thesis by (simp add: copyValue.simps copy_ok_def copied.shared)
  next
    case (Some p)
    obtain a c where p: "p = (a, c)" by force
    from Suc.prems(3) obtain fs h1 b where s: "copy_fields (copyValue n) (ob_fields (obj_at h a)) h = Val (fs, h1)"
      "new_object (Some c) fs h1 = (b, h')" "v' = v\<lparr>v_obj := Some b\<rparr>"
      by (auto simp: copyValue.simps [of "Suc n"] Some p bind_res_def Let_def split: res.splits prod.splits)
    have a: "a < next_cell h" using Suc.prems(2) struct_cell_obj [of h v a c] Some p by (simp add: below_def)
    then have f: "\<forall>x \<in> set (map snd (ob_fields (obj_at h a))). below h x" using Suc.prems(1) unfolding heap_closed_def by blast
    have cf: "extends h h1" "heap_closed h1" "map fst fs = map fst (ob_fields (obj_at h a))" "\<forall>x \<in> set (map snd fs). below h1 x"
      "list_all2 (copied (next_cell h) h1) (map snd (ob_fields (obj_at h a))) (map snd fs)"
      using copy_fields_ok [of "copyValue n", OF _ Suc.prems(1) f s(1)] Suc.IH by blast+
    note no = new_object_extends [OF cf(2,4) s(2)]
    have e: "extends h1 h'" "heap_closed h'" using no by blast+
    then have e2: "extends h h'" using cf extends_trans by blast
    have "list_all2 (copied (next_cell h) h') (map snd (ob_fields (obj_at h a))) (map snd fs)"
      using cf(5)
    proof (rule list.rel_mono_strong)
      fix x x'
      assume "x \<in> set (map snd (ob_fields (obj_at h a)))" "x' \<in> set (map snd fs)" "copied (next_cell h) h1 x x'"
      moreover from this have "below h1 x" "below h1 x'" using cf f below_extends by blast+
      ultimately show "copied (next_cell h) h' x x'" using copied_extends cf e(1) by blast
    qed
    moreover have "obj_at h' a = obj_at h a" "struct_cell h' v = Some (a, c)"
      using e2 a Some p Suc.prems(2) struct_cell_extends [of h v h'] by (simp_all add: extends_def)
    moreover have "next_cell h \<le> b" using cf no by (auto simp: extends_def)
    moreover have "obj_at h' b = \<lparr>ob_cls = Some c, ob_fields = fs\<rparr>" "ih_weak h' b = []" using no by blast+
    ultimately have "copied (next_cell h) h' v v'" unfolding s(3)
      using cf(3) by (intro copied.struct [where a = a and c = c]) simp_all
    moreover have "below h' v'" using no cf by (simp add: below_def s(3))
    ultimately show ?thesis using e e2 by (simp add: copy_ok_def)
  qed
qed


definition point_heap :: ir_heap where
  "point_heap = demo_heap\<lparr>ih_base := (ih_base demo_heap)
     \<lparr>hp_obj := (\<lambda>_. \<lparr>ob_cls = Some \<lparr>cls_id = 2, cls_name = ''Point'', cls_isValue = True\<rparr>, ob_fields = [(''x'', vint 3)]\<rparr>), hp_next := 1\<rparr>\<rparr>"


end
