(* ===== verification/Ir_Fuel.thy ===== *)
theory Ir_Fuel
  imports Ir_Semantics
begin

text \<open>
  The fuel of the interpreter only bounds how long it may run: a result obtained with some fuel is the result with any more. Two
  outcomes are ordered when the first is \<open>NoFuel\<close> or they agree; every part of the interpreter is monotone in the calls it makes.
\<close>

named_theorems le_rules "monotonicity in the calls made"

definition le_res :: "'a res \<Rightarrow> 'a res \<Rightarrow> bool" where
  "le_res x y \<longleftrightarrow> x = Stuck NoFuel \<or> x = y"

definition le_callf :: "'w callf \<Rightarrow> 'w callf \<Rightarrow> bool" where
  "le_callf c c' \<longleftrightarrow> (\<forall>f args st. le_res (c f args st) (c' f args st))"

lemma le_res_refl [simp, intro]: "le_res x x"
  by (simp add: le_res_def)

lemma le_res_Stuck [simp]: "le_res (Stuck NoFuel) x"
  by (simp add: le_res_def)

lemma le_res_trans: "le_res x y \<Longrightarrow> le_res y z \<Longrightarrow> le_res x z"
  by (auto simp: le_res_def)

lemma le_bind [le_rules]:
  assumes "le_res m m'" and "\<And>x. le_res (f x) (f' x)"
  shows "le_res (bind_res m f) (bind_res m' f')"
proof (cases m)
  case (Val x)
  with assms(1) have "m' = Val x" by (simp add: le_res_def)
  with Val assms(2) show ?thesis by simp
next
  case (Stuck s)
  with assms(1) show ?thesis by (auto simp: le_res_def)
qed

lemma le_callfD: "le_callf c c' \<Longrightarrow> le_res (c f args st) (c' f args st)"
  by (simp add: le_callf_def)

lemma le_with_reg [le_rules]: "(\<And>v. le_res (f v) (f' v)) \<Longrightarrow> le_res (with_reg regs k f) (with_reg regs k f')"
  by (simp add: with_reg_def le_bind)

lemma le_into [le_rules]: "le_res m m' \<Longrightarrow> le_res (into i regs wk m) (into i regs wk m')"
  unfolding into_def by (intro le_bind) auto

lemma le_if [le_rules]: "le_res x x' \<Longrightarrow> le_res y y' \<Longrightarrow> le_res (if b then x else y) (if b then x' else y')"
  by simp

lemma le_prod [le_rules]: "(\<And>a b. le_res (f a b) (f' a b)) \<Longrightarrow> le_res (case p of (a, b) \<Rightarrow> f a b) (case p of (a, b) \<Rightarrow> f' a b)"
  by (cases p) simp

lemma le_option [le_rules]:
  "le_res x x' \<Longrightarrow> (\<And>a. le_res (f a) (f' a)) \<Longrightarrow> le_res (case p of None \<Rightarrow> x | Some a \<Rightarrow> f a) (case p of None \<Rightarrow> x' | Some a \<Rightarrow> f' a)"
  by (cases p) simp_all

lemma le_list [le_rules]:
  "le_res x x' \<Longrightarrow> (\<And>a b. le_res (f a b) (f' a b)) \<Longrightarrow> le_res (case p of [] \<Rightarrow> x | a # b \<Rightarrow> f a b) (case p of [] \<Rightarrow> x' | a # b \<Rightarrow> f' a b)"
  by (cases p) simp_all

lemma le_callDecl [le_rules]: "le_callf c c' \<Longrightarrow> le_res (callDecl E c d args cow st) (callDecl E c' d args cow st)"
  unfolding callDecl_def by (intro le_rules le_callfD [of c c']) auto

lemma le_getMember [le_rules]: "le_callf c c' \<Longrightarrow> le_res (getMember E c regs b k st) (getMember E c' regs b k st)"
  unfolding getMember_def Let_def by (auto intro!: le_rules le_callfD [of c c'] split: vkind.split option.split)

lemma le_setMember [le_rules]: "le_callf c c' \<Longrightarrow> le_res (setMember E c b k v st) (setMember E c' b k v st)"
  unfolding setMember_def Let_def by (auto intro!: le_rules le_callfD [of c c'] split: vkind.split option.split)

lemma le_getIndex [le_rules]: "le_callf c c' \<Longrightarrow> le_res (getIndex E c b k st) (getIndex E c' b k st)"
  unfolding getIndex_def Let_def by (intro le_rules le_callfD [of c c']) auto

lemma le_indexStore [le_rules]: "le_callf c c' \<Longrightarrow> le_res (indexStore E c regs b k v st) (indexStore E c' regs b k v st)"
  unfolding indexStore_def by (auto intro!: le_rules le_callfD [of c c'] split: vkind.split option.split)

lemma le_rtObjectArith [le_rules]:
  "(\<And>d l r st. le_res (iv d l r st) (iv' d l r st)) \<Longrightarrow> le_res (rtObjectArith sm op cls d l r iv no st) (rtObjectArith sm op cls d l r iv' no st)"
  unfolding rtObjectArith_def Let_def by (intro le_rules) auto

lemma le_objectArith [le_rules]: "le_callf c c' \<Longrightarrow> le_res (objectArith E c i cls l r st) (objectArith E c' i cls l r st)"
  unfolding objectArith_def by (intro le_rules) auto

lemma le_invokeClosure [le_rules]: "le_callf c c' \<Longrightarrow> le_res (invokeClosure c cb a st) (invokeClosure c' cb a st)"
  unfolding invokeClosure_def by (intro le_rules le_callfD [of c c']) auto

lemma le_run_jobs [le_rules]: "le_callf c c' \<Longrightarrow> le_res (run_jobs c js st) (run_jobs c' js st)"
  by (induction js arbitrary: st) (auto intro!: le_rules le_callfD [of c c'])

lemma le_pump [le_rules]: "le_callf c c' \<Longrightarrow> n \<le> n' \<Longrightarrow> le_res (pump n E c stop st) (pump n' E c' stop st)"
proof (induction n arbitrary: n' st)
  case (Suc n)
  then obtain k where k: "n' = Suc k" "n \<le> k" by (cases n') auto
  show ?case unfolding k pump.simps Let_def using Suc.IH [OF Suc.prems(1) k(2)] Suc.prems(1) by (intro le_rules le_callfD [of c c']) auto
qed simp

section \<open>Instructions and frames\<close>

lemma le_exec_arith [le_rules]: "le_callf c c' \<Longrightarrow> le_res (exec_arith E c i regs wk st) (exec_arith E c' i regs wk st)"
  unfolding exec_arith_def by (intro le_rules le_callfD [of c c']) auto

lemma le_exec_call [le_rules]: "le_callf c c' \<Longrightarrow> le_res (exec_call E c i regs wk st) (exec_call E c' i regs wk st)"
  unfolding exec_call_def exec_callDyn_def exec_callValue_def Let_def by (intro le_rules le_callfD [of c c']) auto

lemma le_exec_member [le_rules]: "le_callf c c' \<Longrightarrow> le_res (exec_member E c i regs wk st) (exec_member E c' i regs wk st)"
  unfolding exec_member_def Let_def by (intro le_rules le_callfD [of c c']) auto

lemma le_exec_new [le_rules]: "le_callf c c' \<Longrightarrow> le_res (exec_new E c fi pc i regs wk st) (exec_new E c' fi pc i regs wk st)"
  unfolding exec_new_def Let_def by (intro le_rules le_callfD [of c c']) auto

lemma le_exec_index [le_rules]: "le_callf c c' \<Longrightarrow> le_res (exec_index E c fn pc i regs wk st) (exec_index E c' fn pc i regs wk st)"
  unfolding exec_index_def exec_indexStore_def by (intro le_rules le_callfD [of c c']) auto

lemma le_exec_await [le_rules]:
  "le_callf c c' \<Longrightarrow> n \<le> n' \<Longrightarrow> le_res (exec_await n E c i regs wk st) (exec_await n' E c' i regs wk st)"
  unfolding exec_await_def by (intro le_rules le_callfD [of c c']) auto

lemma le_frame_step [le_rules]:
  "le_callf c c' \<Longrightarrow> n \<le> n' \<Longrightarrow> le_res (frame_step n E c fi pc regs wk st) (frame_step n' E c' fi pc regs wk st)"
  unfolding frame_step_def exec_inst_def Let_def by (intro le_rules le_callfD [of c c']) auto

lemma le_call_with [le_rules]:
  "(\<And>fi pc regs wk st. le_res (ex fi pc regs wk st) (ex' fi pc regs wk st)) \<Longrightarrow> le_callf (call_with E ex) (call_with E ex')"
  unfolding call_with_def le_callf_def Let_def by (intro allI le_rules) auto

lemma le_frameExec [le_rules]: "n \<le> n' \<Longrightarrow> le_res (frameExec n E fi pc regs wk st) (frameExec n' E fi pc regs wk st)"
proof (induction n arbitrary: n' fi pc regs wk st)
  case (Suc n)
  then obtain k where k: "n' = Suc k" "n \<le> k" by (cases n') auto
  have "le_res (case aft of Return v wk1 st1 \<Rightarrow> Val (v, wk1, st1) | Goto pc1 regs1 wk1 st1 \<Rightarrow> frameExec n E fi pc1 regs1 wk1 st1
        | Next regs1 wk1 st1 \<Rightarrow> frameExec n E fi (pc + 1) regs1 wk1 st1)
      (case aft of Return v wk1 st1 \<Rightarrow> Val (v, wk1, st1) | Goto pc1 regs1 wk1 st1 \<Rightarrow> frameExec k E fi pc1 regs1 wk1 st1
        | Next regs1 wk1 st1 \<Rightarrow> frameExec k E fi (pc + 1) regs1 wk1 st1)" for aft
    using Suc.IH [OF k(2)] by (cases aft) simp_all
  then show ?case unfolding k frameExec.simps using Suc.IH [OF k(2)] k(2) by (intro le_rules) auto
qed simp

lemma le_callFn [le_rules]: "n \<le> n' \<Longrightarrow> le_callf (callFn n E) (callFn n' E)"
  unfolding callFn_def by (intro le_rules)

section \<open>Runs\<close>

lemma le_call_if [le_rules]: "n \<le> n' \<Longrightarrow> le_res (call_if n E fi st) (call_if n' E fi st)"
  unfolding call_if_def by (intro le_rules le_callfD [of "callFn n E"]) auto

lemma le_run_body [le_rules]: "n \<le> n' \<Longrightarrow> \<not> en_tasks E \<Longrightarrow> le_res (run_body n E st) (run_body n' E st)"
  unfolding run_body_def run_program_def by (simp, intro le_rules) auto


end
