(* ===== verification/Native_Safety.thy ===== *)
theory Native_Safety
  imports Native_Methods
begin

text \<open>
  Native methods stay inside their cells: no method of the table reads or writes outside a store of bytes, and a write changes only bytes
  of its receiver's view. The bound tests that add an offset and a length overflow before they can reject; those cases are exhibited.
\<close>

named_theorems safe_rules "no access out of range, and the state stays well-formed"

section \<open>Outcomes without bad accesses\<close>

definition safe :: "('a \<Rightarrow> bool) \<Rightarrow> 'a res \<Rightarrow> bool" where
  "safe Q m = (case m of Val x \<Rightarrow> Q x | Stuck s \<Rightarrow> s \<noteq> BadAccess)"

lemma safe_simps [simp]: "safe Q (Val x) = Q x" "safe Q (Stuck s) \<longleftrightarrow> s \<noteq> BadAccess"
  by (simp_all add: safe_def)

lemma safe_bind [safe_rules]: "safe P m \<Longrightarrow> (\<And>x. P x \<Longrightarrow> safe Q (f x)) \<Longrightarrow> safe Q (bind_res m f)"
  by (cases m) simp_all

lemma safe_weaken: "safe P m \<Longrightarrow> (\<And>x. P x \<Longrightarrow> Q x) \<Longrightarrow> safe Q m"
  by (cases m) simp_all

lemma safe_deep [safe_rules]: "safe (\<lambda>_. True) (deep x)"
  by (simp add: deep_def split: option.split)

lemma safe_if [safe_rules]: "(b \<Longrightarrow> safe Q x) \<Longrightarrow> (\<not> b \<Longrightarrow> safe Q y) \<Longrightarrow> safe Q (if b then x else y)"
  by simp

lemma safe_prod [safe_rules]: "(\<And>a b. p = (a, b) \<Longrightarrow> safe Q (f a b)) \<Longrightarrow> safe Q (case p of (a, b) \<Rightarrow> f a b)"
  by (cases p) simp

lemma safe_option [safe_rules]:
  "(p = None \<Longrightarrow> safe Q x) \<Longrightarrow> (\<And>a. p = Some a \<Longrightarrow> safe Q (f a)) \<Longrightarrow> safe Q (case p of None \<Rightarrow> x | Some a \<Rightarrow> f a)"
  by (cases p) simp_all

lemma safe_list [safe_rules]:
  "(p = [] \<Longrightarrow> safe Q x) \<Longrightarrow> (\<And>a b. p = a # b \<Longrightarrow> safe Q (f a b)) \<Longrightarrow> safe Q (case p of [] \<Rightarrow> x | a # b \<Rightarrow> f a b)"
  by (cases p) simp_all

section \<open>Views inside their stores\<close>

text \<open>Every view ends inside its store, and the store of a view that is not empty is allocated.\<close>

definition view_end :: "ir_heap \<Rightarrow> addr \<Rightarrow> nat" where
  "view_end h a = snd (ih_view h a) + hp_block_len (ih_base h) a"

definition blocks_ok :: "ir_heap \<Rightarrow> bool" where
  "blocks_ok h \<longleftrightarrow> (\<forall>a. view_end h a \<le> length (ih_bytes h (fst (ih_view h a))) \<and>
     (0 < view_end h a \<longrightarrow> fst (ih_view h a) < hp_next (ih_base h)))"

text \<open>What a method leaves of the heap: objects, closures and views stay, and the bytes that change are in the receiver's view.\<close>

definition in_view :: "ir_heap \<Rightarrow> addr option \<Rightarrow> addr \<Rightarrow> nat \<Rightarrow> bool" where
  "in_view h b s p \<longleftrightarrow> (\<exists>a. b = Some a \<and> fst (ih_view h a) = s \<and> snd (ih_view h a) \<le> p \<and> p < view_end h a)"

definition confined :: "addr option \<Rightarrow> ir_heap \<Rightarrow> ir_heap \<Rightarrow> bool" where
  "confined b h h' \<longleftrightarrow>
     ih_env h' = ih_env h \<and> hp_obj (ih_base h') = hp_obj (ih_base h) \<and>
     (\<forall>a. a \<noteq> hp_next (ih_base h) \<longrightarrow> ih_view h' a = ih_view h a \<and> hp_block_len (ih_base h') a = hp_block_len (ih_base h) a) \<and>
     (\<forall>s. length (ih_bytes h' s) = length (ih_bytes h s) \<and>
        (\<forall>p < length (ih_bytes h s). ih_bytes h' s ! p \<noteq> ih_bytes h s ! p \<longrightarrow> in_view h b s p))"

lemma confined_refl [simp]: "confined b h h"
  by (simp add: confined_def)

lemma blocks_ok_mono:
  assumes "blocks_ok h" and "ih_view h' = ih_view h" "hp_block_len (ih_base h') = hp_block_len (ih_base h)" "ih_bytes h' = ih_bytes h"
    and "hp_next (ih_base h) \<le> hp_next (ih_base h')"
  shows "blocks_ok h'"
  using assms(1,5) unfolding blocks_ok_def view_end_def assms(2-4) by (meson less_le_trans)

definition native_ok :: "addr option \<Rightarrow> ir_heap \<Rightarrow> (rt_value \<times> string) option \<times> ir_heap \<Rightarrow> bool" where
  "native_ok b h r \<longleftrightarrow> blocks_ok (snd r) \<and> confined b h (snd r)"

lemma safe_gives [safe_rules]:
  "blocks_ok h \<Longrightarrow> safe (native_ok b h) (gives v h)" "blocks_ok h \<Longrightarrow> safe (native_ok b h) (fails msg h)"
  "blocks_ok h \<Longrightarrow> safe (native_ok b h) (no_native h)"
  by (simp_all add: gives_def fails_def no_native_def native_ok_def)

lemma safe_gives_write: "blocks_ok h \<Longrightarrow> safe (native_ok b h) (gives v (write_arr a xs h))"
  by (auto simp: gives_def native_ok_def write_arr_def confined_def elim: blocks_ok_mono)

lemma safe_gives_new [safe_rules]:
  "blocks_ok h \<Longrightarrow> safe (native_ok b h) (gives_new (alloc_arr xs h))" "blocks_ok h \<Longrightarrow> safe (native_ok b h) (gives_new (alloc_map m h))"
  by (auto simp: gives_new_def gives_def native_ok_def alloc_arr_def alloc_map_def fresh_def write_arr_def write_map_def confined_def
      elim: blocks_ok_mono)

lemma safe_gives_view:
  assumes "blocks_ok h" and "k + n \<le> view_end h a" and "snd (ih_view h a) \<le> k"
  shows "safe (native_ok b h) (gives_new (alloc_view (fst (ih_view h a), k) n h))"
proof -
  have a: "view_end h a \<le> length (ih_bytes h (fst (ih_view h a)))" "0 < view_end h a \<longrightarrow> fst (ih_view h a) < hp_next (ih_base h)"
    using assms(1) by (auto simp: blocks_ok_def)
  then have "k + n \<le> length (ih_bytes h (fst (ih_view h a)))" "0 < k + n \<longrightarrow> fst (ih_view h a) < hp_next (ih_base h)"
    using assms(2) by auto
  then show ?thesis using assms(1)
    by (auto simp: gives_new_def gives_def native_ok_def alloc_view_def fresh_def write_view_def confined_def blocks_ok_def view_end_def less_Suc_eq)
qed

section \<open>Reads and writes\<close>

lemma safe_read_view:
  assumes "blocks_ok h" and "i + n \<le> hp_block_len (ih_base h) a"
  shows "safe (\<lambda>bs. length bs = n) (read_view h a i n)"
proof -
  have "snd (ih_view h a) + i + n \<le> length (ih_bytes h (fst (ih_view h a)))"
    using assms by (auto simp: blocks_ok_def view_end_def intro: order_trans [rotated])
  then show ?thesis by (simp add: read_view_def region_def split_beta)
qed

lemma nth_put_region: "k + length bs \<le> length xs \<Longrightarrow> p < length xs \<Longrightarrow>
    (take k xs @ bs @ drop (k + length bs) xs) ! p = (if k \<le> p \<and> p < k + length bs then bs ! (p - k) else xs ! p)"
  by (auto simp: nth_append)

lemma write_bytes_ok:
  assumes "blocks_ok h" and "i + length bs \<le> hp_block_len (ih_base h) a"
  shows "\<exists>h'. write_bytes a i bs h = Val h' \<and> blocks_ok h' \<and> confined (Some a) h h' \<and>
     read_view h' a i (length bs) = Val bs"
proof -
  obtain s k where v: "ih_view h a = (s, k)" by force
  let ?xs = "ih_bytes h s"
  define ys where "ys = take (k + i) ?xs @ bs @ drop (k + i + length bs) ?xs"
  let ?h = "h\<lparr>ih_bytes := (ih_bytes h)(s := ys)\<rparr>"
  have le: "k + i + length bs \<le> length ?xs" "k + hp_block_len (ih_base h) a \<le> length ?xs"
    using assms v by (auto simp: blocks_ok_def view_end_def dest: spec [of _ a])
  then have len: "length ys = length ?xs" by (simp add: ys_def)
  have w: "write_bytes a i bs h = Val ?h" using le v by (simp add: write_bytes_def put_region_def ys_def)
  have "blocks_ok ?h" using assms(1) len unfolding blocks_ok_def view_end_def by simp metis
  moreover have "in_view h (Some a) s p" if "p < length ?xs" "ys ! p \<noteq> ?xs ! p" for p
    using that nth_put_region [OF le(1) that(1)] assms(2) v by (auto simp: ys_def in_view_def view_end_def split: if_splits)
  then have "confined (Some a) h ?h" using len by (auto simp: confined_def)
  moreover have "read_view ?h a i (length bs) = Val bs" using v le by (simp add: read_view_def region_def ys_def)
  ultimately show ?thesis using w by blast
qed

lemma safe_write_bytes:
  assumes "blocks_ok h" and "i + length bs \<le> hp_block_len (ih_base h) a"
  shows "safe (native_ok (Some a) h) (done_with (write_bytes a i bs h))"
  using write_bytes_ok [OF assms] by (auto simp: done_with_def gives_def native_ok_def)

lemma safe_at_offset:
  assumes "blocks_ok h" and "0 \<le> i \<Longrightarrow> 0 \<le> l \<Longrightarrow> nat i + nat l \<le> len \<Longrightarrow> safe (native_ok b h) act"
  shows "safe (native_ok b h) (at_offset i l len h act)"
proof -
  have "safe (\<lambda>e. e = i + l) (checked_add i l)" by (simp add: checked_add_def)
  then have "safe (native_ok b h) (bind_res (checked_add i l) (\<lambda>e. if e > int len then fails (oob_text i len) h else act))"
    if "0 \<le> i" "0 \<le> l" by (rule safe_bind) (use that assms in \<open>auto intro!: safe_rules\<close>)
  then show ?thesis unfolding at_offset_def by (intro safe_if safe_gives assms) auto
qed

lemma length_le_bytes [simp]: "length (le_bytes n u) = n"
  by (simp add: le_bytes_def)

section \<open>The methods of blocks\<close>

lemma safe_block_access:
  assumes "blocks_ok h" and "block_access m a args h = Some r"
  shows "safe (native_ok (Some a) h) r"
proof -
  have read: "safe (native_ok (Some a) h) (bind_res (read_view h a i n) (\<lambda>bs. gives (f bs) h))" if "i + n \<le> hp_block_len (ih_base h) a" for i n f
    by (rule safe_bind [OF safe_read_view [OF assms(1) that]]) (rule safe_gives [OF assms(1)])
  have view: "safe (native_ok (Some a) h) (case ih_view h a of (s, k) \<Rightarrow> gives_new (alloc_view (s, k + i) n h))"
    if "i + n \<le> hp_block_len (ih_base h) a" for i n
    using safe_gives_view [OF assms(1), of "snd (ih_view h a) + i" n a "Some a"] that by (simp add: view_end_def split_beta)
  note rules = safe_at_offset [OF assms(1)] safe_gives [OF assms(1)] safe_write_bytes [OF assms(1)] read view safe_if
  show ?thesis using assms(2) unfolding block_access_def Let_def
    by (auto split: if_splits intro!: rules)
qed

lemma safe_block_fill: "blocks_ok h \<Longrightarrow> safe (native_ok (Some a) h) (block_fill a args h)"
  unfolding block_fill_def Let_def
  by (intro safe_if safe_gives safe_write_bytes) (auto simp: in_window_def)

lemma safe_block_blit:
  assumes "blocks_ok h"
  shows "safe (native_ok (Some a) h) (block_blit a args h)"
proof -
  have copy: "safe (native_ok (Some a) h) (bind_res (read_view h b i n) (\<lambda>bs. done_with (write_bytes a d bs h)))"
    if "i + n \<le> hp_block_len (ih_base h) b" "d + n \<le> hp_block_len (ih_base h) a" for b i n d
    by (rule safe_bind [OF safe_read_view [OF assms that(1)]]) (use that(2) safe_write_bytes [OF assms] in auto)
  show ?thesis unfolding block_blit_def Let_def
    by (intro safe_if safe_option safe_gives assms copy) (auto simp: in_window_def)
qed

lemma safe_block_equals: "blocks_ok h \<Longrightarrow> safe (native_ok b0 h) (block_equals a b h)"
  unfolding block_equals_def Let_def
  by (intro safe_if safe_gives safe_bind [OF safe_read_view] safe_gives) auto

text \<open>The bytes a view shows.\<close>

definition view_bytes :: "ir_heap \<Rightarrow> addr \<Rightarrow> string" where
  "view_bytes h a = take (hp_block_len (ih_base h) a) (drop (snd (ih_view h a)) (ih_bytes h (fst (ih_view h a))))"

lemma length_view_bytes [simp]: "blocks_ok h \<Longrightarrow> length (view_bytes h a) = hp_block_len (ih_base h) a"
  by (auto simp: view_bytes_def blocks_ok_def view_end_def dest: spec [of _ a])

lemma read_view_eq:
  assumes "blocks_ok h" and "i + n \<le> hp_block_len (ih_base h) a"
  shows "read_view h a i n = Val (take n (drop i (view_bytes h a)))"
proof -
  have "snd (ih_view h a) + i + n \<le> length (ih_bytes h (fst (ih_view h a)))"
    using assms by (auto simp: blocks_ok_def view_end_def intro: order_trans [rotated])
  then show ?thesis using assms(2) by (simp add: read_view_def region_def view_bytes_def drop_take min_def add.commute split_beta)
qed

lemma take_drop_eqD: "take n (drop i xs) = take n (drop i ys) \<Longrightarrow> i \<le> p \<Longrightarrow> p < i + n \<Longrightarrow> p < length xs \<Longrightarrow> p < length ys \<Longrightarrow> xs ! p = ys ! p"
  by (drule arg_cong [of _ _ "\<lambda>zs. zs ! (p - i)"]) simp

lemma skip_equal_spec:
  assumes "blocks_ok h" and "hp_block_len (ih_base h) a = len" "hp_block_len (ih_base h) b = len"
  shows "i \<le> len \<Longrightarrow> \<exists>j. skip_equal n h a b len i = Val j \<and> i \<le> j \<and> j \<le> len \<and>
     (\<forall>p. i \<le> p \<longrightarrow> p < j \<longrightarrow> view_bytes h a ! p = view_bytes h b ! p) \<and>
     (n = 1 \<longrightarrow> j < len \<longrightarrow> view_bytes h a ! j \<noteq> view_bytes h b ! j)"
proof (induction "len - i" arbitrary: i rule: less_induct)
  case less
  let ?x = "view_bytes h a" and ?y = "view_bytes h b"
  have len: "length ?x = len" "length ?y = len" using assms by simp_all
  show ?case
  proof (cases "n > 0 \<and> i + n \<le> len")
    case True
    then have r: "read_view h a i n = Val (take n (drop i ?x))" "read_view h b i n = Val (take n (drop i ?y))"
      using read_view_eq [OF assms(1)] assms(2,3) by simp_all
    show ?thesis
    proof (cases "take n (drop i ?x) = take n (drop i ?y)")
      case eq: True
      have s: "skip_equal n h a b len i = skip_equal n h a b len (i + n)" using True r eq by (simp add: skip_equal.simps [of n h a b len i])
      obtain j where j: "skip_equal n h a b len (i + n) = Val j" "i + n \<le> j" "j \<le> len"
          "\<forall>p. i + n \<le> p \<longrightarrow> p < j \<longrightarrow> ?x ! p = ?y ! p" "n = 1 \<longrightarrow> j < len \<longrightarrow> ?x ! j \<noteq> ?y ! j"
        using less.hyps [of "i + n"] True less_diff_iff [of i] by (auto simp: diff_less_mono2)
      have "?x ! p = ?y ! p" if "i \<le> p" "p < j" for p
        using take_drop_eqD [OF eq that(1)] j(2-4) that len by (cases "p < i + n") auto
      then show ?thesis using s j by (intro exI [of _ j]) auto
    next
      case ne: False
      have "n = 1 \<Longrightarrow> i < len \<Longrightarrow> ?x ! i \<noteq> ?y ! i"
        using ne len Cons_nth_drop_Suc [of i ?x] Cons_nth_drop_Suc [of i ?y] by (metis One_nat_def take0 take_Suc_Cons)
      then show ?thesis using True r ne less.prems by (intro exI [of _ i]) (simp add: skip_equal.simps)
    qed
  next
    case False
    then show ?thesis using less.prems by (intro exI [of _ i]) (auto simp: skip_equal.simps)
  qed
qed

lemma safe_skip_equal:
  assumes "blocks_ok h" and "hp_block_len (ih_base h) a = len" "hp_block_len (ih_base h) b = len" and "i \<le> len"
  shows "safe (\<lambda>j. j \<le> len) (skip_equal n h a b len i)"
  using skip_equal_spec [OF assms, of n] by auto

lemma safe_block_mismatch:
  assumes "blocks_ok h"
  shows "safe (native_ok b0 h) (block_mismatch a b args h)"
proof -
  let ?len = "hp_block_len (ih_base h) a"
  have loops: "safe (native_ok b0 h) (bind_res (skip_equal 64 h a b ?len i) (\<lambda>i. bind_res (skip_equal 1 h a b ?len i) (\<lambda>j. gives (f j) h)))"
    if "i \<le> ?len" "hp_block_len (ih_base h) b = ?len" for i f
    by (rule safe_bind [OF safe_skip_equal [OF assms refl that(2,1)]], rule safe_bind [OF safe_skip_equal [OF assms refl that(2)]],
        assumption, rule safe_gives [OF assms])
  show ?thesis unfolding block_mismatch_def Let_def by (intro safe_if safe_gives assms loops) (simp_all add: nat_le_iff)
qed

lemma safe_block_native:
  assumes "blocks_ok h"
  shows "safe (native_ok (v_block self) h) (block_native m self args h)"
proof (cases "v_block self")
  case (Some a)
  show ?thesis unfolding block_native_def Some option.case
  proof (cases "block_access m a args h")
    case None
    then show "safe (native_ok (Some a) h) (case block_access m a args h of Some r \<Rightarrow> r
        | None \<Rightarrow> if m = ''fill'' then block_fill a args h else if m = ''blit'' then block_blit a args h
          else if m = ''equals'' \<or> m = ''mismatch'' then
            (case (if args = [] then None else v_block (hd args)) of None \<Rightarrow> fails ''null block'' h
             | Some b \<Rightarrow> if m = ''equals'' then block_equals a b h else block_mismatch a b args h)
          else no_native h)"
      unfolding option.case
      by (simp only: option.case) (intro safe_if safe_option safe_gives safe_block_fill safe_block_blit safe_block_equals safe_block_mismatch assms)
  qed (use safe_block_access [OF assms] in simp)
qed (simp add: block_native_def safe_gives assms)

section \<open>The whole table\<close>

lemma safe_string_native: "blocks_ok h \<Longrightarrow> safe (native_ok b h) (string_native fp m self args h)"
  unfolding string_native_def string_at_def Let_def by (intro safe_if safe_prod safe_gives safe_gives_new)

lemma safe_array_native: "blocks_ok h \<Longrightarrow> safe (native_ok b h) (array_native m self args cow h)"
  unfolding array_native_def Let_def by (intro safe_if safe_option safe_gives safe_gives_new safe_gives_write)

lemma safe_map_native:
  assumes "blocks_ok h"
  shows "safe (native_ok b h) (map_native n fp m self args h)"
proof -
  note ok = safe_gives [OF assms] safe_gives_new [OF assms]
  have key: "safe (\<lambda>_. True) (case args of [] \<Rightarrow> Val s | x # _ \<Rightarrow> deep (f x))" for s f
    by (cases args) (simp_all add: safe_deep)
  have miss: "safe (native_ok b h) (bind_res (case args of [] \<Rightarrow> Val ''<none>'' | x # _ \<Rightarrow> deep (valueToString n fp (ih_base h) x))
      (\<lambda>s. fails (''key not found: '' @ s) h))" by (rule safe_bind [OF key]) (rule ok)
  show ?thesis unfolding map_native_def Let_def
    by (intro safe_if safe_bind [OF safe_deep] safe_option miss ok)
qed

lemma safe_nativeCall:
  assumes "blocks_ok h"
  shows "safe (native_ok (if cls = ''Block'' then v_block self else None) h) (nativeCall n fp cls m self args cow h)"
  unfolding nativeCall_def char_native_def int_native_def bool_native_def float_native_def Let_def
  by (intro safe_if safe_gives safe_string_native safe_array_native safe_map_native assms) (simp add: safe_block_native assms)


end
