(* ===== verification/Ir_Safety.thy ===== *)
theory Ir_Safety
  imports Ir_Fuel Native_Safety
begin

text \<open>
  The interpreter never makes an access outside its tables on a well-formed module: no instruction reads or writes a register,
  constant, global or function that does not exist, calls through a closure without a function, or follows the null class of an object.
  The operands are checked once per module (\<open>wf_module\<close>); the invariant of the state is kept by every instruction, when the free native
  functions and the scheduler keep it.
\<close>

section \<open>Well-formed states\<close>

definition fn_index :: "'w ienv \<Rightarrow> int \<Rightarrow> bool" where
  "fn_index E k \<longleftrightarrow> 0 \<le> k \<and> k < int (length (md_functions (en_mod E)))"

definition cells_ok :: "'w ienv \<Rightarrow> ir_heap \<Rightarrow> bool" where
  "cells_ok E h \<longleftrightarrow> blocks_ok h \<and> (\<forall>a. ob_cls (obj_at h a) \<noteq> None) \<and> (\<forall>a. ih_env h a \<noteq> []) \<and>
     (\<forall>a. \<forall>env \<in> set (ih_env h a). \<forall>v. map_of env ''@fn'' = Some v \<longrightarrow> fn_index E (sint (v_i v)))"

definition st_ok :: "'w ienv \<Rightarrow> 'w interp \<Rightarrow> bool" where
  "st_ok E st \<longleftrightarrow> cells_ok E (ip_heap st) \<and> length (ip_globals st) = nat (md_nglobals (en_mod E))"

text \<open>What is relied on of the native functions, the scheduler and the prelude.\<close>

definition env_ok :: "'w ienv \<Rightarrow> bool" where
  "env_ok E \<longleftrightarrow>
     (\<forall>n as st. st_ok E st \<longrightarrow> st_ok E (snd (en_nativeFree E n as st))) \<and>
     (\<forall>v st. st_ok E st \<longrightarrow> st_ok E (snd (en_spawn E v st))) \<and>
     (\<forall>p st. st_ok E st \<longrightarrow> st_ok E (snd (snd (en_park E p st)))) \<and>
     (\<forall>st. st_ok E st \<longrightarrow> st_ok E (snd (en_clock E st))) \<and>
     (\<forall>body st. (\<forall>s. st_ok E s \<longrightarrow> safe (st_ok E) (body s)) \<longrightarrow> st_ok E st \<longrightarrow> safe (st_ok E) (en_sched E body st)) \<and>
     sm_global (en_sema E) ''Pair'' \<noteq> None \<and>
     (\<forall>d fi. md_byDecl (en_mod E) d = Some fi \<longrightarrow> fn_index E fi) \<and>
     length (md_functions (en_mod E)) < 2 ^ 31"

text \<open>An update of the other cells keeps the blocks, and so does an allocation.\<close>

lemma blocks_ok_updates [simp]:
  "blocks_ok (h\<lparr>ih_weak := w\<rparr>) = blocks_ok h" "blocks_ok (h\<lparr>ih_env := e\<rparr>) = blocks_ok h"
  "blocks_ok (h\<lparr>ih_base := (ih_base h)\<lparr>hp_arr := xs\<rparr>\<rparr>) = blocks_ok h" "blocks_ok (h\<lparr>ih_base := (ih_base h)\<lparr>hp_map := ms\<rparr>\<rparr>) = blocks_ok h"
  "blocks_ok (h\<lparr>ih_base := (ih_base h)\<lparr>hp_obj := os\<rparr>\<rparr>) = blocks_ok h"
  by (simp_all add: blocks_ok_def view_end_def)

lemma cells_ok_new_object:
  assumes "cells_ok E h" and "cls \<noteq> None" and "new_object cls fs h = (a, h')"
  shows "cells_ok E h'"
proof -
  have "blocks_ok h'" by (rule blocks_ok_mono [of h]) (use assms in \<open>auto simp: cells_ok_def new_object_def Let_def\<close>)
  then show ?thesis using assms by (auto simp: cells_ok_def new_object_def Let_def)
qed

lemma cells_ok_set_field [simp]: "cells_ok E (set_field a k v h) = cells_ok E h"
  by (auto simp: cells_ok_def set_field_def Let_def)

lemma cells_ok_weakObjectWrite [simp]: "cells_ok E (weakObjectWrite a k v h) = cells_ok E h"
  by (simp add: cells_ok_def weakObjectWrite_def)

lemma cells_ok_write [simp]: "cells_ok E (write_arr a xs h) = cells_ok E h" "cells_ok E (write_map a m h) = cells_ok E h"
  by (simp_all add: cells_ok_def write_arr_def write_map_def)

lemma cells_ok_fresh:
  assumes "fresh h = (a, h')" and "cells_ok E h"
  shows "cells_ok E h'"
proof -
  have "blocks_ok h'" by (rule blocks_ok_mono [of h]) (use assms in \<open>auto simp: cells_ok_def fresh_def\<close>)
  then show ?thesis using assms by (auto simp: cells_ok_def fresh_def)
qed

lemma blocks_ok_alloc_block: "blocks_ok h \<Longrightarrow> alloc_block s h = (v, h') \<Longrightarrow> blocks_ok h'"
  by (auto simp: alloc_block_def fresh_def write_view_def blocks_ok_def view_end_def less_Suc_eq)
    (metis add_0 le0 less_irrefl not_gr_zero)

lemma cells_ok_alloc:
  "alloc_arr xs h = (v, h') \<Longrightarrow> cells_ok E h \<Longrightarrow> cells_ok E h'"
  "alloc_map m h = (v, h') \<Longrightarrow> cells_ok E h \<Longrightarrow> cells_ok E h'"
  by (auto simp: alloc_arr_def alloc_map_def Let_def cells_ok_fresh split: prod.splits)

lemma cells_ok_alloc_block: "alloc_block s h = (v, h') \<Longrightarrow> cells_ok E h \<Longrightarrow> cells_ok E h'"
  using blocks_ok_alloc_block [of h s v h'] by (auto simp: cells_ok_def alloc_block_def fresh_def write_view_def)

lemma st_ok_raiseClass [simp]: "st_ok E st \<Longrightarrow> st_ok E (raiseClass E c msg st)"
  by (auto simp: st_ok_def raiseClass_def Let_def intro: cells_ok_new_object split: option.splits prod.splits)

lemma st_ok_raise [simp]: "st_ok E st \<Longrightarrow> st_ok E (raise E msg st)"
  by (simp add: raise_def)

lemma st_ok_updates [simp]:
  "st_ok E (st\<lparr>ip_throwing := b\<rparr>) = st_ok E st" "st_ok E (st\<lparr>ip_thrown := v\<rparr>) = st_ok E st" "st_ok E (st\<lparr>ip_exiting := b\<rparr>) = st_ok E st"
  "st_ok E (st\<lparr>ip_loop := lp\<rparr>) = st_ok E st" "st_ok E (st\<lparr>ip_refs := rs\<rparr>) = st_ok E st" "st_ok E (st\<lparr>ip_out := s\<rparr>) = st_ok E st"
  "st_ok E (st\<lparr>ip_written := s\<rparr>) = st_ok E st" "st_ok E (st\<lparr>ip_tracked := n\<rparr>) = st_ok E st" "st_ok E (st\<lparr>ip_mem := mv\<rparr>) = st_ok E st"
  "st_ok E (st\<lparr>ip_violations := vs\<rparr>) = st_ok E st" "st_ok E (st\<lparr>ip_exitVal := x\<rparr>) = st_ok E st" "st_ok E (st\<lparr>ip_exitReq := b\<rparr>) = st_ok E st"
  "st_ok E (st\<lparr>ip_exitCode := x\<rparr>) = st_ok E st" "st_ok E (st\<lparr>ip_stashed := b\<rparr>) = st_ok E st" "st_ok E (st\<lparr>ip_termThrown := v\<rparr>) = st_ok E st"
  "st_ok E (st\<lparr>ip_termExiting := b\<rparr>) = st_ok E st"
  by (simp_all add: st_ok_def)

lemma st_ok_heap [simp]: "st_ok E st \<Longrightarrow> st_ok E (st\<lparr>ip_heap := h\<rparr>) = cells_ok E h"
  by (simp add: st_ok_def)

lemma st_ok_cells: "st_ok E st \<Longrightarrow> cells_ok E (ip_heap st)"
  by (simp add: st_ok_def)

lemma st_ok_cls: "st_ok E st \<Longrightarrow> \<exists>c. ob_cls (obj_at (ip_heap st) a) = Some c"
  by (simp add: st_ok_def cells_ok_def)

lemma st_ok_ride_exit [simp]: "st_ok E (ride_exit st) = st_ok E st"
  by (simp add: ride_exit_def)

lemma st_ok_emit [simp]: "st_ok E (interpEmitStdout s st) = st_ok E st"
  by (simp add: interpEmitStdout_def)

lemma st_ok_touch: "touch_field a k st = (v, st') \<Longrightarrow> st_ok E st \<Longrightarrow> st_ok E st'"
  by (auto simp: touch_field_def st_ok_cells split: option.splits)

text \<open>The function a closure holds exists.\<close>

lemma closure_fn_index:
  assumes "st_ok E st" and "env_ok E" and "closure_fn st cb = Some f"
  shows "fn_index E (to_int f)"
proof -
  obtain a env r v where "ih_env (ip_heap st) a = env # r" "map_of env ''@fn'' = Some v" "f = v_i v"
    using assms(3) by (auto simp: closure_fn_def split: vkind.splits option.splits list.splits)
  moreover from this have "env \<in> set (ih_env (ip_heap st) a)" by simp
  ultimately have "fn_index E (sint f)" using st_ok_cells [OF assms(1)] unfolding cells_ok_def by blast
  moreover have "int32 (sint f)" using calculation assms(2) by (auto simp: fn_index_def env_ok_def int32_def)
  ultimately show ?thesis by (simp add: to_int_def)
qed

section \<open>Helpers\<close>

text \<open>The calls a helper makes are safe, and its result comes with a well-formed state.\<close>

abbreviation val_ok :: "'w ienv \<Rightarrow> rt_value \<times> 'w interp \<Rightarrow> bool" where
  "val_ok E \<equiv> \<lambda>(v, st). st_ok E st"

definition safe_callf :: "'w ienv \<Rightarrow> 'w callf \<Rightarrow> bool" where
  "safe_callf E c \<longleftrightarrow> (\<forall>f args st. fn_index E f \<longrightarrow> st_ok E st \<longrightarrow> safe (val_ok E) (c f args st))"

lemma safe_callfD: "safe_callf E c \<Longrightarrow> fn_index E f \<Longrightarrow> st_ok E st \<Longrightarrow> safe (val_ok E) (c f args st)"
  by (simp add: safe_callf_def)

lemma safe_callDecl [safe_rules]:
  assumes "safe_callf E c" and "env_ok E" and "st_ok E st"
  shows "safe (val_ok E) (callDecl E c d args cow st)"
proof -
  have native: "safe (\<lambda>(r, h). cells_ok E h) (nativeCall n fp cls m self rest cow (ip_heap st))" for n fp cls m self rest
    by (rule safe_weaken [OF safe_nativeCall]) (use st_ok_cells [OF assms(3)] in \<open>auto simp: native_ok_def confined_def cells_ok_def\<close>)
  have "safe (val_ok E) (bind_res (nativeCall n fp cls m self rest cow (ip_heap st)) (\<lambda>(r, h). let st1 = st\<lparr>ip_heap := h\<rparr>
      in case r of None \<Rightarrow> Val (vvoid, st1) | Some (out, err) \<Rightarrow> if err \<noteq> [] then Val (vvoid, raise E err st1) else Val (out, st1)))"
    for n fp cls m self rest
    by (rule safe_bind [OF native]) (use assms(3) in \<open>auto simp: Let_def split: option.split\<close>)
  moreover have "md_byDecl (en_mod E) d = Some fi \<Longrightarrow> fn_index E fi" for fi using assms(2) by (simp add: env_ok_def)
  ultimately show ?thesis using assms unfolding callDecl_def
    by (intro safe_option safe_list safe_callfD [of E c]) auto
qed

lemma safe_rtRawFieldGet [safe_rules]: "st_ok E st \<Longrightarrow> safe (\<lambda>_. True) (rtRawFieldGet sm alive (ip_heap st) a k)"
  using st_ok_cls [of E st a] by (auto simp: rtRawFieldGet_def)

lemma safe_rtRawFieldSet [safe_rules]: "st_ok E st \<Longrightarrow> safe (cells_ok E) (rtRawFieldSet sm a k v (ip_heap st))"
  using st_ok_cls [of E st a] st_ok_cells [of E st] by (auto simp: rtRawFieldSet_def)

lemma safe_getMember [safe_rules]:
  assumes "safe_callf E c" and "env_ok E" and "st_ok E st"
  shows "safe (val_ok E) (getMember E c regs b k st)"
  unfolding getMember_def Let_def using assms
  by (auto intro!: safe_rules split: vkind.split option.split)

lemma safe_setMember [safe_rules]:
  assumes "safe_callf E c" and "env_ok E" and "st_ok E st"
  shows "safe (st_ok E) (setMember E c b k v st)"
  unfolding setMember_def Let_def using assms
  by (auto intro!: safe_rules split: vkind.split option.split)

lemma safe_getIndex [safe_rules]:
  assumes "safe_callf E c" and "env_ok E" and "st_ok E st"
  shows "safe (val_ok E) (getIndex E c b k st)"
  unfolding getIndex_def Let_def using assms
  by (auto intro!: safe_rules split: vkind.split option.split)

lemma st_ok_alloc:
  "st_ok E st \<Longrightarrow> alloc_arr xs (ip_heap st) = (v, h) \<Longrightarrow> st_ok E (st\<lparr>ip_heap := h\<rparr>)"
  "st_ok E st \<Longrightarrow> alloc_map m (ip_heap st) = (v, h) \<Longrightarrow> st_ok E (st\<lparr>ip_heap := h\<rparr>)"
  "st_ok E st \<Longrightarrow> alloc_block s (ip_heap st) = (v, h) \<Longrightarrow> st_ok E (st\<lparr>ip_heap := h\<rparr>)"
  by (simp_all add: cells_ok_alloc cells_ok_alloc_block st_ok_cells)

lemma safe_store_arr [safe_rules]: "st_ok E st \<Longrightarrow> safe (val_ok E) (store_arr E regs b k v st)"
  unfolding store_arr_def Let_def by (auto intro!: safe_rules simp: st_ok_cells cells_ok_alloc split: option.split)

lemma safe_store_map [safe_rules]: "st_ok E st \<Longrightarrow> safe (val_ok E) (store_map E regs b k v st)"
  unfolding store_map_def Let_def by (auto intro!: safe_rules simp: st_ok_cells cells_ok_alloc split: option.split)

lemma safe_indexStore [safe_rules]:
  assumes "safe_callf E c" and "env_ok E" and "st_ok E st"
  shows "safe (val_ok E) (indexStore E c regs b k v st)"
  unfolding indexStore_def using assms by (auto intro!: safe_rules split: vkind.split option.split)

lemma safe_rtObjectArith [safe_rules]:
  assumes "\<And>d l r st. st_ok E st \<Longrightarrow> safe (val_ok E) (iv d l r st)" and "\<And>s st. st_ok E st \<Longrightarrow> safe (val_ok E) (no s st)" and "st_ok E st"
  shows "safe (val_ok E) (rtObjectArith sm op cls d l r iv no st)"
proof -
  have "safe (val_ok E) (bind_res (iv eq l r st) (\<lambda>(v, st'). Val (vbool (\<not> v_b v), st')))" for eq
    by (rule safe_bind [OF assms(1) [OF assms(3)]]) auto
  then show ?thesis unfolding rtObjectArith_def Let_def using assms by (intro safe_if safe_option assms) auto
qed

lemma safe_objectArith [safe_rules]:
  assumes "safe_callf E c" and "env_ok E" and "st_ok E st"
  shows "safe (val_ok E) (objectArith E c i cls l r st)"
  unfolding objectArith_def using assms by (intro safe_rules) auto

lemma safe_iterLen [safe_rules]: "st_ok E st \<Longrightarrow> safe (val_ok E) (iterLen it st)"
  unfolding iterLen_def Let_def by (auto intro!: safe_rules dest: st_ok_touch split: vkind.split option.split)

lemma st_ok_new_object: "st_ok E st \<Longrightarrow> cls \<noteq> None \<Longrightarrow> new_object cls fs (ip_heap st) = (a, h) \<Longrightarrow> st_ok E (st\<lparr>ip_heap := h\<rparr>)"
  using cells_ok_new_object [OF st_ok_cells] by simp

lemma safe_iterAt [safe_rules]:
  assumes "st_ok E st" and "env_ok E"
  shows "safe (val_ok E) (iterAt E it k st)"
proof -
  have "sm_global (en_sema E) ''Pair'' \<noteq> None" using assms(2) by (simp add: env_ok_def)
  then show ?thesis using assms(1) unfolding iterAt_def Let_def
    by (auto intro!: safe_rules dest: st_ok_touch cells_ok_new_object [OF st_ok_cells] split: vkind.split option.split prod.split)
qed

lemma safe_invokeClosure [safe_rules]:
  assumes "safe_callf E c" and "env_ok E" and "st_ok E st"
  shows "safe (st_ok E) (invokeClosure c cb a st)"
proof (cases "closure_fn st cb")
  case (Some f)
  have "safe (val_ok E) (c (to_int f) [cb, a] st)"
    by (rule safe_callfD [OF assms(1) closure_fn_index [OF assms(3,2) Some] assms(3)])
  then have "safe (st_ok E) (bind_res (c (to_int f) [cb, a] st) (\<lambda>(_, st1). Val st1))" by (rule safe_bind) auto
  with Some show ?thesis by (simp add: invokeClosure_def)
qed (use assms in \<open>simp add: invokeClosure_def\<close>)

lemma safe_run_jobs [safe_rules]: "safe_callf E c \<Longrightarrow> env_ok E \<Longrightarrow> st_ok E st \<Longrightarrow> safe (st_ok E) (run_jobs c js st)"
proof (induction js arbitrary: st)
  case (Cons j js)
  then have "safe (st_ok E) (invokeClosure c (lc_callback j) (lc_argument j) st)" by (intro safe_invokeClosure)
  then show ?case unfolding run_jobs.simps by (rule safe_bind) (use Cons in auto)
qed simp

lemma st_ok_next_jobs: "env_ok E \<Longrightarrow> st_ok E st \<Longrightarrow> next_jobs E st = (js, st') \<Longrightarrow> st_ok E st'"
  unfolding env_ok_def by (auto simp: next_jobs_def Let_def split: prod.splits)

lemma safe_pump [safe_rules]: "safe_callf E c \<Longrightarrow> env_ok E \<Longrightarrow> st_ok E st \<Longrightarrow> safe (st_ok E) (pump n E c stop st)"
proof (induction n arbitrary: st)
  case (Suc n)
  then show ?case by (auto intro!: safe_rules dest: st_ok_next_jobs)
qed simp

section \<open>Task natives and the thread boundary\<close>

lemma safe_scan_values: "(\<And>v seen. v \<in> set vs \<Longrightarrow> safe (\<lambda>_. True) (f v seen)) \<Longrightarrow> safe (\<lambda>_. True) (scan_values f vs seen)"
proof (induction vs arbitrary: seen)
  case (Cons v vs)
  have "safe (\<lambda>_. True) (f v seen)" using Cons.prems by simp
  then show ?case unfolding scan_values.simps by (rule safe_bind) (use Cons in auto)
qed simp

lemma safe_promise_rec: "safe (\<lambda>_. True) (lvThreadValueHasPromiseRec n sm h v seen)"
proof (induction n arbitrary: v seen)
  case 0
  show ?case by (subst lvThreadValueHasPromiseRec.simps) (auto simp: Let_def split: vkind.split option.split)
next
  case (Suc n)
  then have "safe (\<lambda>_. True) (scan_values (lvThreadValueHasPromiseRec n sm h) vs s)" for vs s by (rule safe_scan_values)
  then show ?case by (subst lvThreadValueHasPromiseRec.simps) (auto simp: Let_def split: vkind.split option.split)
qed

lemma safe_hasPromise: "safe (\<lambda>_. True) (lvThreadValueHasPromise E st v)"
  unfolding lvThreadValueHasPromise_def by (rule safe_bind [OF safe_promise_rec]) auto

lemma safe_scan_slots: "safe (\<lambda>_. True) (scan_slots (lvThreadValueHasPromise E st) gs ss)"
proof (induction ss)
  case (Cons s ss)
  then show ?case unfolding scan_slots.simps by (intro safe_if safe_bind [OF safe_hasPromise]) auto
qed simp

lemma safe_spawnBody [safe_rules]: "st_ok E st \<Longrightarrow> safe (\<lambda>(e, st'). st_ok E st') (spawnBodyGlobalPromise E b st)"
  unfolding spawnBodyGlobalPromise_def Let_def
  by (intro safe_option safe_if safe_bind [of "\<lambda>_. True"] safe_scan_slots safe_deep) auto

lemma st_ok_do_park:
  assumes "env_ok E" and "st_ok E st" and "do_park E p st = (r, w, st')"
  shows "st_ok E st'"
proof -
  have "st_ok E (snd (snd (en_park E p (st\<lparr>ip_thrown := vvoid\<rparr>))))" using assms(1,2) by (simp add: env_ok_def)
  then show ?thesis using assms(3) by (auto simp: do_park_def Let_def split: prod.splits)
qed

lemma st_ok_after_park:
  assumes "env_ok E" and "st_ok E st" and "after_park E d res (do_park E p st) = (v, st')"
  shows "st_ok E st'"
  using assms(3) st_ok_do_park [OF assms(1,2), of p]
  by (cases "do_park E p st") (auto simp: after_park_def split: if_splits)

lemma st_ok_spawn:
  assumes "env_ok E" and "st_ok E st" and "en_spawn E v st = (k, st')"
  shows "st_ok E st'"
proof -
  have "st_ok E (snd (en_spawn E v st))" using assms(1,2) by (simp add: env_ok_def)
  with assms(3) show ?thesis by simp
qed

lemma st_ok_taskNative:
  assumes "env_ok E" and "st_ok E st" and "taskNative E name args st = Some (v, st')"
  shows "st_ok E st'"
  using assms st_ok_after_park [OF assms(1,2)] st_ok_spawn [OF assms(1,2)]
  unfolding taskNative_def Let_def by (auto split: if_splits list.splits option.splits prod.splits)

lemma st_ok_nativeFreeCall:
  assumes "env_ok E" and "st_ok E st" and "nativeFreeCall E name args st = (r, st')"
  shows "st_ok E st'"
proof -
  have "st_ok E (snd (en_nativeFree E name args st))" using assms(1,2) by (simp add: env_ok_def)
  with assms(2,3) show ?thesis by (auto simp: nativeFreeCall_def split: if_splits)
qed
end
