(* ===== verification/Ir_Safe_Run.thy ===== *)
theory Ir_Safe_Run
  imports Ir_Safety
begin

text \<open>
  Well-formed modules, and every instruction, frame and run of the interpreter on them: an instruction keeps the register file's size and
  the state well-formed, so no run ends in an access out of range.
\<close>

section \<open>Well-formed modules\<close>

definition reg_ok :: "nat \<Rightarrow> int \<Rightarrow> bool" where
  "reg_ok n k \<longleftrightarrow> 0 \<le> k \<and> nat k < n"

definition win_ok :: "nat \<Rightarrow> int \<Rightarrow> int \<Rightarrow> bool" where
  "win_ok n c d \<longleftrightarrow> 0 \<le> c \<and> 0 \<le> d \<and> nat c + nat d \<le> n"

definition wf_inst :: "'w ienv \<Rightarrow> ir_function \<Rightarrow> inst \<Rightarrow> bool" where
  "wf_inst E fn i \<longleftrightarrow>
     (let o1 = in_op i; n = fn_nregs fn
      in (o1 \<notin> {OpJump, OpRetVoid, OpPrintNl, OpVFree} \<longrightarrow> reg_ok n (in_a i)) \<and>
         (o1 \<in> {OpMove, OpMoveClear, OpCopyVal, OpArith, OpNot, OpNeg, OpGetMember, OpSetMember, OpRawGet, OpRawSet, OpRawGetWeak,
                 OpRawSetWeak, OpMakeRange, OpGetIndex, OpIndexStore, OpIterLen, OpIterAt, OpColGet, OpIsType, OpAwait, OpCaptureVar}
            \<longrightarrow> reg_ok n (in_b i)) \<and>
         (o1 \<in> {OpArith, OpMakeRange, OpGetIndex, OpIndexStore, OpIterAt, OpColGet, OpNewBlock, OpNewBlockStr} \<longrightarrow> reg_ok n (in_c i)) \<and>
         (o1 = OpIndexStore \<longrightarrow> reg_ok n (in_d i)) \<and>
         (o1 \<in> {OpCall, OpCallDyn, OpCallValue, OpCallNativeFn} \<longrightarrow> win_ok n (in_c i) (in_d i)) \<and>
         (o1 \<in> {OpCallDyn, OpCallValue} \<longrightarrow> 1 \<le> in_d i) \<and>
         (o1 = OpNewArray \<and> 0 < in_d i \<longrightarrow> win_ok n (in_c i) (in_d i)) \<and>
         (o1 = OpNewArraySized \<and> in_d i = 2 \<longrightarrow> win_ok n (in_c i) 2) \<and>
         (o1 \<in> {OpNewObject, OpMakeRange} \<longrightarrow> in_sym i \<noteq> None) \<and>
         (o1 = OpLoadConst \<longrightarrow> reg_ok (length (fn_consts fn)) (in_b i)) \<and>
         (o1 \<in> {OpLoadGlobal, OpStoreGlobal} \<longrightarrow> reg_ok (nat (md_nglobals (en_mod E))) (in_b i)) \<and>
         (o1 \<in> {OpCall, OpMakeClosure} \<or> o1 = OpNewObject \<and> in_b i \<ge> 0 \<longrightarrow> fn_index E (in_b i)) \<and>
         (o1 = OpCaptureVar \<longrightarrow> in_sname i \<noteq> ''@fn''))"

definition wf_fn :: "'w ienv \<Rightarrow> ir_function \<Rightarrow> bool" where
  "wf_fn E fn \<longleftrightarrow> list_all (wf_inst E fn) (fn_code fn) \<and> list_all (\<lambda>h. reg_ok (fn_nregs fn) (hd_bindReg h)) (fn_handlers fn)"

definition wf_module :: "'w ienv \<Rightarrow> bool" where
  "wf_module E \<longleftrightarrow> list_all (wf_fn E) (md_functions (en_mod E)) \<and>
     (md_ginit (en_mod E) \<ge> 0 \<longrightarrow> fn_index E (md_ginit (en_mod E))) \<and> (md_entry (en_mod E) \<ge> 0 \<longrightarrow> fn_index E (md_entry (en_mod E)))"

section \<open>Instructions\<close>

definition after_ok :: "'w ienv \<Rightarrow> nat \<Rightarrow> 'w after \<Rightarrow> bool" where
  "after_ok E n aft =
     (case aft of
        Next regs wk st \<Rightarrow> length regs = n \<and> st_ok E st
      | Goto pc regs wk st \<Rightarrow> length regs = n \<and> st_ok E st
      | Return v wk st \<Rightarrow> st_ok E st)"

lemma after_ok_simps [simp]:
  "after_ok E n (Next regs wk st) \<longleftrightarrow> length regs = n \<and> st_ok E st" "after_ok E n (Goto pc regs wk st) \<longleftrightarrow> length regs = n \<and> st_ok E st"
  "after_ok E n (Return v wk st) \<longleftrightarrow> st_ok E st"
  by (simp_all add: after_ok_def)

lemma get_reg_ok: "reg_ok n k \<Longrightarrow> length regs = n \<Longrightarrow> get_reg regs k = Val (regs ! nat k)"
  by (simp add: reg_ok_def get_reg_def)

lemma set_reg_ok: "reg_ok n k \<Longrightarrow> length regs = n \<Longrightarrow> set_reg regs k v = Val (regs[nat k := v])"
  by (simp add: reg_ok_def set_reg_def)

lemma with_reg_ok: "reg_ok n k \<Longrightarrow> length regs = n \<Longrightarrow> with_reg regs k f = f (regs ! nat k)"
  by (simp add: with_reg_def get_reg_ok)

lemma reg_window_ok: "win_ok n c d \<Longrightarrow> length regs = n \<Longrightarrow> reg_window regs c d = Val (take (nat d) (drop (nat c) regs))"
  by (simp add: win_ok_def reg_window_def)

lemma safe_into [safe_rules]:
  assumes "safe (val_ok E) m" and "length regs = n" and "reg_ok n (in_a i)"
  shows "safe (after_ok E n) (into i regs wk m)"
  unfolding into_def using assms(1) by (rule safe_bind) (use assms(2,3) in \<open>auto simp: set_reg_ok\<close>)

lemma copyValue_cells: "cells_ok E h \<Longrightarrow> safe (\<lambda>(v, h). cells_ok E h) (copyValue n h v)"
proof (induction n arbitrary: h v)
  case 0
  then show ?case by (auto simp: copyValue.simps split: option.split)
next
  case (Suc n)
  have fs: "cells_ok E h \<Longrightarrow> safe (\<lambda>(fs, h). cells_ok E h) (copy_fields (copyValue n) fs h)" for fs h
  proof (induction fs arbitrary: h)
    case (Cons p fs)
    have rest: "safe (\<lambda>(fs, h). cells_ok E h) (bind_res (copy_fields (copyValue n) fs h1) (\<lambda>(fs', h2). Val ((k, v') # fs', h2)))"
      if "cells_ok E h1" for h1 k v'
      by (rule safe_bind [OF Cons.IH [OF that]]) auto
    obtain k v where p: "p = (k, v)" by force
    show ?case unfolding p copy_fields.simps by (rule safe_bind [OF Suc.IH [OF Cons.prems]]) (use rest in auto)
  qed simp
  show ?case
  proof (cases "struct_cell h v")
    case (Some q)
    obtain a c where q: "q = (a, c)" by force
    show ?thesis unfolding copyValue.simps [of "Suc n"] Some q option.case prod.case nat.case
      by (rule safe_bind [OF fs [OF Suc.prems]]) (auto simp: Let_def intro: cells_ok_new_object split: prod.split)
  qed (use Suc.prems in \<open>simp add: copyValue.simps\<close>)
qed

lemma cells_ok_default: "defaultForCanonical c h = (v, h') \<Longrightarrow> cells_ok E (H\<lparr>ih_base := h\<rparr>) \<Longrightarrow> cells_ok E (H\<lparr>ih_base := h'\<rparr>)"
proof (induction c h rule: defaultForCanonical.induct)
  case (1 c h)
  show ?case using 1 unfolding defaultForCanonical.simps [of c h] Let_def
    by (auto simp: new_array_def new_map_def cells_ok_def elim: blocks_ok_mono split: if_splits)
qed

lemma safe_arith_value [safe_rules]: "st_ok E st \<Longrightarrow> safe (val_ok E) (arith_value E tk l r st)"
  by (auto simp: arith_value_def split: arith_result.split)

lemma safe_exec_jump:
  assumes "wf_inst E fn i" and "st_ok E st" and n: "length regs = fn_nregs fn" and "in_op i \<in> {OpJump, OpJumpIfFalse, OpJumpIfTrue, OpRet, OpRetVoid, OpThrow}"
  shows "safe (after_ok E (fn_nregs fn)) (exec_jump i pc regs wk st)"
  using assms(4,1-3) by (elim insertE) (simp_all add: wf_inst_def Let_def exec_jump_def with_reg_ok [OF _ n])

lemma safe_exec_arith:
  assumes "safe_callf E c" "env_ok E" "wf_inst E fn i" and "st_ok E st" and n: "length regs = fn_nregs fn" and "in_op i = OpArith"
  shows "safe (after_ok E (fn_nregs fn)) (exec_arith E c i regs wk st)"
proof -
  have r: "reg_ok (fn_nregs fn) (in_a i)" "reg_ok (fn_nregs fn) (in_b i)" "reg_ok (fn_nregs fn) (in_c i)"
    using assms(3,6) by (simp_all add: wf_inst_def Let_def)
  show ?thesis unfolding exec_arith_def r(2,3)[THEN with_reg_ok, OF n] using assms(1,2,4) n r(1) by (intro safe_rules) auto
qed

lemma st_ok_default: "st_ok E st \<Longrightarrow> defaultForCanonical s (ih_base (ip_heap st)) = (v, h) \<Longrightarrow> cells_ok E ((ip_heap st)\<lparr>ih_base := h\<rparr>)"
  using cells_ok_default [of s "ih_base (ip_heap st)" v h E "ip_heap st"] by (simp add: st_ok_def)

lemma safe_copied [safe_rules]:
  assumes "st_ok E st"
  shows "safe (val_ok E) (bind_res (copyValue n (ip_heap st) v) (\<lambda>(v', h). Val (v', st\<lparr>ip_heap := h\<rparr>)))"
  by (rule safe_bind [OF copyValue_cells [OF st_ok_cells [OF assms]]]) (use assms in auto)

lemma safe_negated [safe_rules]: "st_ok E st \<Longrightarrow> safe (val_ok E) (bind_res (negated v) (\<lambda>w. Val (w, st)))"
  by (simp add: negated_def)

lemma safe_printed [safe_rules]:
  assumes "st_ok E st" and "length regs = n"
  shows "safe (after_ok E n) (bind_res (deep x) (\<lambda>s. Val (Next regs wk (interpEmitStdout s st))))"
  by (rule safe_bind [OF safe_deep]) (use assms in simp)

lemma safe_exec_data:
  assumes wf: "wf_inst E fn i" and st: "st_ok E st" and n: "length regs = fn_nregs fn"
    and op: "in_op i \<in> {OpLoadConst, OpDefault, OpMove, OpMoveClear, OpCopyVal, OpNot, OpNeg, OpLoadGlobal, OpStoreGlobal, OpPrint, OpPrintNl, OpVFree}"
  shows "safe (after_ok E (fn_nregs fn)) (exec_data E fn i regs wk st)"
proof -
  have gl: "length (ip_globals st) = nat (md_nglobals (en_mod E))" using st by (simp add: st_ok_def)
  have gs: "st_ok E (st\<lparr>ip_globals := (ip_globals st)[k := v]\<rparr>)" for k v using st by (simp add: st_ok_def)
  note regs = with_reg_ok [OF _ n] set_reg_ok [OF _ n] set_reg_ok [where n = "fn_nregs fn"] get_reg_ok [where regs = "fn_consts fn", OF _ refl]
    get_reg_ok [OF _ gl] set_reg_ok [OF _ gl]
  show ?thesis
    using op wf st n
    by (elim insertE)
      (auto simp: wf_inst_def Let_def exec_data_def regs gs intro!: safe_copied safe_negated safe_printed safe_into st_ok_default split: prod.split)
qed

lemma safe_exec_callDyn:
  assumes c: "safe_callf E c" and env: "env_ok E" and st: "st_ok E st" and n: "length regs = N"
    and wf: "win_ok N (in_c i) (in_d i)" "1 \<le> in_d i" "reg_ok N (in_a i)"
  shows "safe (after_ok E N) (exec_callDyn E c i regs wk st)"
proof -
  have w: "reg_window regs (in_c i) (in_d i) = Val (take (nat (in_d i)) (drop (nat (in_c i)) regs))" by (rule reg_window_ok [OF wf(1) n])
  have "take (nat (in_d i)) (drop (nat (in_c i)) regs) \<noteq> []" using wf(1,2) n by (auto simp: win_ok_def)
  then obtain v r where v: "take (nat (in_d i)) (drop (nat (in_c i)) regs) = v # r" by (cases "take (nat (in_d i)) (drop (nat (in_c i)) regs)") auto
  have call: "safe (after_ok E N) (into i regs wk (c (to_int f) args st1))" if "st_ok E st1" "closure_fn st1 fv = Some f" for f args st1 fv
    by (intro safe_into safe_callfD [OF c] closure_fn_index [OF that(1) env that(2)] that(1) n wf(3))
  have ok: "safe (after_ok E N)
      (case closure_fn st1 fv of None \<Rightarrow> Val (Next regs wk (raise E (unresolved s) st1))
       | Some f \<Rightarrow> if sint f \<ge> 0 then into i regs wk (c (to_int f) (fv # r) st1) else Val (Next regs wk (raise E (unresolved s) st1)))"
    if "st_ok E st1" for fv st1 s
    using that n call [OF that] by (auto split: option.split)
  have mem: "safe (after_ok E N) (bind_res (getMember E c regs v (in_sname i) st)
      (\<lambda>(fv, st1). case closure_fn st1 fv of None \<Rightarrow> Val (Next regs wk (raise E (unresolved (in_sname i)) st1))
       | Some f \<Rightarrow> if sint f \<ge> 0 then into i regs wk (c (to_int f) (fv # r) st1) else Val (Next regs wk (raise E (unresolved (in_sname i)) st1))))"
    by (rule safe_bind [OF safe_getMember [OF c env st]]) (use ok in auto)
  show ?thesis unfolding exec_callDyn_def w v bind_res_simps list.case Let_def
    by (intro safe_option mem safe_into safe_callDecl c env st n wf(3))
qed

lemma safe_exec_callValue:
  assumes c: "safe_callf E c" and env: "env_ok E" and st: "st_ok E st" and n: "length regs = N"
    and wf: "win_ok N (in_c i) (in_d i)" "1 \<le> in_d i" "reg_ok N (in_a i)"
  shows "safe (after_ok E N) (exec_callValue E c i regs wk st)"
proof -
  have w: "reg_window regs (in_c i) (in_d i) = Val (take (nat (in_d i)) (drop (nat (in_c i)) regs))" by (rule reg_window_ok [OF wf(1) n])
  have "take (nat (in_d i)) (drop (nat (in_c i)) regs) \<noteq> []" using wf(1,2) n by (auto simp: win_ok_def)
  then obtain v r where v: "take (nat (in_d i)) (drop (nat (in_c i)) regs) = v # r" by (cases "take (nat (in_d i)) (drop (nat (in_c i)) regs)") auto
  have call: "closure_fn st v = Some f \<Longrightarrow> safe (after_ok E N) (into i regs wk (c (to_int f) (v # r) st))" for f
    by (intro safe_into safe_callfD [OF c] closure_fn_index [OF st env] st n wf(3))
  show ?thesis unfolding exec_callValue_def w v bind_res_simps list.case
    using st n call by (auto split: option.split)
qed

lemma safe_exec_callNativeFn:
  assumes env: "env_ok E" and st: "st_ok E st" and n: "length regs = N" and wf: "win_ok N (in_c i) (in_d i)" "reg_ok N (in_a i)"
  shows "safe (after_ok E N) (exec_callNativeFn E i regs wk st)"
proof -
  have sp: "safe (\<lambda>(e, st'). st_ok E st') (if b then spawnBodyGlobalPromise E v st else Val (None, st))" for b v
    using st by (auto intro: safe_spawnBody)
  show ?thesis unfolding exec_callNativeFn_def reg_window_ok [OF wf(1) n] bind_res_simps
  proof (rule safe_bind [OF sp], clarify)
    fix e st1 assume st1: "st_ok E st1"
    show "safe (after_ok E N)
       (case e of
          Some e \<Rightarrow> Val (Next regs wk (raise E e st1))
        | None \<Rightarrow>
            (case taskNative E (in_sname i) (take (nat (in_d i)) (drop (nat (in_c i)) regs)) st1 of
               Some r \<Rightarrow> into i regs wk (Val r)
             | None \<Rightarrow>
                 (case nativeFreeCall E (in_sname i) (take (nat (in_d i)) (drop (nat (in_c i)) regs)) st1 of
                    (None, st2) \<Rightarrow> Val (Next regs wk (raise E (''unknown native '' @ [SQUOTE] @ in_sname i @ [SQUOTE]) st2))
                  | (Some (out, err), st2) \<Rightarrow>
                      if err \<noteq> [] then Val (Next regs wk (raise E err st2))
                      else into i regs wk (Val (out, if ip_exitReq st2 \<and> \<not> ip_exiting st2 then ride_exit st2 else st2)))))"
      using st1 n wf(2) st_ok_taskNative [OF env st1] st_ok_nativeFreeCall [OF env st1]
      by (auto intro!: safe_into split: option.split prod.split)
  qed
qed

lemma safe_exec_call:
  assumes "safe_callf E c" and "env_ok E" and "wf_inst E fn i" and "st_ok E st" and "length regs = fn_nregs fn"
    and op: "in_op i \<in> {OpCall, OpCallDyn, OpCallValue, OpCallNativeFn}"
  shows "safe (after_ok E (fn_nregs fn)) (exec_call E c i regs wk st)"
proof -
  have wf: "win_ok (fn_nregs fn) (in_c i) (in_d i)" "reg_ok (fn_nregs fn) (in_a i)" "in_op i \<in> {OpCallDyn, OpCallValue} \<Longrightarrow> 1 \<le> in_d i"
    "in_op i = OpCall \<Longrightarrow> fn_index E (in_b i)"
    using assms(3) op unfolding wf_inst_def Let_def by (elim insertE; simp)+
  have call: "in_op i = OpCall \<Longrightarrow> safe (after_ok E (fn_nregs fn)) (into i regs wk (c (in_b i) args st))" for args
    by (intro safe_into safe_callfD [OF assms(1)] wf assms)
  show ?thesis
    unfolding exec_call_def reg_window_ok [OF wf(1) assms(5)] bind_res_simps using op
    by (intro safe_if call safe_exec_callDyn safe_exec_callValue safe_exec_callNativeFn wf assms) auto
qed

lemma safe_exec_member:
  assumes "safe_callf E c" and "env_ok E" and wf: "wf_inst E fn i" and "st_ok E st" and n: "length regs = fn_nregs fn"
    and op: "in_op i \<in> {OpGetMember, OpSetMember, OpRawGet, OpRawSet, OpRawGetWeak, OpRawSetWeak}"
  shows "safe (after_ok E (fn_nregs fn)) (exec_member E c i regs wk st)"
proof -
  have r: "reg_ok (fn_nregs fn) (in_a i)" "reg_ok (fn_nregs fn) (in_b i)"
    using wf op unfolding wf_inst_def Let_def by (elim insertE; simp)+
  have set: "safe (after_ok E (fn_nregs fn)) (bind_res (setMember E c o1 s v st) (\<lambda>st1. Val (Next regs wk st1)))" for o1 s v
    by (rule safe_bind [OF safe_setMember [OF assms(1,2,4)]]) (use n in simp)
  show ?thesis unfolding exec_member_def r[THEN with_reg_ok, OF n] Let_def
    by (intro safe_if safe_option set safe_into safe_getMember assms r) (use n assms(4) in \<open>simp_all add: st_ok_cells\<close>)
qed

lemma fn_index_word: "fn_index E k \<Longrightarrow> env_ok E \<Longrightarrow> sint (word_of_int k :: 64 word) = k"
  unfolding env_ok_def fn_index_def by (auto intro!: sint_vint_result)

lemma cells_ok_alloc_closure: "cells_ok E h \<Longrightarrow> fn_index E k \<Longrightarrow> env_ok E \<Longrightarrow> alloc_closure k h = (v, h') \<Longrightarrow> cells_ok E h'"
  by (auto simp: alloc_closure_def fresh_def cells_ok_def vint_def fn_index_word Let_def elim: blocks_ok_mono split: if_splits)

lemma safe_array_elems: "st_ok E st \<Longrightarrow> safe (\<lambda>(xs, st'). st_ok E st') (array_elems vs st)"
proof (induction vs arbitrary: st)
  case (Cons v vs)
  have rest: "st_ok E st1 \<Longrightarrow> safe (\<lambda>(xs, st'). st_ok E st') (bind_res (array_elems vs st1) (\<lambda>(xs, st2). Val (f xs, st2)))" for st1 and f :: "rt_value list \<Rightarrow> rt_value list"
    by (rule safe_bind [OF Cons.IH]) auto
  show ?case unfolding array_elems.simps Let_def
    by (intro safe_option safe_prod safe_if rest Cons.prems) (use Cons.prems in \<open>auto dest: st_ok_touch\<close>)
qed simp

lemma safe_new_value:
  assumes "env_ok E" and wf: "wf_inst E fn i" and st: "st_ok E st" and n: "length regs = fn_nregs fn"
    and op: "in_op i \<in> {OpNewObject, OpNewArray, OpNewArraySized, OpNewMap, OpNewBlock, OpNewBlockStr, OpMakeRange, OpMakeClosure}"
  shows "safe (val_ok E) (new_value i regs st)"
proof -
  note cells = cells_ok_alloc cells_ok_alloc_block st_ok_cells
  have lit: "safe (val_ok E) (bind_res (array_elems vs st) (\<lambda>(xs, st1). let (v, h) = alloc_arr xs (ip_heap st1) in Val (v, st1\<lparr>ip_heap := h\<rparr>)))" for vs
    by (rule safe_bind [OF safe_array_elems [OF st]]) (auto simp: cells split: prod.split)
  have obj: "new_object (in_sym i) fs (ip_heap st) = (a, h) \<Longrightarrow> in_sym i \<noteq> None \<Longrightarrow> cells_ok E h" for fs a h
    using cells_ok_new_object [OF st_ok_cells [OF st]] by blast
  have clo: "alloc_closure k (ip_heap st) = (v, h) \<Longrightarrow> fn_index E k \<Longrightarrow> cells_ok E h" for k v h
    using cells_ok_alloc_closure [OF st_ok_cells [OF st] _ assms(1)] by blast
  have two: "win_ok N k 2 \<Longrightarrow> reg_ok N k \<and> reg_ok N (k + 1)" for N k by (auto simp: win_ok_def reg_ok_def nat_add_distrib)
  show ?thesis
    using op wf st n unfolding wf_inst_def Let_def new_value_def
    by (elim insertE)
      (auto simp: with_reg_ok [OF _ n] reg_window_ok [OF _ n] cells vblockNew_def dest!: two
        intro: lit [unfolded Let_def] obj clo split: prod.split)
qed

lemma st_ok_track: "track E fi pc v wk st = (wk', st') \<Longrightarrow> st_ok E st' = st_ok E st"
  by (auto simp: track_def split: option.splits if_splits)

lemma safe_exec_new:
  assumes c: "safe_callf E c" and env: "env_ok E" and wf: "wf_inst E fn i" and st: "st_ok E st" and n: "length regs = fn_nregs fn"
    and op: "in_op i \<in> {OpNewObject, OpNewArray, OpNewArraySized, OpNewMap, OpNewBlock, OpNewBlockStr, OpMakeRange, OpMakeClosure}"
  shows "safe (after_ok E (fn_nregs fn)) (exec_new E c fi pc i regs wk st)"
proof -
  have r: "reg_ok (fn_nregs fn) (in_a i)" "in_op i = OpNewObject \<Longrightarrow> in_b i \<ge> 0 \<Longrightarrow> fn_index E (in_b i)"
    using wf op unfolding wf_inst_def Let_def by (elim insertE; simp)+
  have ctor: "safe (after_ok E (fn_nregs fn)) (bind_res (c (in_b i) as st2) (\<lambda>(_, st3). Val (Next (regs[k := v]) wk1 st3)))"
    if "st_ok E st2" "in_op i = OpNewObject" "in_b i \<ge> 0" for as st2 wk1 k v
    by (rule safe_bind [OF safe_callfD [OF c r(2) [OF that(2,3)] that(1)]]) (use n in auto)
  show ?thesis unfolding exec_new_def set_reg_ok [OF r(1) n] bind_res_simps
  proof (rule safe_bind [OF safe_new_value [OF env wf st n op]], clarify)
    fix v st1 assume st1: "st_ok E st1"
    show "safe (after_ok E (fn_nregs fn))
       (let (wk1, st2) = track E fi pc v wk st1
        in if in_op i = OpNewObject \<and> 0 \<le> in_b i then bind_res (c (in_b i) [v] st2) (\<lambda>(_, st3). Val (Next (regs[nat (in_a i) := v]) wk1 st3))
           else Val (Next (regs[nat (in_a i) := v]) wk1 st2))"
      unfolding Let_def by (intro safe_prod safe_if ctor) (use st1 n in \<open>auto dest: st_ok_track\<close>)
  qed
qed

lemma safe_exec_indexStore:
  assumes "safe_callf E c" and "env_ok E" and wf: "wf_fn E fn" and st: "st_ok E st" and n: "length regs = fn_nregs fn"
    and r: "reg_ok (fn_nregs fn) (in_a i)" "reg_ok (fn_nregs fn) (in_b i)" "reg_ok (fn_nregs fn) (in_c i)" "reg_ok (fn_nregs fn) (in_d i)"
  shows "safe (after_ok E (fn_nregs fn)) (exec_indexStore E c fn pc i regs wk st)"
proof -
  have t: "reg_ok (fn_nregs fn) t" if "rebind_temp fn pc i = Some t" for t
  proof -
    have "pc + 1 < length (fn_code fn)" "in_op (fn_code fn ! (pc + 1)) = OpCopyVal" "t = in_a (fn_code fn ! (pc + 1))"
      using that by (auto simp: rebind_temp_def Let_def split: if_splits)
    then show ?thesis using wf by (auto simp: wf_fn_def wf_inst_def Let_def list_all_length)
  qed
  have go: "safe (after_ok E (fn_nregs fn)) (with_reg regs2 (in_b i) (\<lambda>base. with_reg regs2 (in_c i) (\<lambda>idx. with_reg regs2 (in_d i) (\<lambda>v.
       into i regs2 wk (indexStore E c regs2 base idx v st)))))" if "length regs2 = fn_nregs fn" for regs2
    unfolding r(2-4)[THEN with_reg_ok, OF that] by (intro safe_into safe_indexStore assms that)
  show ?thesis unfolding exec_indexStore_def set_reg_ok [OF r(1) n] bind_res_simps
    by (cases "rebind_temp fn pc i") (use go t n in \<open>auto simp: set_reg_ok [where n = "fn_nregs fn"]\<close>)
qed

lemma safe_exec_index:
  assumes c: "safe_callf E c" and env: "env_ok E" and wf: "wf_fn E fn" "wf_inst E fn i" and st: "st_ok E st" and n: "length regs = fn_nregs fn"
    and op: "in_op i \<in> {OpGetIndex, OpIndexStore, OpIterLen, OpIterAt, OpColGet}"
  shows "safe (after_ok E (fn_nregs fn)) (exec_index E c fn pc i regs wk st)"
proof -
  have r: "reg_ok (fn_nregs fn) (in_a i)" "reg_ok (fn_nregs fn) (in_b i)" "in_op i \<noteq> OpIterLen \<Longrightarrow> reg_ok (fn_nregs fn) (in_c i)"
    "in_op i = OpIndexStore \<Longrightarrow> reg_ok (fn_nregs fn) (in_d i)"
    using wf(2) op unfolding wf_inst_def Let_def by (elim insertE; simp)+
  have col: "safe (val_ok E) (bind_res (getIndex E c b x st) (\<lambda>(v, st1). getMember E c regs v s st1))" for b x s
    by (rule safe_bind [OF safe_getIndex [OF c env st]]) (use safe_getMember [OF c env] in auto)
  have rest: "in_op i \<noteq> OpIterLen \<Longrightarrow> safe (after_ok E (fn_nregs fn)) (with_reg regs (in_c i) (\<lambda>idx.
      if in_op i = OpGetIndex then into i regs wk (getIndex E c b idx st)
      else if in_op i = OpColGet then into i regs wk (bind_res (getIndex E c b idx st) (\<lambda>(v, st1). getMember E c regs v (in_sname i) st1))
      else into i regs wk (iterAt E b (v_i idx) st)))" for b
    by (subst with_reg_ok [OF r(3) n], assumption) (intro safe_if safe_into safe_getIndex safe_iterAt col c env st n r)
  show ?thesis unfolding exec_index_def with_reg_ok [OF r(2) n]
    by (intro safe_if rest safe_exec_indexStore safe_into safe_iterLen c env wf st n r) auto
qed

lemma st_ok_await_park:
  assumes "env_ok E" and "st_ok E st" and "await_park E a st = (b, st')"
  shows "st_ok E st'"
  using assms(2,3) st_ok_do_park [OF assms(1,2)]
  by (auto simp: await_park_def Let_def split: if_splits prod.splits)

lemma safe_exec_await:
  assumes c: "safe_callf E c" and env: "env_ok E" and wf: "wf_inst E fn i" and st: "st_ok E st" and n: "length regs = fn_nregs fn"
    and op: "in_op i = OpAwait"
  shows "safe (after_ok E (fn_nregs fn)) (exec_await k E c i regs wk st)"
proof -
  have r: "reg_ok (fn_nregs fn) (in_a i)" "reg_ok (fn_nregs fn) (in_b i)" using wf op by (simp_all add: wf_inst_def Let_def)
  have pumped: "safe (\<lambda>(b, st1). st_ok E st1) (bind_res (pump k E c p st) (\<lambda>st1. Val (True, st1)))" for p
    by (rule safe_bind [OF safe_pump [OF c env st]]) simp
  have wait: "safe (\<lambda>(b, st1). st_ok E st1)
      (if en_tasks E then Val (await_park E a st) else bind_res (pump k E c (promise_ready a) st) (\<lambda>st1. Val (True, st1)))" for a
    by (intro safe_if pumped) (use st_ok_await_park [OF env st] in auto)
  show ?thesis unfolding exec_await_def with_reg_ok [OF r(2) n]
    by (intro safe_option safe_into safe_bind [OF wait] safe_prod) (use n r st in \<open>auto intro!: safe_into\<close>)
qed

lemma cells_ok_capture: "cells_ok E h \<Longrightarrow> k \<noteq> ''@fn'' \<Longrightarrow> safe (cells_ok E) (set_capture a k v h)"
  unfolding cells_ok_def set_capture_def by (auto simp: update_conv' split: list.split) (metis list.set_intros)+

lemma safe_exec_capture:
  assumes wf: "wf_inst E fn i" and st: "st_ok E st" and n: "length regs = fn_nregs fn" and op: "in_op i \<in> {OpCaptureVar, OpLoadCapture}"
  shows "safe (after_ok E (fn_nregs fn)) (exec_capture i regs wk st)"
proof -
  have r: "reg_ok (fn_nregs fn) (in_a i)" "in_op i = OpCaptureVar \<Longrightarrow> reg_ok (fn_nregs fn) (in_b i) \<and> in_sname i \<noteq> ''@fn''"
    using wf op unfolding wf_inst_def Let_def by (elim insertE; simp)+
  have zero: "reg_ok (fn_nregs fn) 0" using r(1) by (auto simp: reg_ok_def)
  have cap: "in_op i = OpCaptureVar \<Longrightarrow> safe (after_ok E (fn_nregs fn)) (with_reg regs (in_b i) (\<lambda>v. bind_res (set_capture a (in_sname i) v (ip_heap st))
      (\<lambda>h. Val (Next regs wk (st\<lparr>ip_heap := h\<rparr>)))))" for a
    by (subst with_reg_ok [OF conjunct1 [OF r(2)] n], assumption, rule safe_bind [OF cells_ok_capture [OF st_ok_cells [OF st] conjunct2 [OF r(2)]]])
      (use n st in auto)
  have n1: "length (regs[nat (in_a i) := vvoid]) = fn_nregs fn" using n by simp
  show ?thesis unfolding exec_capture_def with_reg_ok [OF r(1) n] set_reg_ok [OF r(1) n] bind_res_simps with_reg_ok [OF zero n1]
    by (intro safe_if safe_into r n1) (use cap n st in \<open>auto split: vkind.split option.split\<close>)
qed

lemma op_cases:
  "in_op i \<notin> {OpJump, OpJumpIfFalse, OpJumpIfTrue, OpRet, OpRetVoid, OpThrow} \<Longrightarrow> in_op i \<noteq> OpArith \<Longrightarrow>
   in_op i \<notin> {OpCall, OpCallDyn, OpCallValue, OpCallNativeFn} \<Longrightarrow>
   in_op i \<notin> {OpGetMember, OpSetMember, OpRawGet, OpRawSet, OpRawGetWeak, OpRawSetWeak} \<Longrightarrow>
   in_op i \<notin> {OpNewObject, OpNewArray, OpNewArraySized, OpNewMap, OpNewBlock, OpNewBlockStr, OpMakeRange, OpMakeClosure} \<Longrightarrow>
   in_op i \<notin> {OpGetIndex, OpIndexStore, OpIterLen, OpIterAt, OpColGet} \<Longrightarrow> in_op i \<noteq> OpAwait \<Longrightarrow> in_op i \<noteq> OpIsType \<Longrightarrow>
   in_op i \<notin> {OpCaptureVar, OpLoadCapture} \<Longrightarrow>
   in_op i \<in> {OpLoadConst, OpDefault, OpMove, OpMoveClear, OpCopyVal, OpNot, OpNeg, OpLoadGlobal, OpStoreGlobal, OpPrint, OpPrintNl, OpVFree}"
  by (cases "in_op i") simp_all

lemma safe_exec_isType:
  assumes wf: "wf_inst E fn i" and st: "st_ok E st" and n: "length regs = fn_nregs fn" and op: "in_op i = OpIsType"
  shows "safe (after_ok E (fn_nregs fn)) (exec_isType E i regs wk st)"
proof -
  have r: "reg_ok (fn_nregs fn) (in_a i)" "reg_ok (fn_nregs fn) (in_b i)" using wf op by (simp_all add: wf_inst_def Let_def)
  show ?thesis unfolding exec_isType_def with_reg_ok [OF r(2) n] by (intro safe_into r n) (use st in simp)
qed

lemma safe_exec_inst:
  assumes "safe_callf E c" and "env_ok E" and "wf_fn E fn" and "wf_inst E fn i" and "st_ok E st" and "length regs = fn_nregs fn"
    and fn: "fn = md_functions (en_mod E) ! fi"
  shows "safe (after_ok E (fn_nregs fn)) (exec_inst k E c fi pc i regs wk st)"
  unfolding exec_inst_def Let_def fn [symmetric]
  by (intro safe_if safe_exec_jump safe_exec_arith safe_exec_call safe_exec_member safe_exec_new safe_exec_index safe_exec_await
      safe_exec_isType safe_exec_capture safe_exec_data op_cases assms)

section \<open>Frames and runs\<close>

lemma memTracks_dest: "wf_inst E fn i \<Longrightarrow> memTracks (in_op i) \<Longrightarrow> reg_ok (fn_nregs fn) (in_a i)"
  unfolding wf_inst_def Let_def by (cases "in_op i") (simp_all add: memTracks_def)

lemma safe_mem_hook:
  assumes "wf_inst E fn i" and st: "st_ok E st" and n: "length regs = fn_nregs fn"
  shows "safe (st_ok E) (mem_hook E fi pc i regs st)"
  using memTracks_dest [OF assms(1)] st n by (auto simp: mem_hook_def Let_def with_reg_ok [where n = "fn_nregs fn"])

lemma safe_dispatch:
  assumes wf: "wf_fn E fn" and st: "st_ok E st" and n: "length regs = fn_nregs fn"
  shows "safe (after_ok E (fn_nregs fn)) (dispatch E fn pc regs wk st)"
proof -
  have "reg_ok (fn_nregs fn) (hd_bindReg h)" if "find P (fn_handlers fn) = Some h" for P h
    using that wf by (auto simp: wf_fn_def list_all_iff find_Some_iff)
  then show ?thesis using st n unfolding dispatch_def Let_def
    by (auto simp: set_reg_ok [where n = "fn_nregs fn"] split: option.split)
qed

lemma safe_frame_step:
  assumes c: "safe_callf E c" and env: "env_ok E" and wf: "wf_fn E fn" and st: "st_ok E st" and n: "length regs = fn_nregs fn"
    and fn: "fn = md_functions (en_mod E) ! fi" and pc: "pc < length (fn_code fn)"
  shows "safe (after_ok E (fn_nregs fn)) (frame_step k E c fi pc regs wk st)"
proof -
  have i: "wf_inst E fn (fn_code fn ! pc)" using wf pc by (simp add: wf_fn_def list_all_length)
  have fall: "safe (after_ok E (fn_nregs fn)) (bind_res (mem_hook E fi pc (fn_code fn ! pc) regs1 st1) (dispatch E fn (pc + 1) regs1 wk1))"
    if "st_ok E st1" "length regs1 = fn_nregs fn" for regs1 wk1 st1
    by (rule safe_bind [OF safe_mem_hook [OF i that]]) (rule safe_dispatch [OF wf _ that(2)])
  show ?thesis unfolding frame_step_def Let_def fn [symmetric]
    by (rule safe_bind [OF safe_exec_inst [OF c env wf i st n fn]]) (use fall safe_dispatch [OF wf] in \<open>auto split: after.split\<close>)
qed

lemma safe_call_with:
  assumes wf: "wf_module E"
    and ex: "\<And>fi regs wk st. fi < length (md_functions (en_mod E)) \<Longrightarrow> length regs = fn_nregs (md_functions (en_mod E) ! fi) \<Longrightarrow> st_ok E st \<Longrightarrow>
      safe (\<lambda>(v, wk, st). st_ok E st) (ex fi 0 regs wk st)"
  shows "safe_callf E (call_with E ex)"
  unfolding safe_callf_def
proof (intro allI impI)
  fix f args and st :: "'a interp" assume f: "fn_index E f" and st: "st_ok E st"
  let ?fn = "md_functions (en_mod E) ! nat f"
  have e: "st_ok E (end_frame E ?fn wk st1) = st_ok E st1" for wk and st1 :: "'a interp" by (simp add: end_frame_def)
  have b: "0 \<le> f \<and> nat f < length (md_functions (en_mod E))" using f by (auto simp: fn_index_def)
  have "safe (val_ok E) (bind_res (ex (nat f) 0 (new_regs ?fn args) [] st) (\<lambda>(v, wk, st1). Val (v, end_frame E ?fn wk st1)))"
    by (rule safe_bind [OF ex]) (use b st e in \<open>auto simp: new_regs_def\<close>)
  then show "safe (val_ok E) (call_with E ex f args st)" using b by (simp add: call_with_def Let_def)
qed

lemma safe_frameExec:
  assumes wf: "wf_module E" and env: "env_ok E"
  shows "fi < length (md_functions (en_mod E)) \<Longrightarrow> length regs = fn_nregs (md_functions (en_mod E) ! fi) \<Longrightarrow> st_ok E st \<Longrightarrow>
    safe (\<lambda>(v, wk, st). st_ok E st) (frameExec n E fi pc regs wk st)"
proof (induction n arbitrary: fi pc regs wk st)
  case (Suc n)
  let ?fn = "md_functions (en_mod E) ! fi"
  have f: "wf_fn E ?fn" using wf Suc.prems(1) by (simp add: wf_module_def list_all_length)
  have c: "safe_callf E (call_with E (frameExec n E))" by (rule safe_call_with [OF wf Suc.IH])
  have go: "pc < length (fn_code ?fn) \<Longrightarrow> safe (\<lambda>(v, wk, st). st_ok E st)
      (bind_res (frame_step n E (call_with E (frameExec n E)) fi pc regs wk st) (\<lambda>aft. case aft of
         Return v wk1 st1 \<Rightarrow> Val (v, wk1, st1) | Goto pc1 regs1 wk1 st1 \<Rightarrow> frameExec n E fi pc1 regs1 wk1 st1
       | Next regs1 wk1 st1 \<Rightarrow> frameExec n E fi (pc + 1) regs1 wk1 st1))"
    by (rule safe_bind [OF safe_frame_step [OF c env f Suc.prems(3,2) refl]]) (use Suc in \<open>auto split: after.split\<close>)
  show ?case unfolding frameExec.simps by (rule safe_if [OF go]) (use Suc.prems in simp_all)
qed simp

lemma safe_callFn: "wf_module E \<Longrightarrow> env_ok E \<Longrightarrow> safe_callf E (callFn n E)"
  unfolding callFn_def by (rule safe_call_with) (auto intro: safe_frameExec)

lemma safe_run_program:
  assumes wf: "wf_module E" and env: "env_ok E" and st: "st_ok E st"
  shows "safe (st_ok E) (run_program n E st)"
proof -
  have "safe (st_ok E) (call_if n E fi st)" if "fi \<ge> 0 \<longrightarrow> fn_index E fi" "st_ok E st" for fi st
    unfolding call_if_def by (intro safe_if safe_bind [OF safe_callfD [OF safe_callFn [OF wf env]]]) (use that in auto)
  then show ?thesis using wf st unfolding run_program_def wf_module_def by (auto intro!: safe_bind [where P = "st_ok E"])
qed

lemma safe_run_body:
  assumes wf: "wf_module E" and env: "env_ok E" and st: "st_ok E st"
  shows "safe (st_ok E) (run_body n E st)"
proof -
  have task: "st_ok E s \<Longrightarrow> safe (st_ok E) (taskRunProgram n E s)" for s
    unfolding taskRunProgram_def by (rule safe_bind [OF safe_run_program [OF wf env]]) (auto simp: taskCaptureTermination_def Let_def)
  have sched: "safe (st_ok E) (en_sched E (taskRunProgram n E) s)" if "st_ok E s" for s
    using env that task unfolding env_ok_def by blast
  show ?thesis unfolding run_body_def
    by (intro safe_if safe_bind [OF sched] safe_bind [OF safe_run_program [OF wf env st]] safe_pump safe_callFn wf env)
      (use st in auto)
qed

text \<open>
  C3. The interpreter makes no access outside its tables when it runs a well-formed module: no register, constant, global, function or
  class that does not exist is read, written, called or followed, whatever the program does and however long it runs, and the state it
  ends in is well-formed. This relies on free native functions and a scheduler that keep the heap well-formed, and on the class
  \<open>Pair\<close> of the prelude.
\<close>

theorem run_no_bad_access:
  assumes "wf_module E" and "env_ok E" and "cells_ok E (ip_heap st)"
  shows "run n E st \<noteq> Stuck BadAccess \<and> (\<forall>out st'. run n E st = Val (out, st') \<longrightarrow> st_ok E st')"
proof -
  have "st_ok E (reset_run E st)" using assms(3) by (simp add: st_ok_def reset_run_def)
  then have "safe (st_ok E) (run_body n E (reset_run E st))" by (rule safe_run_body [OF assms(1,2)])
  then have "safe (\<lambda>(out, st'). st_ok E st') (run n E st)"
    unfolding run_def by (rule safe_bind) (simp add: finish_run_def Let_def)
  then show ?thesis by (cases "run n E st") auto
qed

definition safe_demo_env :: "unit ienv" where
  "safe_demo_env = (ir_demo_env exit_in_try)\<lparr>en_sema := demo_sema\<lparr>sm_global := (\<lambda>n. if n \<in> {''Pair'', ''RuntimeException''} then Some exc_class else None)\<rparr>\<rparr>"

theorem run_no_bad_access_witness:
  "wf_module safe_demo_env \<and> run 1000 safe_demo_env (demo_state\<lparr>ip_heap := demo_heap\<lparr>ih_env := (\<lambda>_. [[]])\<rparr>\<rparr>) \<noteq> Stuck BadAccess"
proof -
  have wf: "wf_module safe_demo_env"
    by (simp add: wf_module_def wf_fn_def wf_inst_def safe_demo_env_def ir_demo_env_def exit_in_try_def mk_module_def mk_fn_def
        inst0_def reg_ok_def win_ok_def fn_index_def)
  have env: "env_ok safe_demo_env"
    by (simp add: env_ok_def safe_demo_env_def ir_demo_env_def exit_in_try_def mk_module_def)
  have heap: "cells_ok safe_demo_env (ip_heap (demo_state\<lparr>ip_heap := demo_heap\<lparr>ih_env := (\<lambda>_. [[]])\<rparr>\<rparr>))"
    by (simp add: cells_ok_def blocks_ok_def view_end_def demo_heap_def)
  show ?thesis using wf run_no_bad_access [OF wf env heap, of 1000] by blast
qed

end
