(* ===== verification/Native_Props.thy ===== *)
theory Native_Props
  imports Native_Safety
begin

unbundle bit_operations_syntax

text \<open>
  What the native methods compute: words stored in a block are read back, \<open>mismatch\<close> finds the first difference, maps refine finite maps
  on keys, integers and characters survive their spelling.
\<close>

section \<open>A concrete heap\<close>

text \<open>One store of six bytes with the view of all of it and a slice.\<close>

definition slice_heap :: ir_heap where
  "slice_heap = \<lparr>ih_base = \<lparr>hp_obj = (\<lambda>_. \<lparr>ob_cls = None, ob_fields = []\<rparr>), hp_arr = (\<lambda>_. []),
        hp_map = (\<lambda>a. if a = 5 then [(vstr ''a'', vint 1), (vfloat 0, vint 2)] else []),
        hp_block_len = (\<lambda>a. if a = 0 then 12 else if a = 1 then 9 else 0), hp_next = 7\<rparr>,
     ih_weak = (\<lambda>_. []), ih_env = (\<lambda>_. []), ih_view = (\<lambda>a. if a = 1 then (0, 2) else (0, 0)),
     ih_bytes = (\<lambda>a. if a = 0 then ''abcdefghijkl'' else [])\<rparr>"

definition plain_fp :: fp_ops where
  "plain_fp = \<lparr>fp_add = (\<lambda>_ _. 0), fp_sub = (\<lambda>_ _. 0), fp_mul = (\<lambda>_ _. 0), fp_div = (\<lambda>_ _. 0), fp_eq = (\<lambda>_ _. False),
     fp_lt = (\<lambda>_ _. False), fp_le = (\<lambda>_ _. False), fp_of_int = (\<lambda>_. 0), fp_str = (\<lambda>_. []), fp_floor = (\<lambda>x. x), fp_ceil = (\<lambda>x. x),
     fp_round = (\<lambda>x. x), fp_trunc = (\<lambda>x. x), fp_sqrt = (\<lambda>x. x), fp_pow = (\<lambda>x y. x), fp_strtod = (\<lambda>s. (0, 0))\<rparr>"

definition vblock :: "addr \<Rightarrow> rt_value" where
  "vblock a = vvoid\<lparr>v_kind := KBlock, v_block := Some a\<rparr>"

lemma slice_heap_ok: "blocks_ok slice_heap"
  by (simp add: blocks_ok_def view_end_def slice_heap_def)


section \<open>Words in blocks\<close>

lemma le_bytes_Suc: "le_bytes (Suc n) u = char_of (unat (u AND 0xFF)) # le_bytes n (drop_bit 8 u)"
proof -
  have "[0..<Suc n] = 0 # map Suc [0..<n]" by (simp add: map_Suc_upt upt_conv_Cons)
  then show ?thesis by (simp add: le_bytes_def drop_bit_drop_bit add.commute)
qed

lemma byte_word: "unat (u AND 0xFF :: 64 word) mod 256 = take_bit 8 (unat u)"
proof -
  have "(0xFF :: 64 word) = mask 8" by (simp add: mask_eq_exp_minus_1)
  then have "u AND 0xFF = take_bit 8 u" by (simp only: take_bit_eq_mask)
  then have "unat (u AND 0xFF) = take_bit 8 (unat u)" by (simp only: unsigned_take_bit_eq)
  then show ?thesis by (simp add: take_bit_eq_mod)
qed

lemma take64: "take_bit 64 (unat (u :: 64 word)) = unat u"
  using unsigned_less [of u] by (simp add: take_bit_nat_eq_self_iff)

lemma le_value_le_bytes: "le_value (map of_char (le_bytes n u)) = take_bit (8 * n) (unat u)"
proof (induction n arbitrary: u)
  case (Suc n)
  have "take_bit 8 (unat u) OR push_bit 8 (take_bit (8 * n) (drop_bit 8 (unat u))) = take_bit (8 * Suc n) (unat u)"
    by (rule bit_eqI) (auto simp: bit_take_bit_iff bit_or_iff bit_push_bit_iff bit_drop_bit_eq)
  then show ?case by (simp add: le_bytes_Suc byte_word Suc.IH unsigned_drop_bit_eq take64)
qed (simp add: le_bytes_def)

lemma word_of_le_bytes:
  "word_of_nat (le_value (map of_char (le_bytes 8 u))) = u"
  "(word_of_nat (le_value (map of_char (le_bytes 4 u))) :: 32 word) = ucast u"
proof -
  show "word_of_nat (le_value (map of_char (le_bytes 8 u))) = u" by (simp add: le_value_le_bytes take64)
  have "(word_of_nat (take_bit 32 (unat u)) :: 32 word) = word_of_nat (unat u)" by (rule bit_word_eqI) (simp add: bit_simps)
  then show "(word_of_nat (le_value (map of_char (le_bytes 4 u))) :: 32 word) = ucast u"
    by (simp add: le_value_le_bytes)
qed

lemma at_offset_in:
  assumes "0 \<le> i" "0 \<le> l" "nat i + nat l \<le> len" "int len < 2 ^ 63"
  shows "at_offset i l len h act = act"
  using assms by (auto simp: at_offset_def checked_add_def in64_def)

lemma write_bytes_view:
  assumes "write_bytes a i bs h = Val h'"
  shows "ih_view h' = ih_view h" "ih_base h' = ih_base h"
  using assms by (auto simp: write_bytes_def put_region_def bind_res_def split: prod.splits if_splits res.splits)

lemma block_word_calls:
  assumes "v_block self = Some a"
  shows "nativeCall n fp ''Block'' ''setInt64'' self [vint i, vint v] cow h =
      at_offset (sint i) 8 (hp_block_len (ih_base h) a) h (done_with (write_bytes a (nat (sint i)) (le_bytes 8 v) h))"
    "nativeCall n fp ''Block'' ''setInt32'' self [vint i, vint v] cow h =
      at_offset (sint i) 4 (hp_block_len (ih_base h) a) h (done_with (write_bytes a (nat (sint i)) (le_bytes 4 v) h))"
    "nativeCall n fp ''Block'' ''int64At'' self [vint i] cow h =
      at_offset (sint i) 8 (hp_block_len (ih_base h) a) h (bind_res (read_view h a (nat (sint i)) 8)
        (\<lambda>bs. gives (vint (word_of_nat (le_value (map of_char bs)))) h))"
    "nativeCall n fp ''Block'' ''int32At'' self [vint i] cow h =
      at_offset (sint i) 4 (hp_block_len (ih_base h) a) h (bind_res (read_view h a (nat (sint i)) 4)
        (\<lambda>bs. gives (vint (word_of_int (sint (word_of_nat (le_value (map of_char bs)) :: 32 word)))) h))"
  by (simp_all add: nativeCall_def block_native_def block_access_def Let_def argI_def assms vint_def [of i] vint_def [of v])

text \<open>
  C26. Words survive a block: a 64-bit word stored at an index where it fits is read back from there, and a 32-bit store
  is read back as its low 32 bits, sign-extended; the receiver may be a slice.
\<close>

theorem block_words_roundtrip:
  assumes "blocks_ok h" and "v_block self = Some a" and "int (hp_block_len (ih_base h) a) < 2 ^ 63" and "0 \<le> sint i"
  shows "(nat (sint i) + 8 \<le> hp_block_len (ih_base h) a \<longrightarrow>
       (\<exists>h'. nativeCall n fp ''Block'' ''setInt64'' self [vint i, vint v] cow h = gives vvoid h' \<and>
          nativeCall n fp ''Block'' ''int64At'' self [vint i] cow h' = gives (vint v) h')) \<and>
    (nat (sint i) + 4 \<le> hp_block_len (ih_base h) a \<longrightarrow>
       (\<exists>h'. nativeCall n fp ''Block'' ''setInt32'' self [vint i, vint v] cow h = gives vvoid h' \<and>
          nativeCall n fp ''Block'' ''int32At'' self [vint i] cow h' = gives (vint (scast (ucast v :: 32 word))) h'))"
proof -
  have w: "\<exists>h'. write_bytes a (nat (sint i)) (le_bytes k v) h = Val h' \<and> hp_block_len (ih_base h') a = hp_block_len (ih_base h) a \<and>
      read_view h' a (nat (sint i)) k = Val (le_bytes k v)"
    if fits: "nat (sint i) + k \<le> hp_block_len (ih_base h) a" for k
  proof -
    obtain h' where h': "write_bytes a (nat (sint i)) (le_bytes k v) h = Val h'" "read_view h' a (nat (sint i)) k = Val (le_bytes k v)"
      using write_bytes_ok [OF assms(1), of "nat (sint i)" "le_bytes k v" a] fits by auto
    then show ?thesis using write_bytes_view [OF h'(1)] by auto
  qed
  note calls = block_word_calls [OF assms(2)] at_offset_in [OF assms(4) _ _ _] done_with_def word_of_le_bytes
  show ?thesis
  proof (intro conjI impI)
    assume "nat (sint i) + 8 \<le> hp_block_len (ih_base h) a"
    with w [of 8] assms(3) show "\<exists>h'. nativeCall n fp ''Block'' ''setInt64'' self [vint i, vint v] cow h = gives vvoid h' \<and>
        nativeCall n fp ''Block'' ''int64At'' self [vint i] cow h' = gives (vint v) h'" by (force simp: calls)
  next
    assume "nat (sint i) + 4 \<le> hp_block_len (ih_base h) a"
    with w [of 4] assms(3) show "\<exists>h'. nativeCall n fp ''Block'' ''setInt32'' self [vint i, vint v] cow h = gives vvoid h' \<and>
        nativeCall n fp ''Block'' ''int32At'' self [vint i] cow h' = gives (vint (scast (ucast v :: 32 word))) h'" by (force simp: calls)
  qed
qed

theorem block_words_roundtrip_witness:
  "\<exists>h'. nativeCall 1 plain_fp ''Block'' ''setInt64'' (vblock 1) [vint 1, vint 77] False slice_heap = gives vvoid h' \<and>
     nativeCall 1 plain_fp ''Block'' ''int64At'' (vblock 1) [vint 1] False h' = gives (vint 77) h'"
  using block_words_roundtrip [OF slice_heap_ok, of "vblock 1" 1 1] by (simp add: slice_heap_def vblock_def)

section \<open>The bound tests\<close>

text \<open>
  C30. The bound test of \<open>slice\<close> and \<open>toString\<close> adds its two arguments before it compares them with the length: for an offset and a length whose
  sum leaves 64 bits, both in range on their own, the call is undefined, where \<open>fill\<close> with the same offset and length reports the index
  as out of bounds.
\<close>

theorem block_bounds_overflow:
  assumes "v_block self = Some a" and "int (hp_block_len (ih_base h) a) < 2 ^ 63" and "0 \<le> sint i" "0 \<le> sint l" "2 ^ 63 \<le> sint i + sint l"
  shows "nativeCall n fp ''Block'' ''slice'' self [vint i, vint l] cow h = Stuck Overflow \<and>
    nativeCall n fp ''Block'' ''toString'' self [vint i, vint l] cow h = Stuck Overflow \<and>
    nativeCall n fp ''Block'' ''fill'' self [vint i, vint l, b] cow h = fails (oob_text (sint i) (hp_block_len (ih_base h) a)) h"
proof -
  have "at_offset (sint i) (sint l) len h act = Stuck Overflow" for len act using assms(3-5) by (simp add: at_offset_def checked_add_def in64_def)
  moreover have "\<not> in_window (sint i) (sint l) (hp_block_len (ih_base h) a)" using assms(2-5) by (auto simp: in_window_def)
  ultimately show ?thesis
    by (simp add: nativeCall_def block_native_def block_access_def block_fill_def Let_def argI_def assms(1) vint_def [of i] vint_def [of l])
qed

theorem block_bounds_overflow_witness:
  "nativeCall 1 plain_fp ''Block'' ''slice'' (vblock 1) [vint 1, vint 0x7FFFFFFFFFFFFFFF] False slice_heap = Stuck Overflow"
proof -
  have "sint (1 :: 64 word) = 1" "sint (0x7FFFFFFFFFFFFFFF :: 64 word) = 2 ^ 63 - 1" by code_simp+
  then show ?thesis using block_bounds_overflow [of "vblock 1" 1 slice_heap 1 "0x7FFFFFFFFFFFFFFF" 1 plain_fp False vvoid]
    by (simp add: slice_heap_def vblock_def)
qed

section \<open>The first difference\<close>

definition first_mismatch :: "nat \<Rightarrow> string \<Rightarrow> string \<Rightarrow> int" where
  "first_mismatch k x y = (case find (\<lambda>p. x ! p \<noteq> y ! p) [k..<length x] of None \<Rightarrow> - 1 | Some p \<Rightarrow> int p)"

lemma first_mismatch_eq:
  assumes "k \<le> j" "j \<le> length x" "\<forall>p. k \<le> p \<longrightarrow> p < j \<longrightarrow> x ! p = y ! p" "j < length x \<longrightarrow> x ! j \<noteq> y ! j"
  shows "first_mismatch k x y = (if j = length x then - 1 else int j)"
proof -
  have "[k..<length x] = [k..<j] @ [j..<length x]" using assms(1,2) by (metis le_add_diff_inverse upt_add_eq_append)
  moreover have "find (\<lambda>p. x ! p \<noteq> y ! p) [k..<j] = None" using assms(3) by (auto simp: find_None_iff)
  moreover have "find P (xs @ ys) = (case find P xs of None \<Rightarrow> find P ys | Some z \<Rightarrow> Some z)" for P and xs ys :: "nat list"
    by (induction xs) auto
  moreover have "j < length x \<Longrightarrow> [j..<length x] = j # [Suc j..<length x]" by (rule upt_conv_Cons)
  ultimately show ?thesis using assms(2,4) by (cases "j < length x") (auto simp: first_mismatch_def)
qed

text \<open>
  C27. \<open>mismatch\<close> compares 64 bytes at a time and then byte by byte, and gives the first index from the start on at which the two views differ,
  or -1 when there is none, whatever the alignment of the start and the rest.
\<close>

theorem block_mismatch_first:
  assumes "blocks_ok h" and "v_block self = Some a" "v_block x = Some b" and "hp_block_len (ih_base h) b = hp_block_len (ih_base h) a"
    and "0 \<le> sint k" "sint k \<le> int (hp_block_len (ih_base h) a)"
  shows "nativeCall n fp ''Block'' ''mismatch'' self [x, vint k] cow h =
    gives (vint (word_of_int (first_mismatch (nat (sint k)) (view_bytes h a) (view_bytes h b)))) h"
proof -
  let ?len = "hp_block_len (ih_base h) a"
  obtain i where i: "skip_equal 64 h a b ?len (nat (sint k)) = Val i" "nat (sint k) \<le> i" "i \<le> ?len"
      "\<forall>p. nat (sint k) \<le> p \<longrightarrow> p < i \<longrightarrow> view_bytes h a ! p = view_bytes h b ! p"
    using skip_equal_spec [OF assms(1) refl assms(4), of "nat (sint k)" 64] assms(5,6) by (auto simp: nat_le_iff)
  obtain j where j: "skip_equal 1 h a b ?len i = Val j" "i \<le> j" "j \<le> ?len"
      "\<forall>p. i \<le> p \<longrightarrow> p < j \<longrightarrow> view_bytes h a ! p = view_bytes h b ! p" "j < ?len \<longrightarrow> view_bytes h a ! j \<noteq> view_bytes h b ! j"
    using skip_equal_spec [OF assms(1) refl assms(4) i(3), of 1] by auto
  have "\<forall>p. nat (sint k) \<le> p \<longrightarrow> p < j \<longrightarrow> view_bytes h a ! p = view_bytes h b ! p" using i(4) j(4) by (meson not_less)
  then have fm: "first_mismatch (nat (sint k)) (view_bytes h a) (view_bytes h b) = (if j = ?len then - 1 else int j)"
    using first_mismatch_eq [of "nat (sint k)" j "view_bytes h a" "view_bytes h b"] i(2) j(2,3,5) assms(1) by simp
  have "nativeCall n fp ''Block'' ''mismatch'' self [x, vint k] cow h = block_mismatch a b [x, vint k] h"
    by (simp add: nativeCall_def block_native_def block_access_def Let_def assms(2,3))
  also have "\<dots> = gives (if j = ?len then vint (- 1) else vsize j) h"
    using assms(4-6) i(1) j(1) by (simp add: block_mismatch_def Let_def argI_def vint_def [of k])
  also have "\<dots> = gives (vint (word_of_int (first_mismatch (nat (sint k)) (view_bytes h a) (view_bytes h b)))) h"
    using fm by (simp add: vsize_def)
  finally show ?thesis .
qed

theorem block_mismatch_first_witness:
  "nativeCall 1 plain_fp ''Block'' ''mismatch'' (vblock 0) [vblock 0, vint 3] False slice_heap = gives (vint (- 1)) slice_heap"
proof -
  have "sint (3 :: 64 word) = 3" "first_mismatch 3 (view_bytes slice_heap 0) (view_bytes slice_heap 0) = - 1" by code_simp+
  then show ?thesis using block_mismatch_first [OF slice_heap_ok, of "vblock 0" 0 "vblock 0" 0 3] by (simp add: slice_heap_def vblock_def)
qed

section \<open>Maps\<close>

text \<open>The finite map from keys to values that a list of entries stands for.\<close>

definition entries_map :: "nat \<Rightarrow> rt_heap \<Rightarrow> (rt_value \<times> rt_value) list \<Rightarrow> key \<rightharpoonup> rt_value" where
  "entries_map n h es = map_of (map (\<lambda>(k, v). (the (key_of n h k), v)) es)"

definition keyed :: "nat \<Rightarrow> rt_heap \<Rightarrow> (rt_value \<times> rt_value) list \<Rightarrow> bool" where
  "keyed n h es \<longleftrightarrow> list_all (\<lambda>(k, v). key_of n h k \<noteq> None) es"

lemma keyed_simps [simp]: "keyed n h []" "keyed n h ((k, v) # es) \<longleftrightarrow> key_of n h k \<noteq> None \<and> keyed n h es"
  by (simp_all add: keyed_def)

lemma entries_map_simps [simp]:
  "entries_map n h [] = Map.empty" "entries_map n h ((k, v) # es) = (entries_map n h es)(the (key_of n h k) \<mapsto> v)"
  by (simp_all add: entries_map_def)

lemma eq_key:
  "heap_ok h \<Longrightarrow> key_of n h x = Some kx \<Longrightarrow> key_of n h k \<noteq> None \<Longrightarrow> keyEquals n h k x = Some (the (key_of n h k) = kx)"
  using keyEquals_key_of [of h n k _ x kx] by auto

lemma find_entry_map:
  assumes "heap_ok h" and "key_of n h x = Some kx"
  shows "keyed n h es \<Longrightarrow> find_entry (\<lambda>k. keyEquals n h k x) es = Some (entries_map n h es kx)"
  by (induction es) (auto simp: eq_key [OF assms] split: bool.split)

lemma upsert_map:
  assumes "heap_ok h" and "key_of n h x = Some kx"
  shows "keyed n h es \<Longrightarrow> \<exists>es'. upsert (\<lambda>k. keyEquals n h k x) x v es = Some es' \<and> keyed n h es' \<and>
     entries_map n h es' = (entries_map n h es)(kx \<mapsto> v)"
proof (induction es)
  case (Cons e es)
  then show ?case by (cases e) (auto simp: eq_key [OF assms] assms(2) fun_eq_iff split: bool.split)
qed (simp add: assms(2))

lemma drop_entries_map:
  assumes "heap_ok h" and "key_of n h x = Some kx"
  shows "keyed n h es \<Longrightarrow> \<exists>es'. drop_entries (\<lambda>k. keyEquals n h k x) es = Some es' \<and> keyed n h es' \<and>
     entries_map n h es' = (entries_map n h es)(kx := None)"
proof (induction es)
  case (Cons e es)
  then show ?case by (cases e) (auto simp: eq_key [OF assms] fun_eq_iff split: bool.split)
qed simp

text \<open>The entries of the map a native method gave, and that it left the maps there were.\<close>

definition gives_map :: "(rt_value \<times> rt_value) list \<Rightarrow> ir_heap \<Rightarrow> native_result \<Rightarrow> bool" where
  "gives_map es h r \<longleftrightarrow>
     (\<exists>v a h'. r = gives v h' \<and> v_kind v = KMap \<and> v_map v = Some a \<and> hp_map (ih_base h') a = es \<and>
        hp_obj (ih_base h') = hp_obj (ih_base h) \<and> (\<forall>c. c \<noteq> hp_next (ih_base h) \<longrightarrow> hp_map (ih_base h') c = hp_map (ih_base h) c))"

lemma gives_map_alloc: "gives_map es h (gives_new (alloc_map es h))"
  by (simp add: gives_map_def gives_new_def alloc_map_def fresh_def write_map_def gives_def)

text \<open>
  C6. The methods of a map implement a finite map on keys: \<open>at\<close> gives the value of the argument's key exactly when there is one, \<open>has\<close>
  tells whether there is one, and \<open>with\<close> and \<open>without\<close> give a new map that has the update or the removal at that key and nothing else changed, while every
  map that existed keeps its entries. Keys are compared as \<open>keyEquals\<close> does, so two structs with equal fields are the same key.
\<close>

theorem map_natives_refine:
  assumes "heap_ok (ih_base h)" and "v_map self = Some a" and "keyed n (ih_base h) (hp_map (ih_base h) a)" and "key_of n (ih_base h) x = Some kx"
  defines "M \<equiv> entries_map n (ih_base h) (hp_map (ih_base h) a)"
  shows "(nativeCall n fp ''Map'' ''at'' self [x] cow h = gives v h \<longleftrightarrow> M kx = Some v) \<and>
    nativeCall n fp ''Map'' ''has'' self [x] cow h = gives (vbool (M kx \<noteq> None)) h \<and>
    (\<exists>es. gives_map es h (nativeCall n fp ''Map'' ''with'' self [x, v] cow h) \<and> keyed n (ih_base h) es \<and>
       entries_map n (ih_base h) es = M(kx \<mapsto> v)) \<and>
    (\<exists>es. gives_map es h (nativeCall n fp ''Map'' ''without'' self [x] cow h) \<and> keyed n (ih_base h) es \<and>
       entries_map n (ih_base h) es = M(kx := None))"
proof -
  let ?es = "hp_map (ih_base h) a" and ?eq = "\<lambda>k. keyEquals n (ih_base h) k x"
  have f: "find_entry ?eq ?es = Some (M kx)" using find_entry_map [OF assms(1,4,3)] by (simp add: M_def)
  obtain es1 where u: "upsert ?eq x v ?es = Some es1" "keyed n (ih_base h) es1" "entries_map n (ih_base h) es1 = M(kx \<mapsto> v)"
    using upsert_map [OF assms(1,4,3), of v] by (auto simp: M_def)
  obtain es2 where d: "drop_entries ?eq ?es = Some es2" "keyed n (ih_base h) es2" "entries_map n (ih_base h) es2 = M(kx := None)"
    using drop_entries_map [OF assms(1,4,3)] by (auto simp: M_def)
  note defs = nativeCall_def map_native_def Let_def assms(2) deep_def
  have "nativeCall n fp ''Map'' ''at'' self [x] cow h = gives v h \<longleftrightarrow> M kx = Some v"
    by (simp add: defs f gives_def fails_def bind_res_def split: option.split res.split)
  moreover have "nativeCall n fp ''Map'' ''has'' self [x] cow h = gives (vbool (M kx \<noteq> None)) h" by (simp add: defs f)
  moreover have "gives_map es1 h (nativeCall n fp ''Map'' ''with'' self [x, v] cow h)" by (simp add: defs u gives_map_alloc)
  moreover have "gives_map es2 h (nativeCall n fp ''Map'' ''without'' self [x] cow h)" by (simp add: defs d gives_map_alloc)
  ultimately show ?thesis using u(2,3) d(2,3) by blast
qed

definition vmap :: "addr \<Rightarrow> rt_value" where
  "vmap a = vvoid\<lparr>v_kind := KMap, v_map := Some a\<rparr>"

theorem map_natives_refine_witness:
  "nativeCall 0 plain_fp ''Map'' ''at'' (vmap 5) [vfloat 0x8000000000000000] False slice_heap = gives (vint 2) slice_heap"
proof -
  have c: "lv_canon 0 = 0" "lv_canon 0x8000000000000000 = 0" by code_simp+
  have ok: "heap_ok (ih_base slice_heap)" "v_map (vmap 5) = Some 5" by (auto simp: heap_ok_def slice_heap_def vmap_def)
  have k: "keyed 0 (ih_base slice_heap) (hp_map (ih_base slice_heap) 5)" "key_of 0 (ih_base slice_heap) (vfloat 0x8000000000000000) = Some (KeyFloat 0)"
    using c by (simp_all add: slice_heap_def key_of.simps value_defs)
  have "entries_map 0 (ih_base slice_heap) (hp_map (ih_base slice_heap) 5) (KeyFloat 0) = Some (vint 2)"
    using c by (simp add: slice_heap_def key_of.simps value_defs)
  with map_natives_refine [OF ok k, of plain_fp False "vint 2"] show ?thesis by simp
qed

section \<open>Integers\<close>

definition decimal :: "string \<Rightarrow> int \<Rightarrow> bool" where
  "decimal s v \<longleftrightarrow> (\<exists>ds. ds \<noteq> [] \<and> list_all isdigit ds \<and> (s = ds \<and> v = int (digits_val ds) \<or> s = CHR ''-'' # ds \<and> v = - int (digits_val ds)))"

lemma strictParseInt_iff: "strictParseInt s = Some w \<longleftrightarrow> decimal s (sint w)"
proof
  assume p: "strictParseInt s = Some w"
  obtain c r where s: "s = c # r" using p by (cases s) (auto simp: strictParseInt_def)
  let ?ds = "if c = CHR ''-'' then r else s" and ?v = "if c = CHR ''-'' then - int (digits_val r) else int (digits_val s)"
  have "?ds \<noteq> []" "list_all isdigit ?ds" "w = word_of_int ?v" "- (2 ^ 63) \<le> ?v" "?v < 2 ^ 63"
    using p by (auto simp: s strictParseInt_def Let_def split: if_splits)
  then show "decimal s (sint w)" unfolding decimal_def
    by (intro exI [of _ ?ds]) (auto simp: s sint_vint_result split: if_splits)
next
  assume "decimal s (sint w)"
  then obtain ds where ds: "ds \<noteq> []" "list_all isdigit ds"
    and c: "s = ds \<and> sint w = int (digits_val ds) \<or> s = CHR ''-'' # ds \<and> sint w = - int (digits_val ds)" by (auto simp: decimal_def)
  have "hd ds \<noteq> CHR ''-''" using isdigit_not_sign [OF hd_digits [OF ds(2,1)]] by simp
  moreover have "- (2 ^ 63) \<le> sint w" "sint w < 2 ^ 63" using sint_ge [of w] sint_lt [of w] by simp_all
  moreover have w: "sint w = v \<Longrightarrow> word_of_int v = w" for v by auto
  ultimately show "strictParseInt s = Some w" using ds c by (cases ds) (auto simp: strictParseInt_def Let_def simp del: of_int_of_nat_eq of_int_minus intro: w)
qed

text \<open>
  C28. The conversions between strings and integers: \<open>toInt\<close> gives an integer exactly for the decimal spellings (an optional minus sign and at least one
  digit, nothing else) of the values that fit 64 bits, and that value; for every other string it gives \<open>None\<close>. What \<open>toString\<close> gives for
  an integer is one of these and reads back as it.
\<close>

theorem string_toInt_exact:
  "(nativeCall n fp ''string'' ''toInt'' (vstr s) [] cow h = gives (vint w) h \<longleftrightarrow> decimal s (sint w)) \<and>
   (nativeCall n fp ''string'' ''toInt'' (vstr s) [] cow h = gives vnone h \<longleftrightarrow> \<not> (\<exists>w :: 64 word. decimal s (sint w))) \<and>
   (\<exists>t. nativeCall n fp ''int'' ''toString'' (vint w) [] cow h = gives (vstr t) h \<and>
      nativeCall n fp ''string'' ''toInt'' (vstr t) [] cow h = gives (vint w) h)"
proof -
  have i: "nativeCall n fp ''string'' ''toInt'' (vstr t) [] cow h = gives (case strictParseInt t of Some v \<Rightarrow> vint v | None \<Rightarrow> vnone) h" for t
    by (simp add: nativeCall_def string_native_def Let_def vstr_def)
  have inj: "vint u = vint w \<longleftrightarrow> u = w" "vint u \<noteq> vnone" "gives x h = gives y h \<longleftrightarrow> x = y" for u w x y
    by (auto simp: vint_def vnone_def vvoid_def gives_def)
  have "decimal (int64_str w) (sint w)"
  proof (cases "sint w < 0")
    case True
    then show ?thesis unfolding decimal_def int64_str_def int_str_def by (intro exI [of _ "nat_str (nat (- sint w))"]) simp
  next
    case False
    then show ?thesis unfolding decimal_def int64_str_def int_str_def by (intro exI [of _ "nat_str (nat (sint w))"]) simp
  qed
  then have "nativeCall n fp ''string'' ''toInt'' (vstr (int64_str w)) [] cow h = gives (vint w) h"
    by (simp add: i strictParseInt_iff [symmetric])
  moreover have "nativeCall n fp ''int'' ''toString'' (vint w) [] cow h = gives (vstr (int64_str w)) h"
    by (simp add: nativeCall_def int_native_def vint_def)
  ultimately have "\<exists>t. nativeCall n fp ''int'' ''toString'' (vint w) [] cow h = gives (vstr t) h \<and>
      nativeCall n fp ''string'' ''toInt'' (vstr t) [] cow h = gives (vint w) h" by blast
  then show ?thesis unfolding i inj strictParseInt_iff [symmetric]
    by (cases "strictParseInt s") (auto simp: inj inj(2) [symmetric])
qed

section \<open>Characters\<close>

lemma chars_from_encoded:
  "list_all scalar cs \<Longrightarrow> chars_from (pre @ concat (map utf8Encode cs)) (length pre) = map (\<lambda>c. vchar (word_of_nat c)) cs"
proof (induction cs arbitrary: pre)
  case (Cons c cs)
  let ?s = "pre @ utf8Encode c @ concat (map utf8Encode cs)"
  have d: "utf8DecodeAt ?s (length pre) = (c, length (utf8Encode c), True)" using Cons.prems by (intro utf8DecodeAt_utf8Encode) simp
  have "utf8Encode c \<noteq> []" by (simp add: utf8Encode_def)
  then show ?case using Cons.IH [of "pre @ utf8Encode c"] Cons.prems d by (simp add: chars_from.simps [of ?s "length pre"])
qed (simp add: chars_from.simps)

text \<open>
  C29. Text survives its characters: for a string made of the encodings of Unicode scalars, \<open>chars\<close> gives the array of exactly these scalars, in a new cell, and
  concatenating what \<open>toString\<close> gives for each of them is the string again.
\<close>

theorem string_chars_roundtrip:
  assumes "list_all scalar cs"
  shows "\<exists>v a h'. nativeCall n fp ''string'' ''chars'' (vstr (concat (map utf8Encode cs))) [] cow h = gives v h' \<and>
     v_arr v = Some a \<and> hp_arr (ih_base h') a = map (\<lambda>c. vchar (word_of_nat c)) cs \<and>
     concat (map (\<lambda>c. case nativeCall n fp ''char'' ''toString'' c [] cow h of Val (Some (t, _), _) \<Rightarrow> v_s t | _ \<Rightarrow> []) (hp_arr (ih_base h') a)) =
       concat (map utf8Encode cs)"
proof -
  have u: "unat (word_of_nat c :: 64 word) = c" if "scalar c" for c
    using that by (simp add: scalar_def unat_of_nat take_bit_eq_mod)
  have "nativeCall n fp ''char'' ''toString'' (vchar (word_of_nat c)) [] cow h = Val (Some (vstr (utf8Encode c), []), h)" if "scalar c" for c
    using u [OF that] by (simp add: nativeCall_def char_native_def gives_def vchar_def)
  then have text_of: "map (\<lambda>c. case nativeCall n fp ''char'' ''toString'' c [] cow h of Val (Some (t, _), _) \<Rightarrow> v_s t | _ \<Rightarrow> [])
      (map (\<lambda>c. vchar (word_of_nat c)) cs) = map utf8Encode cs"
    using assms by (auto simp: list_all_iff vstr_def)
  obtain v a h' where cell: "alloc_arr (map (\<lambda>c. vchar (word_of_nat c)) cs) h = (v, h')" "v_arr v = Some a"
      "hp_arr (ih_base h') a = map (\<lambda>c. vchar (word_of_nat c)) cs" by (auto simp: alloc_arr_def fresh_def write_arr_def)
  have "nativeCall n fp ''string'' ''chars'' (vstr (concat (map utf8Encode cs))) [] cow h = gives v h'"
    using chars_from_encoded [OF assms, of "[]"] cell(1) by (simp add: nativeCall_def string_native_def Let_def vstr_def gives_new_def)
  then show ?thesis using cell(2,3) text_of by metis
qed

theorem string_chars_roundtrip_witness:
  "\<exists>v a h'. nativeCall 0 plain_fp ''string'' ''chars'' (vstr (concat (map utf8Encode [65, 0x20AC]))) [] False slice_heap = gives v h' \<and>
     v_arr v = Some a \<and> hp_arr (ih_base h') a = [vchar 65, vchar 0x20AC]"
  using string_chars_roundtrip [of "[65, 0x20AC]" 0 plain_fp False slice_heap] by (auto simp: scalar_def)

end
