(* ===== verification/Spec2Isabelle.thy ===== *)
theory Spec2Isabelle
  imports Lockfile Manifest Lexer Ownership_Solution Checksum_Db Sha256_Vector Build_Plan Runtime_Loop X64_Elf Mem_Verify Ownership_Report Ir_Fuel Ir_Safe_Run Native_Props
begin

text \<open>
  \<^bold>\<open>Verification of the Leviathan toolchain.\<close>

  The repository holds the compiler \<open>leviathan\<close> (\<open>src/\<close>), the runtime of compiled programs (\<open>runtime/\<close>) and the
  package manager \<open>trident\<close> (\<open>tools/trident/\<close>). \<open>trident\<close> reads a manifest and a lockfile, selects a version of
  every module by minimal version selection, checks the content of each module against an append-only checksum log, and
  writes a build plan. \<open>leviathan\<close> reads the plan with its own lexer, parses, checks and lowers the program to a
  register IR, on which the ownership analysis decides which allocations stay in their frame; an evaluator, an
  interpreter or one of the code generators then runs the program or writes an executable, and programs at run
  time share one event loop.

  \<^bold>\<open>Theories.\<close> Each theory models the files named with it, one definition per function or per branch of a long
  function; a C++ struct is a record, an enumeration a datatype, a method that changes its object returns the new
  object, and an early return with an error is a value of a sum type, an option or a boolean.

  \<^item> \<open>Lev_Prelude\<close>: characters and their classes, decimal printing and \<open>atoi\<close> at 32 bits, shared lemmas on lists.
  \<^item> \<open>Ordered_Map\<close>: the contract of \<open>std::map\<close> as the locale \<open>std_map\<close>, interpreted on key-ordered association lists.
  \<^item> \<open>Trident_Types\<close>, \<open>Semver\<close>: \<open>provider.hpp\<close>, \<open>manifest.hpp\<close>, \<open>semver.cpp\<close>. Versions are parsed exactly by their
    grammar, and printing is inverse to it.
  \<^item> \<open>Require_Cycle\<close>, \<open>Mvs\<close>: \<open>mvs.cpp\<close>. The iterative depth-first search finds a cycle exactly when there is one; a
    successful selection is closed under requirements, selects only demanded versions and is acyclic; for a provider whose
    newer versions require at least what their older ones do it takes the maximum of the versions demanded, whatever
    the order of the requirements. The step limit of the source is enough when the demanded requirements number at
    most that many.
  \<^item> \<open>Toml_Cursor\<close>, \<open>Manifest\<close>, \<open>Lockfile\<close>: \<open>manifest.cpp\<close>, \<open>lock.cpp\<close>. The two parsers share the locale
    \<open>toml_reader\<close>, interpreted for each; both files survive writing and reading, and staleness of a lock is
    characterised.
  \<^item> \<open>Sha256\<close>, \<open>Sha256_Vector\<close>, \<open>Checksum_Db\<close>: \<open>hash.cpp\<close>, \<open>checksum.cpp\<close>. Streaming equals hashing the padded
    message, checked on a published vector; a recorded hash stays pinned through every later operation, and two logs with
    the same last chain hash have the same entries or exhibit a SHA-256 collision. Whether a write succeeds is
    a parameter.
  \<^item> \<open>Diagnostics\<close>, \<open>Utf8\<close>, \<open>Token\<close>, \<open>Lexer\<close>: \<open>core/\<close> and \<open>frontend/Lexer.cpp\<close>. The tokens tile the input, every
    token spells its kind, lexing ends and reports an error for every error token, and the one input on which the source
    throws is identified.
  \<^item> \<open>Build_Plan\<close>: \<open>tools/trident/plan.cpp\<close> and \<open>driver/BuildPlan.cpp\<close>. The composition of the writer, the lexer and
    the reader gives the project back, up to the escapes the reader leaves in place. Reading the file and the
    fate of the output stream are parameters.
  \<^item> \<open>Runtime_Value\<close>: \<open>runtime/RuntimeValue.hpp\<close>. Values, keys and primitive arithmetic at 64 bits; the arithmetic of
    doubles is a parameter, and signed overflow, undefined in C++, is an outcome of its own.
  \<^item> \<open>Runtime_Loop\<close>: \<open>runtime/RuntimeLoop.cpp\<close>. The contents and order of a batch, that identifiers stay
    distinct, how long a batch may block, and that every timer fires on every run whose clock advances. The
    clock, \<open>poll\<close> and the TLS sessions are a record passed to each batch.
  \<^item> \<open>Ir\<close>, \<open>Ownership\<close>, \<open>Ownership_Solution\<close>: \<open>ir/Ir.hpp\<close>, \<open>ir/Ownership.cpp\<close>. The analysis computes the least solution
    of a constraint system on registers, parameters and allocation sites, when its rounds end before the limit of the
    source; the loops of a round always end. The locale \<open>an_invariant\<close> carries a property through all loops and is
    interpreted for both directions of the proof.
  \<^item> \<open>Ownership_Report\<close>: the ownership report of \<open>ir/Ownership.cpp\<close>. What it counts is what the analysis decided.
  \<^item> \<open>Mem_Verify\<close>: \<open>ir/MemVerify.hpp\<close>, \<open>ir/MemVerify.cpp\<close>. The memory verifier's count of live objects is the number
    of tracked cells that are still referenced, whatever the order of allocations, releases and sweeps.
  \<^item> \<open>Runtime_Core\<close>: \<open>runtime/RuntimeCore.cpp\<close> and the task and promise natives of \<open>runtime/RuntimeNatives.cpp\<close>: method
    lookup, operator overloads, weak fields, deep struct copy, map keys, promises and tasks.
  \<^item> \<open>Native_Methods\<close>, \<open>Native_Safety\<close>, \<open>Native_Props\<close>: the method table \<open>nativeCall\<close> of \<open>runtime/RuntimeNatives.cpp\<close>, which the interpreter's
    calls reach. No method leaves the stores of its blocks, a slice writes only its own window, the methods of maps
    implement finite maps on keys, and integers, words and characters survive their spellings; the bound tests that overflow
    are identified.
  \<^item> \<open>Ir_Interp\<close>: \<open>backend/IrInterp.cpp\<close>, instruction by instruction: frames, exception handlers, calls, closures, member and
    index access, tasks and the event pump. A step that C++ leaves undefined (an index out of the register file, a signed overflow)
    is an outcome of its own.
  \<^item> \<open>Ir_Programs\<close>, \<open>Ir_Semantics\<close>, \<open>Ir_Fuel\<close>: small programs run by the model, the value semantics of element stores and of struct copies,
    the class hierarchy queries against reachability, and that fuel never changes the result of a run that ends.
  \<^item> \<open>Ir_Safety\<close>, \<open>Ir_Safe_Run\<close>: modules whose operands name existing registers, constants, globals and functions, and that
    no run of such a module makes an access outside its tables.
  \<^item> \<open>X64_Asm\<close>, \<open>X64_Decode\<close>, \<open>X64_Elf\<close>: \<open>X64.hpp\<close>, \<open>X64.cpp\<close>. Every method of the assembler emits bytes that an independent
    decoder reads as the intended instruction, patched jumps reach their target, and the executable loads at
    the addresses given to the code generator.

  \<^bold>\<open>Bounds.\<close> Source positions and sizes of buffers are natural numbers (the sources use 32 and 64 bits for files below
  4 GiB). The loops of the sources are recursive functions with a termination proof, or the option of \<open>while_option\<close> with
  a proof that it ends; the step limit of the version selection and the round limit of the ownership analysis are the
  constants of the source. A program run by the interpreter may run forever, so \<open>run\<close> takes fuel, spent on instructions and on
  calls, and running out is the outcome \<open>NoFuel\<close>; the walks over class hierarchies, value structures and printed values take the
  depths \<open>sm_depth\<close> and \<open>en_deep\<close>, where running out is the outcome \<open>TooDeep\<close> or an absent result.

  \<^bold>\<open>Not modelled.\<close> The syntax tree and the passes over it (parser, resolver, checker, metaprogramming rules, lowering,
  tree evaluator), the code generators and the C runtime they link, which are machine code, system calls and raw memory, and the parts
  of \<open>trident\<close> that run git, talk to servers or walk directories. The interpreter's model takes the free native functions other than the
  exit and task natives, which are system calls, the scheduler of tasks and the reference counts of arrays and maps as parameters. The printing of
  diagnostics to the terminal and the opening of files are outside every model; what is read from and written to a
  file is inside.
\<close>

end
